(* ===== verification/Prelude.thy ===== *)
theory Prelude
  imports Main "HOL-Library.Word" "HOL-Library.Monad_Syntax"
begin

text \<open>
  Shared vocabulary of the development: the C integer types as fixed-width words, byte buffers as
  lists of octets, the result codes of \<^verbatim>\<open>error.h\<close>, the collections of facts the component theories
  add to (\<open>bio_simps\<close>, \<open>bn_simps\<close>, \<open>chain_simps\<close>) and the generic lemmas on lists, options and
  words that more than one component needs.
\<close>

unbundle bit_operations_syntax

named_theorems bio_simps \<open>evaluation of the readers and writers of bio.h\<close>
named_theorems bn_simps \<open>values and well-formedness of the big numbers of bn.c\<close>
named_theorems chain_simps \<open>effect of the chain operations on the fields of the chain state\<close>

section \<open>C types\<close>

type_synonym u8 = "8 word"
type_synonym u16 = "16 word"
type_synonym u32 = "32 word"
type_synonym u64 = "64 word"
type_synonym bytes = "u8 list"

section \<open>Result codes\<close>

text \<open>
  The codes of \<^verbatim>\<open>error.h\<close>, in the order of their numbers (\<open>HSK_SUCCESS\<close>, \<open>HSK_EOK\<close> and
  \<open>HSK_EPROOFOK\<close> are all the number 0).
\<close>

datatype hsk_error =
    HSK_SUCCESS
  | HSK_ENOMEM | HSK_ETIMEOUT | HSK_EFAILURE | HSK_EBADARGS | HSK_EENCODING
  | HSK_EHASHMISMATCH | HSK_ESAMEKEY | HSK_ESAMEPATH | HSK_ENEGDEPTH | HSK_EPATHMISMATCH
  | HSK_ETOODEEP | HSK_EUNKNOWNERROR | HSK_EMALFORMEDNODE | HSK_EINVALIDNODE | HSK_EEARLYEND
  | HSK_ENORESULT | HSK_EUNEXPECTEDNODE | HSK_ERECORDMISMATCH
  | HSK_ENEGTARGET | HSK_EHIGHHASH
  | HSK_ETIMETOONEW | HSK_EDUPLICATE | HSK_EDUPLICATEORPHAN | HSK_ETIMETOOOLD
  | HSK_EBADDIFFBITS | HSK_EORPHAN
  | HSK_EACTONE | HSK_EACTTWO | HSK_EACTTHREE | HSK_EBADSIZE | HSK_EBADTAG

section \<open>Lists\<close>

lemma take_append_exact [simp]: "n = length xs \<Longrightarrow> take n (xs @ ys) = xs"
  by simp

lemma drop_append_exact [simp]: "n = length xs \<Longrightarrow> drop n (xs @ ys) = ys"
  by simp

lemma split_at: "n \<le> length d \<Longrightarrow> \<exists>a b. d = a @ b \<and> length a = n"
  by (rule exI [of _ "take n d"], rule exI [of _ "drop n d"]) simp

text \<open>\<^verbatim>\<open>memcmp\<close>: the sign of the first difference of the two arrays, as unsigned octets.\<close>

fun memcmp :: "bytes \<Rightarrow> bytes \<Rightarrow> int" where
  "memcmp (x # xs) (y # ys) = (if x < y then -1 else if y < x then 1 else memcmp xs ys)"
| "memcmp xs ys = 0"

lemma memcmp_eq_0: "length xs = length ys \<Longrightarrow> memcmp xs ys = 0 \<longleftrightarrow> xs = ys"
  by (induction xs ys rule: list_induct2) auto

section \<open>Machine words\<close>

lemma unat_u8_lt: "unat (x :: u8) < 256"
  and unat_u16_lt: "unat (y :: u16) < 65536"
  and unat_u32_lt: "unat (z :: u32) < 4294967296"
  and unat_u64_lt: "unat (w :: u64) < 18446744073709551616"
  using unsigned_less [of x, where ?'a = nat] unsigned_less [of y, where ?'a = nat]
    unsigned_less [of z, where ?'a = nat] unsigned_less [of w, where ?'a = nat] by simp_all

lemma unat_ucast_small:
  "unat v < 2 ^ LENGTH('b) \<Longrightarrow> unat (ucast (v :: 'a::len word) :: 'b::len word) = unat v"
  by (simp add: unsigned_ucast_eq take_bit_nat_eq_self)

lemma unat_ucast_up:
  "LENGTH('a) \<le> LENGTH('b) \<Longrightarrow> unat (ucast (v :: 'a::len word) :: 'b::len word) = unat v"
  by (simp add: unsigned_ucast_eq take_bit_nat_eq_self order_less_le_trans [OF unsigned_less])

lemma ucast_ucast_small:
  "unat v < 2 ^ LENGTH('b) \<Longrightarrow> ucast (ucast (v :: 'a::len word) :: 'b::len word) = v"
  by (simp add: word_unat_eq_iff unsigned_ucast_eq unsigned_take_bit_eq take_bit_nat_eq_self)

lemma ucast_ucast_up:
  "LENGTH('a) \<le> LENGTH('b) \<Longrightarrow> ucast (ucast (v :: 'a::len word) :: 'b::len word) = v"
  by (rule bit_word_eqI) (auto simp: bit_simps)

lemmas word_nat = word_le_nat_alt word_less_nat_alt

lemma unat_drop_bit: "unat (drop_bit n (w :: 'a::len word)) = unat w div 2 ^ n"
  by (simp only: unsigned_drop_bit_eq drop_bit_eq_div [where ?'a = nat])
    (simp add: take_bit_nat_eq_self unsigned_less)

lemma unat_take_bit: "unat (take_bit n (w :: 'a::len word)) = unat w mod 2 ^ n"
  by (simp only: unsigned_take_bit_eq take_bit_eq_mod [where ?'a = nat])

lemma unat_ucast_mod: "unat (ucast (x :: 'a::len word) :: 'b::len word) = unat x mod 2 ^ LENGTH('b)"
  by (simp add: unsigned_ucast_eq take_bit_eq_mod)

lemma bit_unat: "bit (w :: 'a::len word) n \<longleftrightarrow> odd (unat w div 2 ^ n)"
  by (metis bit_iff_odd bit_unsigned_iff possible_bit_nat)

section \<open>Positional notation\<close>

lemma digit_eq_iff:
  fixes a b B x y :: nat
  assumes "a < B" and "b < B"
  shows "a + B * x = b + B * y \<longleftrightarrow> a = b \<and> x = y"
proof
  assume eq: "a + B * x = b + B * y"
  have "(a + B * x) mod B = a" "(b + B * y) mod B = b" "(a + B * x) div B = x" "(b + B * y) div B = y"
    using assms by simp_all
  with eq show "a = b \<and> x = y" by metis
qed simp

lemma digit_less_iff:
  fixes a b B x y :: nat
  assumes "a < B" and "b < B"
  shows "a + B * x < b + B * y \<longleftrightarrow> x < y \<or> x = y \<and> a < b"
proof -
  have "(a + B * x) div B = x" "(b + B * y) div B = y"
    using assms by simp_all
  then have "a + B * x < b + B * y \<Longrightarrow> x \<le> y"
    by (metis div_le_mono less_imp_le)
  moreover have "a + B * x < b + B * y" if "x < y"
  proof -
    have "a + B * x < B * Suc x" using assms by simp
    also have "\<dots> \<le> B * y" using that by (intro mult_left_mono) auto
    finally show ?thesis by simp
  qed
  ultimately show ?thesis by (auto simp: order_le_less)
qed

end
