(* ===== verification/Bio.thy ===== *)
theory Bio
  imports Prelude
begin

text \<open>
  The byte readers and writers of \<^verbatim>\<open>bio.h\<close>.

  A cursor (\<^verbatim>\<open>uint8_t **data, size_t *len\<close>) is the list of the bytes that are left. A reader
  returns \<open>None\<close> where the C function returns \<open>false\<close> and otherwise the value with the advanced
  cursor. A writer (\<^verbatim>\<open>uint8_t **data\<close>) takes the bytes written so far, or \<open>None\<close> for the \<open>NULL\<close>
  pointer that asks only for the size, and returns the new output with the number the C function
  returns.
\<close>

section \<open>Fixed-width readers\<close>

definition read_u8 :: "bytes \<Rightarrow> (u8 \<times> bytes) option" where
  "read_u8 d = (if length d < 1 then None else Some (d ! 0, drop 1 d))"

definition read_u16 :: "bytes \<Rightarrow> (u16 \<times> bytes) option" where
  "read_u16 d = (if length d < 2 then None else
     Some (push_bit 8 (ucast (d ! 1)) OR ucast (d ! 0), drop 2 d))"

definition read_u32 :: "bytes \<Rightarrow> (u32 \<times> bytes) option" where
  "read_u32 d = (if length d < 4 then None else
     Some (push_bit 24 (ucast (d ! 3)) OR push_bit 16 (ucast (d ! 2)) OR
           push_bit 8 (ucast (d ! 1)) OR ucast (d ! 0), drop 4 d))"

definition read_u64 :: "bytes \<Rightarrow> (u64 \<times> bytes) option" where
  "read_u64 d = (if length d < 8 then None else
     Some (push_bit 56 (ucast (d ! 7)) OR push_bit 48 (ucast (d ! 6)) OR
           push_bit 40 (ucast (d ! 5)) OR push_bit 32 (ucast (d ! 4)) OR
           push_bit 24 (ucast (d ! 3)) OR push_bit 16 (ucast (d ! 2)) OR
           push_bit 8 (ucast (d ! 1)) OR ucast (d ! 0), drop 8 d))"

definition read_u16be :: "bytes \<Rightarrow> (u16 \<times> bytes) option" where
  "read_u16be d = (if length d < 2 then None else
     Some (push_bit 8 (ucast (d ! 0)) OR ucast (d ! 1), drop 2 d))"

definition read_u32be :: "bytes \<Rightarrow> (u32 \<times> bytes) option" where
  "read_u32be d = (if length d < 4 then None else
     Some (push_bit 24 (ucast (d ! 0)) OR push_bit 16 (ucast (d ! 1)) OR
           push_bit 8 (ucast (d ! 2)) OR ucast (d ! 3), drop 4 d))"

definition read_u64be :: "bytes \<Rightarrow> (u64 \<times> bytes) option" where
  "read_u64be d = (if length d < 8 then None else
     Some (push_bit 56 (ucast (d ! 0)) OR push_bit 48 (ucast (d ! 1)) OR
           push_bit 40 (ucast (d ! 2)) OR push_bit 32 (ucast (d ! 3)) OR
           push_bit 24 (ucast (d ! 4)) OR push_bit 16 (ucast (d ! 5)) OR
           push_bit 8 (ucast (d ! 6)) OR ucast (d ! 7), drop 8 d))"

text \<open>
  \<^verbatim>\<open>slice_bytes\<close> returns a pointer into the buffer, \<^verbatim>\<open>read_bytes\<close> copies to an array and
  \<^verbatim>\<open>alloc_bytes\<close> to fresh memory: the bytes delivered are the same.
\<close>

definition slice_bytes :: "nat \<Rightarrow> bytes \<Rightarrow> (bytes \<times> bytes) option" where
  "slice_bytes n d = (if length d < n then None else Some (take n d, drop n d))"

definition read_bytes :: "nat \<Rightarrow> bytes \<Rightarrow> (bytes \<times> bytes) option" where
  "read_bytes n d = (if length d < n then None else Some (take n d, drop n d))"

definition alloc_bytes :: "nat \<Rightarrow> bytes \<Rightarrow> (bytes \<times> bytes) option" where
  "alloc_bytes n d = (if length d < n then None else read_bytes n d)"

section \<open>Writers\<close>

type_synonym sink = "bytes option"
type_synonym writer = "sink \<Rightarrow> sink \<times> nat"

definition put :: "bytes \<Rightarrow> nat \<Rightarrow> writer" where
  "put bs n data = (case data of None \<Rightarrow> (None, n) | Some out \<Rightarrow> (Some (out @ bs), n))"

definition write_u8 :: "u8 \<Rightarrow> writer" where
  "write_u8 w = put [w] 1"

definition write_u16 :: "u16 \<Rightarrow> writer" where
  "write_u16 w = put [ucast w, ucast (drop_bit 8 w)] 2"

definition write_u32 :: "u32 \<Rightarrow> writer" where
  "write_u32 w = put [ucast w, ucast (drop_bit 8 w), ucast (drop_bit 16 w),
                      ucast (drop_bit 24 w)] 4"

definition write_u64 :: "u64 \<Rightarrow> writer" where
  "write_u64 w = put [ucast w, ucast (drop_bit 8 w), ucast (drop_bit 16 w),
                      ucast (drop_bit 24 w), ucast (drop_bit 32 w), ucast (drop_bit 40 w),
                      ucast (drop_bit 48 w), ucast (drop_bit 56 w)] 8"

definition write_u16be :: "u16 \<Rightarrow> writer" where
  "write_u16be w = put [ucast (drop_bit 8 w), ucast w] 2"

definition write_u32be :: "u32 \<Rightarrow> writer" where
  "write_u32be w = put [ucast (drop_bit 24 w), ucast (drop_bit 16 w), ucast (drop_bit 8 w),
                        ucast w] 4"

definition write_u64be :: "u64 \<Rightarrow> writer" where
  "write_u64be w = put [ucast (drop_bit 56 w), ucast (drop_bit 48 w), ucast (drop_bit 40 w),
                        ucast (drop_bit 32 w), ucast (drop_bit 24 w), ucast (drop_bit 16 w),
                        ucast (drop_bit 8 w), ucast w] 8"

definition write_bytes :: "bytes \<Rightarrow> nat \<Rightarrow> writer" where
  "write_bytes bs n = put (take n bs) n"

text \<open>
  A C function that writes its fields one after the other, \<^verbatim>\<open>s += write_x(data, ...)\<close>: the
  output goes from one writer to the next and the returned numbers are added.
\<close>

fun write_seq :: "writer list \<Rightarrow> writer" where
  "write_seq [] data = (data, 0)"
| "write_seq (w # ws) data =
     (let (data', m) = w data; (data'', n) = write_seq ws data' in (data'', m + n))"


section \<open>Variable-length integers\<close>

text \<open>
  \<^verbatim>\<open>read_varint\<close> guards its first access with \<^verbatim>\<open>data_len == 0\<close>, a test of the pointer and not of
  the length it points to. On an empty cursor it therefore reads one byte past the buffer and
  makes the length wrap around. That undefined behaviour is the error value \<open>Overread\<close>; \<open>Short\<close>
  is the return value \<open>false\<close>.
\<close>

datatype bio_error = Short | Overread

definition of_read :: "'a option \<Rightarrow> bio_error + 'a" where
  "of_read r = (case r of None \<Rightarrow> Inl Short | Some x \<Rightarrow> Inr x)"

definition read_varint :: "bytes \<Rightarrow> bio_error + (u64 \<times> bytes)" where
  "read_varint d = (case d of [] \<Rightarrow> Inl Overread | prefix # d1 \<Rightarrow>
     if prefix = 0xff then
       (case read_u64 d1 of None \<Rightarrow> Inl Short
        | Some (v, d2) \<Rightarrow> if v \<le> 0xffffffff then Inl Short else Inr (v, d2))
     else if prefix = 0xfe then
       (case read_u32 d1 of None \<Rightarrow> Inl Short
        | Some (v, d2) \<Rightarrow> if v \<le> 0xffff then Inl Short else Inr (ucast v, d2))
     else if prefix = 0xfd then
       (case read_u16 d1 of None \<Rightarrow> Inl Short
        | Some (v, d2) \<Rightarrow> if v < 0xfd then Inl Short else Inr (ucast v, d2))
     else Inr (ucast prefix, d1))"

text \<open>\<^verbatim>\<open>size_t\<close> has 64 bits; the sign test is made on the low 32 bits only, \<^verbatim>\<open>(int32_t)v < 0\<close>.\<close>

definition read_varsize :: "bytes \<Rightarrow> bio_error + (u64 \<times> bytes)" where
  "read_varsize d = (case read_varint d of Inl e \<Rightarrow> Inl e
     | Inr (v, d') \<Rightarrow> if sint (ucast v :: u32) < 0 then Inl Short else Inr (v, d'))"

text \<open>
  \<^verbatim>\<open>size_varint\<close> is declared with the return type \<^verbatim>\<open>bool\<close>, so that the numbers 1, 3, 5 and 9 of its
  branches are all converted to 1.
\<close>

definition c_bool :: "nat \<Rightarrow> nat" where
  "c_bool n = (if n \<noteq> 0 then 1 else 0)"

definition size_varint :: "u64 \<Rightarrow> nat" where
  "size_varint v = c_bool (if v < 0xfd then 1 else if v \<le> 0xffff then 3
                           else if v \<le> 0xffffffff then 5 else 9)"

definition size_varsize :: "u64 \<Rightarrow> nat" where
  "size_varsize v = size_varint v"

definition write_varint :: "u64 \<Rightarrow> writer" where
  "write_varint v data = (case data of None \<Rightarrow> (None, size_varsize v)
     | Some out \<Rightarrow>
         if v < 0xfd then (fst (write_u8 (ucast v) data), 1)
         else if v \<le> 0xffff then (fst (write_u16 (ucast v) (fst (write_u8 0xfd data))), 3)
         else if v \<le> 0xffffffff then (fst (write_u32 (ucast v) (fst (write_u8 0xfe data))), 5)
         else (fst (write_u64 v (fst (write_u8 0xff data))), 9))"

definition write_varsize :: "u64 \<Rightarrow> writer" where
  "write_varsize v = write_varint v"

definition slice_varbytes :: "bytes \<Rightarrow> bio_error + (bytes \<times> bytes)" where
  "slice_varbytes d = (case read_varsize d of Inl e \<Rightarrow> Inl e
     | Inr (n, d') \<Rightarrow> of_read (slice_bytes (unat n) d'))"

definition read_varbytes :: "nat \<Rightarrow> bytes \<Rightarrow> bio_error + (bytes \<times> bytes)" where
  "read_varbytes out_size d = (case read_varsize d of Inl e \<Rightarrow> Inl e
     | Inr (n, d') \<Rightarrow> if out_size < unat n then Inl Short else of_read (read_bytes (unat n) d'))"

definition alloc_varbytes :: "bytes \<Rightarrow> bio_error + (bytes \<times> bytes)" where
  "alloc_varbytes d = (case read_varsize d of Inl e \<Rightarrow> Inl e
     | Inr (n, d') \<Rightarrow> of_read (alloc_bytes (unat n) d'))"

definition size_varbytes :: "nat \<Rightarrow> nat" where
  "size_varbytes n = size_varsize (word_of_nat n) + n"

definition write_varbytes :: "bytes \<Rightarrow> nat \<Rightarrow> writer" where
  "write_varbytes bs n data = (case data of None \<Rightarrow> (None, size_varbytes n)
     | Some out \<Rightarrow> write_seq [write_varsize (word_of_nat n), write_bytes bs n] data)"

section \<open>Printable strings\<close>

text \<open>
  The scan of \<^verbatim>\<open>slice_ascii\<close> counts with a \<^verbatim>\<open>uint8_t\<close>. \<open>None\<close> is a scan that never ends.
\<close>

definition ascii_bad :: "u8 \<Rightarrow> bool" where
  "ascii_bad ch \<longleftrightarrow> ch AND 0x80 \<noteq> 0 \<or> ch = 0x7f \<or>
     ch < 0x20 \<and> ch \<noteq> 0x09 \<and> ch \<noteq> 0x0a \<and> ch \<noteq> 0x0d"

partial_function (option) ascii_scan :: "bytes \<Rightarrow> nat \<Rightarrow> u8 \<Rightarrow> bool option" where
  "ascii_scan out n i =
     (if unat i < n then if ascii_bad (out ! unat i) then Some False else ascii_scan out n (i + 1)
      else Some True)"

definition slice_ascii :: "nat \<Rightarrow> bytes \<Rightarrow> (bytes \<times> bytes) option option" where
  "slice_ascii n d = (case slice_bytes n d of None \<Rightarrow> Some None
     | Some (out, d') \<Rightarrow> (case ascii_scan out n 0 of None \<Rightarrow> None
         | Some ok \<Rightarrow> Some (if ok then Some (out, d') else None)))"

text \<open>
  \<^verbatim>\<open>read_ascii\<close> copies the string and terminates it; the model keeps the characters without the
  terminator. \<^verbatim>\<open>alloc_ascii\<close> does the same into fresh memory.
\<close>

definition read_ascii :: "nat \<Rightarrow> bytes \<Rightarrow> (bytes \<times> bytes) option option" where
  "read_ascii n d = slice_ascii n d"

definition alloc_ascii :: "nat \<Rightarrow> bytes \<Rightarrow> (bytes \<times> bytes) option option" where
  "alloc_ascii n d = (if length d < n then Some None else read_ascii n d)"

section \<open>Direct accessors\<close>

text \<open>
  \<^verbatim>\<open>get_*\<close> and \<^verbatim>\<open>set_*\<close> take no length: the caller owns a large enough array. \<open>set\<close> overwrites the
  first bytes of the array and keeps the rest.
\<close>

definition get_u16 :: "bytes \<Rightarrow> u16" where
  "get_u16 d = push_bit 8 (ucast (d ! 1)) OR ucast (d ! 0)"

definition get_u32 :: "bytes \<Rightarrow> u32" where
  "get_u32 d = push_bit 24 (ucast (d ! 3)) OR push_bit 16 (ucast (d ! 2)) OR
               push_bit 8 (ucast (d ! 1)) OR ucast (d ! 0)"

definition get_i32 :: "bytes \<Rightarrow> int" where
  "get_i32 d = sint (get_u32 d)"

definition get_u16be :: "bytes \<Rightarrow> u16" where
  "get_u16be d = push_bit 8 (ucast (d ! 0)) OR ucast (d ! 1)"

definition get_u32be :: "bytes \<Rightarrow> u32" where
  "get_u32be d = push_bit 24 (ucast (d ! 0)) OR push_bit 16 (ucast (d ! 1)) OR
                 push_bit 8 (ucast (d ! 2)) OR ucast (d ! 3)"

definition set_u16 :: "u16 \<Rightarrow> bytes \<Rightarrow> bytes" where
  "set_u16 w d = d[0 := ucast w, 1 := ucast (drop_bit 8 w)]"

definition set_u32 :: "u32 \<Rightarrow> bytes \<Rightarrow> bytes" where
  "set_u32 w d = d[0 := ucast w, 1 := ucast (drop_bit 8 w), 2 := ucast (drop_bit 16 w), 3 := ucast (drop_bit 24 w)]"

definition set_u16be :: "u16 \<Rightarrow> bytes \<Rightarrow> bytes" where
  "set_u16be w d = d[1 := ucast w, 0 := ucast (drop_bit 8 w)]"

definition set_u32be :: "u32 \<Rightarrow> bytes \<Rightarrow> bytes" where
  "set_u32be w d = d[3 := ucast w, 2 := ucast (drop_bit 8 w), 1 := ucast (drop_bit 16 w),
                     0 := ucast (drop_bit 24 w)]"

section \<open>Writers that announce what they write\<close>

text \<open>
  \<open>writes w bs\<close>: in writing mode \<open>w\<close> appends exactly \<open>bs\<close>, and in both modes it returns their
  number, so a buffer of the announced size is filled exactly.
\<close>

definition writes :: "writer \<Rightarrow> bytes \<Rightarrow> bool" where
  "writes w bs \<longleftrightarrow> w None = (None, length bs) \<and> (\<forall>out. w (Some out) = (Some (out @ bs), length bs))"

lemma writes_put [intro]: "n = length bs \<Longrightarrow> writes (put bs n) bs"
  by (simp add: writes_def put_def)

lemma writes_seq_Nil [intro]: "writes (write_seq []) []"
  by (simp add: writes_def)

lemma writes_seq_Cons [intro]:
  "writes w bs \<Longrightarrow> writes (write_seq ws) bs' \<Longrightarrow> writes (write_seq (w # ws)) (bs @ bs')"
  by (auto simp: writes_def)

lemma writes_seq_single [intro]: "writes w bs \<Longrightarrow> writes (write_seq [w]) bs"
  by (auto simp: writes_def)

lemma writes_size: "writes w bs \<Longrightarrow> snd (w None) = length bs"
  and writes_out: "writes w bs \<Longrightarrow> fst (w (Some out)) = Some (out @ bs)"
  by (auto simp: writes_def)

lemma writes_unique: "writes w bs \<Longrightarrow> writes w bs' \<Longrightarrow> bs = bs'"
  by (auto simp: writes_def)

definition emit :: "writer \<Rightarrow> bytes" where
  "emit w = the (fst (w (Some [])))"

lemma writes_emit: "writes w bs \<Longrightarrow> emit w = bs"
  by (simp add: emit_def writes_out)

lemma emit_put [bio_simps]: "emit (put bs n) = bs"
  by (simp add: emit_def put_def)

lemmas write_defs [bio_simps] = write_u8_def write_u16_def write_u32_def write_u64_def
  write_u16be_def write_u32be_def write_u64be_def write_bytes_def

lemma writes_prims [intro]:
  "writes (write_u8 a) [a]"
  "writes (write_u16 b) (emit (write_u16 b))"
  "writes (write_u32 c) (emit (write_u32 c))"
  "writes (write_u64 e) (emit (write_u64 e))"
  "writes (write_u16be b) (emit (write_u16be b))"
  "writes (write_u32be c) (emit (write_u32be c))"
  "writes (write_u64be e) (emit (write_u64be e))"
  "n = length bs \<Longrightarrow> writes (write_bytes bs n) bs"
  by (auto simp: bio_simps)

lemma length_emit_prims [simp]:
  "length (emit (write_u8 a)) = 1"
  "length (emit (write_u16 b)) = 2"
  "length (emit (write_u32 c)) = 4"
  "length (emit (write_u64 e)) = 8"
  "length (emit (write_u16be b)) = 2"
  "length (emit (write_u32be c)) = 4"
  "length (emit (write_u64be e)) = 8"
  by (simp_all add: bio_simps)


section \<open>Codecs\<close>

text \<open>
  What the message formats rely on: an encoder and a reader that are inverse to each other. The
  reader gives back every valid value with the rest of the input untouched, and accepts nothing
  but encodings of valid values.
\<close>

fun read_n :: "(bytes \<Rightarrow> ('a \<times> bytes) option) \<Rightarrow> nat \<Rightarrow> bytes \<Rightarrow> ('a list \<times> bytes) option" where
  "read_n rd 0 d = Some ([], d)"
| "read_n rd (Suc n) d = do { (x, d) \<leftarrow> rd d; (xs, d) \<leftarrow> read_n rd n d; Some (x # xs, d) }"

locale codec =
  fixes enc :: "'a \<Rightarrow> bytes"
    and dec :: "bytes \<Rightarrow> ('a \<times> bytes) option"
    and valid :: "'a \<Rightarrow> bool"
  assumes dec_enc: "valid x \<Longrightarrow> dec (enc x @ r) = Some (x, r)"
    and dec_sound: "dec d = Some (x, r) \<Longrightarrow> valid x \<and> d = enc x @ r"
begin

lemma dec_iff: "dec d = Some (x, r) \<longleftrightarrow> valid x \<and> d = enc x @ r"
  using dec_enc dec_sound by blast

lemma enc_prefix_free: "valid x \<Longrightarrow> valid y \<Longrightarrow> enc x @ r = enc y @ s \<Longrightarrow> x = y \<and> r = s"
  by (metis dec_enc option.inject prod.inject)

lemma dec_shrinks: "dec d = Some (x, r) \<Longrightarrow> length r \<le> length d"
  by (auto simp: dec_iff)

lemma read_n_sound:
  "read_n dec n d = Some (xs, r) \<Longrightarrow>
     length xs = n \<and> (\<forall>x\<in>set xs. valid x) \<and> d = concat (map enc xs) @ r"
proof (induction n arbitrary: d xs)
  case 0
  then show ?case by simp
next
  case (Suc n)
  then obtain x d' xs' where "dec d = Some (x, d')" and "read_n dec n d' = Some (xs', r)"
    and "xs = x # xs'"
    by (auto simp: bind_eq_Some_conv)
  with Suc.IH [of d' xs'] show ?case by (auto simp: dec_iff)
qed

lemma read_n_enc:
  "\<forall>x\<in>set xs. valid x \<Longrightarrow> read_n dec (length xs) (concat (map enc xs) @ r) = Some (xs, r)"
  by (induction xs) (auto simp: dec_enc)

lemma read_n_codec:
  "codec (\<lambda>xs. concat (map enc xs)) (read_n dec n) (\<lambda>xs. length xs = n \<and> (\<forall>x\<in>set xs. valid x))"
proof (rule codec.intro)
  fix xs r
  assume "length xs = n \<and> (\<forall>x\<in>set xs. valid x)"
  then show "read_n dec n (concat (map enc xs) @ r) = Some (xs, r)"
    using read_n_enc [of xs r] by simp
next
  fix d xs r
  assume "read_n dec n d = Some (xs, r)"
  then show "(length xs = n \<and> (\<forall>x\<in>set xs. valid x)) \<and> d = concat (map enc xs) @ r"
    using read_n_sound [of n d xs r] by simp
qed

end

subsection \<open>The fixed-width readers are codecs\<close>

lemma length_Suc_le_conv: "Suc n \<le> length d \<longleftrightarrow> (\<exists>x d'. d = x # d' \<and> n \<le> length d')"
  by (cases d) auto
lemma length_ge_conv:
  "2 \<le> length d \<longleftrightarrow> (\<exists>a b r. d = a # b # r)"
  "4 \<le> length d \<longleftrightarrow> (\<exists>a b c e r. d = a # b # c # e # r)"
  "8 \<le> length d \<longleftrightarrow> (\<exists>a b c e f g h i r. d = a # b # c # e # f # g # h # i # r)"
  by (auto simp: numeral_eq_Suc length_Suc_le_conv)

lemma octet_low: "ucast (ucast w :: u8) = take_bit 8 (w :: 'a::len word)"
  by (rule bit_word_eqI) (auto simp: bit_simps)

lemma octet_step:
  "push_bit k (take_bit 8 (drop_bit k w)) OR take_bit k w = take_bit (k + 8) (w :: 'a::len word)"
  by (rule bit_word_eqI) (auto simp: bit_simps)

lemma word_join:
  "push_bit 8 (ucast (ucast (drop_bit 8 v) :: u8)) OR ucast (ucast v :: u8) = (v :: u16)"
  "push_bit 24 (ucast (ucast (drop_bit 24 w) :: u8)) OR push_bit 16 (ucast (ucast (drop_bit 16 w) :: u8))
   OR push_bit 8 (ucast (ucast (drop_bit 8 w) :: u8)) OR ucast (ucast w :: u8) = (w :: u32)"
  "push_bit 56 (ucast (ucast (drop_bit 56 x) :: u8)) OR push_bit 48 (ucast (ucast (drop_bit 48 x) :: u8))
   OR push_bit 40 (ucast (ucast (drop_bit 40 x) :: u8)) OR push_bit 32 (ucast (ucast (drop_bit 32 x) :: u8))
   OR push_bit 24 (ucast (ucast (drop_bit 24 x) :: u8)) OR push_bit 16 (ucast (ucast (drop_bit 16 x) :: u8))
   OR push_bit 8 (ucast (ucast (drop_bit 8 x) :: u8)) OR ucast (ucast x :: u8) = (x :: u64)"
  by (simp_all only: octet_low octet_step numeral_plus_numeral add_num_simps) (simp_all add: take_bit_word_eq_self)

lemma u16_split:
  fixes a b :: u8
  defines "w \<equiv> push_bit 8 (ucast b) OR ucast a :: u16"
  shows "ucast w = a" "ucast (drop_bit 8 w) = b"
  unfolding w_def by (intro bit_word_eqI; auto simp: bit_simps dest: bit_imp_le_length)+

lemma u32_split:
  fixes a b c d :: u8
  defines "w \<equiv> push_bit 24 (ucast d) OR push_bit 16 (ucast c) OR push_bit 8 (ucast b) OR ucast a :: u32"
  shows "ucast w = a" "ucast (drop_bit 8 w) = b" "ucast (drop_bit 16 w) = c" "ucast (drop_bit 24 w) = d"
  unfolding w_def by (intro bit_word_eqI; auto simp: bit_simps dest: bit_imp_le_length)+

lemma u64_split:
  fixes a b c d e f g h :: u8
  defines "w \<equiv> push_bit 56 (ucast h) OR push_bit 48 (ucast g) OR push_bit 40 (ucast f) OR
               push_bit 32 (ucast e) OR push_bit 24 (ucast d) OR push_bit 16 (ucast c) OR
               push_bit 8 (ucast b) OR ucast a :: u64"
  shows "ucast w = a" "ucast (drop_bit 8 w) = b" "ucast (drop_bit 16 w) = c" "ucast (drop_bit 24 w) = d"
    "ucast (drop_bit 32 w) = e" "ucast (drop_bit 40 w) = f" "ucast (drop_bit 48 w) = g"
    "ucast (drop_bit 56 w) = h"
  unfolding w_def by (intro bit_word_eqI; auto simp: bit_simps dest: bit_imp_le_length)+

lemmas join_split = word_join u16_split u32_split u64_split

lemmas read_defs = read_u8_def read_u16_def read_u32_def read_u64_def
  read_u16be_def read_u32be_def read_u64be_def

interpretation u8: codec "\<lambda>w. emit (write_u8 w)" read_u8 "\<lambda>_. True"
  by unfold_locales (auto simp: read_defs bio_simps neq_Nil_conv split: if_splits)

interpretation u16: codec "\<lambda>w. emit (write_u16 w)" read_u16 "\<lambda>_. True"
proof
  fix d x r
  assume "read_u16 d = Some (x, r)"
  then obtain "2 \<le> length d" by (auto simp: read_defs split: if_splits)
  with \<open>_ = Some (x, r)\<close> length_ge_conv(1) [of d] show "True \<and> d = emit (write_u16 x) @ r"
    by (auto simp: read_defs bio_simps join_split simp del: drop_bit_or)
qed (simp add: read_defs bio_simps join_split)

interpretation u32: codec "\<lambda>w. emit (write_u32 w)" read_u32 "\<lambda>_. True"
proof
  fix d x r
  assume "read_u32 d = Some (x, r)"
  then obtain "4 \<le> length d" by (auto simp: read_defs split: if_splits)
  with \<open>_ = Some (x, r)\<close> length_ge_conv(2) [of d] show "True \<and> d = emit (write_u32 x) @ r"
    by (auto simp: read_defs bio_simps join_split simp del: drop_bit_or)
qed (simp add: read_defs bio_simps join_split)

interpretation u64: codec "\<lambda>w. emit (write_u64 w)" read_u64 "\<lambda>_. True"
proof
  fix d x r
  assume "read_u64 d = Some (x, r)"
  then obtain "8 \<le> length d" by (auto simp: read_defs split: if_splits)
  with \<open>_ = Some (x, r)\<close> length_ge_conv(3) [of d] show "True \<and> d = emit (write_u64 x) @ r"
    by (auto simp: read_defs bio_simps join_split simp del: drop_bit_or)
qed (simp add: read_defs bio_simps join_split)

interpretation u16be: codec "\<lambda>w. emit (write_u16be w)" read_u16be "\<lambda>_. True"
proof
  fix d x r
  assume "read_u16be d = Some (x, r)"
  then obtain "2 \<le> length d" by (auto simp: read_defs split: if_splits)
  with \<open>_ = Some (x, r)\<close> length_ge_conv(1) [of d] show "True \<and> d = emit (write_u16be x) @ r"
    by (auto simp: read_defs bio_simps join_split simp del: drop_bit_or)
qed (simp add: read_defs bio_simps join_split)

interpretation u32be: codec "\<lambda>w. emit (write_u32be w)" read_u32be "\<lambda>_. True"
proof
  fix d x r
  assume "read_u32be d = Some (x, r)"
  then obtain "4 \<le> length d" by (auto simp: read_defs split: if_splits)
  with \<open>_ = Some (x, r)\<close> length_ge_conv(2) [of d] show "True \<and> d = emit (write_u32be x) @ r"
    by (auto simp: read_defs bio_simps join_split simp del: drop_bit_or)
qed (simp add: read_defs bio_simps join_split)

interpretation u64be: codec "\<lambda>w. emit (write_u64be w)" read_u64be "\<lambda>_. True"
proof
  fix d x r
  assume "read_u64be d = Some (x, r)"
  then obtain "8 \<le> length d" by (auto simp: read_defs split: if_splits)
  with \<open>_ = Some (x, r)\<close> length_ge_conv(3) [of d] show "True \<and> d = emit (write_u64be x) @ r"
    by (auto simp: read_defs bio_simps join_split simp del: drop_bit_or)
qed (simp add: read_defs bio_simps join_split)

interpretation bytes: codec "\<lambda>bs. bs" "read_bytes n" "\<lambda>bs. length bs = n" for n
  by unfold_locales (auto simp: read_bytes_def split: if_splits)

lemma slice_bytes_eq [bio_simps]: "slice_bytes n = read_bytes n"
  and alloc_bytes_eq [bio_simps]: "alloc_bytes n = read_bytes n"
  by (auto simp: fun_eq_iff slice_bytes_def alloc_bytes_def read_bytes_def)

section \<open>Variable-length integers round trip\<close>

lemma emit_write_varint [bio_simps]:
  "emit (write_varint v) =
     (if v < 0xfd then [ucast v]
      else if v \<le> 0xffff then 0xfd # emit (write_u16 (ucast v))
      else if v \<le> 0xffffffff then 0xfe # emit (write_u32 (ucast v))
      else 0xff # emit (write_u64 v))"
  by (simp add: emit_def write_varint_def write_defs put_def)

lemma ucast_bounded:
  "(v :: u64) \<le> 0xffff \<Longrightarrow> ucast (ucast v :: u16) = v"
  "(v :: u64) \<le> 0xffffffff \<Longrightarrow> ucast (ucast v :: u32) = v"
  "(v :: u64) < 0xfd \<Longrightarrow> ucast (ucast v :: u8) = v"
  "(v :: u64) \<le> 0xffff \<Longrightarrow> unat (ucast v :: u16) = unat v"
  "(v :: u64) \<le> 0xffffffff \<Longrightarrow> unat (ucast v :: u32) = unat v"
  "(v :: u64) < 0xfd \<Longrightarrow> unat (ucast v :: u8) = unat v"
  by (rule ucast_ucast_small unat_ucast_small; simp add: word_nat)+

lemma read_varint_write: "read_varint (emit (write_varint v) @ r) = Inr (v, r)"
proof -
  consider "v < 0xfd" | "\<not> v < 0xfd" "v \<le> 0xffff" | "\<not> v \<le> 0xffff" "v \<le> 0xffffffff" | "\<not> v \<le> 0xffffffff"
    by blast
  then show ?thesis
  proof cases
    case 1
    then have "unat (ucast v :: u8) < 253" by (simp add: ucast_bounded word_nat)
    then have "(ucast v :: u8) \<noteq> 0xff" "(ucast v :: u8) \<noteq> 0xfe" "(ucast v :: u8) \<noteq> 0xfd"
      by (auto simp: word_unat_eq_iff)
    with 1 show ?thesis
      by (simp add: read_varint_def emit_write_varint ucast_bounded)
  next
    case 2
    then have "\<not> (ucast v :: u16) < 0xfd" by (simp add: ucast_bounded word_nat)
    with 2 show ?thesis
      using u16.dec_enc [of "ucast v" r] by (simp add: read_varint_def emit_write_varint ucast_bounded)
  next
    case 3
    then have "\<not> (ucast v :: u32) \<le> 0xffff" by (simp add: ucast_bounded word_nat)
    moreover from 3 have "\<not> v < 0xfd" by (simp add: word_nat)
    ultimately show ?thesis using 3
      using u32.dec_enc [of "ucast v" r] by (simp add: read_varint_def emit_write_varint ucast_bounded)
  next
    case 4
    then have "\<not> v < 0xfd" "\<not> v \<le> 0xffff" by (simp_all add: word_nat)
    with 4 show ?thesis
      using u64.dec_enc [of v r] by (simp add: read_varint_def emit_write_varint)
  qed
qed

lemma read_varint_canonical:
  assumes "read_varint d = Inr (v, r)"
  shows "d = emit (write_varint v) @ r"
proof -
  from assms obtain p e where d: "d = p # e" by (cases d) (auto simp: read_varint_def)
  have up: "unat (ucast (a :: u8) :: u64) = unat a" "unat (ucast (b :: u16) :: u64) = unat b"
    "unat (ucast (c :: u32) :: u64) = unat c" for a b c
    by (rule unat_ucast_up; simp)+
  have down: "ucast (ucast (a :: u8) :: u64) = a" "ucast (ucast (b :: u16) :: u64) = b"
    "ucast (ucast (c :: u32) :: u64) = c" for a b c
    by (rule ucast_ucast_up; simp)+
  have bounds: "unat (a :: u8) \<le> 255" "unat (b :: u16) \<le> 65535" "unat (c :: u32) \<le> 4294967295" for a b c
    using unat_u8_lt [of a] unat_u16_lt [of b] unat_u32_lt [of c] by simp_all
  consider (q) "p = 0xff" | (l) "p = 0xfe" | (w) "p = 0xfd" | (b) "unat p < 0xfd"
    using bounds(1) [of p] by (force simp: word_unat_eq_iff)
  then show ?thesis
  proof cases
    case q
    with assms d show ?thesis
      by (auto simp: read_varint_def emit_write_varint u64.dec_iff word_nat split: option.splits if_splits)
  next
    case l
    with assms d obtain c where "ucast c = v" "\<not> c \<le> 0xffff" "e = emit (write_u32 c) @ r"
      by (auto simp: read_varint_def u32.dec_iff split: option.splits if_splits)
    with l d bounds(3) [of c] show ?thesis
      by (auto simp: emit_write_varint word_nat up down)
  next
    case w
    with assms d obtain c where "ucast c = v" "\<not> c < 0xfd" "e = emit (write_u16 c) @ r"
      by (auto simp: read_varint_def u16.dec_iff split: option.splits if_splits)
    with w d bounds(2) [of c] show ?thesis
      by (auto simp: emit_write_varint word_nat up down)
  next
    case b
    then have "p \<noteq> 0xff" "p \<noteq> 0xfe" "p \<noteq> 0xfd" by auto
    with assms d have "ucast p = v" "e = r" by (auto simp: read_varint_def)
    with b d show ?thesis by (auto simp: emit_write_varint word_nat up down)
  qed
qed

text \<open>
  The reader of variable-length integers accepts exactly what the writer produces: every
  64-bit value has one encoding, read back with the rest of the input untouched, and a longer
  encoding than needed is refused.
\<close>

theorem varint_roundtrip:
  "read_varint d = Inr (v, r) \<longleftrightarrow> d = emit (write_varint v) @ r"
  using read_varint_write read_varint_canonical by blast

text \<open>
  The size that \<^verbatim>\<open>write_varint\<close> announces when it is called without a buffer is the number
  of bytes it writes only for values below 253: the return type of \<^verbatim>\<open>size_varint\<close> truncates the
  sizes 3, 5 and 9 to 1.
\<close>

theorem varint_size_announced:
  "snd (write_varint v None) = length (emit (write_varint v)) \<longleftrightarrow> v < 0xfd"
proof -
  have "snd (write_varint v None) = 1"
    by (simp add: write_varint_def size_varsize_def size_varint_def c_bool_def)
  then show ?thesis by (simp add: emit_write_varint)
qed

section \<open>Printable strings are scanned to the end\<close>

lemma ascii_scan_step:
  assumes "unat i < n" and "n \<le> 255"
  shows "ascii_scan out n i = (if ascii_bad (out ! unat i) then Some False else ascii_scan out n (i + 1))"
    and "unat (i + 1) = Suc (unat i)"
proof -
  show "ascii_scan out n i = (if ascii_bad (out ! unat i) then Some False else ascii_scan out n (i + 1))"
    using assms(1) by (subst ascii_scan.simps) simp
  have "1 + i \<noteq> 0"
  proof
    assume "1 + i = 0"
    then have "i = - 1" by (metis add_eq_0_iff)
    with assms show False by (simp add: unsigned_minus_1_eq_mask mask_eq_exp_minus_1)
  qed
  then show "unat (i + 1) = Suc (unat i)"
    using unatSuc [of i] by (simp add: add.commute)
qed

lemma ascii_scan_result:
  assumes "n \<le> 255" and "unat i \<le> n"
  shows "ascii_scan out n i = Some (\<forall>j\<in>{unat i..<n}. \<not> ascii_bad (out ! j))"
  using assms(2)
proof (induction "n - unat i" arbitrary: i)
  case 0
  then show ?case by (subst ascii_scan.simps) simp
next
  case (Suc k)
  then have lt: "unat i < n" by simp
  have "ascii_scan out n (i + 1) = Some (\<forall>j\<in>{Suc (unat i)..<n}. \<not> ascii_bad (out ! j))"
    using Suc.hyps(1) [of "i + 1"] Suc.hyps(2) ascii_scan_step(2) [OF lt assms(1)] lt by simp
  moreover have "{unat i..<n} = insert (unat i) {Suc (unat i)..<n}" using lt by auto
  ultimately show ?case using ascii_scan_step(1) [OF lt assms(1), of out] by auto
qed

lemma ascii_scan_diverges:
  assumes bad: "\<And>i. \<not> ascii_bad (out ! unat (i :: u8))" and n: "256 \<le> n"
  shows "ascii_scan out n i = None"
proof (rule ccontr)
  assume "ascii_scan out n i \<noteq> None"
  then obtain b where ret: "ascii_scan out n i = Some b" by auto
  have "out' = out \<longrightarrow> m = n \<longrightarrow> False" if "ascii_scan out' m j = Some b'" for out' m j and b' :: bool
  proof (rule ascii_scan.raw_induct [OF _ that, where P = "\<lambda>out' m j b'. out' = out \<longrightarrow> m = n \<longrightarrow> False"])
    fix f :: "bytes \<Rightarrow> nat \<Rightarrow> u8 \<Rightarrow> bool option" and out' m j b'
    assume IH: "\<And>out' m j b'. f out' m j = Some b' \<Longrightarrow> out' = out \<longrightarrow> m = n \<longrightarrow> False"
      and eq: "(if unat j < m then if ascii_bad (out' ! unat j) then Some False else f out' m (j + 1)
                else Some True) = Some b'"
    show "out' = out \<longrightarrow> m = n \<longrightarrow> False"
      using IH [of out m "j + 1" b'] eq bad [of j] n unat_u8_lt [of j] by (auto split: if_splits)
  qed
  with ret show False by blast
qed

text \<open>
  Reading a string of at most 255 characters, the only sizes the version message can ask for,
  always returns: it succeeds exactly when enough bytes are there and each of them is printable
  ASCII, tab, line feed or carriage return, and delivers these bytes.
\<close>

theorem read_ascii_result:
  assumes "n \<le> 255"
  shows "read_ascii n d =
    Some (if n \<le> length d \<and> (\<forall>ch\<in>set (take n d). \<not> ascii_bad ch)
          then Some (take n d, drop n d) else None)"
proof -
  have "(\<forall>j\<in>{unat (0 :: u8)..<n}. \<not> ascii_bad (take n d ! j)) \<longleftrightarrow> (\<forall>ch\<in>set (take n d). \<not> ascii_bad ch)"
    if "n \<le> length d"
    using that by (force simp: in_set_conv_nth)
  then show ?thesis
    using ascii_scan_result [OF assms, of 0 "take n d"]
    by (auto simp: read_ascii_def slice_ascii_def slice_bytes_def)
qed

theorem read_ascii_result_witness:
  "read_ascii 3 [0x68, 0x73, 0x64, 0x21] = Some (Some ([0x68, 0x73, 0x64], [0x21])) \<and>
   read_ascii 2 [0x68, 0x00, 0x64] = Some None"
  using read_ascii_result [of 3 "[0x68, 0x73, 0x64, 0x21]"] read_ascii_result [of 2 "[0x68, 0x00, 0x64]"]
  by (simp add: ascii_bad_def)

text \<open>
  C28. The scan of \<^verbatim>\<open>slice_ascii\<close> counts with an eight-bit variable: asked for 256 or more
  characters that are all acceptable, the function never returns.
\<close>

theorem slice_ascii_diverges:
  assumes "256 \<le> n" and "n \<le> length d" and "\<forall>i < 256. \<not> ascii_bad (d ! i)"
  shows "slice_ascii n d = None"
proof -
  have "\<not> ascii_bad (take n d ! unat i)" for i :: u8
    using assms(3) unat_u8_lt [of i] less_le_trans [OF unat_u8_lt assms(1)] by simp
  then show ?thesis
    using ascii_scan_diverges [of "take n d" n 0] assms
    by (simp add: slice_ascii_def slice_bytes_def)
qed

theorem slice_ascii_diverges_witness:
  "slice_ascii 256 (replicate 256 0x61) = None"
  using slice_ascii_diverges [of 256 "replicate 256 0x61"] by (simp add: ascii_bad_def)

end
