(* ===== verification/Hmap_Table.thy ===== *)
theory Hmap_Table
  imports Hmap
begin

text \<open>
  The invariant of the hash table of \<^verbatim>\<open>map.c\<close> and the finite map it stands for: the flag words as two
  bits per bucket, the probe sequence visiting every bucket, the loops of \<^verbatim>\<open>hsk_map_lookup\<close> and
  \<^verbatim>\<open>hsk_map_put\<close>, and what storing and deleting an element do to the invariant and to the map.
\<close>

section \<open>Flags as two bits per bucket\<close>

lemma bit_push_one: "bit (push_bit s (1 :: u32)) p \<longleftrightarrow> p = s \<and> p < 32"
  by (auto simp: bit_push_bit_iff bit_1_iff simp del: push_bit_of_1)

lemma bit_push_two: "bit (push_bit s (2 :: u32)) p \<longleftrightarrow> p = s + 1 \<and> p < 32"
proof -
  have "push_bit s (2 :: u32) = push_bit (s + 1) 1" by (simp add: push_bit_eq_mult)
  then show ?thesis by (simp only: bit_push_one)
qed

lemma bit_push_three: "bit (push_bit s (3 :: u32)) p \<longleftrightarrow> (p = s \<or> p = s + 1) \<and> p < 32"
proof -
  have "(3 :: u32) = 1 OR 2" by simp
  then have "push_bit s (3 :: u32) = push_bit s 1 OR push_bit s 2" by (simp only: push_bit_or)
  then show ?thesis by (simp only: bit_or_iff bit_push_one bit_push_two) blast
qed

lemmas bit_pushed = bit_push_one bit_push_two bit_push_three

lemma isempty_bit: "hsk_isempty f i \<longleftrightarrow> bit (f ! (i div 16)) (i mod 16 * 2 + 1)"
  using and_exp_eq_0_iff_not_bit [of "drop_bit (i mod 16 * 2) (f ! (i div 16))" 1]
  by (simp add: hsk_isempty_def bit_simps)

lemma isdel_bit: "hsk_isdel f i \<longleftrightarrow> bit (f ! (i div 16)) (i mod 16 * 2)"
  using and_exp_eq_0_iff_not_bit [of "drop_bit (i mod 16 * 2) (f ! (i div 16))" 0]
  by (simp add: hsk_isdel_def bit_simps)

lemma iseither_iff: "hsk_iseither f i \<longleftrightarrow> hsk_isempty f i \<or> hsk_isdel f i"
proof -
  let ?w = "drop_bit (i mod 16 * 2) (f ! (i div 16))"
  have "?w AND 3 = (?w AND 1) OR (?w AND 2)" by (simp flip: bit.conj_disj_distrib)
  then show ?thesis by (simp add: hsk_iseither_def hsk_isempty_def hsk_isdel_def or_eq_0_iff) blast
qed

lemma same_bucket: "i div 16 = j div 16 \<Longrightarrow> i mod 16 = j mod 16 \<Longrightarrow> i = (j :: nat)"
  by (metis div_mult_mod_eq)

lemmas flag_bits = isempty_bit isdel_bit hsk_set_isempty_false_def hsk_set_isboth_false_def
  hsk_set_isdel_true_def nth_list_update bit_and_iff bit_or_iff bit_not_iff bit_pushed

lemma length_set_flags [simp]:
  "length (hsk_set_isempty_false f i) = length f" "length (hsk_set_isboth_false f i) = length f"
  "length (hsk_set_isdel_true f i) = length f"
  by (simp_all add: flag_bits)

lemma parity_differ: "Suc (2 * a) \<noteq> 2 * (b :: nat)" "2 * a \<noteq> Suc (2 * (b :: nat))"
  by presburger+

lemma set_flags [simp]:
  assumes "i div 16 < length f" and "j div 16 < length f"
  shows "hsk_isempty (hsk_set_isempty_false f i) j \<longleftrightarrow> hsk_isempty f j \<and> j \<noteq> i"
    and "hsk_isdel (hsk_set_isempty_false f i) j \<longleftrightarrow> hsk_isdel f j"
    and "hsk_isempty (hsk_set_isboth_false f i) j \<longleftrightarrow> hsk_isempty f j \<and> j \<noteq> i"
    and "hsk_isdel (hsk_set_isboth_false f i) j \<longleftrightarrow> hsk_isdel f j \<and> j \<noteq> i"
    and "hsk_isempty (hsk_set_isdel_true f i) j \<longleftrightarrow> hsk_isempty f j"
    and "hsk_isdel (hsk_set_isdel_true f i) j \<longleftrightarrow> hsk_isdel f j \<or> j = i"
proof -
  have lt: "j mod 16 * 2 < 32" "j mod 16 * 2 + 1 < 32" by simp_all
  show "hsk_isempty (hsk_set_isempty_false f i) j \<longleftrightarrow> hsk_isempty f j \<and> j \<noteq> i"
    "hsk_isdel (hsk_set_isempty_false f i) j \<longleftrightarrow> hsk_isdel f j"
    "hsk_isempty (hsk_set_isboth_false f i) j \<longleftrightarrow> hsk_isempty f j \<and> j \<noteq> i"
    "hsk_isdel (hsk_set_isboth_false f i) j \<longleftrightarrow> hsk_isdel f j \<and> j \<noteq> i"
    "hsk_isempty (hsk_set_isdel_true f i) j \<longleftrightarrow> hsk_isempty f j"
    "hsk_isdel (hsk_set_isdel_true f i) j \<longleftrightarrow> hsk_isdel f j \<or> j = i"
    using assms lt same_bucket [of i j]
    by (auto simp: flag_bits parity_differ mult.commute simp del: push_bit_of_1)
qed

lemma fsize_bound: "i < n \<Longrightarrow> n = 2 ^ k \<Longrightarrow> i div 16 < hsk_fsize n"
proof -
  assume i: "i < n" and n: "n = 2 ^ k"
  show ?thesis
  proof (cases "n < 16")
    case False
    then have "4 \<le> k" using n power_strict_increasing [of k 4 "2 :: nat"] by (cases "k < 4") auto
    then obtain j where "k = 4 + j" using le_Suc_ex by blast
    then have "n = 16 * 2 ^ j" using n by (simp add: power_add)
    with i False show ?thesis by (simp add: hsk_fsize_def less_mult_imp_div_less mult.commute)
  qed (use i in \<open>simp add: hsk_fsize_def\<close>)
qed

lemma blank_flags:
  "i div 16 < m \<Longrightarrow> hsk_isempty (replicate m 0xaaaaaaaa) i"
  "i div 16 < m \<Longrightarrow> \<not> hsk_isdel (replicate m 0xaaaaaaaa) i"
proof -
  assume i: "i div 16 < m"
  have "list_all (\<lambda>r. bit (0xaaaaaaaa :: u32) (r * 2 + 1) \<and> \<not> bit (0xaaaaaaaa :: u32) (r * 2)) [0..<16]"
    by code_simp
  then have "bit (0xaaaaaaaa :: u32) (i mod 16 * 2 + 1) \<and> \<not> bit (0xaaaaaaaa :: u32) (i mod 16 * 2)"
    by (simp add: list_all_iff del: upt_rec_numeral)
  then show "hsk_isempty (replicate m 0xaaaaaaaa) i" "\<not> hsk_isdel (replicate m 0xaaaaaaaa) i"
    using i by (auto simp: isempty_bit isdel_bit)
qed

section \<open>The probe sequence\<close>

definition probe :: "nat \<Rightarrow> nat \<Rightarrow> nat \<Rightarrow> nat" where
  "probe n h s = (h + s * (s + 1) div 2) mod n"

lemma tri_Suc: "Suc s * (Suc s + 1) div 2 = s * (s + 1) div 2 + Suc s"
proof -
  have "Suc s * (Suc s + 1) = s * (s + 1) + 2 * Suc s" by (simp add: algebra_simps)
  then show ?thesis by simp
qed

lemma and_mask: "n = 2 ^ k \<Longrightarrow> x AND (n - 1) = x mod (n :: nat)"
  by (simp add: take_bit_eq_mod [symmetric] take_bit_eq_mask mask_eq_exp_minus_1)

lemma probe_0: "n = 2 ^ k \<Longrightarrow> h AND (n - 1) = probe n h 0"
  by (simp only: and_mask probe_def) simp

lemma probe_step: "n = 2 ^ k \<Longrightarrow> (probe n h s + (s + 1)) AND (n - 1) = probe n h (Suc s)"
  by (simp only: and_mask probe_def mod_add_left_eq tri_Suc) (simp add: add.assoc)

lemma probe_lt: "0 < n \<Longrightarrow> probe n h s < n"
  by (simp add: probe_def)

lemma tri_diff:
  assumes "a < b"
  shows "2 * (b * (b + 1) div 2 - a * (a + 1) div 2) = (b - a) * (a + b + 1 :: nat)"
proof -
  have "2 * (x * (x + 1) div 2) = x * (x + 1)" for x :: nat by simp
  then have "2 * (b * (b + 1) div 2 - a * (a + 1) div 2) = b * (b + 1) - a * (a + 1)"
    by (simp only: diff_mult_distrib2)
  also have "\<dots> = (b - a) * (a + b + 1)"
  proof -
    obtain d where "b = a + d" using assms less_imp_add_positive by blast
    then show ?thesis by (simp add: algebra_simps)
  qed
  finally show ?thesis .
qed

lemma odd_factor_dvd: "(2 :: nat) ^ k dvd x * y \<Longrightarrow> odd x \<Longrightarrow> 2 ^ k dvd y"
  by (metis coprime_dvd_mult_right_iff coprime_power_left_iff coprime_left_2_iff_odd)

text \<open>The first \<open>n\<close> probes are different, so they visit every bucket.\<close>

lemma probe_inj:
  assumes "n = 2 ^ k" and "a < b" and "b < n"
  shows "probe n h a \<noteq> probe n h b"
proof
  assume "probe n h a = probe n h b"
  moreover have "a * (a + 1) div 2 \<le> b * (b + 1) div 2"
    using assms(2) by (intro div_le_mono mult_le_mono) simp_all
  ultimately have "n dvd b * (b + 1) div 2 - a * (a + 1) div 2"
    unfolding probe_def by (metis diff_add_inverse diff_diff_left mod_eq_dvd_iff_nat nat_add_left_cancel_le)
  then have "2 * n dvd (b - a) * (a + b + 1)"
    using tri_diff [OF assms(2)] by (metis mult_dvd_mono dvd_refl)
  then have dvd: "2 ^ Suc k dvd (b - a) * (a + b + 1)" using assms(1) by simp
  show False
  proof (cases "odd (b - a)")
    case True
    then have "2 ^ Suc k \<le> a + b + 1" using odd_factor_dvd [OF dvd] by (simp add: dvd_imp_le)
    then show False using assms by simp
  next
    case False
    then have "odd (a + b + 1)" using assms(2) by presburger
    then have "2 ^ Suc k dvd b - a" using odd_factor_dvd [of "Suc k" "a + b + 1" "b - a"] dvd by (simp add: mult.commute)
    then have "2 ^ Suc k \<le> b - a" using assms(2) by (simp add: dvd_imp_le)
    then show False using assms by simp
  qed
qed

lemma probe_surj:
  assumes "n = 2 ^ k" and "j < n"
  shows "\<exists>s < n. probe n h s = j"
proof -
  have "inj_on (probe n h) {..<n}"
    using probe_inj [OF assms(1)] by (intro linorder_inj_onI) auto
  then have "probe n h ` {..<n} = {..<n}"
    by (intro endo_inj_surj) (auto simp: probe_lt)
  then have "j \<in> probe n h ` {..<n}" using assms(2) by simp
  then show ?thesis by auto
qed

section \<open>The loops\<close>

lemma lookup_loop_result:
  fixes m :: "('k, 'v) hsk_map" and key :: 'k and h :: nat
  assumes "n_buckets m = 2 ^ k" and "s0 < n_buckets m"
  defines "p \<equiv> probe (n_buckets m) h"
    and "stop \<equiv> \<lambda>i. hsk_isempty (mp_flags m) i \<or> \<not> hsk_isdel (mp_flags m) i \<and> equal_func m (the (mp_keys m ! i)) key"
  assumes "stop (p s0)" and "\<forall>t < s0. \<not> stop (p t)" and "s \<le> s0"
  shows "lookup_loop m key (p 0) (p s) s =
    Some (if hsk_iseither (mp_flags m) (p s0) then n_buckets m else p s0)"
  using assms(7)
proof (induction s rule: inc_induct)
  case base
  then show ?case using assms(5) by (subst lookup_loop.simps) (auto simp: stop_def)
next
  case (step s)
  have "\<not> stop (p s)" using step(2) assms(6) by simp
  moreover have "(p s + (s + 1)) AND (n_buckets m - 1) = p (Suc s)"
    unfolding p_def by (rule probe_step [OF assms(1)])
  moreover have "p (Suc s) \<noteq> p 0"
    unfolding p_def using probe_inj [OF assms(1), of 0 "Suc s" h] step(2) assms(2) by simp
  ultimately have "lookup_loop m key (p 0) (p s) s = lookup_loop m key (p 0) (p (Suc s)) (Suc s)"
    by (subst lookup_loop.simps) (simp add: stop_def Let_def)
  then show ?case using step(3) by simp
qed

lemma put_loop_result:
  fixes m :: "('k, 'v) hsk_map" and key :: 'k and h :: nat
  assumes "n_buckets m = 2 ^ k" and "s0 < n_buckets m"
  defines "p \<equiv> probe (n_buckets m) h"
    and "stop \<equiv> \<lambda>i. hsk_isempty (mp_flags m) i \<or> \<not> hsk_isdel (mp_flags m) i \<and> equal_func m (the (mp_keys m ! i)) key"
  assumes "stop (p s0)" and "\<forall>t < s0. \<not> stop (p t)" and "s \<le> s0"
  shows "\<exists>site'. put_loop m key (p 0) site (p s) s = Some (n_buckets m, site', p s0) \<and>
    (site' = site \<or> (\<exists>t. s \<le> t \<and> t < s0 \<and> site' = p t \<and> hsk_isdel (mp_flags m) (p t)))"
  using assms(7)
proof (induction s arbitrary: site rule: inc_induct)
  case base
  then show ?case using assms(5) by (subst put_loop.simps) (auto simp: stop_def)
next
  case (step s)
  let ?site = "if hsk_isdel (mp_flags m) (p s) then p s else site"
  have "\<not> stop (p s)" using step(2) assms(6) by simp
  moreover have "(p s + (s + 1)) AND (n_buckets m - 1) = p (Suc s)"
    unfolding p_def by (rule probe_step [OF assms(1)])
  moreover have "p (Suc s) \<noteq> p 0"
    unfolding p_def using probe_inj [OF assms(1), of 0 "Suc s" h] step(2) assms(2) by simp
  ultimately have "put_loop m key (p 0) site (p s) s = put_loop m key (p 0) ?site (p (Suc s)) (Suc s)"
    by (subst put_loop.simps) (simp add: stop_def Let_def)
  then show ?case using step(3) [of ?site] step(2) by (auto split: if_splits)
qed

lemma find_slot_result:
  assumes "n = 2 ^ k" and "hsk_isempty f (probe n h s0)" and "\<forall>t < s0. \<not> hsk_isempty f (probe n h t)" and "s \<le> s0"
  shows "find_slot f n (probe n h s) s = Some (probe n h s0)"
  using assms(4)
proof (induction s rule: inc_induct)
  case base
  then show ?case using assms(2) by (subst find_slot.simps) simp
next
  case (step s)
  then have "\<not> hsk_isempty f (probe n h s)" using assms(3) by simp
  moreover have "(probe n h s + (s + 1)) AND (n - 1) = probe n h (Suc s)" by (rule probe_step [OF assms(1)])
  ultimately have "find_slot f n (probe n h s) s = find_slot f n (probe n h (Suc s)) (Suc s)"
    by (subst find_slot.simps) simp
  then show ?case using step(3) by simp
qed

section \<open>Well-formed tables\<close>

definition bucket_live :: "('k, 'v) hsk_map \<Rightarrow> nat \<Rightarrow> bool" where
  "bucket_live m i \<longleftrightarrow> i < n_buckets m \<and> \<not> hsk_iseither (mp_flags m) i"

definition reach :: "u32 list \<Rightarrow> nat \<Rightarrow> nat \<Rightarrow> nat \<Rightarrow> bool" where
  "reach f n h i \<longleftrightarrow> (\<exists>s < n. probe n h s = i \<and> (\<forall>t < s. \<not> hsk_isempty f (probe n h t)))"

definition table_ok :: "('k \<Rightarrow> bool) \<Rightarrow> ('k, 'v) hsk_map \<Rightarrow> bool" where
  "table_ok V m \<longleftrightarrow>
     (\<exists>k\<ge>2. n_buckets m = 2 ^ k) \<and> length (mp_flags m) = hsk_fsize (n_buckets m) \<and>
     length (mp_keys m) = n_buckets m \<and> length (mp_vals m) = n_buckets m \<and>
     n_occupied m = card {i. i < n_buckets m \<and> \<not> hsk_isempty (mp_flags m) i} \<and>
     mp_size m = card {i. bucket_live m i} \<and>
     upper_bound m = hsk_upper (n_buckets m) \<and> n_occupied m \<le> upper_bound m \<and>
     (\<forall>i. bucket_live m i \<longrightarrow> (\<exists>key. mp_keys m ! i = Some key \<and> V key \<and>
        reach (mp_flags m) (n_buckets m) (unat (hash_func m key)) i)) \<and>
     inj_on ((!) (mp_keys m)) {i. bucket_live m i}"

definition hmap_ok :: "('k \<Rightarrow> bool) \<Rightarrow> ('k, 'v) hsk_map \<Rightarrow> bool" where
  "hmap_ok V m \<longleftrightarrow> mp_is_map m \<and> (\<forall>a b. V a \<and> V b \<longrightarrow> equal_func m a b = (a = b)) \<and>
     (n_buckets m = 0 \<and> mp_flags m = [] \<and> mp_keys m = [] \<and> mp_vals m = [] \<and> mp_size m = 0 \<and>
        n_occupied m = 0 \<and> upper_bound m = 0 \<or> table_ok V m)"

definition entries :: "('k, 'v) hsk_map \<Rightarrow> ('k \<times> 'v option) set" where
  "entries m = {(the (mp_keys m ! i), mp_vals m ! i) | i. bucket_live m i}"

text \<open>The finite map a table stands for.\<close>

definition hmap_abs :: "('k, 'v) hsk_map \<Rightarrow> 'k \<rightharpoonup> 'v" where
  "hmap_abs m key =
     (case find (\<lambda>i. bucket_live m i \<and> mp_keys m ! i = Some key) [0..<n_buckets m] of
        None \<Rightarrow> None | Some i \<Rightarrow> mp_vals m ! i)"

lemma hmap_abs_present:
  assumes "table_ok V m" and "bucket_live m i" and "mp_keys m ! i = Some key"
  shows "hmap_abs m key = mp_vals m ! i"
proof -
  let ?P = "\<lambda>i. bucket_live m i \<and> mp_keys m ! i = Some key"
  have "find ?P [0..<n_buckets m] \<noteq> None"
    using assms by (auto simp: find_None_iff bucket_live_def)
  then obtain j where j: "find ?P [0..<n_buckets m] = Some j" by blast
  then have "?P j" by (auto simp: find_Some_iff)
  then have "j = i" using assms by (auto simp: table_ok_def inj_on_def)
  with j show ?thesis by (simp add: hmap_abs_def)
qed

lemma hmap_abs_absent: "\<forall>i. bucket_live m i \<longrightarrow> mp_keys m ! i \<noteq> Some key \<Longrightarrow> hmap_abs m key = None"
  by (auto simp: hmap_abs_def find_Some_iff split: option.splits)

lemma upper_lt: "2 \<le> k \<Longrightarrow> hsk_upper (2 ^ k) < 2 ^ k"
proof -
  assume "2 \<le> k"
  then have "(2 :: nat) ^ 2 \<le> 2 ^ k" by (intro power_increasing) simp_all
  then show ?thesis by (simp add: hsk_upper_def less_mult_imp_div_less)
qed

lemma some_empty:
  assumes "card {i. i < n \<and> \<not> hsk_isempty f i} < n"
  shows "\<exists>i < n. hsk_isempty f i"
proof (rule ccontr)
  assume "\<not> ?thesis"
  then have "{i. i < n \<and> \<not> hsk_isempty f i} = {..<n}" by auto
  with assms show False by simp
qed

lemma table_has_empty: "table_ok V m \<Longrightarrow> \<exists>i < n_buckets m. hsk_isempty (mp_flags m) i"
  by (intro some_empty) (auto simp: table_ok_def intro: le_less_trans [OF _ upper_lt])

text \<open>Every probe sequence ends at an empty bucket or at the key.\<close>

lemma first_stop:
  assumes "table_ok V m" and "hmap_ok V m" and "V key"
  defines "n \<equiv> n_buckets m" and "p \<equiv> probe (n_buckets m) (unat (hash_func m key))"
    and "stop \<equiv> \<lambda>i. hsk_isempty (mp_flags m) i \<or> \<not> hsk_isdel (mp_flags m) i \<and> equal_func m (the (mp_keys m ! i)) key"
  obtains s0 where "s0 < n" and "stop (p s0)" and "\<forall>t < s0. \<not> stop (p t)"
    and "\<forall>i. bucket_live m i \<and> mp_keys m ! i = Some key \<longrightarrow> p s0 = i"
    and "(\<forall>i. bucket_live m i \<longrightarrow> mp_keys m ! i \<noteq> Some key) \<longrightarrow> hsk_isempty (mp_flags m) (p s0)"
proof -
  obtain k where k: "n = 2 ^ k" using assms(1) by (auto simp: table_ok_def n_def)
  obtain e where "e < n" "hsk_isempty (mp_flags m) e" using table_has_empty [OF assms(1)] by (auto simp: n_def)
  then obtain s where s: "s < n" "stop (p s)"
    using probe_surj [OF k, of e "unat (hash_func m key)"] by (auto simp: p_def n_def stop_def)
  define s0 where "s0 = (LEAST s. stop (p s))"
  have s0: "stop (p s0)" "\<forall>t < s0. \<not> stop (p t)" "s0 \<le> s"
    using LeastI [of "\<lambda>s. stop (p s)" s] not_less_Least Least_le [of "\<lambda>s. stop (p s)" s] s(2)
    by (auto simp: s0_def)
  have lt: "p t < n" for t using k probe_lt [of n] by (simp add: p_def n_def)
  have key_at: "bucket_live m (p s0) \<and> mp_keys m ! (p s0) = Some key" if "\<not> hsk_isempty (mp_flags m) (p s0)"
  proof -
    have live: "bucket_live m (p s0)" using that s0(1) lt by (auto simp: stop_def bucket_live_def iseither_iff n_def)
    then obtain key' where "mp_keys m ! (p s0) = Some key'" "V key'" using assms(1) by (auto simp: table_ok_def)
    then show ?thesis using live that s0(1) assms(2,3) by (auto simp: stop_def hmap_ok_def)
  qed
  show ?thesis
  proof (rule that)
    show "s0 < n" using s0(3) s(1) by simp
    show "stop (p s0)" "\<forall>t < s0. \<not> stop (p t)" by (fact s0)+
    have "p s0 = i" if i: "bucket_live m i" "mp_keys m ! i = Some key" for i
    proof -
      obtain si where si: "p si = i" "\<forall>t < si. \<not> hsk_isempty (mp_flags m) (p t)"
        using assms(1) i by (fastforce simp: table_ok_def reach_def p_def)
      have "stop (p si)" using i si(1) assms(2,3) by (auto simp: stop_def bucket_live_def iseither_iff hmap_ok_def)
      then have "s0 \<le> si" using s0(2) by (meson not_less)
      then have "\<not> hsk_isempty (mp_flags m) (p s0)"
        using si i(1) by (cases "s0 = si") (auto simp: bucket_live_def iseither_iff)
      from key_at [OF this] i show ?thesis using assms(1) by (auto simp: table_ok_def inj_on_def)
    qed
    then show "\<forall>i. bucket_live m i \<and> mp_keys m ! i = Some key \<longrightarrow> p s0 = i" by blast
    show "(\<forall>i. bucket_live m i \<longrightarrow> mp_keys m ! i \<noteq> Some key) \<longrightarrow> hsk_isempty (mp_flags m) (p s0)"
      using key_at by blast
  qed
qed

lemma lookup_start:
  fixes m :: "('k, 'v) hsk_map" and key :: 'k
  assumes "n_buckets m = 2 ^ k"
  defines "i \<equiv> probe (n_buckets m) (unat (hash_func m key)) 0"
  shows "hsk_map_lookup m key = lookup_loop m key i i 0"
  using assms(1) unfolding hsk_map_lookup_def Let_def probe_0 [OF assms(1)] i_def by simp

lemma lookup_present:
  assumes "table_ok V m" and "hmap_ok V m" and "V key" and "bucket_live m i" and "mp_keys m ! i = Some key"
  shows "hsk_map_lookup m key = Some i"
proof -
  obtain k where k: "n_buckets m = 2 ^ k" using assms(1) by (auto simp: table_ok_def)
  obtain s0 where s0: "s0 < n_buckets m" "probe (n_buckets m) (unat (hash_func m key)) s0 = i"
    and stop: "hsk_isempty (mp_flags m) i \<or> \<not> hsk_isdel (mp_flags m) i \<and> equal_func m (the (mp_keys m ! i)) key"
    and min: "\<forall>t < s0. \<not> (hsk_isempty (mp_flags m) (probe (n_buckets m) (unat (hash_func m key)) t) \<or>
       \<not> hsk_isdel (mp_flags m) (probe (n_buckets m) (unat (hash_func m key)) t) \<and>
       equal_func m (the (mp_keys m ! (probe (n_buckets m) (unat (hash_func m key)) t))) key)"
    by (rule first_stop [OF assms(1,2,3)]) (use assms(4,5) in metis)
  show ?thesis
    using lookup_loop_result [OF k s0(1) _ min, of 0] s0(2) stop assms(4)
    by (simp add: lookup_start [OF k] bucket_live_def)
qed

lemma lookup_absent:
  assumes "hmap_ok V m" and "V key" and "\<forall>i. bucket_live m i \<longrightarrow> mp_keys m ! i \<noteq> Some key"
  shows "hsk_map_lookup m key = Some (n_buckets m)"
proof (cases "table_ok V m")
  case True
  obtain k where k: "n_buckets m = 2 ^ k" using True by (auto simp: table_ok_def)
  let ?p = "probe (n_buckets m) (unat (hash_func m key))"
  obtain s0 where s0: "s0 < n_buckets m" "hsk_isempty (mp_flags m) (?p s0)"
    and min: "\<forall>t < s0. \<not> (hsk_isempty (mp_flags m) (?p t) \<or>
       \<not> hsk_isdel (mp_flags m) (?p t) \<and> equal_func m (the (mp_keys m ! (?p t))) key)"
    by (rule first_stop [OF True assms(1,2)]) (use assms(3) in metis)
  show ?thesis
    using lookup_loop_result [OF k s0(1) _ min, of 0] s0(2)
    by (simp add: lookup_start [OF k] iseither_iff)
next
  case False
  with assms(1) show ?thesis by (auto simp: hmap_ok_def hsk_map_lookup_def)
qed

subsection \<open>Bucket chosen by an insertion\<close>

definition free_bucket :: "('k, 'v) hsk_map \<Rightarrow> 'k \<Rightarrow> nat \<Rightarrow> bool" where
  "free_bucket m key x \<longleftrightarrow> x < n_buckets m \<and> hsk_iseither (mp_flags m) x \<and>
     reach (mp_flags m) (n_buckets m) (unat (hash_func m key)) x"

lemma put_bucket_loop:
  fixes m :: "('k, 'v) hsk_map" and key :: 'k
  assumes "n_buckets m = 2 ^ k"
  defines "p \<equiv> probe (n_buckets m) (unat (hash_func m key))"
  shows "put_bucket m key = (if hsk_isempty (mp_flags m) (p 0) then Some (p 0)
    else Option.bind (put_loop m key (p 0) (n_buckets m) (p 0) 0) (\<lambda>(x, site, i).
        Some (if x = n_buckets m
              then if hsk_isempty (mp_flags m) i \<and> site \<noteq> n_buckets m then site else i
              else x)))"
  unfolding put_bucket_def Let_def probe_0 [OF assms(1)] p_def ..

lemma put_bucket_result:
  assumes "table_ok V m" and "hmap_ok V m" and "V key"
  shows "\<exists>x. put_bucket m key = Some x \<and>
    (if \<exists>i. bucket_live m i \<and> mp_keys m ! i = Some key then bucket_live m x \<and> mp_keys m ! x = Some key
     else free_bucket m key x)"
proof -
  obtain k where k: "n_buckets m = 2 ^ k" using assms(1) by (auto simp: table_ok_def)
  let ?p = "probe (n_buckets m) (unat (hash_func m key))"
  obtain s0 where s0: "s0 < n_buckets m"
    and stop: "hsk_isempty (mp_flags m) (?p s0) \<or> \<not> hsk_isdel (mp_flags m) (?p s0) \<and> equal_func m (the (mp_keys m ! (?p s0))) key"
    and min: "\<forall>t < s0. \<not> (hsk_isempty (mp_flags m) (?p t) \<or>
       \<not> hsk_isdel (mp_flags m) (?p t) \<and> equal_func m (the (mp_keys m ! (?p t))) key)"
    and present: "\<forall>i. bucket_live m i \<and> mp_keys m ! i = Some key \<longrightarrow> ?p s0 = i"
    and absent: "(\<forall>i. bucket_live m i \<longrightarrow> mp_keys m ! i \<noteq> Some key) \<longrightarrow> hsk_isempty (mp_flags m) (?p s0)"
    by (rule first_stop [OF assms])
  have lt: "?p t < n_buckets m" for t using k by (simp add: probe_lt)
  have reach: "free_bucket m key (?p t)" if "t \<le> s0" "hsk_iseither (mp_flags m) (?p t)" for t
    using that min lt s0 unfolding free_bucket_def reach_def by (auto intro!: exI [of _ t])
  obtain site where site: "put_loop m key (?p 0) (n_buckets m) (?p 0) 0 = Some (n_buckets m, site, ?p s0)"
    "site = n_buckets m \<or> (\<exists>t < s0. site = ?p t \<and> hsk_isdel (mp_flags m) (?p t))"
    using put_loop_result [OF k s0 stop min, of 0 "n_buckets m"] by auto
  show ?thesis
  proof (cases "\<exists>i. bucket_live m i \<and> mp_keys m ! i = Some key")
    case True
    then obtain i where i: "bucket_live m i" "mp_keys m ! i = Some key" by blast
    then have "?p s0 = i" using present by blast
    then have ne: "\<not> hsk_isempty (mp_flags m) (?p s0)" using i(1) by (simp add: bucket_live_def iseither_iff)
    then have "\<not> hsk_isempty (mp_flags m) (?p 0)" using min by (cases "s0 = 0") auto
    then have "put_bucket m key = Some (?p s0)"
      unfolding put_bucket_loop [OF k] using site(1) ne by simp
    with i \<open>?p s0 = i\<close> show ?thesis by auto
  next
    case False
    then have e: "hsk_isempty (mp_flags m) (?p s0)" using absent by blast
    have "\<exists>t \<le> s0. put_bucket m key = Some (?p t) \<and> hsk_iseither (mp_flags m) (?p t)"
    proof (cases "hsk_isempty (mp_flags m) (?p 0)")
      case True
      then show ?thesis unfolding put_bucket_loop [OF k] by (auto simp: iseither_iff)
    next
      case False
      show ?thesis
      proof (cases "site = n_buckets m")
        case True
        then show ?thesis unfolding put_bucket_loop [OF k] using site(1) e False
          by (intro exI [of _ s0]) (simp add: iseither_iff)
      next
        case neq: False
        then obtain t where "t < s0" "site = ?p t" "hsk_isdel (mp_flags m) (?p t)" using site(2) by blast
        then show ?thesis unfolding put_bucket_loop [OF k] using site(1) e False neq
          by (intro exI [of _ t]) (simp add: iseither_iff)
      qed
    qed
    then show ?thesis using False reach by auto
  qed
qed

subsection \<open>Storing and deleting\<close>

lemma table_flags [simp]:
  assumes "table_ok V m" and "i < n_buckets m"
  shows "i div 16 < length (mp_flags m)"
  using assms fsize_bound by (auto simp: table_ok_def)

lemma free_bucket_not_live: "free_bucket m key x \<Longrightarrow> \<not> bucket_live m x"
  by (simp add: free_bucket_def bucket_live_def)

lemma reach_mono:
  "reach f n h i \<Longrightarrow> (\<And>j. j < n \<Longrightarrow> hsk_isempty g j \<Longrightarrow> hsk_isempty f j) \<Longrightarrow> reach g n h i"
  unfolding reach_def by (metis probe_lt gr0I less_zeroE)

text \<open>The table after a key has been put into a free bucket and its value stored.\<close>

lemma store_new:
  fixes m :: "('k, 'v) hsk_map" and key :: 'k and v :: "'v option" and x :: nat
  assumes ok: "table_ok V m" and key: "V key" and free: "free_bucket m key x"
    and absent: "\<forall>i. bucket_live m i \<longrightarrow> mp_keys m ! i \<noteq> Some key"
    and room: "n_occupied m < upper_bound m"
  defines "m' \<equiv> (snd (snd (put_store m key x)))\<lparr>mp_vals := (mp_vals m)[x := v]\<rparr>"
  shows "table_ok V m'" and "hmap_abs m' = (hmap_abs m)(key := v)" and "fst (put_store m key x) = x"
    and "fst (snd (put_store m key x)) \<noteq> -1"
proof -
  have x: "x < n_buckets m" "\<not> bucket_live m x" using free free_bucket_not_live [OF free] by (auto simp: free_bucket_def)
  have len: "length (mp_keys m) = n_buckets m" "length (mp_vals m) = n_buckets m" using ok by (auto simp: table_ok_def)
  have fields: "n_buckets m' = n_buckets m" "hash_func m' = hash_func m" "upper_bound m' = upper_bound m"
    "mp_keys m' = (mp_keys m)[x := Some key]" "mp_vals m' = (mp_vals m)[x := v]"
    "mp_flags m' = hsk_set_isboth_false (mp_flags m) x" "mp_size m' = mp_size m + 1"
    "n_occupied m' = n_occupied m + (if hsk_isempty (mp_flags m) x then 1 else 0)"
    using free by (auto simp: m'_def put_store_def free_bucket_def iseither_iff)
  have live: "bucket_live m' i \<longleftrightarrow> bucket_live m i \<or> i = x" for i
    using ok x by (auto simp: bucket_live_def fields iseither_iff)
  have occ: "{i. i < n_buckets m \<and> \<not> hsk_isempty (mp_flags m') i} =
      insert x {i. i < n_buckets m \<and> \<not> hsk_isempty (mp_flags m) i}"
    using ok x(1) by (auto simp: fields)
  have reach: "reach (mp_flags m') (n_buckets m) h i" if "reach (mp_flags m) (n_buckets m) h i" for h i
    using that by (rule reach_mono) (use ok x(1) in \<open>simp add: fields\<close>)
  have set_live: "{i. bucket_live m' i} = insert x {i. bucket_live m i}" using live by auto
  have fin: "finite {i. bucket_live m i}" by (simp add: bucket_live_def)
  have "mp_size m' = card {i. bucket_live m' i}"
    unfolding set_live using fin x(2) ok by (simp add: fields table_ok_def)
  moreover have "n_occupied m' = card {i. i < n_buckets m' \<and> \<not> hsk_isempty (mp_flags m') i}"
    unfolding fields(1) occ using ok x(1) by (simp add: fields(8) card_insert_if table_ok_def)
  moreover have "n_occupied m' \<le> upper_bound m'" using room by (simp add: fields)
  moreover have "\<forall>i. bucket_live m' i \<longrightarrow> (\<exists>key. mp_keys m' ! i = Some key \<and> V key \<and>
        reach (mp_flags m') (n_buckets m') (unat (hash_func m' key)) i)"
  proof (intro allI impI)
    fix i
    assume i: "bucket_live m' i"
    show "\<exists>key. mp_keys m' ! i = Some key \<and> V key \<and> reach (mp_flags m') (n_buckets m') (unat (hash_func m' key)) i"
    proof (cases "i = x")
      case True
      then show ?thesis using key free len x(1) reach by (simp add: fields(1,2,4) free_bucket_def)
    next
      case False
      then have "bucket_live m i" using i live by simp
      then obtain key' where "mp_keys m ! i = Some key'" "V key'" "reach (mp_flags m) (n_buckets m) (unat (hash_func m key')) i"
        using ok by (auto simp: table_ok_def)
      then show ?thesis using False reach by (simp add: fields(1,2,4))
    qed
  qed
  moreover have "inj_on ((!) (mp_keys m')) {i. bucket_live m' i}"
  proof -
    have "inj_on ((!) (mp_keys m')) {i. bucket_live m i} \<longleftrightarrow> inj_on ((!) (mp_keys m)) {i. bucket_live m i}"
      using x(2) by (intro inj_on_cong) (auto simp: fields(4), metis nth_list_update_neq)
    moreover have "mp_keys m' ! x \<notin> (!) (mp_keys m') ` {i. bucket_live m i}"
      using x absent len by (auto simp: fields(4) nth_list_update)
    ultimately show ?thesis unfolding set_live using ok x(2) by (simp add: table_ok_def)
  qed
  ultimately show "table_ok V m'"
    using ok by (simp add: table_ok_def fields(1,3-6))
  then have tab: "table_ok V m'" .
  show "hmap_abs m' = (hmap_abs m)(key := v)"
  proof
    fix key'
    show "hmap_abs m' key' = ((hmap_abs m)(key := v)) key'"
    proof (cases "key' = key")
      case True
      have "hmap_abs m' key = mp_vals m' ! x"
        using tab by (rule hmap_abs_present) (use live x(1) len in \<open>simp_all add: fields(4)\<close>)
      with True x(1) len show ?thesis by (simp add: fields(5))
    next
      case other: False
      show ?thesis
      proof (cases "\<exists>i. bucket_live m i \<and> mp_keys m ! i = Some key'")
        case True
        then obtain i where i: "bucket_live m i" "mp_keys m ! i = Some key'" by blast
        then have "i \<noteq> x" using x(2) by blast
        then have "hmap_abs m' key' = mp_vals m ! i"
          using hmap_abs_present [OF tab, of i key'] i live by (simp add: fields(4,5))
        moreover have "hmap_abs m key' = mp_vals m ! i" using ok i by (rule hmap_abs_present)
        ultimately show ?thesis using other by simp
      next
        case False
        then have "\<forall>i. bucket_live m' i \<longrightarrow> mp_keys m' ! i \<noteq> Some key'"
          using live other x(1) len by (auto simp: fields(4) nth_list_update)
        then show ?thesis using False other hmap_abs_absent [of m' key'] hmap_abs_absent [of m key'] by auto
      qed
    qed
  qed
  show "fst (put_store m key x) = x" "fst (snd (put_store m key x)) \<noteq> -1" by (simp_all add: put_store_def)
qed

lemma store_present:
  fixes m :: "('k, 'v) hsk_map" and key :: 'k and v :: "'v option" and x :: nat
  assumes ok: "table_ok V m" and x: "bucket_live m x" "mp_keys m ! x = Some key"
  defines "m' \<equiv> m\<lparr>mp_vals := (mp_vals m)[x := v]\<rparr>"
  shows "table_ok V m'" and "hmap_abs m' = (hmap_abs m)(key := v)" and "put_store m key x = (x, 0, m)"
proof -
  have lt: "x < n_buckets m" using x(1) by (simp add: bucket_live_def)
  have live: "bucket_live m' i \<longleftrightarrow> bucket_live m i" for i by (simp add: m'_def bucket_live_def)
  have len: "length (mp_vals m) = n_buckets m" using ok by (simp add: table_ok_def)
  show tab: "table_ok V m'"
    using ok unfolding table_ok_def live by (simp add: m'_def)
  show "hmap_abs m' = (hmap_abs m)(key := v)"
  proof
    fix key'
    show "hmap_abs m' key' = ((hmap_abs m)(key := v)) key'"
    proof (cases "\<exists>i. bucket_live m i \<and> mp_keys m ! i = Some key'")
      case True
      then obtain i where i: "bucket_live m i" "mp_keys m ! i = Some key'" by blast
      have "i = x \<longleftrightarrow> key' = key" using i x ok by (auto simp: table_ok_def inj_on_def)
      then show ?thesis
        using hmap_abs_present [OF tab, of i key'] hmap_abs_present [OF ok i] i live lt len by (auto simp: m'_def)
    next
      case False
      then have "key' \<noteq> key" using x by blast
      then show ?thesis
        using False hmap_abs_absent [of m' key'] hmap_abs_absent [of m key'] live by (auto simp: m'_def)
    qed
  qed
  have "(mp_keys m)[x := Some key] = mp_keys m" using x(2) by (metis list_update_id)
  then show "put_store m key x = (x, 0, m)"
    using x(1) by (simp add: put_store_def bucket_live_def iseither_iff)
qed

lemma delete_live:
  assumes ok: "table_ok V m" and x: "bucket_live m x" "mp_keys m ! x = Some key"
  shows "table_ok V (hsk_map_delete m x)" and "hmap_abs (hsk_map_delete m x) = (hmap_abs m)(key := None)"
proof -
  let ?m = "hsk_map_delete m x"
  have lt: "x < n_buckets m" using x(1) by (simp add: bucket_live_def)
  have m': "?m = m\<lparr>mp_flags := hsk_set_isdel_true (mp_flags m) x, mp_size := mp_size m - 1\<rparr>"
    using x(1) by (simp add: hsk_map_delete_def bucket_live_def)
  have live: "bucket_live ?m i \<longleftrightarrow> bucket_live m i \<and> i \<noteq> x" for i
    using ok lt by (auto simp: m' bucket_live_def iseither_iff)
  have set_live: "{i. bucket_live ?m i} = {i. bucket_live m i} - {x}" using live by auto
  have reach: "reach (mp_flags ?m) (n_buckets m) h i" if "reach (mp_flags m) (n_buckets m) h i" for h i
    using that by (rule reach_mono) (use ok lt in \<open>simp add: m'\<close>)
  have "mp_size ?m = card {i. bucket_live ?m i}"
    unfolding set_live using x(1) ok by (simp add: m' table_ok_def)
  moreover have "{i. i < n_buckets m \<and> \<not> hsk_isempty (mp_flags ?m) i} = {i. i < n_buckets m \<and> \<not> hsk_isempty (mp_flags m) i}"
    using ok lt by (auto simp: m')
  moreover have "inj_on ((!) (mp_keys m)) {i. bucket_live ?m i}"
    unfolding set_live using ok by (auto simp: table_ok_def inj_on_def)
  moreover have "\<forall>i. bucket_live ?m i \<longrightarrow> (\<exists>key. mp_keys m ! i = Some key \<and> V key \<and>
        reach (mp_flags ?m) (n_buckets m) (unat (hash_func m key)) i)"
    using ok live reach by (fastforce simp: table_ok_def)
  ultimately show tab: "table_ok V ?m"
    using ok unfolding table_ok_def by (simp add: m')
  show "hmap_abs ?m = (hmap_abs m)(key := None)"
  proof
    fix key'
    show "hmap_abs ?m key' = ((hmap_abs m)(key := None)) key'"
    proof (cases "\<exists>i. bucket_live ?m i \<and> mp_keys m ! i = Some key'")
      case True
      then obtain i where i: "bucket_live ?m i" "mp_keys m ! i = Some key'" by blast
      then have "bucket_live m i" "i \<noteq> x" using live by auto
      then have "key' \<noteq> key" using i x ok by (auto simp: table_ok_def inj_on_def)
      then show ?thesis
        using hmap_abs_present [OF tab i(1), of key'] hmap_abs_present [OF ok \<open>bucket_live m i\<close> i(2)] i(2) by (simp add: m')
    next
      case False
      then have "hmap_abs ?m key' = None" using hmap_abs_absent [of ?m key'] by (simp add: m')
      moreover have "hmap_abs m key' = None" if "key' \<noteq> key"
        using that False live x by (intro hmap_abs_absent) auto
      ultimately show ?thesis by simp
    qed
  qed
qed

end
