(* ===== verification/Dictionary.thy ===== *)
theory Dictionary
  imports Prelude
begin

text \<open>
  The contract of a table of values by key, as the components that keep one use it. The outer
  option of every operation is \<open>None\<close> when the operation does not return. \<open>room\<close> is what an
  insertion needs of the table, \<open>valid\<close> what every key must satisfy.
\<close>

locale dictionary =
  fixes invar :: "'m \<Rightarrow> bool"
    and room :: "'m \<Rightarrow> bool"
    and valid :: "'k \<Rightarrow> bool"
    and abs :: "'m \<Rightarrow> 'k \<rightharpoonup> 'v"
    and get :: "'m \<Rightarrow> 'k \<Rightarrow> 'v option option"
    and ins :: "'m \<Rightarrow> 'k \<Rightarrow> 'v option \<Rightarrow> (bool \<times> 'm) option"
    and del :: "'m \<Rightarrow> 'k \<Rightarrow> (bool \<times> 'm) option"
  assumes get_abs: "invar m \<Longrightarrow> valid k \<Longrightarrow> get m k = Some (abs m k)"
    and ins_abs: "invar m \<Longrightarrow> room m \<Longrightarrow> valid k \<Longrightarrow>
      \<exists>m'. ins m k v = Some (True, m') \<and> invar m' \<and> abs m' = (abs m)(k := v)"
    and del_abs: "invar m \<Longrightarrow> valid k \<Longrightarrow>
      \<exists>found m'. del m k = Some (found, m') \<and> invar m' \<and> abs m' = (abs m)(k := None)"
begin

lemma ins_elim:
  assumes "ins m k v = Some (b, m')" and "invar m" and "room m" and "valid k"
  shows "b" and "invar m'" and "abs m' = (abs m)(k := v)"
  using ins_abs [OF assms(2,3,4), of v] assms(1) by auto

lemma del_elim:
  assumes "del m k = Some (b, m')" and "invar m" and "valid k"
  shows "invar m'" and "abs m' = (abs m)(k := None)"
  using del_abs [OF assms(2,3)] assms(1) by auto

lemma get_after_ins:
  assumes "invar m" and "room m" and "valid k" and "valid j"
  shows "Option.bind (ins m k v) (\<lambda>(b, m'). get m' j) = (if j = k then Some v else get m j)"
  using ins_abs [OF assms(1,2,3), of v] assms(1,4) by (auto simp: get_abs)

lemma get_after_del:
  assumes "invar m" and "valid k" and "valid j"
  shows "Option.bind (del m k) (\<lambda>(b, m'). get m' j) = (if j = k then Some None else get m j)"
  using del_abs [OF assms(1,2)] assms(1,3) by (auto simp: get_abs)

lemma ins_overwrites:
  assumes "invar m" and "room m" and "valid k" and "ins m k v = Some (b, m')" and "room m'"
  shows "\<exists>m''. ins m' k w = Some (True, m'') \<and> abs m'' = (abs m)(k := w)"
  using ins_elim(2,3) [OF assms(4,1,2,3)] ins_abs [of m' k w] assms(3,5) by auto

end

end
