(* ===== verification/Hmap_Resize.thy ===== *)
theory Hmap_Resize
  imports Hmap_Table Dictionary
begin

text \<open>
  Rehashing in \<^verbatim>\<open>hsk_map_resize\<close>, the contract of the table as a dictionary, and its correctness
  properties.
\<close>

section \<open>Rehashing\<close>

text \<open>
  While a table is rehashed, a bucket is either in use by the old table (\<open>bucket_live\<close>), or in use
  by the new one, or neither; one element may be in hand. \<open>E\<close> is the set of all entries.
\<close>

definition new_used :: "nat \<Rightarrow> u32 list \<Rightarrow> nat \<Rightarrow> bool" where
  "new_used n g i \<longleftrightarrow> i < n \<and> \<not> hsk_isempty g i"

definition in_use :: "nat \<Rightarrow> ('k, 'v) hsk_map \<Rightarrow> u32 list \<Rightarrow> nat set" where
  "in_use n m g = {i. bucket_live m i \<or> new_used n g i}"

definition entry_at :: "('k, 'v) hsk_map \<Rightarrow> nat \<Rightarrow> 'k \<times> 'v option" where
  "entry_at m i = (the (mp_keys m ! i), mp_vals m ! i)"

definition mid_ok ::
  "('k \<Rightarrow> bool) \<Rightarrow> nat \<Rightarrow> ('k, 'v) hsk_map \<Rightarrow> u32 list \<Rightarrow> ('k \<times> 'v option) option \<Rightarrow> ('k \<times> 'v option) set \<Rightarrow> bool" where
  "mid_ok V n m g hand E \<longleftrightarrow>
     mp_is_map m \<and> length (mp_keys m) = max (n_buckets m) n \<and>
     length (mp_vals m) = length (mp_keys m) \<and>
     (\<forall>i < n_buckets m. i div 16 < length (mp_flags m)) \<and> length g = hsk_fsize n \<and>
     (\<forall>i. \<not> (bucket_live m i \<and> new_used n g i)) \<and>
     (\<forall>i < n. \<not> hsk_isdel g i) \<and>
     (\<forall>i\<in>in_use n m g. mp_keys m ! i \<noteq> None \<and> V (fst (entry_at m i))) \<and>
     inj_on (\<lambda>i. fst (entry_at m i)) (in_use n m g) \<and>
     (\<forall>k v. hand = Some (k, v) \<longrightarrow> V k \<and> k \<notin> (\<lambda>i. fst (entry_at m i)) ` in_use n m g) \<and>
     E = entry_at m ` in_use n m g \<union> set_option hand \<and>
     (\<forall>i. new_used n g i \<longrightarrow> reach g n (unat (hash_func m (fst (entry_at m i)))) i) \<and>
     card E < n"

lemma finite_in_use [simp]: "finite (in_use n m g)"
proof -
  have "in_use n m g \<subseteq> {..<n_buckets m} \<union> {..<n}" by (auto simp: in_use_def bucket_live_def new_used_def)
  then show ?thesis by (rule finite_subset) simp
qed

lemma finite_live [simp]: "finite {i. bucket_live m i}"
  by (simp add: bucket_live_def)

lemma mid_has_empty:
  assumes "mid_ok V n m g hand E"
  shows "\<exists>i < n. hsk_isempty g i"
proof (rule some_empty)
  have E: "E = entry_at m ` in_use n m g \<union> set_option hand" "card E < n"
    and inj: "inj_on (\<lambda>i. fst (entry_at m i)) (in_use n m g)" using assms by (auto simp: mid_ok_def)
  have "finite (set_option hand)" by (cases hand) simp_all
  have "card {i. i < n \<and> \<not> hsk_isempty g i} \<le> card (in_use n m g)"
    by (intro card_mono) (auto simp: in_use_def new_used_def)
  also have "\<dots> = card (entry_at m ` in_use n m g)"
    using inj by (intro card_image [symmetric]) (auto simp: inj_on_def)
  also have "\<dots> \<le> card E" unfolding E(1) using \<open>finite (set_option hand)\<close> by (intro card_mono) auto
  finally show "card {i. i < n \<and> \<not> hsk_isempty g i} < n" using E(2) by simp
qed

text \<open>Taking the element of a bucket of the old table in hand.\<close>

lemma mid_take:
  assumes ok: "mid_ok V n m g None E" and j: "bucket_live m j"
  shows "mid_ok V n (m\<lparr>mp_flags := hsk_set_isdel_true (mp_flags m) j\<rparr>) g (Some (entry_at m j)) E"
proof -
  let ?m = "m\<lparr>mp_flags := hsk_set_isdel_true (mp_flags m) j\<rparr>"
  have live: "bucket_live ?m i \<longleftrightarrow> bucket_live m i \<and> i \<noteq> j" for i
    using ok j by (auto simp: mid_ok_def bucket_live_def iseither_iff)
  have use: "in_use n ?m g = in_use n m g - {j}" "j \<in> in_use n m g"
    using ok j live by (auto simp: in_use_def mid_ok_def)
  have at: "entry_at ?m i = entry_at m i" for i by (simp add: entry_at_def)
  have "entry_at m j \<notin> entry_at m ` (in_use n m g - {j})" "fst (entry_at m j) \<notin> (\<lambda>i. fst (entry_at m i)) ` (in_use n m g - {j})"
    using ok use(2) by (auto simp: mid_ok_def inj_on_def)
  then show ?thesis
    using ok use(2) unfolding mid_ok_def use(1) at live by (auto simp: inj_on_def prod_eq_iff)
qed

text \<open>Placing the element in hand, and taking in hand what the old table has in its bucket.\<close>

lemma mid_place:
  assumes ok: "mid_ok V n m g (Some (key, val)) E" and n: "n = 2 ^ k" and x: "x < n" "hsk_isempty g x"
    and path: "reach g n (unat (hash_func m key)) x"
  defines "m1 \<equiv> m\<lparr>mp_keys := (mp_keys m)[x := Some key], mp_vals := (mp_vals m)[x := val],
                   mp_flags := (if bucket_live m x then hsk_set_isdel_true (mp_flags m) x else mp_flags m)\<rparr>"
    and "hand \<equiv> (if bucket_live m x then Some (entry_at m x) else None)"
  shows "mid_ok V n m1 (hsk_set_isempty_false g x) hand E"
    and "bucket_live m1 i \<longleftrightarrow> bucket_live m i \<and> i \<noteq> x"
proof -
  let ?g = "hsk_set_isempty_false g x"
  have gl: "i div 16 < length g" if "i < n" for i using that n ok fsize_bound by (auto simp: mid_ok_def)
  have len: "x < length (mp_keys m)" "x < length (mp_vals m)" using ok x(1) by (auto simp: mid_ok_def)
  have live: "bucket_live m1 i \<longleftrightarrow> bucket_live m i \<and> i \<noteq> x" for i
    using ok by (auto simp: mid_ok_def m1_def bucket_live_def iseither_iff)
  then show "bucket_live m1 i \<longleftrightarrow> bucket_live m i \<and> i \<noteq> x" .
  have used: "new_used n ?g i \<longleftrightarrow> new_used n g i \<or> i = x" for i
    using x(1) gl by (auto simp: new_used_def)
  have not_used: "\<not> new_used n g x" using x by (simp add: new_used_def)
  have use: "in_use n m1 ?g = insert x (in_use n m g - {x})" by (auto simp: in_use_def live used)
  have x_use: "x \<in> in_use n m g \<longleftrightarrow> bucket_live m x" using not_used by (simp add: in_use_def)
  have at: "entry_at m1 i = (if i = x then (key, val) else entry_at m i)" for i
    using len by (simp add: entry_at_def m1_def)
  have keys: "mp_keys m1 ! i = (if i = x then Some key else mp_keys m ! i)" for i
    using len by (simp add: m1_def)
  have key: "V key" "key \<notin> (\<lambda>i. fst (entry_at m i)) ` in_use n m g" and inj: "inj_on (\<lambda>i. fst (entry_at m i)) (in_use n m g)"
    and all: "\<forall>i\<in>in_use n m g. mp_keys m ! i \<noteq> None \<and> V (fst (entry_at m i))"
    and E: "E = insert (key, val) (entry_at m ` in_use n m g)" "card E < n"
    using ok by (auto simp: mid_ok_def)
  have reach': "reach ?g n h i" if "reach g n h i" for h i
    using that by (rule reach_mono) (use gl x in auto)
  have base: "mp_is_map m1" "length (mp_keys m1) = max (n_buckets m1) n"
     "length (mp_vals m1) = length (mp_keys m1)" "\<forall>i < n_buckets m1. i div 16 < length (mp_flags m1)"
     "length ?g = hsk_fsize n" "\<forall>i < n. \<not> hsk_isdel ?g i"
    using ok gl x(1) by (auto simp: mid_ok_def m1_def)
  moreover have "\<forall>i. \<not> (bucket_live m1 i \<and> new_used n ?g i)"
    using ok by (auto simp: mid_ok_def live used)
  moreover have "\<forall>i\<in>in_use n m1 ?g. mp_keys m1 ! i \<noteq> None \<and> V (fst (entry_at m1 i))"
    using all key(1) unfolding use by (auto simp: at keys)
  moreover have "inj_on (\<lambda>i. fst (entry_at m1 i)) (in_use n m1 ?g)"
    using inj key(2) unfolding use by (auto simp: at inj_on_def)
  moreover have "\<forall>k v. hand = Some (k, v) \<longrightarrow> V k \<and> k \<notin> (\<lambda>i. fst (entry_at m1 i)) ` in_use n m1 ?g"
  proof (cases "bucket_live m x")
    case True
    then have "x \<in> in_use n m g" using x_use by simp
    then have "V (fst (entry_at m x))" "fst (entry_at m x) \<noteq> key"
      "\<forall>i\<in>in_use n m g - {x}. fst (entry_at m i) \<noteq> fst (entry_at m x)"
      using all key(2) inj by (auto simp: inj_on_def)
    then show ?thesis unfolding use hand_def by (auto simp: at) (metis DiffI fst_conv singletonD)+
  qed (simp add: hand_def)
  moreover have "E = entry_at m1 ` in_use n m1 ?g \<union> set_option hand"
    using x_use unfolding E(1) use hand_def by (auto simp: at)
  moreover have "\<forall>i. new_used n ?g i \<longrightarrow> reach ?g n (unat (hash_func m1 (fst (entry_at m1 i)))) i"
  proof -
    have "\<forall>i. new_used n g i \<longrightarrow> reach g n (unat (hash_func m (fst (entry_at m i)))) i" "hash_func m1 = hash_func m"
      using ok by (simp_all add: mid_ok_def m1_def)
    then show ?thesis using path reach' not_used by (auto simp: used at)
  qed
  ultimately show "mid_ok V n m1 ?g hand E" using E(2) by (simp add: mid_ok_def)
qed

lemma kick_out_ok:
  assumes "mid_ok V n m g (Some (key, val)) E" and n: "n = 2 ^ k"
  shows "\<exists>m' g'. kick_out n m g key val = Some (m', g') \<and> mid_ok V n m' g' None E \<and>
    {i. bucket_live m' i} \<subseteq> {i. bucket_live m i} \<and>
    m' = m\<lparr>mp_keys := mp_keys m', mp_vals := mp_vals m', mp_flags := mp_flags m'\<rparr>"
  using assms(1)
proof (induction "card {i. bucket_live m i}" arbitrary: m g key val rule: less_induct)
  case less
  let ?h = "unat (hash_func m key)"
  obtain e where "e < n" "hsk_isempty g e" using mid_has_empty [OF less.prems] by blast
  then obtain s where s: "s < n" "hsk_isempty g (probe n ?h s)" using probe_surj [OF n, of e ?h] by auto
  define s0 where "s0 = (LEAST s. hsk_isempty g (probe n ?h s))"
  have "hsk_isempty g (probe n ?h s0)" unfolding s0_def by (rule LeastI [of _ s]) (rule s(2))
  moreover have "\<forall>t < s0. \<not> hsk_isempty g (probe n ?h t)" unfolding s0_def using not_less_Least by blast
  moreover have "s0 \<le> s" unfolding s0_def by (rule Least_le) (rule s(2))
  ultimately have s0: "hsk_isempty g (probe n ?h s0)" "\<forall>t < s0. \<not> hsk_isempty g (probe n ?h t)" "s0 < n"
    using s(1) by simp_all
  define x where "x = probe n ?h s0"
  have x: "x < n" "hsk_isempty g x" "reach g n ?h x"
    using s0 n by (auto simp: x_def probe_lt reach_def)
  have slot: "find_slot g n (?h AND (n - 1)) 0 = Some x"
    unfolding probe_0 [OF n] x_def by (rule find_slot_result [OF n s0(1,2)]) simp
  let ?m1 = "m\<lparr>mp_keys := (mp_keys m)[x := Some key], mp_vals := (mp_vals m)[x := val],
      mp_flags := (if bucket_live m x then hsk_set_isdel_true (mp_flags m) x else mp_flags m)\<rparr>"
  note place = mid_place [OF less.prems n x]
  have is_map: "mp_is_map m" using less.prems by (simp add: mid_ok_def)
  show ?case
  proof (cases "bucket_live m x")
    case True
    have "kick_out n m g key val =
        kick_out n ?m1 (hsk_set_isempty_false g x) (the (mp_keys m ! x)) (mp_vals m ! x)"
      using slot True is_map by (subst kick_out.simps) (simp add: bucket_live_def Let_def)
    moreover have mid1: "mid_ok V n ?m1 (hsk_set_isempty_false g x) (Some (the (mp_keys m ! x), mp_vals m ! x)) E"
      using place(1) True by (simp add: entry_at_def)
    moreover have set1: "{i. bucket_live ?m1 i} = {i. bucket_live m i} - {x}" using place(2) by auto
    moreover have "card {i. bucket_live ?m1 i} < card {i. bucket_live m i}"
      unfolding set1 using True by (intro card_Diff1_less) simp_all
    ultimately obtain m' g' where "kick_out n m g key val = Some (m', g')" "mid_ok V n m' g' None E"
      "{i. bucket_live m' i} \<subseteq> {i. bucket_live ?m1 i}"
      "m' = ?m1\<lparr>mp_keys := mp_keys m', mp_vals := mp_vals m', mp_flags := mp_flags m'\<rparr>"
      using less.hyps [OF _ mid1] by auto
    with set1 show ?thesis by (intro exI [of _ m'] exI [of _ g']) auto
  next
    case False
    have "kick_out n m g key val = Some (?m1, hsk_set_isempty_false g x)"
      using slot False is_map by (subst kick_out.simps) (auto simp: bucket_live_def Let_def)
    moreover have "mid_ok V n ?m1 (hsk_set_isempty_false g x) None E" using place(1) False by simp
    moreover have "{i. bucket_live ?m1 i} \<subseteq> {i. bucket_live m i}" using place(2) by blast
    ultimately show ?thesis
      using False by (intro exI [of _ ?m1] exI [of _ "hsk_set_isempty_false g x"]) simp
  qed
qed

lemma rehash_ok:
  assumes "mid_ok V n m g None E" and n: "n = 2 ^ k" and "{i. bucket_live m i} \<subseteq> set js" and "set js \<subseteq> {..<n_buckets m}"
  shows "\<exists>m' g'. rehash n js (m, g) = Some (m', g') \<and> mid_ok V n m' g' None E \<and> {i. bucket_live m' i} = {} \<and>
    m' = m\<lparr>mp_keys := mp_keys m', mp_vals := mp_vals m', mp_flags := mp_flags m'\<rparr>"
  using assms(1,3,4)
proof (induction js arbitrary: m g)
  case Nil
  then show ?case by auto
next
  case (Cons j js)
  show ?case
  proof (cases "bucket_live m j")
    case True
    let ?m1 = "m\<lparr>mp_flags := hsk_set_isdel_true (mp_flags m) j\<rparr>"
    have mid1: "mid_ok V n ?m1 g (Some (the (mp_keys m ! j), mp_vals m ! j)) E"
      using mid_take [OF Cons.prems(1) True] by (simp add: entry_at_def)
    have live1: "{i. bucket_live ?m1 i} = {i. bucket_live m i} - {j}"
      using Cons.prems(1) True by (auto simp: mid_ok_def bucket_live_def iseither_iff)
    obtain m2 g2 where k2: "kick_out n ?m1 g (the (mp_keys m ! j)) (mp_vals m ! j) = Some (m2, g2)"
      "mid_ok V n m2 g2 None E" "{i. bucket_live m2 i} \<subseteq> {i. bucket_live ?m1 i}"
      "m2 = ?m1\<lparr>mp_keys := mp_keys m2, mp_vals := mp_vals m2, mp_flags := mp_flags m2\<rparr>"
      using kick_out_ok [OF mid1 n] by blast
    have nb: "n_buckets m2 = n_buckets m" using arg_cong [OF k2(4), of n_buckets] by simp
    obtain m' g' where k3: "rehash n js (m2, g2) = Some (m', g')" "mid_ok V n m' g' None E" "{i. bucket_live m' i} = {}"
      "m' = m2\<lparr>mp_keys := mp_keys m', mp_vals := mp_vals m', mp_flags := mp_flags m'\<rparr>"
    proof -
      have "{i. bucket_live m2 i} \<subseteq> set js" using k2(3) Cons.prems(2) unfolding live1 by auto
      moreover have "set js \<subseteq> {..<n_buckets m2}" using Cons.prems(3) nb by simp
      ultimately show ?thesis using Cons.IH [OF k2(2)] that by blast
    qed
    have "m' = m\<lparr>mp_keys := mp_keys m', mp_vals := mp_vals m', mp_flags := mp_flags m'\<rparr>"
      by (subst k3(4), subst k2(4)) simp
    moreover have "rehash n (j # js) (m, g) = Some (m', g')"
      using True Cons.prems(1) k2(1) k3(1) by (simp add: bucket_live_def mid_ok_def)
    ultimately show ?thesis using k3(2,3) by blast
  next
    case False
    moreover from this have "hsk_iseither (mp_flags m) j" using Cons.prems(3) by (auto simp: bucket_live_def)
    moreover have "{i. bucket_live m i} \<subseteq> set js" using False Cons.prems(2) by auto
    ultimately show ?thesis using Cons.IH [OF Cons.prems(1)] Cons.prems(3) by simp
  qed
qed

subsection \<open>Resizing keeps the map\<close>

lemma hmap_ok_common:
  assumes "hmap_ok V m"
  shows "length (mp_keys m) = n_buckets m" and "length (mp_vals m) = n_buckets m"
    and "\<forall>i < n_buckets m. i div 16 < length (mp_flags m)"
    and "mp_size m = card {i. bucket_live m i}"
    and "\<forall>i. bucket_live m i \<longrightarrow> (\<exists>key. mp_keys m ! i = Some key \<and> V key)"
    and "inj_on ((!) (mp_keys m)) {i. bucket_live m i}" and "mp_is_map m"
  using assms table_flags [of V m] by (auto simp: hmap_ok_def table_ok_def bucket_live_def)

lemma entries_image: "entries m = entry_at m ` {i. bucket_live m i}"
  by (auto simp: entries_def entry_at_def)

lemma entries_iff:
  assumes "hmap_ok V m"
  shows "(key, v) \<in> entries m \<longleftrightarrow> (\<exists>i. bucket_live m i \<and> mp_keys m ! i = Some key \<and> mp_vals m ! i = v)"
  using hmap_ok_common(5) [OF assms] unfolding entries_def by simp (metis option.sel)

lemma hmap_abs_entries:
  assumes "hmap_ok V m"
  shows "(key, v) \<in> entries m \<Longrightarrow> hmap_abs m key = v" and "\<forall>v. (key, v) \<notin> entries m \<Longrightarrow> hmap_abs m key = None"
proof -
  assume "(key, v) \<in> entries m"
  then obtain i where i: "bucket_live m i" "mp_keys m ! i = Some key" "mp_vals m ! i = v"
    unfolding entries_iff [OF assms] by blast
  then have "table_ok V m" using assms by (auto simp: hmap_ok_def bucket_live_def)
  from hmap_abs_present [OF this i(1,2)] i(3) show "hmap_abs m key = v" by simp
next
  assume "\<forall>v. (key, v) \<notin> entries m"
  then show "hmap_abs m key = None" unfolding entries_iff [OF assms] by (intro hmap_abs_absent) blast
qed

lemma same_entries: "hmap_ok V m \<Longrightarrow> hmap_ok V m' \<Longrightarrow> entries m = entries m' \<Longrightarrow> hmap_abs m = hmap_abs m'"
  by (rule ext) (metis hmap_abs_entries)

lemma mid_start:
  assumes ok: "hmap_ok V m" and n: "n = 2 ^ k" and size: "mp_size m < n"
    and grown: "mp_keys m1 = mp_keys m @ replicate (n - n_buckets m) None"
      "mp_vals m1 = mp_vals m @ replicate (n - n_buckets m) None" "mp_flags m1 = mp_flags m"
      "n_buckets m1 = n_buckets m" "mp_is_map m1" "hash_func m1 = hash_func m"
  shows "mid_ok V n m1 (replicate (hsk_fsize n) 0xaaaaaaaa) None (entries m)"
proof -
  note c = hmap_ok_common [OF ok]
  let ?g = "replicate (hsk_fsize n) 0xaaaaaaaa :: u32 list"
  have unused: "\<not> new_used n ?g i" for i
    using blank_flags(1) fsize_bound [OF _ n] by (auto simp: new_used_def)
  have live: "bucket_live m1 i \<longleftrightarrow> bucket_live m i" for i by (simp add: bucket_live_def grown)
  have use: "in_use n m1 ?g = {i. bucket_live m i}" by (simp add: in_use_def unused live)
  have at: "mp_keys m1 ! i = mp_keys m ! i" "entry_at m1 i = entry_at m i" if "bucket_live m i" for i
    using that c(1,2) by (auto simp: entry_at_def grown nth_append bucket_live_def)
  have inj: "inj_on (\<lambda>i. fst (entry_at m i)) {i. bucket_live m i}"
    using c(5,6) unfolding inj_on_def entry_at_def by simp (metis option.sel)
  have "card (entries m) \<le> card {i. bucket_live m i}" unfolding entries_image by (intro card_image_le) simp
  then have "card (entries m) < n" using c(4) size by simp
  moreover have "\<forall>i < n. \<not> hsk_isdel ?g i" using blank_flags(2) fsize_bound [OF _ n] by simp
  moreover have "\<forall>i\<in>{i. bucket_live m i}. mp_keys m1 ! i \<noteq> None \<and> V (fst (entry_at m1 i))"
    using c(5) at(1) at(2) unfolding entry_at_def by simp (metis option.sel)
  moreover have "inj_on (\<lambda>i. fst (entry_at m1 i)) {i. bucket_live m i}"
    using inj at(2) by (simp add: inj_on_def)
  moreover have "entries m = entry_at m1 ` {i. bucket_live m i}" using at(2) by (simp add: entries_image)
  moreover have "n_buckets m + (n - n_buckets m) = max (n_buckets m) n" by simp
  ultimately show ?thesis
    using c(1,2,3) unfolding mid_ok_def use by (simp add: grown unused)
qed

lemma mid_end:
  assumes mid: "mid_ok V n m g None E" and live: "{i. bucket_live m i} = {}" and n: "n = 2 ^ k" "2 \<le> k"
    and size: "mp_size m = card E" "card E \<le> hsk_upper n"
    and eq: "\<forall>a b. V a \<and> V b \<longrightarrow> equal_func m a b = (a = b)"
    and m': "mp_keys m' = take n (mp_keys m)" "mp_vals m' = take n (mp_vals m)" "mp_flags m' = g"
      "n_buckets m' = n" "n_occupied m' = mp_size m" "mp_size m' = mp_size m" "upper_bound m' = hsk_upper n"
      "mp_is_map m'" "hash_func m' = hash_func m" "equal_func m' = equal_func m"
  shows "table_ok V m'" and "hmap_ok V m'" and "entries m' = E"
proof -
  have use: "in_use n m g = {i. new_used n g i}" using live by (auto simp: in_use_def)
  have live': "bucket_live m' i \<longleftrightarrow> new_used n g i" for i
    using mid by (auto simp: bucket_live_def new_used_def m' iseither_iff mid_ok_def)
  have at: "mp_keys m' ! i = mp_keys m ! i" "entry_at m' i = entry_at m i" if "new_used n g i" for i
    using that mid by (auto simp: entry_at_def m' new_used_def mid_ok_def)
  have inj: "inj_on (\<lambda>i. fst (entry_at m i)) {i. new_used n g i}"
    and keys: "\<forall>i. new_used n g i \<longrightarrow> mp_keys m ! i \<noteq> None \<and> V (fst (entry_at m i))"
    and E: "E = entry_at m ` {i. new_used n g i}"
    and path: "\<forall>i. new_used n g i \<longrightarrow> reach g n (unat (hash_func m (fst (entry_at m i)))) i"
    using mid unfolding mid_ok_def use by auto
  show entries: "entries m' = E" unfolding entries_image E live' using at(2) by simp
  have "card E = card {i. new_used n g i}"
    unfolding E using inj by (intro card_image) (auto simp: inj_on_def)
  moreover have "{i. i < n \<and> \<not> hsk_isempty g i} = {i. new_used n g i}" by (simp add: new_used_def)
  moreover have "inj_on ((!) (mp_keys m')) {i. new_used n g i}"
    using inj at(1) by (auto simp: inj_on_def entry_at_def)
  moreover have "\<forall>i. new_used n g i \<longrightarrow> (\<exists>key. mp_keys m' ! i = Some key \<and> V key \<and> reach g n (unat (hash_func m key)) i)"
    using keys path at(1) by (fastforce simp: entry_at_def)
  moreover have "length g = hsk_fsize n" "n \<le> length (mp_keys m)" "length (mp_vals m) = length (mp_keys m)"
    using mid by (simp_all add: mid_ok_def)
  ultimately show tab: "table_ok V m'"
    using n size unfolding table_ok_def live' by (auto simp: m')
  then show "hmap_ok V m'" using eq by (simp add: hmap_ok_def m')
qed

lemma roundup_words:
  "k < 31 \<Longrightarrow> 2 \<le> k \<Longrightarrow> hsk_roundup32 (2 ^ k - 1) = 2 ^ k \<and> hsk_roundup32 (2 ^ k + 1) = 2 ^ Suc k"
proof -
  assume "k < 31" "2 \<le> k"
  then have "k \<in> set [2..<31]" by (simp del: upt_rec_numeral)
  then show ?thesis by (simp add: hsk_roundup32_def) (elim disjE; simp)
qed

definition all_mem :: "bool \<times> bool \<times> bool" where
  "all_mem = (True, True, True)"

definition grown_buckets :: "nat \<Rightarrow> nat" where
  "grown_buckets new_n = (let n = hsk_roundup32 (of_nat new_n) in unat (if n < 4 then 4 else n))"

lemma resize_ok:
  assumes ok: "hmap_ok V m" and n: "grown_buckets new_n = 2 ^ k" "2 \<le> k" and size: "mp_size m < hsk_upper (2 ^ k)"
  shows "\<exists>m'. hsk_map_resize all_mem m new_n = Some (0, m') \<and> table_ok V m' \<and> hmap_ok V m' \<and>
    hmap_abs m' = hmap_abs m \<and> n_occupied m' = mp_size m \<and> upper_bound m' = hsk_upper (2 ^ k) \<and> n_buckets m' = 2 ^ k"
proof -
  note c = hmap_ok_common [OF ok]
  let ?n = "2 ^ k :: nat" and ?g = "replicate (hsk_fsize (2 ^ k)) 0xaaaaaaaa :: u32 list"
  let ?m1 = "m\<lparr>mp_keys := mp_keys m @ replicate (?n - n_buckets m) None, mp_vals := mp_vals m @ replicate (?n - n_buckets m) None\<rparr>"
  let ?m0 = "if n_buckets m < ?n then ?m1 else m"
  have m0: "?m0 = ?m1" by simp
  have mid: "mid_ok V ?n ?m1 ?g None (entries m)"
    using size upper_lt [OF n(2)] c(7) by (intro mid_start [OF ok refl]) simp_all
  have "{i. bucket_live ?m1 i} \<subseteq> set [0..<n_buckets m]" "set [0..<n_buckets m] \<subseteq> {..<n_buckets ?m1}"
    by (auto simp: bucket_live_def)
  from rehash_ok [OF mid refl this] obtain m2 g2 where r: "rehash ?n [0..<n_buckets m] (?m1, ?g) = Some (m2, g2)"
    "mid_ok V ?n m2 g2 None (entries m)" "{i. bucket_live m2 i} = {}"
    "m2 = ?m1\<lparr>mp_keys := mp_keys m2, mp_vals := mp_vals m2, mp_flags := mp_flags m2\<rparr>" by blast
  have f: "n_buckets m2 = n_buckets m" "mp_size m2 = mp_size m" "mp_is_map m2 = mp_is_map m"
    "hash_func m2 = hash_func m" "equal_func m2 = equal_func m"
    by (subst r(4), simp)+
  have len: "length (mp_keys m2) = max (n_buckets m) ?n" "length (mp_vals m2) = length (mp_keys m2)"
    using r(2) f by (auto simp: mid_ok_def)
  define m' where "m' = (if n_buckets m2 > ?n then m2\<lparr>mp_keys := take ?n (mp_keys m2), mp_vals := take ?n (mp_vals m2)\<rparr> else m2)
      \<lparr>mp_flags := g2, n_buckets := ?n, n_occupied := mp_size m2, upper_bound := hsk_upper ?n\<rparr>"
  have res: "hsk_map_resize all_mem m new_n = Some (0, m')"
    unfolding hsk_map_resize_def all_mem_def Let_def split_conv n(1) [unfolded grown_buckets_def Let_def]
    using size r(1) m0 c(7) f by (auto simp: m'_def)
  have inj: "inj_on (entry_at m) {i. bucket_live m i}"
    using c(5,6) unfolding inj_on_def entry_at_def by simp (metis option.sel)
  have size2: "mp_size m2 = card (entries m)"
    unfolding entries_image using c(4) f(2) card_image [OF inj] by simp
  have fields: "mp_keys m' = take ?n (mp_keys m2)" "mp_vals m' = take ?n (mp_vals m2)" "mp_flags m' = g2"
    "n_buckets m' = ?n" "n_occupied m' = mp_size m2" "mp_size m' = mp_size m2" "upper_bound m' = hsk_upper ?n"
    "mp_is_map m'" "hash_func m' = hash_func m2" "equal_func m' = equal_func m2"
    using len f c(7) by (auto simp: m'_def)
  have "\<forall>a b. V a \<and> V b \<longrightarrow> equal_func m2 a b = (a = b)" using ok f(5) by (simp add: hmap_ok_def)
  note fin = mid_end [OF r(2,3) refl n(2) size2 _ this fields]
  have "card (entries m) \<le> hsk_upper ?n" using size size2 f(2) by simp
  note fin = fin [OF this]
  have "hmap_abs m' = hmap_abs m" by (rule same_entries [OF fin(2) ok fin(3)])
  then show ?thesis using res fin(1,2) fields f by auto
qed

lemma unat_two_power: "k < 32 \<Longrightarrow> unat ((2 :: u32) ^ k) = 2 ^ k"
proof -
  assume "k < 32"
  then have "(2 :: nat) ^ k < 2 ^ 32" by (intro power_strict_increasing) simp_all
  moreover have "(2 :: u32) ^ k = of_nat (2 ^ k)" by simp
  ultimately show ?thesis by (simp only: unat_of_nat) simp
qed

lemma grown_buckets_next:
  assumes "k < 31" and "2 \<le> k"
  shows "grown_buckets (2 ^ k - 1) = 2 ^ k" and "grown_buckets (2 ^ k + 1) = 2 ^ Suc k"
proof -
  have pow4: "(4 :: nat) \<le> 2 ^ k" using power_increasing [of 2 k "2 :: nat"] assms(2) by simp
  moreover have "(4 :: nat) \<le> 2 ^ Suc k" using pow4 by simp
  ultimately have ge: "\<not> (2 :: u32) ^ k < 4" "\<not> (2 :: u32) ^ Suc k < 4"
    using assms unat_two_power [of k] unat_two_power [of "Suc k"] by (auto simp: word_nat simp del: power_Suc)
  have "(of_nat (2 ^ k - 1) :: u32) = 2 ^ k - 1" by (simp add: of_nat_diff)
  moreover have "(of_nat (2 ^ k + 1) :: u32) = 2 ^ k + 1" by simp
  ultimately show "grown_buckets (2 ^ k - 1) = 2 ^ k" "grown_buckets (2 ^ k + 1) = 2 ^ Suc k"
    unfolding grown_buckets_def Let_def using roundup_words [OF assms] ge unat_two_power [of k] unat_two_power [of "Suc k"] assms(1)
    by (simp_all del: power_Suc of_nat_Suc)
qed

lemma grown_buckets_first: "grown_buckets (Suc 0) = 4"
  by (simp add: grown_buckets_def hsk_roundup32_def)

section \<open>Insertion, lookup and deletion\<close>

lemma put_resized:
  assumes ok: "hmap_ok V m" and small: "n_buckets m < 2 ^ 31"
  shows "\<exists>m1. (if n_occupied m \<ge> upper_bound m then
          if n_buckets m > 2 * mp_size m then hsk_map_resize all_mem m (n_buckets m - 1)
          else hsk_map_resize all_mem m (n_buckets m + 1)
        else Some (0, m)) = Some (0, m1) \<and> table_ok V m1 \<and> hmap_ok V m1 \<and>
     hmap_abs m1 = hmap_abs m \<and> n_occupied m1 < upper_bound m1"
proof (cases "n_occupied m \<ge> upper_bound m")
  case full: True
  have size: "mp_size m \<le> n_buckets m"
  proof -
    have "card {i. bucket_live m i} \<le> card {..<n_buckets m}" by (intro card_mono) (auto simp: bucket_live_def)
    then show ?thesis using hmap_ok_common(4) [OF ok] by simp
  qed
  consider (empty) "n_buckets m = 0" "mp_size m = 0" | (tab) k where "2 \<le> k" "n_buckets m = 2 ^ k"
    using ok by (auto simp: hmap_ok_def table_ok_def)
  then show ?thesis
  proof cases
    case empty
    then show ?thesis
      using resize_ok [OF ok, of "n_buckets m + 1" 2] full by (auto simp: grown_buckets_first hsk_upper_def)
  next
    case tab
    have k: "k < 31" using small tab(2) power_less_imp_less_exp [of "2 :: nat" k 31] by simp
    have pow4: "(4 :: nat) \<le> 2 ^ k" using power_increasing [of 2 k "2 :: nat"] tab(1) by simp
    show ?thesis
    proof (cases "n_buckets m > 2 * mp_size m")
      case True
      then have "mp_size m < hsk_upper (2 ^ k)" using tab(2) pow4 by (simp add: hsk_upper_def)
      from resize_ok [OF ok grown_buckets_next(1) [OF k tab(1)] tab(1) this] True full tab(2) this
      show ?thesis by auto
    next
      case False
      have "mp_size m < hsk_upper (2 ^ Suc k)" using size tab(2) pow4 by (simp add: hsk_upper_def)
      from resize_ok [OF ok grown_buckets_next(2) [OF k tab(1)] _ this] False full tab this
      show ?thesis by auto
    qed
  qed
next
  case False
  then have "table_ok V m" using ok by (auto simp: hmap_ok_def)
  with False ok show ?thesis by auto
qed

lemma map_set_ok:
  assumes ok: "hmap_ok V m" and small: "n_buckets m < 2 ^ 31" and key: "V key"
  shows "\<exists>m'. hsk_map_set all_mem m key v = Some (True, m') \<and> hmap_ok V m' \<and> hmap_abs m' = (hmap_abs m)(key := v)"
proof -
  obtain m1 where m1: "(if n_occupied m \<ge> upper_bound m then
          if n_buckets m > 2 * mp_size m then hsk_map_resize all_mem m (n_buckets m - 1)
          else hsk_map_resize all_mem m (n_buckets m + 1)
        else Some (0, m)) = Some (0, m1)" "table_ok V m1" "hmap_ok V m1" "hmap_abs m1 = hmap_abs m"
      "n_occupied m1 < upper_bound m1"
    using put_resized [OF ok small] by blast
  obtain x where x: "put_bucket m1 key = Some x"
    "if \<exists>i. bucket_live m1 i \<and> mp_keys m1 ! i = Some key then bucket_live m1 x \<and> mp_keys m1 ! x = Some key
     else free_bucket m1 key x"
    using put_bucket_result [OF m1(2,3) key] by blast
  let ?s = "put_store m1 key x"
  let ?m = "(snd (snd ?s))\<lparr>mp_vals := (mp_vals m1)[x := v]\<rparr>"
  have put: "hsk_map_put all_mem m key = Some ?s" unfolding hsk_map_put_def m1(1) using x(1) by simp
  have same: "mp_vals (snd (snd ?s)) = mp_vals m1" by (simp add: put_store_def)
  have fns: "mp_is_map ?m = mp_is_map m1" "equal_func ?m = equal_func m1" by (simp_all add: put_store_def)
  have "fst ?s = x \<and> fst (snd ?s) \<noteq> -1 \<and> table_ok V ?m \<and> hmap_abs ?m = (hmap_abs m1)(key := v)"
  proof (cases "\<exists>i. bucket_live m1 i \<and> mp_keys m1 ! i = Some key")
    case True
    then have "bucket_live m1 x" "mp_keys m1 ! x = Some key" using x(2) by simp_all
    from store_present(1,2) [OF m1(2) this, where v = v] store_present(3) [OF m1(2) this] show ?thesis by simp
  next
    case False
    then have "free_bucket m1 key x" "\<forall>i. bucket_live m1 i \<longrightarrow> mp_keys m1 ! i \<noteq> Some key" using x(2) by auto
    from store_new(1,2) [OF m1(2) key this m1(5), where v = v] store_new(3,4) [OF m1(2) key this m1(5)]
    show ?thesis by simp
  qed
  moreover have "hsk_map_set all_mem m key v = Some (True, ?m)" if "fst ?s = x" "fst (snd ?s) \<noteq> -1"
    unfolding hsk_map_set_def put using that same by (simp add: split_beta)
  ultimately show ?thesis using m1(3,4) fns by (auto simp: hmap_ok_def)
qed

lemma map_get_ok:
  assumes ok: "hmap_ok V m" and key: "V key"
  shows "hsk_map_get m key = Some (hmap_abs m key)"
proof (cases "\<exists>i. bucket_live m i \<and> mp_keys m ! i = Some key")
  case True
  then obtain i where i: "bucket_live m i" "mp_keys m ! i = Some key" by blast
  then have tab: "table_ok V m" using ok by (auto simp: hmap_ok_def bucket_live_def)
  show ?thesis
    using lookup_present [OF tab ok key i] hmap_abs_present [OF tab i] i(1)
    by (simp add: hsk_map_get_def hsk_map_exists_def bucket_live_def)
next
  case False
  then show ?thesis
    using lookup_absent [OF ok key] hmap_abs_absent [of m key] by (auto simp: hsk_map_get_def)
qed

lemma map_del_ok:
  assumes ok: "hmap_ok V m" and key: "V key"
  shows "\<exists>found m'. hsk_map_del m key = Some (found, m') \<and> hmap_ok V m' \<and> hmap_abs m' = (hmap_abs m)(key := None) \<and>
    n_buckets m' = n_buckets m \<and> hsk_map_has m key = Some found"
proof (cases "\<exists>i. bucket_live m i \<and> mp_keys m ! i = Some key")
  case True
  then obtain i where i: "bucket_live m i" "mp_keys m ! i = Some key" by blast
  then have tab: "table_ok V m" using ok by (auto simp: hmap_ok_def bucket_live_def)
  have "hsk_map_del m key = Some (True, hsk_map_delete m i)" "hsk_map_has m key = Some True"
    using lookup_present [OF tab ok key i] i(1) by (simp_all add: hsk_map_del_def hsk_map_has_def hsk_map_exists_def bucket_live_def)
  moreover have "hmap_ok V (hsk_map_delete m i)"
    using delete_live(1) [OF tab i] ok by (simp add: hmap_ok_def hsk_map_delete_def)
  moreover have "n_buckets (hsk_map_delete m i) = n_buckets m" by (simp add: hsk_map_delete_def)
  ultimately show ?thesis using delete_live(2) [OF tab i] by auto
next
  case False
  then have "hmap_abs m key = None" by (intro hmap_abs_absent) blast
  then have "(hmap_abs m)(key := None) = hmap_abs m" by (simp add: fun_upd_idem)
  moreover have "hsk_map_del m key = Some (False, m)" "hsk_map_has m key = Some False"
    using lookup_absent [OF ok key] False by (simp_all add: hsk_map_del_def hsk_map_has_def)
  ultimately show ?thesis using ok by (intro exI [of _ False] exI [of _ m]) simp
qed

interpretation hmap: dictionary "hmap_ok V" "\<lambda>m. n_buckets m < 2 ^ 31" V hmap_abs hsk_map_get
  "hsk_map_set all_mem" hsk_map_del for V :: "'k \<Rightarrow> bool"
proof
  fix m :: "('k, 'v) hsk_map" and k :: 'k and v :: "'v option"
  assume m: "hmap_ok V m" and k: "V k"
  show "hsk_map_get m k = Some (hmap_abs m k)" by (rule map_get_ok [OF m k])
  show "\<exists>found m'. hsk_map_del m k = Some (found, m') \<and> hmap_ok V m' \<and> hmap_abs m' = (hmap_abs m)(k := None)"
    using map_del_ok [OF m k] by blast
  show "\<exists>m'. hsk_map_set all_mem m k v = Some (True, m') \<and> hmap_ok V m' \<and> hmap_abs m' = (hmap_abs m)(k := v)"
    if "n_buckets m < 2 ^ 31" using map_set_ok [OF m that k] by blast
qed

section \<open>The tables of the daemon\<close>

lemma init_ok:
  assumes "\<forall>a b. V a \<and> V b \<longrightarrow> equal a b = (a = b)"
  shows "hmap_ok V (hsk_map_init_map hash equal free)" and "hmap_abs (hsk_map_init_map hash equal free) = Map.empty"
  using assms by (auto simp: hmap_ok_def hmap_abs_def hsk_map_init_map_def hsk_map_init_def)

lemma init_hash_map_ok:
  "hmap_ok (\<lambda>k. length k = 32) (hsk_map_init_hash_map free)" "hmap_abs (hsk_map_init_hash_map free) = Map.empty"
  unfolding hsk_map_init_hash_map_def
  by (rule init_ok; auto simp: hsk_map_equal_hash_def memcmp_eq_0)+

lemma init_int_map_ok:
  "hmap_ok (\<lambda>k. True) (hsk_map_init_int_map free)" "hmap_abs (hsk_map_init_int_map free) = Map.empty"
  unfolding hsk_map_init_int_map_def by (rule init_ok; simp add: hsk_map_equal_int_def)+

section \<open>Correctness\<close>

text \<open>
  C29. On a well-formed table, lookup, insertion and deletion always return and are lookup, update
  and removal in the finite map the table stands for; insertion and deletion keep the table
  well-formed, and deletion reports whether the key was there.
\<close>

theorem hmap_refines_map:
  assumes "hmap_ok V m" and "V key" and "n_buckets m < 2 ^ 31"
  shows "hsk_map_get m key = Some (hmap_abs m key) \<and>
    (\<exists>m'. hsk_map_set all_mem m key v = Some (True, m') \<and> hmap_ok V m' \<and> hmap_abs m' = (hmap_abs m)(key := v)) \<and>
    (\<exists>found m'. hsk_map_del m key = Some (found, m') \<and> hmap_ok V m' \<and> hmap_abs m' = (hmap_abs m)(key := None) \<and>
       hsk_map_has m key = Some found)"
  using map_get_ok [OF assms(1,2)] map_set_ok [OF assms(1,3,2), of v] map_del_ok [OF assms(1,2)] by blast

theorem hmap_refines_map_witness:
  "\<exists>m'. hsk_map_set all_mem (hsk_map_init_int_map False) 7 (Some True) = Some (True, m') \<and> hmap_abs m' = [7 \<mapsto> True]"
proof -
  let ?m = "hsk_map_init_int_map False :: (u32, bool) hsk_map"
  have "n_buckets ?m < 2 ^ 31" by (simp add: hsk_map_init_int_map_def hsk_map_init_map_def hsk_map_init_def)
  then show ?thesis
    using hmap_refines_map [OF init_int_map_ok(1) [of False], of 7 "Some True"] by (auto simp: init_int_map_ok(2))
qed

text \<open>
  Storing a value under a key and looking a key up again returns that value for the key and
  what was there before for every other key.
\<close>

theorem hmap_get_after_set:
  assumes "hmap_ok V m" and "n_buckets m < 2 ^ 31" and "V key" and "V other"
  shows "Option.bind (hsk_map_set all_mem m key v) (\<lambda>(ok, m'). hsk_map_get m' other) =
    (if other = key then Some v else hsk_map_get m other)"
  by (rule hmap.get_after_ins [OF assms])

theorem hmap_get_after_set_witness:
  "Option.bind (hsk_map_set all_mem (hsk_map_init_hash_map True) (replicate 32 1) (Some (5 :: nat)))
     (\<lambda>(ok, m'). hsk_map_get m' (replicate 32 1)) = Some (Some 5)"
  by (subst hmap_get_after_set [OF init_hash_map_ok(1)])
    (simp_all add: hsk_map_init_hash_map_def hsk_map_init_map_def hsk_map_init_def)

text \<open>
  C30. Resizing to any number of buckets that leaves the table below its load limit always returns,
  with a well-formed table of the rounded-up size, no deleted buckets and the same map.
\<close>

theorem hmap_resize_preserves:
  assumes "hmap_ok V m" and "grown_buckets new_n = 2 ^ k" and "2 \<le> k" and "mp_size m < hsk_upper (2 ^ k)"
  shows "\<exists>m'. hsk_map_resize all_mem m new_n = Some (0, m') \<and> hmap_ok V m' \<and> hmap_abs m' = hmap_abs m \<and>
    n_buckets m' = 2 ^ k \<and> n_occupied m' = mp_size m"
  using resize_ok [OF assms] by blast

theorem hmap_resize_preserves_witness:
  "\<exists>m' :: (u32, bool) hsk_map. hsk_map_resize all_mem (hsk_map_init_int_map False) 5 = Some (0, m') \<and> n_buckets m' = 8"
proof -
  have "grown_buckets 5 = 2 ^ 3" by (simp add: grown_buckets_def hsk_roundup32_def)
  moreover have "mp_size (hsk_map_init_int_map False :: (u32, bool) hsk_map) < hsk_upper (2 ^ 3)"
    by (simp add: hsk_map_init_int_map_def hsk_map_init_map_def hsk_map_init_def hsk_upper_def)
  ultimately show ?thesis
    using hmap_resize_preserves [OF init_int_map_ok(1) [of False], of 5 3] by auto
qed

end
