(* ===== verification/Bn.thy ===== *)
theory Bn
  imports Bio
begin

text \<open>
  The fixed-size big numbers of \<^verbatim>\<open>bn.c\<close>: sixteen 32-bit limbs, least significant first. Each
  operation is the loop of the source over its limb array; \<open>bn_val\<close> is the number an array
  stands for. Shown for every operation the chain uses: its value is the arithmetic operation
  modulo \<open>2 ^ 512\<close>, division terminates exactly for a non-zero divisor, and the conversion from
  and to byte arrays is big-endian.
\<close>

type_synonym hsk_bn = "u32 list"

abbreviation HSK_BN_SIZE :: nat where "HSK_BN_SIZE \<equiv> 16"
abbreviation HSK_BN_MAX :: u64 where "HSK_BN_MAX \<equiv> 0xffffffff"

section \<open>Operations\<close>

definition hsk_bn_init :: hsk_bn where
  "hsk_bn_init = replicate HSK_BN_SIZE 0"

definition hsk_bn_from_int :: "u64 \<Rightarrow> hsk_bn" where
  "hsk_bn_from_int i = hsk_bn_init[0 := ucast i, 1 := ucast (drop_bit 32 i)]"

definition hsk_bn_to_int :: "hsk_bn \<Rightarrow> u64" where
  "hsk_bn_to_int n = ucast (n ! 0) OR push_bit 32 (ucast (n ! 1))"

text \<open>The two conversion loops count \<open>j\<close> down over the limbs and \<open>i\<close> up over the bytes.\<close>

definition hsk_bn_from_array :: "bytes \<Rightarrow> nat \<Rightarrow> hsk_bn" where
  "hsk_bn_from_array arr sz =
     fst (foldl (\<lambda>(n, i) j.
       (n[j := push_bit 24 (ucast (arr ! i)) OR push_bit 16 (ucast (arr ! (i + 1))) OR
               push_bit 8 (ucast (arr ! (i + 2))) OR ucast (arr ! (i + 3))], i + 4))
       (hsk_bn_init, 0) (rev [0..<sz div 4]))"

definition hsk_bn_to_array :: "hsk_bn \<Rightarrow> nat \<Rightarrow> bytes" where
  "hsk_bn_to_array n sz =
     foldl (\<lambda>out j. out @ [ucast (drop_bit 24 (n ! j)), ucast (drop_bit 16 (n ! j)),
                            ucast (drop_bit 8 (n ! j)), ucast (n ! j)]) [] (rev [0..<sz div 4])"

definition hsk_bn_neg :: "hsk_bn \<Rightarrow> hsk_bn" where
  "hsk_bn_neg n = map (\<lambda>tmp. NOT tmp) n"

fun hsk_bn_dec :: "hsk_bn \<Rightarrow> hsk_bn" where
  "hsk_bn_dec [] = []"
| "hsk_bn_dec (tmp # n) =
     (let res = tmp - 1 in if \<not> res > tmp then res # n else res # hsk_bn_dec n)"

fun hsk_bn_inc :: "hsk_bn \<Rightarrow> hsk_bn" where
  "hsk_bn_inc [] = []"
| "hsk_bn_inc (w # n) =
     (let tmp = ucast w :: u64; res = ucast (tmp + 1) :: u32
      in if (ucast res :: u64) > tmp then res # n else res # hsk_bn_inc n)"

fun add_limbs :: "hsk_bn \<Rightarrow> hsk_bn \<Rightarrow> u64 \<Rightarrow> hsk_bn" where
  "add_limbs (x # a) (y # b) carry =
     (let tmp = ucast x + ucast y + carry
      in ucast (tmp AND HSK_BN_MAX) # add_limbs a b (if tmp > HSK_BN_MAX then 1 else 0))"
| "add_limbs a b carry = []"

definition hsk_bn_add :: "hsk_bn \<Rightarrow> hsk_bn \<Rightarrow> hsk_bn" where
  "hsk_bn_add a b = add_limbs a b 0"

fun sub_limbs :: "hsk_bn \<Rightarrow> hsk_bn \<Rightarrow> u64 \<Rightarrow> hsk_bn" where
  "sub_limbs (x # a) (y # b) borrow =
     (let tmp1 = ucast x + (HSK_BN_MAX + 1); tmp2 = ucast y + borrow; res = tmp1 - tmp2
      in ucast (res AND HSK_BN_MAX) # sub_limbs a b (if res \<le> HSK_BN_MAX then 1 else 0))"
| "sub_limbs a b borrow = []"

definition hsk_bn_sub :: "hsk_bn \<Rightarrow> hsk_bn \<Rightarrow> hsk_bn" where
  "hsk_bn_sub a b = sub_limbs a b 0"

text \<open>
  The shifts update the array in place: the loops go down when a limb needs its lower neighbour
  and up when it needs the higher one. Writes beyond the sixteen limbs, which the source does for
  word shifts of 16 or more to the right, have no counterpart here.
\<close>

definition lshift_word :: "hsk_bn \<Rightarrow> nat \<Rightarrow> hsk_bn" where
  "lshift_word a nwords =
     foldl (\<lambda>a i. a[i := 0])
       (foldl (\<lambda>a i. a[i := a ! (i - nwords)]) a (rev [nwords..<HSK_BN_SIZE]))
       (rev [0..<min nwords HSK_BN_SIZE])"

definition rshift_word :: "hsk_bn \<Rightarrow> nat \<Rightarrow> hsk_bn" where
  "rshift_word a nwords =
     foldl (\<lambda>a i. a[i := 0]) (foldl (\<lambda>a i. a[i := a ! (i + 1)]) a [0..<nwords])
       [nwords..<HSK_BN_SIZE]"

definition lshift_one_bit :: "hsk_bn \<Rightarrow> hsk_bn" where
  "lshift_one_bit a =
     (let a = foldl (\<lambda>a i. a[i := push_bit 1 (a ! i) OR drop_bit 31 (a ! (i - 1))]) a
                (rev [1..<HSK_BN_SIZE])
      in a[0 := push_bit 1 (a ! 0)])"

definition rshift_one_bit :: "hsk_bn \<Rightarrow> hsk_bn" where
  "rshift_one_bit a =
     (let a = foldl (\<lambda>a i. a[i := drop_bit 1 (a ! i) OR push_bit 31 (a ! (i + 1))]) a
                [0..<HSK_BN_SIZE - 1]
      in a[HSK_BN_SIZE - 1 := drop_bit 1 (a ! (HSK_BN_SIZE - 1))])"

definition hsk_bn_lshift :: "hsk_bn \<Rightarrow> nat \<Rightarrow> hsk_bn" where
  "hsk_bn_lshift a nbits =
     (let nwords = nbits div 32;
          a = (if nwords \<noteq> 0 then lshift_word a nwords else a);
          nbits = nbits - nwords * 32
      in if nbits \<noteq> 0
         then let a = foldl (\<lambda>a i. a[i := push_bit nbits (a ! i) OR drop_bit (32 - nbits) (a ! (i - 1))])
                        a (rev [1..<HSK_BN_SIZE])
              in a[0 := push_bit nbits (a ! 0)]
         else a)"

definition hsk_bn_rshift :: "hsk_bn \<Rightarrow> nat \<Rightarrow> hsk_bn" where
  "hsk_bn_rshift a nbits =
     (let nwords = nbits div 32;
          a = (if nwords \<noteq> 0 then rshift_word a nwords else a);
          nbits = nbits - nwords * 32
      in if nbits \<noteq> 0
         then let a = foldl (\<lambda>a i. a[i := drop_bit nbits (a ! i) OR push_bit (32 - nbits) (a ! (i + 1))])
                        a [0..<HSK_BN_SIZE - 1]
              in a[HSK_BN_SIZE - 1 := drop_bit nbits (a ! (HSK_BN_SIZE - 1))]
         else a)"

definition hsk_bn_and :: "hsk_bn \<Rightarrow> hsk_bn \<Rightarrow> hsk_bn" where
  "hsk_bn_and a b = map2 (\<lambda>x y. x AND y) a b"

definition hsk_bn_or :: "hsk_bn \<Rightarrow> hsk_bn \<Rightarrow> hsk_bn" where
  "hsk_bn_or a b = map2 (\<lambda>x y. x OR y) a b"

definition hsk_bn_xor :: "hsk_bn \<Rightarrow> hsk_bn \<Rightarrow> hsk_bn" where
  "hsk_bn_xor a b = map2 (\<lambda>x y. x XOR y) a b"

text \<open>The comparison goes down from the most significant limb.\<close>

fun cmp_limbs :: "hsk_bn \<Rightarrow> hsk_bn \<Rightarrow> nat \<Rightarrow> int" where
  "cmp_limbs a b 0 = 0"
| "cmp_limbs a b (Suc i) =
     (if a ! i > b ! i then 1 else if a ! i < b ! i then -1 else cmp_limbs a b i)"

definition hsk_bn_cmp :: "hsk_bn \<Rightarrow> hsk_bn \<Rightarrow> int" where
  "hsk_bn_cmp a b = cmp_limbs a b HSK_BN_SIZE"

definition hsk_bn_is_zero :: "hsk_bn \<Rightarrow> bool" where
  "hsk_bn_is_zero n \<longleftrightarrow> list_all (\<lambda>w. w = 0) n"

definition mul_row :: "hsk_bn \<Rightarrow> hsk_bn \<Rightarrow> nat \<Rightarrow> nat \<Rightarrow> hsk_bn" where
  "mul_row a b i n =
     foldl (\<lambda>row j.
       if i + j < HSK_BN_SIZE
       then hsk_bn_add (lshift_word (hsk_bn_from_int (ucast (a ! i) * ucast (b ! j))) (i + j)) row
       else row) hsk_bn_init [0..<n]"

definition hsk_bn_mul :: "hsk_bn \<Rightarrow> hsk_bn \<Rightarrow> hsk_bn" where
  "hsk_bn_mul a b =
     foldl (\<lambda>cc i. hsk_bn_add cc (mul_row a b i HSK_BN_SIZE)) hsk_bn_init [0..<HSK_BN_SIZE]"

text \<open>
  Division. The first loop doubles the divisor until it passes the dividend or its top bit is
  set; it never ends when the divisor is zero, which is the result \<open>None\<close>. The second loop takes
  the multiples off the dividend.
\<close>

partial_function (option) div_grow :: "hsk_bn \<Rightarrow> hsk_bn \<Rightarrow> hsk_bn \<Rightarrow> (hsk_bn \<times> hsk_bn) option" where
  "div_grow a current denom =
     (if hsk_bn_cmp denom a \<noteq> 1 then
        if ucast (denom ! (HSK_BN_SIZE - 1)) \<ge> (1 + HSK_BN_MAX div 2)
        then Some (current, denom)
        else div_grow a (lshift_one_bit current) (lshift_one_bit denom)
      else Some (rshift_one_bit current, rshift_one_bit denom))"

partial_function (option) div_take :: "hsk_bn \<Rightarrow> hsk_bn \<Rightarrow> hsk_bn \<Rightarrow> hsk_bn \<Rightarrow> hsk_bn option" where
  "div_take tmp current denom c =
     (if \<not> hsk_bn_is_zero current then
        if hsk_bn_cmp tmp denom \<noteq> -1
        then div_take (hsk_bn_sub tmp denom) (rshift_one_bit current) (rshift_one_bit denom)
               (hsk_bn_or c current)
        else div_take tmp (rshift_one_bit current) (rshift_one_bit denom) c
      else Some c)"

definition hsk_bn_div :: "hsk_bn \<Rightarrow> hsk_bn \<Rightarrow> hsk_bn option" where
  "hsk_bn_div a b = (case div_grow a (hsk_bn_from_int 1) b of None \<Rightarrow> None
     | Some (current, denom) \<Rightarrow> div_take a current denom hsk_bn_init)"

definition hsk_bn_mod :: "hsk_bn \<Rightarrow> hsk_bn \<Rightarrow> hsk_bn option" where
  "hsk_bn_mod a b = do { c \<leftarrow> hsk_bn_div a b; Some (hsk_bn_sub a (hsk_bn_mul c b)) }"

partial_function (option) pow_loop :: "hsk_bn \<Rightarrow> hsk_bn \<Rightarrow> hsk_bn \<Rightarrow> hsk_bn option" where
  "pow_loop a b tmp =
     (if \<not> hsk_bn_is_zero b then pow_loop a (hsk_bn_dec b) (hsk_bn_mul tmp a) else Some tmp)"

definition hsk_bn_pow :: "hsk_bn \<Rightarrow> hsk_bn \<Rightarrow> hsk_bn option" where
  "hsk_bn_pow a b = (if hsk_bn_cmp b hsk_bn_init = 0 then Some (hsk_bn_inc hsk_bn_init)
     else pow_loop a (hsk_bn_dec b) a)"

section \<open>Values\<close>

primrec bn_val :: "hsk_bn \<Rightarrow> nat" where
  "bn_val [] = 0"
| "bn_val (w # n) = unat w + 2 ^ 32 * bn_val n"

definition bn_ok :: "hsk_bn \<Rightarrow> bool" where
  "bn_ok n \<longleftrightarrow> length n = HSK_BN_SIZE"

lemma bn_val_lt: "bn_val n < 2 ^ (32 * length n)"
proof (induction n)
  case (Cons w n)
  have "unat w + 2 ^ 32 * bn_val n < 2 ^ 32 * Suc (bn_val n)"
    using unat_u32_lt [of w] by simp
  also have "\<dots> \<le> 2 ^ 32 * 2 ^ (32 * length n)"
    using Cons.IH by (intro mult_left_mono) auto
  finally show ?case by (simp add: power_add)
qed simp

lemma bn_val_append: "bn_val (xs @ ys) = bn_val xs + 2 ^ (32 * length xs) * bn_val ys"
  by (induction xs) (simp_all add: power_add algebra_simps)

lemma bn_val_replicate0 [simp]: "bn_val (replicate k 0) = 0"
  by (induction k) simp_all

lemma bn_val_inj: "length a = length b \<Longrightarrow> bn_val a = bn_val b \<longleftrightarrow> a = b"
proof (induction a b rule: list_induct2)
  case (Cons x xs y ys)
  have "unat x + 2 ^ 32 * bn_val xs = unat y + 2 ^ 32 * bn_val ys \<longleftrightarrow>
        unat x = unat y \<and> bn_val xs = bn_val ys"
    using unat_u32_lt [of x] unat_u32_lt [of y] by (intro digit_eq_iff) auto
  with Cons.IH show ?case by (simp add: word_unat_eq_iff)
qed simp

lemma bn_ok_lt: "bn_ok n \<Longrightarrow> bn_val n < 2 ^ 512"
  using bn_val_lt [of n] by (simp add: bn_ok_def)

lemma bn_val_take_Suc:
  "j < length b \<Longrightarrow> bn_val (take (Suc j) b) = bn_val (take j b) + unat (b ! j) * 2 ^ (32 * j)"
  by (simp add: take_Suc_conv_app_nth bn_val_append)

lemma bn_is_zero [bn_simps]: "hsk_bn_is_zero n \<longleftrightarrow> bn_val n = 0"
  by (induction n) (auto simp: hsk_bn_is_zero_def unat_eq_0)

lemma bn_ok_init [simp, intro]: "bn_ok hsk_bn_init"
  and bn_val_init [bn_simps]: "bn_val hsk_bn_init = 0"
  by (simp_all add: bn_ok_def hsk_bn_init_def)

subsection \<open>Conversion from machine integers\<close>

lemma unat_ucast_u64 [simp]: "unat (ucast (x :: u32) :: u64) = unat x"
  by (rule unat_ucast_up) simp

lemma bn_ok_from_int [simp, intro]: "bn_ok (hsk_bn_from_int i)"
  by (simp add: bn_ok_def hsk_bn_from_int_def hsk_bn_init_def)

lemma bn_val_from_int [bn_simps]: "bn_val (hsk_bn_from_int i) = unat i"
proof -
  have "hsk_bn_from_int i = ucast i # ucast (drop_bit 32 i) # replicate 14 0"
    by (simp add: hsk_bn_from_int_def hsk_bn_init_def numeral_eq_Suc)
  moreover have "unat (drop_bit 32 i) = unat i div 2 ^ 32"
    by (rule unat_drop_bit)
  moreover have "unat i div 2 ^ 32 < 2 ^ 32"
    using unat_u64_lt [of i] by (simp add: less_mult_imp_div_less)
  ultimately show ?thesis by (simp add: unat_ucast_mod)
qed

subsection \<open>Addition and subtraction\<close>

lemma unat_and_max: "unat (ucast ((t :: u64) AND HSK_BN_MAX) :: u32) = unat t mod 2 ^ 32"
proof -
  have "t AND HSK_BN_MAX = take_bit 32 t" by (simp add: take_bit_eq_mask mask_eq_exp_minus_1)
  then show ?thesis by (simp only: unat_ucast_mod unat_take_bit) simp
qed

lemma bn_val_add_limbs:
  assumes "length a = length b" and "unat c \<le> 1"
  shows "bn_val (add_limbs a b c) = (bn_val a + bn_val b + unat c) mod 2 ^ (32 * length a)"
    and "length (add_limbs a b c) = length a"
  using assms
proof (induction a b arbitrary: c rule: list_induct2)
  case Nil
  { case 1 then show ?case by simp }
  { case 2 then show ?case by simp }
next
  case (Cons x a y b)
  { case 1
    define t where "t = ucast x + ucast y + c"
    define c' :: u64 where "c' = (if t > HSK_BN_MAX then 1 else 0)"
    have t: "unat t = unat x + unat y + unat c"
      using 1 unat_u32_lt [of x] unat_u32_lt [of y]
      unfolding t_def by (simp add: unat_word_ariths)
    then have c': "unat c' = unat t div 2 ^ 32" "unat c' \<le> 1"
      using 1 unat_u32_lt [of x] unat_u32_lt [of y] unfolding c'_def by (auto simp: word_nat)
    have "bn_val (add_limbs (x # a) (y # b) c)
        = unat t mod 2 ^ 32 + 2 ^ 32 * ((bn_val a + bn_val b + unat c') mod 2 ^ (32 * length a))"
      using Cons.IH(1) [OF c'(2)]
      by (simp add: Let_def unat_and_max t_def [symmetric] c'_def [symmetric] del: power_numeral)
    also have "\<dots> = (unat t mod 2 ^ 32 + 2 ^ 32 * (bn_val a + bn_val b + unat t div 2 ^ 32))
        mod (2 ^ 32 * 2 ^ (32 * length a))"
      using c'(1) by (simp add: mod_mult2_eq del: power_numeral)
    also have "unat t mod 2 ^ 32 + 2 ^ 32 * (bn_val a + bn_val b + unat t div 2 ^ 32)
        = unat t + 2 ^ 32 * (bn_val a + bn_val b)"
      by (simp add: distrib_left del: power_numeral)
    finally show ?case
      by (simp add: t power_add algebra_simps) }
  { case 2
    with Cons.IH(2) show ?case by (simp add: Let_def) }
qed

lemma bn_ok_add [simp, intro]: "bn_ok a \<Longrightarrow> bn_ok b \<Longrightarrow> bn_ok (hsk_bn_add a b)"
  using bn_val_add_limbs(2) [of a b 0] by (simp add: bn_ok_def hsk_bn_add_def)

lemma bn_val_add [bn_simps]:
  "bn_ok a \<Longrightarrow> bn_ok b \<Longrightarrow> bn_val (hsk_bn_add a b) = (bn_val a + bn_val b) mod 2 ^ 512"
  using bn_val_add_limbs(1) [of a b 0] by (simp add: bn_ok_def hsk_bn_add_def)

lemma mod_mult_digit:
  fixes B M r D :: int
  assumes "0 < B" and "0 < M"
  shows "(r + B * D) mod (B * M) = r mod B + B * ((r div B + D) mod M)"
  using assms by (simp add: zmod_zmult2_eq add.commute)

lemma bn_val_sub_limbs:
  assumes "length a = length b" and "unat c \<le> 1"
  shows "int (bn_val (sub_limbs a b c)) = (int (bn_val a) - int (bn_val b) - int (unat c)) mod 2 ^ (32 * length a)"
    and "length (sub_limbs a b c) = length a"
  using assms
proof (induction a b arbitrary: c rule: list_induct2)
  case Nil
  { case 1 then show ?case by simp }
  { case 2 then show ?case by simp }
next
  case (Cons x a y b)
  { case 1
    define t :: u64 where "t = (ucast x + (HSK_BN_MAX + 1)) - (ucast y + c)"
    define c' :: u64 where "c' = (if t \<le> HSK_BN_MAX then 1 else 0)"
    define r where "r = int (unat x) - int (unat y) - int (unat c)"
    have x: "unat x < 2 ^ 32" and y: "unat y < 2 ^ 32" using unat_u32_lt by simp_all
    have "unat (ucast x + (HSK_BN_MAX + 1)) = unat x + 2 ^ 32"
      using x by (simp add: unat_word_ariths)
    moreover have "unat (ucast y + c) = unat y + unat c"
      using y 1 by (simp add: unat_word_ariths)
    ultimately have t: "int (unat t) = r + 4294967296"
      using x y 1 unfolding t_def r_def by (subst unat_sub) (auto simp: word_nat)
    have "unat x < 4294967296" "unat y < 4294967296" "unat c \<le> 1" using x y 1 by simp_all
    then have r: "- 4294967296 \<le> r" "r < 4294967296" unfolding r_def by linarith+
    have c': "int (unat c') = - (r div 2 ^ 32)" "unat c' \<le> 1"
    proof -
      have "unat t \<le> 4294967295 \<longleftrightarrow> r < 0" using t by arith
      moreover have "r div 2 ^ 32 = (if r < 0 then - 1 else 0)"
        using r by (auto simp: div_pos_pos_trivial intro: int_div_pos_eq [of _ _ _ "r + 2 ^ 32"])
      ultimately show "int (unat c') = - (r div 2 ^ 32)" "unat c' \<le> 1"
        by (auto simp: c'_def word_nat)
    qed
    have step: "sub_limbs (x # a) (y # b) c = ucast (t AND HSK_BN_MAX) # sub_limbs a b c'"
      by (simp only: sub_limbs.simps Let_def t_def c'_def)
    have "int (unat t mod 2 ^ 32) = r mod 2 ^ 32"
      using t by (simp add: zmod_int)
    then have "int (bn_val (sub_limbs (x # a) (y # b) c))
        = r mod 2 ^ 32 + 2 ^ 32 * ((int (bn_val a) - int (bn_val b) - int (unat c')) mod 2 ^ (32 * length a))"
      unfolding step using Cons.IH(1) [OF c'(2)] by (simp add: unat_and_max del: power_numeral)
    also have "\<dots> = (r + 2 ^ 32 * (int (bn_val a) - int (bn_val b))) mod (2 ^ 32 * 2 ^ (32 * length a))"
    proof -
      have "int (bn_val a) - int (bn_val b) - int (unat c') = r div 2 ^ 32 + (int (bn_val a) - int (bn_val b))"
        using c'(1) by linarith
      then show ?thesis by (simp only: mod_mult_digit zero_less_power zero_less_numeral)
    qed
    finally show ?case
      by (simp add: r_def power_add algebra_simps) }
  { case 2
    with Cons.IH(2) show ?case by (simp add: Let_def) }
qed

lemma bn_ok_sub [simp, intro]: "bn_ok a \<Longrightarrow> bn_ok b \<Longrightarrow> bn_ok (hsk_bn_sub a b)"
  using bn_val_sub_limbs(2) [of a b 0] by (simp add: bn_ok_def hsk_bn_sub_def)

lemma bn_val_sub_mod:
  "bn_ok a \<Longrightarrow> bn_ok b \<Longrightarrow> int (bn_val (hsk_bn_sub a b)) = (int (bn_val a) - int (bn_val b)) mod 2 ^ 512"
  using bn_val_sub_limbs(1) [of a b 0] by (simp add: bn_ok_def hsk_bn_sub_def)

lemma bn_val_sub [bn_simps]:
  assumes "bn_ok a" and "bn_ok b" and "bn_val b \<le> bn_val a"
  shows "bn_val (hsk_bn_sub a b) = bn_val a - bn_val b"
proof -
  have "int (bn_val (hsk_bn_sub a b)) = int (bn_val a - bn_val b) mod 2 ^ 512"
    using bn_val_sub_mod [OF assms(1,2)] assms(3) by (simp add: of_nat_diff)
  also have "\<dots> = int (bn_val a - bn_val b)"
    using bn_ok_lt [OF assms(1)] assms(3) by (intro mod_pos_pos_trivial) auto
  finally show ?thesis by simp
qed

subsection \<open>Comparison\<close>

lemma cmp_limbs_val:
  assumes "i \<le> length a" and "i \<le> length b"
  shows "cmp_limbs a b i = sgn (int (bn_val (take i a)) - int (bn_val (take i b)))"
  using assms
proof (induction i)
  case (Suc i)
  let ?x = "bn_val (take i a)" and ?y = "bn_val (take i b)" and ?B = "2 ^ (32 * i) :: nat"
  have B: "?x < ?B" "?y < ?B"
    using bn_val_lt [of "take i a"] bn_val_lt [of "take i b"] Suc.prems by (simp_all add: min_absorb2)
  have a: "bn_val (take (Suc i) a) = ?x + ?B * unat (a ! i)"
    and b: "bn_val (take (Suc i) b) = ?y + ?B * unat (b ! i)"
    using Suc.prems by (simp_all add: bn_val_take_Suc mult.commute)
  have lt: "bn_val (take (Suc i) a) < bn_val (take (Suc i) b) \<longleftrightarrow>
      unat (a ! i) < unat (b ! i) \<or> unat (a ! i) = unat (b ! i) \<and> ?x < ?y"
    and gt: "bn_val (take (Suc i) b) < bn_val (take (Suc i) a) \<longleftrightarrow>
      unat (b ! i) < unat (a ! i) \<or> unat (b ! i) = unat (a ! i) \<and> ?y < ?x"
    unfolding a b by (rule digit_less_iff; use B in simp)+
  from Suc.IH Suc.prems lt gt show ?case
    by (auto simp: word_nat sgn_if)
qed simp

lemma bn_cmp [bn_simps]:
  "bn_ok a \<Longrightarrow> bn_ok b \<Longrightarrow> hsk_bn_cmp a b = sgn (int (bn_val a) - int (bn_val b))"
  by (simp add: hsk_bn_cmp_def cmp_limbs_val bn_ok_def)

subsection \<open>Shifts\<close>

text \<open>
  An in-place loop that goes down reads the old lower neighbour, one that goes up the old higher
  neighbour: both are the simultaneous update.
\<close>

lemma foldl_down:
  assumes "n \<le> length a" and "1 \<le> k"
  shows "foldl (\<lambda>a i. a[i := g (a ! i) (a ! (i - k))]) a (rev [k..<n]) =
         map (\<lambda>i. if k \<le> i \<and> i < n then g (a ! i) (a ! (i - k)) else a ! i) [0..<length a]"
  using assms(1)
proof (induction n arbitrary: a)
  case 0
  then show ?case by (simp add: map_nth)
next
  case (Suc n)
  show ?case
  proof (cases "k \<le> n")
    case True
    let ?a = "a[n := g (a ! n) (a ! (n - k))]"
    have "foldl (\<lambda>a i. a[i := g (a ! i) (a ! (i - k))]) a (rev [k..<Suc n]) =
          foldl (\<lambda>a i. a[i := g (a ! i) (a ! (i - k))]) ?a (rev [k..<n])"
      using True by simp
    also have "\<dots> = map (\<lambda>i. if k \<le> i \<and> i < n then g (?a ! i) (?a ! (i - k)) else ?a ! i) [0..<length ?a]"
      using Suc.prems by (intro Suc.IH) simp
    also have "\<dots> = map (\<lambda>i. if k \<le> i \<and> i < Suc n then g (a ! i) (a ! (i - k)) else a ! i) [0..<length a]"
      using Suc.prems True assms(2) by (auto simp: nth_list_update)
    finally show ?thesis .
  next
    case False
    then show ?thesis by (auto intro!: nth_equalityI)
  qed
qed

lemma foldl_up:
  assumes "n < length a"
  shows "foldl (\<lambda>a i. a[i := g (a ! i) (a ! (i + 1))]) a [0..<n] =
         map (\<lambda>i. if i < n then g (a ! i) (a ! (i + 1)) else a ! i) [0..<length a]"
  using assms
proof (induction n)
  case 0
  then show ?case by (simp add: map_nth)
next
  case (Suc n)
  then show ?case by (auto simp: nth_list_update intro!: nth_equalityI)
qed

fun shl_limbs :: "nat \<Rightarrow> u32 \<Rightarrow> hsk_bn \<Rightarrow> hsk_bn" where
  "shl_limbs s p [] = []"
| "shl_limbs s p (x # xs) = (push_bit s x OR drop_bit (32 - s) p) # shl_limbs s x xs"

fun shr_limbs :: "nat \<Rightarrow> hsk_bn \<Rightarrow> hsk_bn" where
  "shr_limbs s [] = []"
| "shr_limbs s [x] = [drop_bit s x]"
| "shr_limbs s (x # y # xs) = (drop_bit s x OR push_bit (32 - s) y) # shr_limbs s (y # xs)"

lemma length_shl_limbs [simp]: "length (shl_limbs s p a) = length a"
  by (induction s p a rule: shl_limbs.induct) simp_all

lemma length_shr_limbs [simp]: "length (shr_limbs s a) = length a"
  by (induction s a rule: shr_limbs.induct) simp_all

lemma bn_ok_shl_limbs [simp]: "bn_ok (shl_limbs s p a) \<longleftrightarrow> bn_ok a"
  by (simp add: bn_ok_def)

lemma nth_shl_limbs:
  "i < length a \<Longrightarrow> shl_limbs s p a ! i = push_bit s (a ! i) OR drop_bit (32 - s) (if i = 0 then p else a ! (i - 1))"
  by (induction s p a arbitrary: i rule: shl_limbs.induct) (auto simp: nth_Cons' )

lemma nth_shr_limbs:
  "i < length a \<Longrightarrow> shr_limbs s a ! i =
     (if Suc i = length a then drop_bit s (a ! i) else drop_bit s (a ! i) OR push_bit (32 - s) (a ! Suc i))"
  by (induction s a arbitrary: i rule: shr_limbs.induct) (auto simp: nth_Cons')

lemma lshift_bits_loop:
  assumes "bn_ok a" and "0 < s"
  shows "(let a = foldl (\<lambda>a i. a[i := push_bit s (a ! i) OR drop_bit (32 - s) (a ! (i - 1))]) a
            (rev [1..<HSK_BN_SIZE]) in a[0 := push_bit s (a ! 0)]) = shl_limbs s 0 a"
  using assms foldl_down [of HSK_BN_SIZE a 1 "\<lambda>x y. push_bit s x OR drop_bit (32 - s) y"]
  by (auto simp: bn_ok_def nth_shl_limbs nth_list_update Let_def intro!: nth_equalityI)

lemma rshift_bits_loop:
  assumes "bn_ok a" and "0 < s"
  shows "(let a = foldl (\<lambda>a i. a[i := drop_bit s (a ! i) OR push_bit (32 - s) (a ! (i + 1))]) a
            [0..<HSK_BN_SIZE - 1] in a[HSK_BN_SIZE - 1 := drop_bit s (a ! (HSK_BN_SIZE - 1))]) = shr_limbs s a"
  using assms foldl_up [of "HSK_BN_SIZE - 1" a "\<lambda>x y. drop_bit s x OR push_bit (32 - s) y"]
  by (auto simp: bn_ok_def nth_shr_limbs nth_list_update Let_def intro!: nth_equalityI)

lemma unat_or_disjoint:
  fixes x y :: "'a::len word"
  assumes "x AND y = 0"
  shows "unat (x OR y) = unat x + unat y"
proof -
  have "unat x AND unat y = 0"
    using assms by (metis unsigned_and_eq unsigned_0)
  then show ?thesis
    by (simp add: unsigned_or_eq disjunctive_add_eq_or)
qed

lemma unat_push_bit: "unat (push_bit n (w :: 'a::len word)) = (2 ^ n * unat w) mod 2 ^ LENGTH('a)"
  by (simp only: unsigned_push_bit_eq push_bit_eq_mult [where ?'a = nat] take_bit_eq_mod [where ?'a = nat])
    (simp add: mult.commute)

lemma unat_shl_limb:
  fixes x p :: u32
  assumes "s < 32"
  shows "unat (push_bit s x OR drop_bit (32 - s) p) = (2 ^ s * unat x) mod 2 ^ 32 + unat p div 2 ^ (32 - s)"
proof -
  have "push_bit s x AND drop_bit (32 - s) p = 0"
    by (rule bit_word_eqI) (auto simp: bit_simps dest: bit_imp_le_length)
  from unat_or_disjoint [OF this] show ?thesis
    by (simp only: unat_push_bit unat_drop_bit) simp
qed

lemma unat_shr_limb:
  fixes x y :: u32
  assumes "0 < s" and "s < 32"
  shows "unat (drop_bit s x OR push_bit (32 - s) y) = unat x div 2 ^ s + (2 ^ (32 - s) * unat y) mod 2 ^ 32"
proof -
  have "drop_bit s x AND push_bit (32 - s) y = 0"
    using assms by (intro bit_word_eqI) (auto simp: bit_simps dest: bit_imp_le_length)
  from unat_or_disjoint [OF this] show ?thesis
    by (simp only: unat_push_bit unat_drop_bit) simp
qed

lemma mod_mult_digit_nat:
  fixes B M r D :: nat
  shows "r < B \<Longrightarrow> (r + B * D) mod (B * M) = r + B * (D mod M)"
  by (simp add: mod_mult2_eq)

lemma pow2_split: "s \<le> 32 \<Longrightarrow> (2::nat) ^ 32 = 2 ^ s * 2 ^ (32 - s)"
  by (simp flip: power_add)

lemma bn_val_shl_limbs:
  assumes "s < 32"
  shows "bn_val (shl_limbs s p a) = (2 ^ s * bn_val a + unat p div 2 ^ (32 - s)) mod 2 ^ (32 * length a)"
proof (induction a arbitrary: p)
  case (Cons x a)
  let ?limb = "(2 ^ s * unat x) mod 2 ^ 32 + unat p div 2 ^ (32 - s)"
  have div: "2 ^ s * unat x div 2 ^ 32 = unat x div 2 ^ (32 - s)"
    using assms by (simp only: pow2_split [of s] less_imp_le) simp
  have lt: "?limb < 2 ^ 32"
    using unat_shl_limb [OF assms, of x p] unat_u32_lt [of "push_bit s x OR drop_bit (32 - s) p"] by simp
  have "bn_val (shl_limbs s p (x # a)) = ?limb + 2 ^ 32 * ((2 ^ s * bn_val a + unat x div 2 ^ (32 - s)) mod 2 ^ (32 * length a))"
    by (simp add: Cons.IH unat_shl_limb [OF assms] del: power_numeral)
  also have "\<dots> = (?limb + 2 ^ 32 * (2 ^ s * bn_val a + unat x div 2 ^ (32 - s))) mod (2 ^ 32 * 2 ^ (32 * length a))"
    using lt by (simp only: mod_mult_digit_nat)
  also have "?limb + 2 ^ 32 * (2 ^ s * bn_val a + unat x div 2 ^ (32 - s)) =
      2 ^ s * bn_val (x # a) + unat p div 2 ^ (32 - s)"
    unfolding div [symmetric] by (simp add: distrib_left algebra_simps del: power_numeral)
  finally show ?case by (simp add: power_add del: power_numeral)
qed (simp add: assms)

lemma bn_val_shr_limbs:
  assumes "0 < s" and "s < 32"
  shows "bn_val (shr_limbs s a) = bn_val a div 2 ^ s"
  using assms
proof (induction s a rule: shr_limbs.induct)
  case (1 s)
  then show ?case by simp
next
  case (2 s x)
  then show ?case by (simp add: unat_drop_bit)
next
  case (3 s x y xs)
  let ?Y = "bn_val (y # xs)"
  have B: "(2::nat) ^ 32 = 2 ^ s * 2 ^ (32 - s)" using 3 by (intro pow2_split) simp
  have "?Y mod 2 ^ s = unat y mod 2 ^ s"
    by (simp only: bn_val.simps B mult.assoc) (simp add: mod_mult_self1)
  moreover have "(2 ^ (32 - s) * unat y) mod 2 ^ 32 = 2 ^ (32 - s) * (unat y mod 2 ^ s)"
    by (simp only: B mult.commute [of "2 ^ s"] mult_mod_right)
  moreover have "unat (drop_bit s x OR push_bit (32 - s) y) = unat x div 2 ^ s + (2 ^ (32 - s) * unat y) mod 2 ^ 32"
    using 3 by (intro unat_shr_limb)
  ultimately have "bn_val (shr_limbs s (x # y # xs)) =
      unat x div 2 ^ s + 2 ^ (32 - s) * (?Y mod 2 ^ s) + 2 ^ 32 * (?Y div 2 ^ s)"
    using 3 by (simp only: shr_limbs.simps bn_val.simps(2) [of "drop_bit s x OR push_bit (32 - s) y"])
  also have "\<dots> = unat x div 2 ^ s + 2 ^ (32 - s) * (2 ^ s * (?Y div 2 ^ s) + ?Y mod 2 ^ s)"
    by (simp only: B distrib_left mult.assoc mult.left_commute add.assoc add.commute [of "2 ^ s * _"])
  also have "\<dots> = (unat x + 2 ^ s * (2 ^ (32 - s) * ?Y)) div 2 ^ s"
    by simp
  also have "\<dots> = bn_val (x # y # xs) div 2 ^ s"
    by (simp only: bn_val.simps(2) [of x] B mult.assoc)
  finally show ?case .
qed

lemma bn_ok_shifts [simp, intro]:
  "bn_ok a \<Longrightarrow> bn_ok (lshift_one_bit a)" "bn_ok a \<Longrightarrow> bn_ok (rshift_one_bit a)"
  using lshift_bits_loop [of a 1] rshift_bits_loop [of a 1]
  by (simp_all add: lshift_one_bit_def rshift_one_bit_def bn_ok_def)

lemma bn_val_lshift_one_bit [bn_simps]:
  "bn_ok a \<Longrightarrow> bn_val (lshift_one_bit a) = (2 * bn_val a) mod 2 ^ 512"
  using lshift_bits_loop [of a 1] bn_val_shl_limbs [of 1 0 a]
  by (simp add: lshift_one_bit_def bn_ok_def)

lemma bn_val_rshift_one_bit [bn_simps]: "bn_ok a \<Longrightarrow> bn_val (rshift_one_bit a) = bn_val a div 2"
  using rshift_bits_loop [of a 1] bn_val_shr_limbs [of 1 a]
  by (simp add: rshift_one_bit_def bn_ok_def)

lemma foldl_zero:
  "k \<le> length a \<Longrightarrow> foldl (\<lambda>a i. a[i := 0]) a (rev [0..<k]) = replicate k 0 @ drop k a"
proof (induction k arbitrary: a)
  case (Suc k)
  have "foldl (\<lambda>a i. a[i := 0]) a (rev [0..<Suc k]) = replicate k 0 @ drop k (a[k := 0])"
    using Suc.IH [of "a[k := 0]"] Suc.prems by simp
  also have "drop k (a[k := 0]) = 0 # drop (Suc k) a"
    using Suc.prems by (simp add: drop_update_swap Cons_nth_drop_Suc [symmetric])
  finally show ?case by (simp add: replicate_append_same [symmetric])
qed simp

lemma foldl_id: "foldl (\<lambda>a i. a) a ks = a"
  by (induction ks) simp_all

lemma lshift_word_eq:
  assumes "bn_ok a"
  shows "lshift_word a k = replicate (min k 16) 0 @ take (16 - k) a"
proof (cases "k = 0")
  case True
  with assms show ?thesis by (simp add: lshift_word_def foldl_id bn_ok_def)
next
  case False
  let ?s = "foldl (\<lambda>a i. a[i := a ! (i - k)]) a (rev [k..<16])"
  have s: "?s = map (\<lambda>i. if k \<le> i \<and> i < 16 then a ! (i - k) else a ! i) [0..<length a]"
    using foldl_down [of 16 a k "\<lambda>x y. y"] assms False by (simp add: bn_ok_def)
  have "lshift_word a k = replicate (min k 16) 0 @ drop (min k 16) ?s"
    unfolding lshift_word_def using foldl_zero [of "min k 16" ?s] s assms by (simp add: bn_ok_def)
  moreover have "drop (min k 16) ?s = take (16 - k) a"
    unfolding s using assms by (auto simp: bn_ok_def intro!: nth_equalityI)
  ultimately show ?thesis by simp
qed

lemma bn_ok_lshift_word [simp, intro]: "bn_ok a \<Longrightarrow> bn_ok (lshift_word a k)"
  by (simp add: lshift_word_eq) (simp add: bn_ok_def)

lemma bn_val_lshift_word [bn_simps]:
  assumes "bn_ok a"
  shows "bn_val (lshift_word a k) = (2 ^ (32 * k) * bn_val a) mod 2 ^ 512"
proof (cases "k \<le> 16")
  case True
  have "bn_val a = bn_val (take (16 - k) a) + 2 ^ (32 * (16 - k)) * bn_val (drop (16 - k) a)"
    using assms bn_val_append [of "take (16 - k) a" "drop (16 - k) a"] by (simp add: bn_ok_def)
  moreover have "bn_val (take (16 - k) a) < 2 ^ (32 * (16 - k))"
    using bn_val_lt [of "take (16 - k) a"] assms by (simp add: bn_ok_def)
  moreover have "(2::nat) ^ 512 = 2 ^ (32 * k) * 2 ^ (32 * (16 - k))"
    using True by (simp flip: power_add distrib_left)
  ultimately have "(2 ^ (32 * k) * bn_val a) mod 2 ^ 512 = 2 ^ (32 * k) * bn_val (take (16 - k) a)"
    by (simp only: mult_mod_right [symmetric]) (simp del: power_numeral)
  then show ?thesis using True assms by (simp add: lshift_word_eq bn_val_append min_absorb1)
next
  case False
  then have "(2::nat) ^ 512 dvd 2 ^ (32 * k)" by (intro le_imp_power_dvd) simp
  then have "(2 ^ (32 * k) * bn_val a) mod 2 ^ 512 = 0" by (metis dvd_imp_mod_0 dvd_mult2)
  with False assms show ?thesis by (simp add: lshift_word_eq min_absorb2 del: power_numeral)
qed

subsection \<open>Bitwise operations\<close>

lemma concat_or: "(x :: nat) < 2 ^ k \<Longrightarrow> x + 2 ^ k * u = x OR push_bit k u"
proof -
  assume "x < 2 ^ k"
  then have "bit x n \<Longrightarrow> n < k" for n by (metis bit_take_bit_iff take_bit_nat_eq_self)
  then have "x AND push_bit k u = 0"
    by (intro bit_eqI) (force simp: bit_simps)
  then show ?thesis by (simp add: disjunctive_add_eq_or [symmetric] push_bit_eq_mult mult.commute)
qed

lemma bn_val_or_limbs:
  "length a = length b \<Longrightarrow> bn_val (map2 (\<lambda>x y. x OR y) a b) = bn_val a OR bn_val b"
proof (induction a b rule: list_induct2)
  case (Cons x xs y ys)
  have lt: "unat w < 2 ^ 32" for w :: u32 using unat_u32_lt [of w] by simp
  show ?case
    using Cons.IH
    by (simp only: list.map zip_Cons_Cons prod.case bn_val.simps concat_or [OF lt])
      (simp only: unsigned_or_eq push_bit_or ac_simps)
qed simp

lemma bn_ok_bitwise [simp, intro]:
  "bn_ok a \<Longrightarrow> bn_ok b \<Longrightarrow> bn_ok (hsk_bn_or a b)"
  "bn_ok a \<Longrightarrow> bn_ok b \<Longrightarrow> bn_ok (hsk_bn_and a b)"
  "bn_ok a \<Longrightarrow> bn_ok b \<Longrightarrow> bn_ok (hsk_bn_xor a b)"
  by (simp_all add: bn_ok_def hsk_bn_or_def hsk_bn_and_def hsk_bn_xor_def)

lemma bn_val_or [bn_simps]: "bn_ok a \<Longrightarrow> bn_ok b \<Longrightarrow> bn_val (hsk_bn_or a b) = bn_val a OR bn_val b"
  by (simp add: bn_ok_def hsk_bn_or_def bn_val_or_limbs)

lemma or_power_add: "(c :: nat) mod 2 ^ Suc j = 0 \<Longrightarrow> c OR 2 ^ j = c + 2 ^ j"
proof -
  assume "c mod 2 ^ Suc j = 0"
  then have "take_bit (Suc j) c = 0" by (simp add: take_bit_eq_mod)
  then have "\<not> bit c j" by (metis bit_0_eq bit_take_bit_iff bot_apply bot_bool_def lessI)
  then have "c AND 2 ^ j = 0" by (simp add: and_exp_eq_0_iff_not_bit)
  then show ?thesis by (simp add: disjunctive_add_eq_or)
qed

subsection \<open>Multiplication\<close>

lemma mul_row_Suc:
  "mul_row a b i (Suc n) = (if i + n < HSK_BN_SIZE
     then hsk_bn_add (lshift_word (hsk_bn_from_int (ucast (a ! i) * ucast (b ! n))) (i + n)) (mul_row a b i n)
     else mul_row a b i n)"
  by (simp add: mul_row_def)

lemma unat_mul_u32: "unat (ucast (x :: u32) * ucast (y :: u32) :: u64) = unat x * unat y"
proof -
  have "unat x * unat y \<le> 4294967295 * 4294967295"
    using unat_u32_lt [of x] unat_u32_lt [of y] by (intro mult_mono) simp_all
  then show ?thesis by (simp add: unat_word_ariths)
qed

lemma mul_row_val:
  assumes "bn_ok b" and "n \<le> 16"
  shows "bn_ok (mul_row a b i n)"
    and "bn_val (mul_row a b i n) = (unat (a ! i) * 2 ^ (32 * i) * bn_val (take n b)) mod 2 ^ 512"
  using assms(2)
proof (induction n)
  case 0
  { case 1 show ?case by (simp add: mul_row_def) }
  { case 2 show ?case by (simp add: mul_row_def bn_simps) }
next
  case (Suc n)
  { case 1
    with Suc.IH(1) show ?case by (simp add: mul_row_Suc) }
  { case 2
    let ?p = "unat (a ! i) * 2 ^ (32 * i) * bn_val (take n b)"
    let ?q = "2 ^ (32 * (i + n)) * (unat (a ! i) * unat (b ! n))"
    have "n < length b" using assms(1) 2 by (simp add: bn_ok_def)
    then have expand: "unat (a ! i) * 2 ^ (32 * i) * bn_val (take (Suc n) b) = ?q + ?p"
      by (simp add: bn_val_take_Suc power_add algebra_simps)
    show ?case
    proof (cases "i + n < 16")
      case True
      have ok: "bn_ok (mul_row a b i n)" and IH: "bn_val (mul_row a b i n) = ?p mod 2 ^ 512"
        using Suc.IH 2 by simp_all
      have "bn_val (mul_row a b i (Suc n)) = (?q mod 2 ^ 512 + ?p mod 2 ^ 512) mod 2 ^ 512"
        using True by (simp only: mul_row_Suc if_True IH unat_mul_u32 bn_val_from_int bn_ok_from_int
          bn_val_add [OF bn_ok_lshift_word [OF bn_ok_from_int] ok] bn_val_lshift_word [OF bn_ok_from_int])
      then show ?thesis unfolding expand by (simp only: mod_add_eq)
    next
      case False
      then have "(2::nat) ^ 512 dvd 2 ^ (32 * (i + n))" by (intro le_imp_power_dvd) simp
      then have "?q mod 2 ^ 512 = 0" by (rule dvd_imp_mod_0 [OF dvd_mult2])
      then have "(?q + ?p) mod 2 ^ 512 = ?p mod 2 ^ 512"
        using mod_add_left_eq [of ?q "2 ^ 512" ?p] by (simp only: add_0)
      with False Suc.IH(2) 2 show ?thesis unfolding expand by (simp add: mul_row_Suc)
    qed }
qed

lemma mul_rows:
  assumes "bn_ok a" and "bn_ok b" and "n \<le> 16"
  defines "rows \<equiv> \<lambda>n. foldl (\<lambda>cc i. hsk_bn_add cc (mul_row a b i HSK_BN_SIZE)) hsk_bn_init [0..<n]"
  shows "bn_ok (rows n) \<and> bn_val (rows n) = (bn_val (take n a) * bn_val b) mod 2 ^ 512"
  using assms(3)
proof (induction n)
  case 0
  then show ?case by (simp add: rows_def bn_simps)
next
  case (Suc n)
  let ?q = "unat (a ! n) * 2 ^ (32 * n) * bn_val b"
  have "take 16 b = b" using assms(2) by (simp add: bn_ok_def)
  then have row: "bn_ok (mul_row a b n 16)" "bn_val (mul_row a b n 16) = ?q mod 2 ^ 512"
    using mul_row_val [OF assms(2), of 16 a n] by simp_all
  have step: "rows (Suc n) = hsk_bn_add (rows n) (mul_row a b n 16)" by (simp add: rows_def)
  have "n < length a" using assms(1) Suc.prems by (simp add: bn_ok_def)
  then have "bn_val (take (Suc n) a) * bn_val b = bn_val (take n a) * bn_val b + ?q"
    by (simp add: bn_val_take_Suc algebra_simps)
  moreover have "bn_val (rows (Suc n)) = ((bn_val (take n a) * bn_val b) mod 2 ^ 512 + ?q mod 2 ^ 512) mod 2 ^ 512"
    using Suc row by (simp only: step bn_val_add Suc_leD)
  ultimately show ?case
    using Suc row by (simp only: mod_add_eq) (simp add: step)
qed

lemma bn_ok_mul [simp, intro]: "bn_ok a \<Longrightarrow> bn_ok b \<Longrightarrow> bn_ok (hsk_bn_mul a b)"
  using mul_rows [of a b 16] by (simp add: hsk_bn_mul_def)

lemma bn_val_mul [bn_simps]:
  "bn_ok a \<Longrightarrow> bn_ok b \<Longrightarrow> bn_val (hsk_bn_mul a b) = (bn_val a * bn_val b) mod 2 ^ 512"
  using mul_rows [of a b 16] by (simp add: hsk_bn_mul_def bn_ok_def)

subsection \<open>Division\<close>

lemma bn_top_limb:
  assumes "bn_ok a"
  shows "ucast (a ! (HSK_BN_SIZE - 1)) \<ge> (1 + HSK_BN_MAX div 2) \<longleftrightarrow> 2 ^ 511 \<le> bn_val a"
proof -
  have "bn_val a = bn_val (take 15 a) + 2 ^ 480 * unat (a ! 15)"
    using bn_val_take_Suc [of 15 a] assms by (simp add: bn_ok_def mult.commute)
  moreover have "bn_val (take 15 a) < 2 ^ 480"
    using bn_val_lt [of "take 15 a"] assms by (simp add: bn_ok_def)
  ultimately have "2 ^ 511 \<le> bn_val a \<longleftrightarrow> 2 ^ 31 \<le> unat (a ! 15)"
    using digit_less_iff [of "bn_val (take 15 a)" "2 ^ 480" 0 "unat (a ! 15)" "2 ^ 31"] by auto
  then show ?thesis by (simp add: word_nat)
qed

text \<open>
  After the first loop, with \<open>e\<close> quotient bits to find: \<open>current\<close> is the weight of the highest
  one and \<open>denom\<close> the divisor times that weight.
\<close>

definition div_ready :: "nat \<Rightarrow> nat \<Rightarrow> hsk_bn \<Rightarrow> hsk_bn \<Rightarrow> bool" where
  "div_ready b e current denom \<longleftrightarrow> bn_ok current \<and> bn_ok denom \<and>
     (e = 0 \<longrightarrow> bn_val current = 0) \<and>
     (0 < e \<longrightarrow> bn_val current = 2 ^ (e - 1) \<and> bn_val denom = b * 2 ^ (e - 1))"

lemma bn_cmp_le:
  assumes "bn_ok a" and "bn_ok b"
  shows "hsk_bn_cmp a b \<noteq> 1 \<longleftrightarrow> bn_val a \<le> bn_val b" and "hsk_bn_cmp a b \<noteq> -1 \<longleftrightarrow> bn_val b \<le> bn_val a"
  using assms by (simp_all add: bn_cmp sgn_if)

lemma div_grow_ready:
  assumes "bn_ok a" and "bn_ok current" and "bn_ok denom" and "0 < b"
    and "bn_val current = 2 ^ k" and "bn_val denom = b * 2 ^ k"
  shows "\<exists>current' denom' e. div_grow a current denom = Some (current', denom') \<and>
           div_ready b e current' denom' \<and> bn_val a < b * 2 ^ e"
  using assms
proof (induction "512 - k" arbitrary: k current denom rule: less_induct)
  case less
  have denom_lt: "b * 2 ^ k < 2 ^ 512" using bn_ok_lt [OF less.prems(3)] less.prems(6) by simp
  have k: "k < 512"
  proof (rule ccontr)
    assume "\<not> k < 512"
    then have "(2::nat) ^ 512 \<le> 2 ^ k" by (intro power_increasing) simp_all
    also have "\<dots> \<le> b * 2 ^ k" using less.prems(4) by simp
    finally show False using denom_lt by linarith
  qed
  have cmp: "hsk_bn_cmp denom a \<noteq> 1 \<longleftrightarrow> b * 2 ^ k \<le> bn_val a"
    using bn_cmp_le(1) [OF less.prems(3,1)] less.prems(6) by simp
  consider (top) "b * 2 ^ k \<le> bn_val a" "2 ^ 511 \<le> b * 2 ^ k"
    | (rec) "b * 2 ^ k \<le> bn_val a" "b * 2 ^ k < 2 ^ 511"
    | (out) "bn_val a < b * 2 ^ k" by linarith
  then show ?case
  proof cases
    case top
    have "bn_val a < 2 ^ 512" by (rule bn_ok_lt [OF less.prems(1)])
    also have "(2::nat) ^ 512 = 2 * 2 ^ 511" by simp
    also have "\<dots> \<le> b * 2 ^ Suc k" using top(2) by simp
    finally have "bn_val a < b * 2 ^ Suc k" .
    moreover have "div_grow a current denom = Some (current, denom)"
      using top cmp less.prems by (subst div_grow.simps) (simp only: bn_top_limb if_True simp_thms)
    moreover have "div_ready b (Suc k) current denom"
      using less.prems by (simp add: div_ready_def)
    ultimately show ?thesis by blast
  next
    case rec
    have two: "2 * (b * 2 ^ k) < 2 ^ 512" using rec(2) by simp
    have "2 * 2 ^ k \<le> 2 * (b * 2 ^ k)" using less.prems(4) by simp
    with two have two': "2 * (2::nat) ^ k < 2 ^ 512" by linarith
    have vals: "bn_val (lshift_one_bit current) = 2 ^ Suc k" "bn_val (lshift_one_bit denom) = b * 2 ^ Suc k"
      using two two' less.prems by (simp_all add: bn_val_lshift_one_bit)
    have "div_grow a current denom = div_grow a (lshift_one_bit current) (lshift_one_bit denom)"
      using rec cmp less.prems
      by (subst div_grow.simps) (simp only: bn_top_limb if_True if_False simp_thms linorder_not_le [symmetric])
    moreover have "512 - Suc k < 512 - k" using k by simp
    ultimately show ?thesis
      using less.hyps [of "Suc k" "lshift_one_bit current" "lshift_one_bit denom"] less.prems vals by simp
  next
    case out
    have "div_grow a current denom = Some (rshift_one_bit current, rshift_one_bit denom)"
      using out cmp by (subst div_grow.simps) simp
    moreover have "div_ready b k (rshift_one_bit current) (rshift_one_bit denom)"
      using less.prems by (cases k) (auto simp: div_ready_def bn_val_rshift_one_bit)
    ultimately show ?thesis using out by blast
  qed
qed

lemma div_take_quotient:
  assumes "bn_ok tmp" and "bn_ok c" and "div_ready b e current denom" and "0 < b"
    and "bn_val tmp < b * 2 ^ e" and "bn_val c mod 2 ^ e = 0"
  shows "\<exists>q. div_take tmp current denom c = Some q \<and> bn_ok q \<and> bn_val q = bn_val c + bn_val tmp div b"
  using assms
proof (induction e arbitrary: tmp current denom c)
  case 0
  then have "div_take tmp current denom c = Some c"
    by (subst div_take.simps) (simp add: div_ready_def bn_is_zero)
  with 0 show ?case by simp
next
  case (Suc e)
  have cur: "bn_ok current" "bn_val current = 2 ^ e" and den: "bn_ok denom" "bn_val denom = b * 2 ^ e"
    using Suc.prems(3) by (auto simp: div_ready_def)
  have ready: "div_ready b e (rshift_one_bit current) (rshift_one_bit denom)"
    using cur den by (cases e) (auto simp: div_ready_def bn_val_rshift_one_bit)
  have cmp: "hsk_bn_cmp tmp denom \<noteq> -1 \<longleftrightarrow> b * 2 ^ e \<le> bn_val tmp"
    using bn_cmp_le(2) [OF Suc.prems(1) den(1)] den(2) by simp
  have c_mod: "bn_val c mod 2 ^ e = 0"
    using Suc.prems(6) by (metis dvd_imp_mod_0 dvd_power_le le_SucI mod_0_imp_dvd dvd_trans le_imp_power_dvd order_refl)
  show ?case
  proof (cases "b * 2 ^ e \<le> bn_val tmp")
    case True
    let ?tmp = "hsk_bn_sub tmp denom" and ?c = "hsk_bn_or c current"
    have tmp: "bn_val ?tmp = bn_val tmp - b * 2 ^ e"
      using True Suc.prems(1) den by (simp add: bn_val_sub)
    have c: "bn_val ?c = bn_val c + 2 ^ e"
      using Suc.prems(2,6) cur by (simp add: bn_val_or or_power_add)
    have "div_take tmp current denom c = div_take ?tmp (rshift_one_bit current) (rshift_one_bit denom) ?c"
      using True cmp cur by (subst div_take.simps) (simp add: bn_is_zero)
    moreover have "bn_val ?tmp < b * 2 ^ e" using tmp True Suc.prems(5) by simp
    moreover have "bn_val ?c mod 2 ^ e = 0" using c c_mod by simp
    moreover have "bn_val tmp div b = 2 ^ e + bn_val ?tmp div b"
    proof -
      have "bn_val tmp = bn_val ?tmp + b * 2 ^ e" using tmp True by simp
      then show ?thesis using Suc.prems(4) by simp
    qed
    ultimately show ?thesis
      using Suc.IH [OF _ _ ready, of ?tmp ?c] Suc.prems(1,2,4) cur den c by (simp add: add.assoc)
  next
    case False
    then have "div_take tmp current denom c = div_take tmp (rshift_one_bit current) (rshift_one_bit denom) c"
      using cmp cur by (subst div_take.simps) (simp add: bn_is_zero)
    with False c_mod Suc.prems show ?thesis using Suc.IH [OF _ _ ready, of tmp c] by simp
  qed
qed

lemma bn_div:
  assumes "bn_ok a" and "bn_ok b" and "bn_val b \<noteq> 0"
  shows "\<exists>c. hsk_bn_div a b = Some c \<and> bn_ok c \<and> bn_val c = bn_val a div bn_val b"
proof -
  obtain current denom e where g: "div_grow a (hsk_bn_from_int 1) b = Some (current, denom)"
    "div_ready (bn_val b) e current denom" "bn_val a < bn_val b * 2 ^ e"
    using div_grow_ready [of a "hsk_bn_from_int 1" b "bn_val b" 0] assms by (auto simp: bn_val_from_int)
  obtain q where "div_take a current denom hsk_bn_init = Some q" "bn_ok q" "bn_val q = bn_val a div bn_val b"
    using div_take_quotient [OF assms(1) bn_ok_init g(2) _ g(3)] assms(3) by (auto simp: bn_val_init)
  with g(1) show ?thesis by (simp add: hsk_bn_div_def)
qed

lemma div_grow_zero:
  assumes "div_grow a current denom = Some r" and "bn_ok a" and "bn_ok denom" and "bn_val denom = 0"
  shows False
  using assms
proof (induction rule: div_grow.raw_induct [rotated, consumes 1])
  case (1 grow a current denom r)
  have le: "hsk_bn_cmp denom a \<noteq> 1" using bn_cmp_le(1) [OF 1(4,3)] 1(5) by simp
  have top: "\<not> ucast (denom ! (HSK_BN_SIZE - 1)) \<ge> (1 + HSK_BN_MAX div 2)"
    using bn_top_limb [OF 1(4)] 1(5) by simp
  have "grow a (lshift_one_bit current) (lshift_one_bit denom) = Some r"
    using 1(2) le top by (simp only: if_True if_False simp_thms)
  then show False
    by (rule 1(1)) (simp_all add: 1(3,4,5) bn_val_lshift_one_bit)
qed

lemma bn_div_zero: "bn_ok a \<Longrightarrow> bn_ok b \<Longrightarrow> bn_val b = 0 \<Longrightarrow> hsk_bn_div a b = None"
  using div_grow_zero [of a "hsk_bn_from_int 1" b] by (auto simp: hsk_bn_div_def split: option.splits)

subsection \<open>Counting, complement and powers\<close>

lemma unat_max_u32: "unat (-1 :: u32) = 2 ^ 32 - 1"
  by (simp add: unsigned_minus_1_eq_mask mask_eq_exp_minus_1)

lemma unat_not: "unat (NOT (w :: u32)) = 2 ^ 32 - 1 - unat w"
proof -
  have "NOT w = -1 - w" by (simp add: not_eq_complement)
  then show ?thesis by (simp only: unat_sub [OF word_order.extremum] unat_max_u32)
qed

lemma length_inc_dec [simp]: "length (hsk_bn_inc n) = length n" "length (hsk_bn_dec n) = length n"
  by (induction n) (auto simp: Let_def)

lemma length_neg [simp]: "length (hsk_bn_neg n) = length n"
  by (simp add: hsk_bn_neg_def)

lemma bn_ok_inc_dec_neg [simp, intro]:
  "bn_ok n \<Longrightarrow> bn_ok (hsk_bn_inc n)" "bn_ok n \<Longrightarrow> bn_ok (hsk_bn_dec n)" "bn_ok n \<Longrightarrow> bn_ok (hsk_bn_neg n)"
  by (simp_all add: bn_ok_def)

lemma bn_val_inc_any: "bn_val (hsk_bn_inc n) = (bn_val n + 1) mod 2 ^ (32 * length n)"
proof (induction n)
  case (Cons w n)
  have split: "(2::nat) ^ (32 * length (w # n)) = 2 ^ 32 * 2 ^ (32 * length n)" by (simp add: power_add)
  have lt: "bn_val n < 2 ^ (32 * length n)" by (rule bn_val_lt)
  have res: "unat (ucast (ucast w + 1 :: u64) :: u32) = (unat w + 1) mod 2 ^ 32"
    using unat_u32_lt [of w] by (simp add: unat_ucast_mod unat_word_ariths)
  show ?case
  proof (cases "unat w + 1 < 2 ^ 32")
    case True
    then have "unat w + 1 + 2 ^ 32 * bn_val n < 2 ^ 32 * 2 ^ (32 * length n)"
      using lt digit_less_iff [of "unat w + 1" "2 ^ 32" 0 "bn_val n" "2 ^ (32 * length n)"] by simp
    with True res show ?thesis by (simp add: Let_def word_nat power_add)
  next
    case False
    then have "unat w + 1 = 2 ^ 32" using unat_u32_lt [of w] by simp
    then have "unat w = 2 ^ 32 - 1" by simp
    with res show ?thesis
      by (simp add: Let_def word_nat power_add Cons.IH mult_mod_right flip: distrib_left)
  qed
qed simp

lemma bn_val_inc [bn_simps]: "bn_ok n \<Longrightarrow> bn_val (hsk_bn_inc n) = (bn_val n + 1) mod 2 ^ 512"
  using bn_val_inc_any [of n] by (simp add: bn_ok_def)

lemma bn_val_dec [bn_simps]: "0 < bn_val n \<Longrightarrow> bn_val (hsk_bn_dec n) = bn_val n - 1"
proof (induction n)
  case (Cons w n)
  show ?case
  proof (cases "w = 0")
    case True
    then have "0 < bn_val n" using Cons.prems by simp
    with True Cons.IH show ?thesis by (simp add: Let_def word_nat unat_max_u32)
  next
    case False
    then have "unat (w - 1) = unat w - 1" "0 < unat w"
      by (simp_all add: unat_minus_one unat_gt_0)
    moreover from this have "\<not> unat w < unat w - 1" by linarith
    ultimately show ?thesis by (simp add: Let_def word_nat)
  qed
qed simp

lemma bn_val_neg_any: "bn_val (hsk_bn_neg n) + bn_val n + 1 = 2 ^ (32 * length n)"
proof (induction n)
  case (Cons w n)
  have "unat (NOT w) + unat w = 2 ^ 32 - 1"
    using unat_u32_lt [of w] by (simp add: unat_not)
  moreover have "2 ^ (32 * length (w # n)) = 2 ^ 32 * (bn_val (hsk_bn_neg n) + bn_val n + 1)"
    by (simp only: Cons.IH) (simp add: power_add)
  ultimately show ?case by (simp add: hsk_bn_neg_def)
qed (simp add: hsk_bn_neg_def)

lemma bn_mod:
  assumes "bn_ok a" and "bn_ok b" and "bn_val b \<noteq> 0"
  shows "\<exists>c. hsk_bn_mod a b = Some c \<and> bn_ok c \<and> bn_val c = bn_val a mod bn_val b"
proof -
  obtain q where q: "hsk_bn_div a b = Some q" "bn_ok q" "bn_val q = bn_val a div bn_val b"
    using bn_div [OF assms] by blast
  have le: "bn_val q * bn_val b \<le> bn_val a" unfolding q(3) by simp
  then have "bn_val (hsk_bn_mul q b) = bn_val q * bn_val b"
    using bn_ok_lt [OF assms(1)] q(2) assms(2) by (simp only: bn_val_mul) simp
  with le show ?thesis
    using q assms by (simp add: hsk_bn_mod_def bn_val_sub minus_div_mult_eq_mod)
qed

lemma pow_loop_val:
  assumes "bn_ok a" and "bn_ok b" and "bn_ok t"
  shows "\<exists>c. pow_loop a b t = Some c \<and> bn_ok c \<and> bn_val c = (bn_val t * bn_val a ^ bn_val b) mod 2 ^ 512"
  using assms(2,3)
proof (induction "bn_val b" arbitrary: b t)
  case 0
  then have "pow_loop a b t = Some t" by (subst pow_loop.simps) (simp add: bn_is_zero)
  with 0 bn_ok_lt [of t] show ?case by simp
next
  case (Suc m)
  have "pow_loop a b t = pow_loop a (hsk_bn_dec b) (hsk_bn_mul t a)"
    using Suc(2) by (subst pow_loop.simps) (simp add: bn_is_zero)
  moreover have "m = bn_val (hsk_bn_dec b)" using Suc(2) by (simp add: bn_val_dec)
  ultimately obtain c where "pow_loop a b t = Some c" "bn_ok c"
    "bn_val c = ((bn_val t * bn_val a) mod 2 ^ 512 * bn_val a ^ m) mod 2 ^ 512"
    using Suc(1) [of "hsk_bn_dec b" "hsk_bn_mul t a"] Suc(3,4) assms(1) by (auto simp: bn_val_mul)
  moreover have "((bn_val t * bn_val a) mod 2 ^ 512 * bn_val a ^ m) mod 2 ^ 512 =
    (bn_val t * bn_val a ^ bn_val b) mod 2 ^ 512"
    unfolding Suc(2) [symmetric] power_Suc mod_mult_left_eq by (simp only: ac_simps)
  ultimately show ?case by metis
qed

lemma bn_pow:
  assumes "bn_ok a" and "bn_ok b"
  shows "\<exists>c. hsk_bn_pow a b = Some c \<and> bn_ok c \<and> bn_val c = (bn_val a ^ bn_val b) mod 2 ^ 512"
proof (cases "bn_val b = 0")
  case True
  then have "hsk_bn_pow a b = Some (hsk_bn_inc hsk_bn_init)"
    using assms by (simp add: hsk_bn_pow_def bn_cmp bn_val_init)
  with True show ?thesis by (simp add: bn_val_inc bn_val_init)
next
  case False
  then have "hsk_bn_pow a b = pow_loop a (hsk_bn_dec b) a"
    using assms by (simp add: hsk_bn_pow_def bn_cmp bn_val_init)
  moreover have "bn_val a * bn_val a ^ bn_val (hsk_bn_dec b) = bn_val a ^ bn_val b"
    using False by (cases "bn_val b") (simp_all add: bn_val_dec)
  ultimately show ?thesis
    using pow_loop_val [of a "hsk_bn_dec b" a] assms by simp
qed

subsection \<open>Shifts by any number of bits\<close>

lemma lshift_eq:
  fixes a :: hsk_bn and k :: nat
  assumes "bn_ok a"
  defines "w \<equiv> if k div 32 \<noteq> 0 then lshift_word a (k div 32) else a"
  shows "hsk_bn_lshift a k = (if k mod 32 = 0 then w else shl_limbs (k mod 32) 0 w)"
proof -
  have "bn_ok w" using assms by simp
  moreover have "k - k div 32 * 32 = k mod 32" by (simp add: minus_div_mult_eq_mod)
  ultimately show ?thesis
    using lshift_bits_loop [of w "k mod 32"] unfolding hsk_bn_lshift_def Let_def w_def by simp
qed

lemma bn_ok_lshift [simp, intro]: "bn_ok a \<Longrightarrow> bn_ok (hsk_bn_lshift a k)"
  by (simp add: lshift_eq)

lemma bn_val_lshift [bn_simps]:
  assumes "bn_ok a"
  shows "bn_val (hsk_bn_lshift a k) = (2 ^ k * bn_val a) mod 2 ^ 512"
proof -
  let ?w = "if k div 32 \<noteq> 0 then lshift_word a (k div 32) else a"
  have w: "bn_ok ?w" "bn_val ?w = (2 ^ (32 * (k div 32)) * bn_val a) mod 2 ^ 512"
    using assms bn_ok_lt [OF assms] by (auto simp: bn_val_lshift_word)
  have "bn_val (hsk_bn_lshift a k) = (2 ^ (k mod 32) * bn_val ?w) mod 2 ^ 512"
    using bn_ok_lt [OF w(1)] bn_val_shl_limbs [of "k mod 32" 0 ?w] w(1)
    unfolding lshift_eq [OF assms] by (cases "k mod 32 = 0") (simp_all add: bn_ok_def)
  also have "\<dots> = (2 ^ (k mod 32) * 2 ^ (32 * (k div 32)) * bn_val a) mod 2 ^ 512"
    unfolding w(2) mod_mult_right_eq by (simp only: mult.assoc)
  also have "(2::nat) ^ (k mod 32) * 2 ^ (32 * (k div 32)) = 2 ^ k"
    by (simp flip: power_add)
  finally show ?thesis .
qed

lemma bn_val_rshift:
  assumes "bn_ok a" and "k < 32"
  shows "bn_val (hsk_bn_rshift a k) = bn_val a div 2 ^ k"
  using rshift_bits_loop [OF assms(1), of k] bn_val_shr_limbs [of k a] assms(2)
  unfolding hsk_bn_rshift_def Let_def by (cases "k = 0") simp_all

subsection \<open>Byte arrays\<close>

primrec be_val :: "bytes \<Rightarrow> nat" where
  "be_val [] = 0"
| "be_val (b # bs) = unat b * 256 ^ length bs + be_val bs"

lemma pow_256: "(256 :: nat) ^ (4 * k) = 2 ^ (32 * k)"
  by (simp add: power_mult)

lemma be_val_append: "be_val (xs @ ys) = be_val xs * 256 ^ length ys + be_val ys"
  by (induction xs) (simp_all add: power_add algebra_simps)

lemma be_val_lt: "be_val bs < 256 ^ length bs"
proof (induction bs)
  case (Cons b bs)
  then show ?case using digit_less_iff [of "be_val bs" "256 ^ length bs" 0 "unat b" 256] unat_u8_lt [of b]
    by (simp add: algebra_simps)
qed simp

lemma be_val_inj: "length xs = length ys \<Longrightarrow> be_val xs = be_val ys \<longleftrightarrow> xs = ys"
proof (induction xs ys rule: list_induct2)
  case (Cons x xs y ys)
  then show ?case
    using digit_eq_iff [OF be_val_lt [of xs], of "be_val ys" "unat x" "unat y"] be_val_lt [of ys]
    by (auto simp: algebra_simps word_unat_eq_iff)
qed simp

lemma be_val_replicate0 [simp]: "be_val (replicate k 0) = 0"
  by (induction k) simp_all

lemma unat_u32_be:
  "unat (push_bit 24 (ucast a) OR push_bit 16 (ucast b) OR push_bit 8 (ucast c) OR ucast d :: u32) =
   be_val [a, b, c, d :: u8]"
proof -
  have "push_bit 8 (ucast c) AND (ucast d :: u32) = 0"
    "push_bit 16 (ucast b) AND (push_bit 8 (ucast c) OR ucast d :: u32) = 0"
    "push_bit 24 (ucast a) AND (push_bit 16 (ucast b) OR push_bit 8 (ucast c) OR ucast d :: u32) = 0"
    by (intro bit_word_eqI; auto simp: bit_simps dest: bit_imp_le_length)+
  then show ?thesis
    using unat_u8_lt [of a] unat_u8_lt [of b] unat_u8_lt [of c] unat_u8_lt [of d]
    by (simp add: unat_or_disjoint or.assoc unat_push_bit unat_ucast_up)
qed

definition limb_bytes :: "u32 \<Rightarrow> bytes" where
  "limb_bytes w = [ucast (drop_bit 24 w), ucast (drop_bit 16 w), ucast (drop_bit 8 w), ucast w]"

lemma be_val_limb: "be_val (limb_bytes w) = unat w"
  using word_join(2) [of w] unat_u32_be by (metis limb_bytes_def)

lemma to_array_eq: "hsk_bn_to_array n sz = concat (map (\<lambda>j. limb_bytes (n ! j)) (rev [0..<sz div 4]))"
proof -
  have "foldl (\<lambda>out j. out @ limb_bytes (n ! j)) acc js = acc @ concat (map (\<lambda>j. limb_bytes (n ! j)) js)" for acc js
    by (induction js arbitrary: acc) simp_all
  then show ?thesis by (simp add: hsk_bn_to_array_def limb_bytes_def)
qed

lemma to_array_step:
  "hsk_bn_to_array n (4 * Suc k) = limb_bytes (n ! k) @ hsk_bn_to_array n (4 * k)"
  by (simp add: to_array_eq)

lemma length_to_array [simp]: "length (hsk_bn_to_array n (4 * k)) = 4 * k"
  by (induction k) (simp_all only: to_array_step length_append, simp_all add: to_array_eq limb_bytes_def)

lemma be_val_to_array: "k \<le> length n \<Longrightarrow> be_val (hsk_bn_to_array n (4 * k)) = bn_val (take k n)"
proof (induction k)
  case (Suc k)
  then show ?case
    unfolding to_array_step be_val_append be_val_limb length_to_array pow_256
    by (simp add: bn_val_take_Suc)
qed (simp add: to_array_eq)

lemma bn_to_array: "bn_ok n \<Longrightarrow> k \<le> HSK_BN_SIZE \<Longrightarrow> be_val (hsk_bn_to_array n (4 * k)) = bn_val n mod 2 ^ (32 * k)"
  using bn_val_append [of "take k n" "drop k n"] bn_val_lt [of "take k n"]
  by (simp add: be_val_to_array bn_ok_def)

lemma from_array_loop:
  assumes "4 * k + i \<le> length arr" and "k \<le> length n"
  defines "F \<equiv> \<lambda>(n, i) j. (n[j := push_bit 24 (ucast (arr ! i)) OR push_bit 16 (ucast (arr ! (i + 1))) OR
               push_bit 8 (ucast (arr ! (i + 2))) OR ucast (arr ! (i + 3))], i + 4 :: nat)"
  shows "\<exists>low. fst (foldl F (n, i) (rev [0..<k])) = low @ drop k n \<and> length low = k \<and>
           bn_val low = be_val (take (4 * k) (drop i arr))"
  using assms(1,2)
proof (induction k arbitrary: n i)
  case (Suc k)
  let ?l = "push_bit 24 (ucast (arr ! i)) OR push_bit 16 (ucast (arr ! (i + 1))) OR
               push_bit 8 (ucast (arr ! (i + 2))) OR ucast (arr ! (i + 3)) :: u32"
  obtain low where low: "fst (foldl F (n[k := ?l], i + 4) (rev [0..<k])) = low @ drop k (n[k := ?l])"
    "length low = k" "bn_val low = be_val (take (4 * k) (drop (i + 4) arr))"
    using Suc.IH [of "i + 4" "n[k := ?l]"] Suc.prems by auto
  have tail: "drop k (n[k := ?l]) = ?l # drop (Suc k) n"
    using Suc.prems(2) by (simp add: drop_update_swap Cons_nth_drop_Suc [symmetric])
  have "take (4 * Suc k) (drop i arr) = [arr ! i, arr ! (i + 1), arr ! (i + 2), arr ! (i + 3)] @ take (4 * k) (drop (i + 4) arr)"
    using Suc.prems(1) by (simp add: numeral_eq_Suc Cons_nth_drop_Suc [symmetric])
  moreover have "length (take (4 * k) (drop (i + 4) arr)) = 4 * k" using Suc.prems(1) by simp
  ultimately have "be_val (take (4 * Suc k) (drop i arr)) = unat ?l * 256 ^ (4 * k) + be_val (take (4 * k) (drop (i + 4) arr))"
    by (simp only: be_val_append unat_u32_be)
  then have "bn_val (low @ [?l]) = be_val (take (4 * Suc k) (drop i arr))"
    using low(2,3) by (simp add: bn_val_append power_mult)
  moreover have "foldl F (n, i) (rev [0..<Suc k]) = foldl F (n[k := ?l], i + 4) (rev [0..<k])"
    by (simp add: F_def)
  ultimately show ?case
    using low(1,2) tail by (intro exI [of _ "low @ [?l]"]) simp
qed simp

lemma bn_from_array:
  assumes "length arr = 4 * k" and "k \<le> HSK_BN_SIZE"
  shows "bn_ok (hsk_bn_from_array arr (4 * k))" and "bn_val (hsk_bn_from_array arr (4 * k)) = be_val arr"
proof -
  obtain low where "hsk_bn_from_array arr (4 * k) = low @ replicate (16 - k) 0" "length low = k"
    "bn_val low = be_val arr"
    using from_array_loop [of k 0 arr hsk_bn_init] assms by (auto simp: hsk_bn_from_array_def hsk_bn_init_def)
  then show "bn_ok (hsk_bn_from_array arr (4 * k))" "bn_val (hsk_bn_from_array arr (4 * k)) = be_val arr"
    using assms by (simp_all add: bn_ok_def bn_val_append)
qed

lemma bn_to_from_array:
  assumes "length arr = 4 * k" and "k \<le> HSK_BN_SIZE"
  shows "hsk_bn_to_array (hsk_bn_from_array arr (4 * k)) (4 * k) = arr"
proof -
  let ?n = "hsk_bn_from_array arr (4 * k)"
  note n = bn_from_array [OF assms]
  have "bn_val ?n = bn_val (take k ?n) + 2 ^ (32 * k) * bn_val (drop k ?n)"
    using bn_val_append [of "take k ?n" "drop k ?n"] n(1) assms(2) by (simp add: bn_ok_def)
  moreover have "bn_val ?n < 2 ^ (32 * k)"
    using n(2) be_val_lt [of arr] assms(1) by (simp add: power_mult)
  ultimately have "bn_val (take k ?n) = be_val arr" using n(2) by (cases "bn_val (drop k ?n)") auto
  then show ?thesis
    using be_val_to_array [of k ?n] n(1) assms be_val_inj [of "hsk_bn_to_array ?n (4 * k)" arr] by (simp add: bn_ok_def)
qed

lemma rshift_word_eq:
  assumes "bn_ok a" and "k < 16"
  shows "rshift_word a k = take k (tl a) @ replicate (16 - k) 0"
proof -
  let ?s = "foldl (\<lambda>a i. a[i := a ! (i + 1)]) a [0..<k]"
  have s: "?s = map (\<lambda>i. if i < k then a ! (i + 1) else a ! i) [0..<length a]"
    using foldl_up [of k a "\<lambda>x y. y"] assms by (simp add: bn_ok_def)
  have "foldl (\<lambda>a i. a[i := 0]) b [k..<m] = take k b @ replicate (m - k) 0 @ drop m b"
    if "length b = 16" "k \<le> m" "m \<le> 16" for b :: hsk_bn and m
    using that(2,3,1)
  proof (induction m arbitrary: b rule: dec_induct)
    case (step m)
    then show ?case
      by (simp add: list_update_append Cons_nth_drop_Suc [symmetric] Suc_diff_le replicate_append_same)
  qed simp
  from this [of ?s 16] have "rshift_word a k = take k ?s @ replicate (16 - k) 0"
    using assms s by (simp add: rshift_word_def bn_ok_def)
  moreover have "take k ?s = take k (tl a)"
    unfolding s using assms by (intro nth_equalityI) (auto simp: bn_ok_def nth_tl)
  ultimately show ?thesis by simp
qed

section \<open>Correctness\<close>

text \<open>
  C27. On sixteen-limb numbers, addition, subtraction, multiplication and left shift compute the
  arithmetic operation modulo \<open>2 ^ 512\<close>, comparison returns the sign of the difference and the
  result is again a sixteen-limb number.
\<close>

theorem bn_arithmetic:
  assumes "bn_ok a" and "bn_ok b"
  shows "(bn_ok (hsk_bn_add a b) \<and> bn_val (hsk_bn_add a b) = (bn_val a + bn_val b) mod 2 ^ 512) \<and>
    (bn_ok (hsk_bn_sub a b) \<and> int (bn_val (hsk_bn_sub a b)) = (int (bn_val a) - int (bn_val b)) mod 2 ^ 512) \<and>
    (bn_ok (hsk_bn_mul a b) \<and> bn_val (hsk_bn_mul a b) = (bn_val a * bn_val b) mod 2 ^ 512) \<and>
    (bn_ok (hsk_bn_lshift a k) \<and> bn_val (hsk_bn_lshift a k) = (2 ^ k * bn_val a) mod 2 ^ 512) \<and>
    hsk_bn_cmp a b = sgn (int (bn_val a) - int (bn_val b))"
  using assms by (simp only: bn_ok_add bn_val_add bn_ok_sub bn_val_sub_mod bn_ok_mul bn_val_mul
    bn_ok_lshift bn_val_lshift bn_cmp simp_thms)

theorem bn_arithmetic_witness:
  "bn_val (hsk_bn_mul (hsk_bn_from_int 0xffffffff) (hsk_bn_from_int 3)) = 0x2fffffffd"
  using bn_arithmetic [OF bn_ok_from_int [of "0xffffffff"] bn_ok_from_int [of 3], of 0] by (simp add: bn_val_from_int)

text \<open>
  C26. Division and remainder return for every divisor but zero, with the quotient and the
  remainder of the values; for a zero divisor the first loop of \<^verbatim>\<open>hsk_bn_div\<close> never ends.
\<close>

theorem bn_div_mod:
  assumes "bn_ok a" and "bn_ok b"
  shows "if bn_val b = 0 then hsk_bn_div a b = None \<and> hsk_bn_mod a b = None
    else (\<exists>q r. hsk_bn_div a b = Some q \<and> hsk_bn_mod a b = Some r \<and> bn_ok q \<and> bn_ok r \<and>
            bn_val q = bn_val a div bn_val b \<and> bn_val r = bn_val a mod bn_val b)"
  using bn_div [OF assms] bn_mod [OF assms] bn_div_zero [OF assms] by (auto simp: hsk_bn_mod_def)

theorem bn_div_mod_witness:
  "hsk_bn_div (hsk_bn_from_int 7) hsk_bn_init = None \<and>
   (\<exists>q r. hsk_bn_div (hsk_bn_from_int 17) (hsk_bn_from_int 5) = Some q \<and>
          hsk_bn_mod (hsk_bn_from_int 17) (hsk_bn_from_int 5) = Some r \<and> bn_val q = 3 \<and> bn_val r = 2)"
  using bn_div_mod [OF bn_ok_from_int [of 7] bn_ok_init] bn_div_mod [OF bn_ok_from_int [of 17] bn_ok_from_int [of 5]]
  by (auto simp: bn_val_init bn_val_from_int)

text \<open>
  Reading a byte array of up to 64 bytes gives the number it denotes in big-endian order, and
  writing the number back gives the array.
\<close>

theorem bn_array_roundtrip:
  assumes "length arr = 4 * k" and "k \<le> HSK_BN_SIZE"
  shows "bn_val (hsk_bn_from_array arr (4 * k)) = be_val arr \<and>
         hsk_bn_to_array (hsk_bn_from_array arr (4 * k)) (4 * k) = arr"
  using bn_from_array(2) [OF assms] bn_to_from_array [OF assms] by blast

theorem bn_array_roundtrip_witness:
  "hsk_bn_to_array (hsk_bn_from_array [1, 2, 3, 4, 5, 6, 7, 8] 8) 8 = [1, 2, 3, 4, 5, 6, 7, 8]"
  using bn_array_roundtrip [of "[1, 2, 3, 4, 5, 6, 7, 8]" 2] by simp

text \<open>
  \<^verbatim>\<open>_rshift_word\<close> does not shift by \<open>k\<close> words: it moves \<open>k\<close> limbs down by one place and
  clears the others, which is the value \<open>(a div 2 ^ 32) mod 2 ^ (32 * k)\<close>.
\<close>

theorem rshift_word_value:
  assumes "bn_ok a" and "k < 16"
  shows "bn_val (rshift_word a k) = (bn_val a div 2 ^ 32) mod 2 ^ (32 * k)"
proof -
  obtain x xs where a: "a = x # xs" "length xs = 15" using assms(1) by (cases a) (auto simp: bn_ok_def)
  have "bn_val a div 2 ^ 32 = bn_val xs" using unat_u32_lt [of x] by (simp add: a)
  moreover have "bn_val xs mod 2 ^ (32 * k) = bn_val (take k xs)"
    using bn_val_append [of "take k xs" "drop k xs"] bn_val_lt [of "take k xs"] assms(2) a(2) by simp
  ultimately show ?thesis using rshift_word_eq [OF assms] by (simp add: a bn_val_append)
qed

theorem rshift_word_value_witness:
  "bn_val (rshift_word (lshift_word (hsk_bn_from_int 5) 2) 2) = 2 ^ 32 * 5"
  using rshift_word_value [OF bn_ok_lshift_word [OF bn_ok_from_int [of 5], of 2], of 2]
  by (simp add: bn_val_lshift_word bn_val_from_int)

end
