(* ===== verification/Header.thy ===== *)
theory Header
  imports Bn
begin

text \<open>
  Block headers, \<^verbatim>\<open>header.c\<close>: the compact form of a target and its expansion, the work of a block,
  the wire format, the proof-of-work hash and its check. The hash functions of \<^verbatim>\<open>blake2b.c\<close> and
  \<^verbatim>\<open>sha3.c\<close> are an argument of the definitions that call them. Shown: the expansion and the
  compaction of a target against the numbers they stand for, the work of a block, that reading
  and writing are inverse, and that a header passes the proof-of-work check exactly when its hash
  is not above its target.
\<close>

section \<open>Data\<close>

text \<open>
  The struct of \<^verbatim>\<open>header.h\<close>. Its \<^verbatim>\<open>next\<close> pointer, which chains headers in a message and in a bucket
  of the chain's maps, is the list the header sits in.
\<close>

record hsk_header =
  hdr_nonce :: u32
  hdr_time :: u64
  hdr_prev_block :: bytes
  hdr_name_root :: bytes
  hdr_extra_nonce :: bytes
  hdr_reserved_root :: bytes
  hdr_witness_root :: bytes
  hdr_merkle_root :: bytes
  hdr_version :: u32
  hdr_bits :: u32
  hdr_mask :: bytes
  hdr_cache :: bool
  hdr_hash :: bytes
  hdr_height :: u32
  hdr_work :: bytes

text \<open>
  The digests the code computes: \<open>blake2b\<close> takes the length of the digest and all the bytes the
  context was updated with, \<open>sha3\<close> those of a SHA3-256 context.
\<close>

record hash_fns =
  blake2b :: "nat \<Rightarrow> bytes \<Rightarrow> bytes"
  sha3 :: "bytes \<Rightarrow> bytes"

definition hsk_header_init :: hsk_header where
  "hsk_header_init = \<lparr>
     hdr_nonce = 0, hdr_time = 0, hdr_prev_block = replicate 32 0, hdr_name_root = replicate 32 0,
     hdr_extra_nonce = replicate 24 0, hdr_reserved_root = replicate 32 0,
     hdr_witness_root = replicate 32 0, hdr_merkle_root = replicate 32 0, hdr_version = 0,
     hdr_bits = 0, hdr_mask = replicate 32 0, hdr_cache = False, hdr_hash = replicate 32 0,
     hdr_height = 0, hdr_work = replicate 32 0 \<rparr>"

section \<open>Compact targets\<close>

text \<open>
  The loop that stores the mantissa from the index \<open>i\<close> down, the first argument being the index
  plus one, so that 0 is the index \<open>-1\<close>; the result is the array and what is left of the mantissa.
\<close>

fun target_fill :: "nat \<Rightarrow> u32 \<Rightarrow> bytes \<Rightarrow> bytes \<times> u32" where
  "target_fill 0 mantissa target = (target, mantissa)"
| "target_fill (Suc i) mantissa target =
     (if mantissa = 0 then (target, mantissa)
      else target_fill i (drop_bit 8 mantissa) (target[i := ucast mantissa]))"

text \<open>The boolean is the C result; the array is written whatever the result.\<close>

definition hsk_pow_to_target :: "u32 \<Rightarrow> bool \<times> bytes" where
  "hsk_pow_to_target bits =
     (let target = replicate 32 0 in
      if bits = 0 then (False, target)
      else if drop_bit 23 bits AND 1 \<noteq> 0 then (False, target)
      else
        let exponent = drop_bit 24 bits; mantissa = bits AND 0x7fffff;
            (mantissa, shift) =
              (if exponent \<le> 3 then (drop_bit (8 * (3 - unat exponent)) mantissa, 0)
               else (mantissa, (exponent - 3) AND 31));
            (target, mantissa) = target_fill (Suc (31 - unat shift)) mantissa target
        in (mantissa = 0, target))"

definition hsk_pow_to_bits :: "bytes \<Rightarrow> u32" where
  "hsk_pow_to_bits target =
     (let i = length (takeWhile (\<lambda>b. b = 0) (take 32 target)); exponent = 32 - i in
      if exponent = 0 then 0
      else
        let mantissa =
              (if exponent \<le> 3 then
                 push_bit (8 * (3 - exponent))
                   ((if exponent = 3 then push_bit 16 (ucast (target ! 29)) else 0) OR
                    (if exponent \<ge> 2 then push_bit 8 (ucast (target ! 30)) else 0) OR
                    ucast (target ! 31))
               else
                 foldl (\<lambda>m b. push_bit 8 m OR ucast b) 0 (take (32 - (exponent - 3) - i) (drop i target)));
            (mantissa, exponent) =
              (if mantissa AND 0x800000 \<noteq> 0 then (drop_bit 8 mantissa, exponent + 1)
               else (mantissa, exponent))
        in push_bit 24 (of_nat exponent) OR mantissa)"

section \<open>Work\<close>

text \<open>
  The outer option is the division of \<^verbatim>\<open>bn.c\<close>, which may not return; the inner pair is the C
  result with the array it fills.
\<close>

definition hsk_header_get_proof :: "hsk_header \<Rightarrow> (bool \<times> bytes) option" where
  "hsk_header_get_proof hdr =
     (let (ok, target) = hsk_pow_to_target (hdr_bits hdr) in
      if \<not> ok then Some (False, replicate 32 0)
      else
        let max_bn = hsk_bn_lshift (hsk_bn_from_int 1) 256;
            target_bn = hsk_bn_inc (hsk_bn_from_array target 32)
        in do {
          q \<leftarrow> hsk_bn_div max_bn target_bn;
          Some (True, hsk_bn_to_array q 32)
        })"

definition hsk_header_calc_work :: "hsk_header \<Rightarrow> hsk_header option \<Rightarrow> (bool \<times> hsk_header) option" where
  "hsk_header_calc_work hdr prev =
     (case prev of
        None \<Rightarrow> do {
          (ok, proof) \<leftarrow> hsk_header_get_proof hdr;
          Some (if ok then (True, hdr\<lparr>hdr_work := proof\<rparr>) else (False, hdr))
        }
      | Some prev \<Rightarrow> do {
          (ok, proof) \<leftarrow> hsk_header_get_proof hdr;
          Some (if \<not> ok then (False, hdr)
                else (True, hdr\<lparr>hdr_work := hsk_bn_to_array
                       (hsk_bn_add (hsk_bn_from_array (hdr_work prev) 32) (hsk_bn_from_array proof 32)) 32\<rparr>))
        })"

section \<open>Wire format\<close>

definition hsk_header_read :: "hsk_header \<Rightarrow> bytes \<Rightarrow> (hsk_header \<times> bytes) option" where
  "hsk_header_read hdr d = do {
     (nonce, d) \<leftarrow> read_u32 d;
     (time, d) \<leftarrow> read_u64 d;
     (prev_block, d) \<leftarrow> read_bytes 32 d;
     (name_root, d) \<leftarrow> read_bytes 32 d;
     (extra_nonce, d) \<leftarrow> read_bytes 24 d;
     (reserved_root, d) \<leftarrow> read_bytes 32 d;
     (witness_root, d) \<leftarrow> read_bytes 32 d;
     (merkle_root, d) \<leftarrow> read_bytes 32 d;
     (version, d) \<leftarrow> read_u32 d;
     (bits, d) \<leftarrow> read_u32 d;
     (mask, d) \<leftarrow> read_bytes 32 d;
     Some (hdr\<lparr>hdr_nonce := nonce, hdr_time := time, hdr_prev_block := prev_block,
               hdr_name_root := name_root, hdr_extra_nonce := extra_nonce,
               hdr_reserved_root := reserved_root, hdr_witness_root := witness_root,
               hdr_merkle_root := merkle_root, hdr_version := version, hdr_bits := bits,
               hdr_mask := mask\<rparr>, d)
   }"

definition hsk_header_decode :: "hsk_header \<Rightarrow> bytes \<Rightarrow> hsk_header option" where
  "hsk_header_decode hdr d = map_option fst (hsk_header_read hdr d)"

definition hsk_header_write :: "hsk_header \<Rightarrow> writer" where
  "hsk_header_write hdr = write_seq [
     write_u32 (hdr_nonce hdr), write_u64 (hdr_time hdr), write_bytes (hdr_prev_block hdr) 32,
     write_bytes (hdr_name_root hdr) 32, write_bytes (hdr_extra_nonce hdr) 24,
     write_bytes (hdr_reserved_root hdr) 32, write_bytes (hdr_witness_root hdr) 32,
     write_bytes (hdr_merkle_root hdr) 32, write_u32 (hdr_version hdr), write_u32 (hdr_bits hdr),
     write_bytes (hdr_mask hdr) 32]"

definition hsk_header_size :: "hsk_header \<Rightarrow> nat" where
  "hsk_header_size hdr = snd (hsk_header_write hdr None)"

definition hsk_header_encode :: "hsk_header \<Rightarrow> bytes" where
  "hsk_header_encode hdr = emit (hsk_header_write hdr)"

section \<open>Proof-of-work hash\<close>

definition hsk_header_sub_write :: "hsk_header \<Rightarrow> writer" where
  "hsk_header_sub_write hdr = write_seq [
     write_bytes (hdr_extra_nonce hdr) 24, write_bytes (hdr_reserved_root hdr) 32,
     write_bytes (hdr_witness_root hdr) 32, write_bytes (hdr_merkle_root hdr) 32,
     write_u32 (hdr_version hdr), write_u32 (hdr_bits hdr)]"

definition hsk_header_sub_size :: "hsk_header \<Rightarrow> nat" where
  "hsk_header_sub_size hdr = snd (hsk_header_sub_write hdr None)"

definition hsk_header_sub_encode :: "hsk_header \<Rightarrow> bytes" where
  "hsk_header_sub_encode hdr = emit (hsk_header_sub_write hdr)"

definition hsk_header_sub_hash :: "hash_fns \<Rightarrow> hsk_header \<Rightarrow> bytes" where
  "hsk_header_sub_hash H hdr = blake2b H 32 (take (hsk_header_sub_size hdr) (hsk_header_sub_encode hdr))"

definition hsk_header_mask_hash :: "hash_fns \<Rightarrow> hsk_header \<Rightarrow> bytes" where
  "hsk_header_mask_hash H hdr = blake2b H 32 (take 32 (hdr_prev_block hdr) @ take 32 (hdr_mask hdr))"

definition hsk_header_commit_hash :: "hash_fns \<Rightarrow> hsk_header \<Rightarrow> bytes" where
  "hsk_header_commit_hash H hdr =
     blake2b H 32 (hsk_header_sub_hash H hdr @ hsk_header_mask_hash H hdr)"

definition hsk_header_padding :: "hsk_header \<Rightarrow> nat \<Rightarrow> bytes" where
  "hsk_header_padding hdr sz =
     map (\<lambda>i. hdr_prev_block hdr ! (i mod 32) XOR hdr_name_root hdr ! (i mod 32)) [0..<sz]"

definition hsk_header_pre_write :: "hash_fns \<Rightarrow> hsk_header \<Rightarrow> writer" where
  "hsk_header_pre_write H hdr =
     (let pad = hsk_header_padding hdr 20; commit_hash = hsk_header_commit_hash H hdr
      in write_seq [
        write_u32 (hdr_nonce hdr), write_u64 (hdr_time hdr), write_bytes pad 20,
        write_bytes (hdr_prev_block hdr) 32, write_bytes (hdr_name_root hdr) 32,
        write_bytes commit_hash 32])"

definition hsk_header_pre_size :: "hash_fns \<Rightarrow> hsk_header \<Rightarrow> nat" where
  "hsk_header_pre_size H hdr = snd (hsk_header_pre_write H hdr None)"

definition hsk_header_pre_encode :: "hash_fns \<Rightarrow> hsk_header \<Rightarrow> bytes" where
  "hsk_header_pre_encode H hdr = emit (hsk_header_pre_write H hdr)"

text \<open>The hash is computed once and kept in the header.\<close>

definition hsk_header_cache :: "hash_fns \<Rightarrow> hsk_header \<Rightarrow> bytes \<times> hsk_header" where
  "hsk_header_cache H hdr =
     (if hdr_cache hdr then (hdr_hash hdr, hdr)
      else
        let size = hsk_header_pre_size H hdr;
            pad8 = hsk_header_padding hdr 8;
            pad32 = hsk_header_padding hdr 32;
            pre = hsk_header_pre_encode H hdr;
            left = blake2b H 64 (take size pre);
            right = sha3 H (take size pre @ pad8);
            hash = blake2b H 32 (left @ pad32 @ right);
            hash = map2 (\<lambda>x m. x XOR m) hash (hdr_mask hdr)
        in (hash, hdr\<lparr>hdr_hash := hash, hdr_cache := True\<rparr>))"

definition hsk_header_hash :: "hash_fns \<Rightarrow> hsk_header \<Rightarrow> bytes \<times> hsk_header" where
  "hsk_header_hash H hdr = (let (hash, hdr) = hsk_header_cache H hdr in (take 32 hash, hdr))"

definition hsk_header_equal ::
  "hash_fns \<Rightarrow> hsk_header \<Rightarrow> hsk_header \<Rightarrow> bool \<times> hsk_header \<times> hsk_header" where
  "hsk_header_equal H a b =
     (let (x, a) = hsk_header_cache H a; (y, b) = hsk_header_cache H b
      in (memcmp (take 32 x) (take 32 y) = 0, a, b))"

text \<open>The header is passed as \<^verbatim>\<open>const\<close> and the qualifier cast away: its hash is cached.\<close>

definition hsk_header_verify_pow :: "hash_fns \<Rightarrow> hsk_header \<Rightarrow> hsk_error \<times> hsk_header" where
  "hsk_header_verify_pow H hdr =
     (let (ok, target) = hsk_pow_to_target (hdr_bits hdr) in
      if \<not> ok then (HSK_ENEGTARGET, hdr)
      else let (hash, hdr) = hsk_header_hash H hdr
           in if memcmp hash target > 0 then (HSK_EHIGHHASH, hdr) else (HSK_SUCCESS, hdr))"

section \<open>Targets as numbers\<close>

lemma be_val_update:
  "i < length t \<Longrightarrow> t ! i = 0 \<Longrightarrow> be_val (t[i := b]) = be_val t + unat b * 256 ^ (length t - Suc i)"
proof (induction t arbitrary: i)
  case (Cons x t)
  then show ?case by (cases i) simp_all
qed simp

lemma target_fill_value:
  assumes "\<forall>j<n. t ! j = 0" and "n \<le> length t"
  shows "length (fst (target_fill n m t)) = length t \<and>
    be_val (fst (target_fill n m t)) + unat (snd (target_fill n m t)) * 256 ^ length t =
    unat m * 256 ^ (length t - n) + be_val t"
  using assms
proof (induction n m t rule: target_fill.induct)
  case (2 i m t)
  have "unat m = 256 * unat (drop_bit 8 m) + unat (ucast m :: u8)"
    by (simp add: unat_drop_bit unat_ucast_mod)
  moreover have "256 ^ (length t - i) = 256 * (256 :: nat) ^ (length t - Suc i)"
    using 2(3) by (simp add: Suc_diff_Suc [symmetric])
  ultimately have "unat m * 256 ^ (length t - Suc i) =
      unat (drop_bit 8 m) * 256 ^ (length t - i) + unat (ucast m :: u8) * 256 ^ (length t - Suc i)"
    by (simp add: distrib_right)
  then show ?case using 2 by (auto simp: be_val_update)
qed simp

text \<open>The number a compact form stands for in the code, whose shift is taken modulo 32.\<close>

definition compact_value :: "u32 \<Rightarrow> nat" where
  "compact_value bits =
     (let e = unat bits div 2 ^ 24; m = unat bits mod 2 ^ 23
      in if e \<le> 3 then m div 256 ^ (3 - e) else m * 256 ^ ((e - 3) mod 32))"

lemma target_fields:
  "unat (drop_bit 24 bits) = unat bits div 2 ^ 24" "unat (bits AND 0x7fffff) = unat bits mod 2 ^ 23"
  "drop_bit 23 bits AND 1 \<noteq> 0 \<longleftrightarrow> bit bits 23" for bits :: u32
proof -
  have "bits AND 0x7fffff = take_bit 23 bits" by (simp add: take_bit_eq_mask mask_eq_exp_minus_1)
  then show "unat (bits AND 0x7fffff) = unat bits mod 2 ^ 23" by (simp only: unat_take_bit)
  show "unat (drop_bit 24 bits) = unat bits div 2 ^ 24" by (rule unat_drop_bit)
  show "drop_bit 23 bits AND 1 \<noteq> 0 \<longleftrightarrow> bit bits 23"
    by (simp add: and_one_eq bit_iff_odd_drop_bit odd_iff_mod_2_eq_one)
qed

lemma length_target_fill [simp]: "length (fst (target_fill n m t)) = length t"
  by (induction n m t rule: target_fill.induct) simp_all

lemma pow_to_target_length [simp]: "length (snd (hsk_pow_to_target bits)) = 32"
  by (simp add: hsk_pow_to_target_def Let_def split_beta del: target_fill.simps)

lemma pow_to_target_cases:
  assumes "bits \<noteq> 0" and "\<not> bit bits 23"
  shows "be_val (snd (hsk_pow_to_target bits)) + (if fst (hsk_pow_to_target bits) then 0 else 2 ^ 256) \<le> compact_value bits
    \<and> (fst (hsk_pow_to_target bits) \<longrightarrow> be_val (snd (hsk_pow_to_target bits)) = compact_value bits)"
proof -
  define e m where "e = drop_bit 24 bits" and "m = bits AND 0x7fffff"
  define sh where "sh = (if e \<le> 3 then 0 else unat ((e - 3) AND 31))"
  define mm where "mm = (if e \<le> 3 then drop_bit (8 * (3 - unat e)) m else m)"
  let ?r = "target_fill (Suc (31 - sh)) mm (replicate 32 0)"
  have r: "hsk_pow_to_target bits = (snd ?r = 0, fst ?r)"
    using assms target_fields(3) [of bits]
    by (simp add: hsk_pow_to_target_def Let_def e_def m_def sh_def mm_def split_beta)
  have sh: "sh = (if unat e \<le> 3 then 0 else (unat e - 3) mod 32)"
  proof -
    have "unat ((e - 3) AND 31) = (unat e - 3) mod 32" if "\<not> e \<le> 3"
    proof -
      have "(e - 3) AND 31 = take_bit 5 (e - 3)" by (simp add: take_bit_eq_mask mask_eq_exp_minus_1)
      then show ?thesis using that by (simp add: unat_take_bit unat_sub word_nat)
    qed
    then show ?thesis by (simp add: sh_def word_nat)
  qed
  then have "32 - Suc (31 - sh) = sh" by (auto simp: less_Suc_eq_le [symmetric])
  then have eq: "be_val (fst ?r) + unat (snd ?r) * 256 ^ 32 = unat mm * 256 ^ sh"
    using target_fill_value [of "Suc (31 - sh)" "replicate 32 0" mm] by (simp add: le_less_Suc_eq)
  have "unat mm * 256 ^ sh = compact_value bits"
    using target_fields(1,2) [of bits] sh
    by (auto simp: compact_value_def mm_def e_def [symmetric] m_def [symmetric] unat_drop_bit power_mult word_nat)
  with eq show ?thesis unfolding r by (cases "unat (snd ?r)") (auto simp: unat_eq_zero)
qed

lemma pow_to_target_reject: "bits = 0 \<or> bit bits 23 \<Longrightarrow> hsk_pow_to_target bits = (False, replicate 32 0)"
  using target_fields(3) [of bits] by (auto simp: hsk_pow_to_target_def Let_def)

section \<open>Work of a block\<close>

lemma get_proof_value:
  "\<exists>ok proof. hsk_header_get_proof hdr = Some (ok, proof) \<and> length proof = 32 \<and>
     ok = fst (hsk_pow_to_target (hdr_bits hdr)) \<and>
     (ok \<longrightarrow> be_val proof = (2 ^ 256 div (be_val (snd (hsk_pow_to_target (hdr_bits hdr))) + 1)) mod 2 ^ 256)"
proof (cases "fst (hsk_pow_to_target (hdr_bits hdr))")
  case True
  let ?t = "snd (hsk_pow_to_target (hdr_bits hdr))"
  let ?max = "hsk_bn_lshift (hsk_bn_from_int 1) 256" and ?tgt = "hsk_bn_inc (hsk_bn_from_array ?t 32)"
  have t: "bn_ok (hsk_bn_from_array ?t 32)" "bn_val (hsk_bn_from_array ?t 32) = be_val ?t"
    using bn_from_array [of ?t 8] by simp_all
  have lt: "be_val ?t < 2 ^ 256" using be_val_lt [of ?t] by simp
  have tgt: "bn_ok ?tgt" "bn_val ?tgt = be_val ?t + 1"
    using t lt by (simp_all add: bn_val_inc)
  have max: "bn_ok ?max" "bn_val ?max = 2 ^ 256" by (simp_all add: bn_val_lshift bn_val_from_int)
  obtain q where q: "hsk_bn_div ?max ?tgt = Some q" "bn_ok q" "bn_val q = 2 ^ 256 div (be_val ?t + 1)"
    using bn_div [OF max(1) tgt(1)] max(2) tgt(2) by auto
  have "be_val (hsk_bn_to_array q 32) = bn_val q mod 2 ^ 256"
    using bn_to_array [OF q(2), of 8] by simp
  with q show ?thesis
    using True length_to_array [of q 8] by (auto simp: hsk_header_get_proof_def split_beta)
qed (auto simp: hsk_header_get_proof_def split_beta)

section \<open>Compaction\<close>

lemma unat_shift_in: "unat m < 2 ^ 24 \<Longrightarrow> unat (push_bit 8 m OR ucast (b :: u8) :: u32) = 256 * unat m + unat b"
proof -
  assume m: "unat m < 2 ^ 24"
  have "push_bit 8 m AND (ucast b :: u32) = 0"
    by (rule bit_word_eqI) (auto simp: bit_simps dest: bit_imp_le_length)
  then show ?thesis
    using m by (simp add: unat_or_disjoint unat_push_bit unat_ucast_up)
qed

definition sig_bytes :: "bytes \<Rightarrow> nat" where
  "sig_bytes t = length (dropWhile (\<lambda>b. b = 0) t)"

lemma split_sig_bytes:
  assumes "be_val t \<noteq> 0"
  obtains x r where "t = replicate (length t - Suc (length r)) 0 @ x # r" and "x \<noteq> 0"
    and "sig_bytes t = Suc (length r)" and "length (takeWhile (\<lambda>b. b = 0) t) = length t - Suc (length r)"
proof -
  let ?z = "takeWhile (\<lambda>b. b = 0) t" and ?s = "dropWhile (\<lambda>b. b = 0) t"
  have z: "?z = replicate (length ?z) 0"
    by (rule replicate_length_same [symmetric]) (auto dest: set_takeWhileD)
  have "?s \<noteq> []"
  proof
    assume "?s = []"
    then have "takeWhile (\<lambda>b. b = 0) t = t" by (metis append_Nil2 takeWhile_dropWhile_id)
    from z [unfolded this] have "be_val t = be_val (replicate (length t) 0)" by (rule arg_cong)
    with assms show False by simp
  qed
  then obtain x r where s: "?s = x # r" "x \<noteq> 0" using hd_dropWhile [of "\<lambda>b. b = 0" t] by (cases ?s) auto
  have "t = ?z @ ?s" by simp
  also have "\<dots> = replicate (length ?z) 0 @ x # r" by (rule arg_cong2 [of _ _ _ _ append, OF z s(1)])
  finally have t: "t = replicate (length ?z) 0 @ x # r" .
  have len: "length ?z = length t - Suc (length r)" using arg_cong [OF t, of length] by simp
  show ?thesis using that [OF t [unfolded len] s(2) _ len] s(1) by (simp add: sig_bytes_def)
qed

lemma be_val_leading_zeros [simp]: "be_val (replicate k 0 @ t) = be_val t"
  by (simp add: be_val_append)

lemma foldl_shift_in:
  assumes "length bs \<le> 3"
  shows "unat (foldl (\<lambda>m b. push_bit 8 m OR ucast b) 0 bs :: u32) = be_val bs"
  using assms
proof (induction bs rule: rev_induct)
  case (snoc b bs)
  have "be_val bs < 256 ^ 2"
    using be_val_lt [of bs] power_increasing [of "length bs" 2 "256 :: nat"] snoc.prems by simp
  with snoc show ?case by (simp add: unat_shift_in be_val_append)
qed simp

text \<open>The mantissa is the three leading significant bytes, padded with zeros on the right.\<close>

definition top_bytes :: "bytes \<Rightarrow> nat" where
  "top_bytes s = (if length s \<le> 3 then be_val s * 256 ^ (3 - length s) else be_val (take 3 s))"

lemma pow_to_bits_mantissa:
  assumes "length t = 32" and "t = replicate (32 - n) 0 @ x # r" and "n = Suc (length r)"
  shows "unat (if n \<le> 3 then push_bit (8 * (3 - n))
            ((if n = 3 then push_bit 16 (ucast (t ! 29)) else 0) OR
             (if n \<ge> 2 then push_bit 8 (ucast (t ! 30)) else 0) OR ucast (t ! 31)) :: u32
          else foldl (\<lambda>m b. push_bit 8 m OR ucast b) 0 (take (32 - (n - 3) - (32 - n)) (drop (32 - n) t)))
         = top_bytes (x # r)"
proof -
  have n: "n \<le> 32" using assms by simp
  consider "n = 1" | "n = 2" | "n = 3" | "3 < n" using assms(3) by linarith
  then show ?thesis
  proof cases
    case 1
    then show ?thesis using assms unat_u8_lt [of x]
      by (simp add: top_bytes_def nth_append unat_push_bit unat_ucast_up)
  next
    case 2
    then obtain y where r: "r = [y]" using assms(3) by (cases r) auto
    show ?thesis using 2 assms unat_u8_lt [of x] unat_u8_lt [of y] unat_u32_be [of 0 0 x y]
      by (simp add: r top_bytes_def nth_append unat_push_bit [of 8] del: push_bit_or)
  next
    case 3
    then obtain y z where r: "r = [y, z]" using assms(3) by (cases r; cases "tl r") auto
    show ?thesis using 3 assms unat_u32_be [of 0 x y z] by (simp add: r top_bytes_def nth_append)
  next
    case 4
    then have "take (32 - (n - 3) - (32 - n)) (drop (32 - n) t) = take 3 (x # r)"
      using assms n by simp
    then show ?thesis using 4 assms foldl_shift_in [of "take 3 (x # r)"] by (simp add: top_bytes_def)
  qed
qed

lemma top_bytes_eq: "top_bytes s = be_val s * 256 ^ (3 - length s) div 256 ^ (length s - 3)"
proof (cases "length s \<le> 3")
  case False
  then have "be_val s = be_val (take 3 s) * 256 ^ (length s - 3) + be_val (drop 3 s)"
    using be_val_append [of "take 3 s" "drop 3 s"] by simp
  then show ?thesis using False be_val_lt [of "drop 3 s"] by (simp add: top_bytes_def)
qed (simp add: top_bytes_def)

lemma top_bytes_lead: "\<exists>low<65536. top_bytes (x # r) = 65536 * unat x + low"
proof -
  have lead: "\<exists>low<65536. be_val (x # r) * 256 ^ (2 - length r) = 65536 * unat x + low" if "length r \<le> 2" for r
  proof -
    have split: "(256 :: nat) ^ length r * 256 ^ (2 - length r) = 65536"
      using that by (simp flip: power_add)
    moreover have "be_val r * 256 ^ (2 - length r) < 256 ^ length r * 256 ^ (2 - length r)"
      using be_val_lt [of r] by simp
    ultimately show ?thesis by (intro exI [of _ "be_val r * 256 ^ (2 - length r)"]) (simp add: distrib_right)
  qed
  show ?thesis
  proof (cases "length r \<le> 2")
    case True
    then show ?thesis using lead [of r] by (simp add: top_bytes_def)
  next
    case False
    then show ?thesis using lead [of "take 2 r"] by (simp add: top_bytes_def numeral_3_eq_3 numeral_2_eq_2)
  qed
qed

lemma unat_bits_fields:
  assumes "unat m < 2 ^ 24" and "e < 256"
  shows "unat (push_bit 24 (of_nat e) OR m :: u32) = e * 2 ^ 24 + unat m"
proof -
  have m: "take_bit 24 m = m" using assms by (simp add: word_unat_eq_iff unat_take_bit)
  have "push_bit 24 (of_nat e) AND take_bit 24 m = 0"
    by (rule bit_word_eqI) (auto simp: bit_simps)
  then show ?thesis using assms
    by (simp add: m unat_or_disjoint unat_push_bit unat_of_nat)
qed

lemma compact_value_fields:
  assumes "unat bits = e * 2 ^ 24 + m" and "m < 2 ^ 23"
  shows "compact_value bits = (if e \<le> 3 then m div 256 ^ (3 - e) else m * 256 ^ ((e - 3) mod 32))"
    and "\<not> bit bits 23"
proof -
  have "(e * 2 ^ 24 + m) div 2 ^ 24 = e" "(e * 2 ^ 24 + m) mod 2 ^ 23 = m" "(e * 2 ^ 24 + m) div 2 ^ 23 = 2 * e"
    using assms(2) by (simp_all add: mod_add_eq [symmetric]) (simp add: mod_simps)?
  then show "compact_value bits = (if e \<le> 3 then m div 256 ^ (3 - e) else m * 256 ^ ((e - 3) mod 32))"
    by (simp only: compact_value_def assms(1) Let_def)
  have "bit bits 23 \<longleftrightarrow> odd (unat bits div 2 ^ 23)"
    by (rule bit_unat)
  then show "\<not> bit bits 23"
    using \<open>(e * 2 ^ 24 + m) div 2 ^ 23 = 2 * e\<close> assms(1) by simp
qed

text \<open>
  What is left of a target after compaction: its leading three bytes, or two if the first of them
  has its top bit set.
\<close>

definition kept_bytes :: "bytes \<Rightarrow> nat" where
  "kept_bytes t = (if 0x80 \<le> hd (dropWhile (\<lambda>b. b = 0) t) then 2 else 3)"

lemma pow_to_bits_fields:
  assumes "length t = 32" and "be_val t \<noteq> 0"
  shows "\<exists>m<2 ^ 23. unat (hsk_pow_to_bits t) = (sig_bytes t + (3 - kept_bytes t)) * 2 ^ 24 + m \<and>
           m = be_val t * 256 ^ (3 - sig_bytes t) div 256 ^ (sig_bytes t - 3) div 256 ^ (3 - kept_bytes t) \<and>
           0 < sig_bytes t \<and> sig_bytes t \<le> 32 \<and> 0 < m"
proof -
  obtain x r where t: "t = replicate (32 - Suc (length r)) 0 @ x # r" and x: "x \<noteq> 0"
    and sig: "sig_bytes t = Suc (length r)" and z: "length (takeWhile (\<lambda>b. b = 0) t) = 32 - Suc (length r)"
    using split_sig_bytes [OF assms(2)] assms(1) by metis
  define n where "n = Suc (length r)"
  have n: "0 < n" "n \<le> 32" "32 - (32 - n) = n" using arg_cong [OF t, of length] assms(1) by (simp_all add: n_def)
  define M where "M = (if n \<le> 3 then push_bit (8 * (3 - n))
            ((if n = 3 then push_bit 16 (ucast (t ! 29)) else 0) OR
             (if n \<ge> 2 then push_bit 8 (ucast (t ! 30)) else 0) OR ucast (t ! 31)) :: u32
          else foldl (\<lambda>m b. push_bit 8 m OR ucast b) 0 (take (32 - (n - 3) - (32 - n)) (drop (32 - n) t)))"
  have M: "unat M = top_bytes (x # r)"
    unfolding M_def using pow_to_bits_mantissa [OF assms(1) t [folded n_def] n_def] .
  obtain low where low: "low < 65536" "unat M = 65536 * unat x + low" using top_bytes_lead M by metis
  have hd: "hd (dropWhile (\<lambda>b. b = 0) t) = x" by (subst t) (simp add: x dropWhile_append)
  have high: "M AND 0x800000 \<noteq> 0 \<longleftrightarrow> 0x80 \<le> x"
  proof -
    have "M AND 0x800000 \<noteq> 0 \<longleftrightarrow> bit M 23" using and_exp_eq_0_iff_not_bit [of M 23] by simp
    also have "\<dots> \<longleftrightarrow> odd (unat M div 2 ^ 23)"
      by (rule bit_unat)
    also have "unat M div 2 ^ 23 = (if 128 \<le> unat x then 1 else 0)"
      using low unat_u8_lt [of x] by (simp add: div_nat_eqI)
    finally show ?thesis by (simp add: word_nat)
  qed
  have bits: "hsk_pow_to_bits t = push_bit 24 (of_nat (n + (3 - kept_bytes t))) OR drop_bit (8 * (3 - kept_bytes t)) M"
  proof -
    have i: "length (takeWhile (\<lambda>b. b = 0) (take 32 t)) = 32 - n" using assms(1) z by (simp add: n_def)
    have "hsk_pow_to_bits t = (let (mantissa, exponent) = if M AND 0x800000 \<noteq> 0 then (drop_bit 8 M, n + 1) else (M, n)
                              in push_bit 24 (of_nat exponent) OR mantissa)"
      unfolding hsk_pow_to_bits_def Let_def i n(3) M_def by (rule if_not_P) (use n(1) in simp)
    then show ?thesis using high hd by (simp add: kept_bytes_def)
  qed
  have m: "unat (drop_bit (8 * (3 - kept_bytes t)) M) < 2 ^ 23 \<and> 0 < unat (drop_bit (8 * (3 - kept_bytes t)) M)"
    using low unat_u8_lt [of x] x hd by (auto simp: kept_bytes_def unat_drop_bit word_nat word_unat_eq_iff)
  have "unat (drop_bit (8 * (3 - kept_bytes t)) M) =
      be_val t * 256 ^ (3 - n) div 256 ^ (n - 3) div 256 ^ (3 - kept_bytes t)"
    using M top_bytes_eq [of "x # r"] be_val_leading_zeros [of "32 - n" "x # r"] t
    by (simp add: unat_drop_bit power_mult n_def [symmetric])
  moreover have "unat (hsk_pow_to_bits t) =
      (n + (3 - kept_bytes t)) * 2 ^ 24 + unat (drop_bit (8 * (3 - kept_bytes t)) M)"
    unfolding bits using m n by (intro unat_bits_fields) (auto simp: kept_bytes_def)
  ultimately show ?thesis using m n sig by (auto simp: n_def)
qed

lemma compact_value_bits:
  assumes "length t = 32" and "be_val t \<noteq> 0"
  defines "lost \<equiv> sig_bytes t - kept_bytes t"
  shows "compact_value (hsk_pow_to_bits t) = be_val t div 256 ^ lost * 256 ^ lost"
    and "hsk_pow_to_bits t \<noteq> 0" and "\<not> bit (hsk_pow_to_bits t) 23"
proof -
  let ?n = "sig_bytes t" and ?k = "kept_bytes t"
  obtain m where m: "m < 2 ^ 23" "unat (hsk_pow_to_bits t) = (?n + (3 - ?k)) * 2 ^ 24 + m"
    "m = be_val t * 256 ^ (3 - ?n) div 256 ^ (?n - 3) div 256 ^ (3 - ?k)"
    "0 < ?n" "?n \<le> 32" "0 < m"
    using pow_to_bits_fields [OF assms(1,2)] by blast
  have k: "?k = 2 \<or> ?k = 3" by (simp add: kept_bytes_def)
  have c: "compact_value (hsk_pow_to_bits t) =
      (if ?n + (3 - ?k) \<le> 3 then m div 256 ^ (3 - (?n + (3 - ?k))) else m * 256 ^ ((?n + (3 - ?k) - 3) mod 32))"
    by (rule compact_value_fields(1) [OF m(2,1)])
  show "compact_value (hsk_pow_to_bits t) = be_val t div 256 ^ lost * 256 ^ lost"
  proof (cases "?n + (3 - ?k) \<le> 3")
    case True
    define a b where "a = 3 - ?k" and "b = 3 - (?n + (3 - ?k))"
    have l: "lost = 0" "?n - 3 = 0" "3 - ?n = b + a" using True k by (auto simp: lost_def a_def b_def)
    have "m = be_val t * 256 ^ b" unfolding m(3) l a_def [symmetric] by (simp add: power_add flip: mult.assoc)
    then show ?thesis using True c l(1) unfolding b_def [symmetric] by simp
  next
    case False
    then have l: "?n + (3 - ?k) - 3 = lost" "lost = (?n - 3) + (3 - ?k)" "3 - ?n = 0" using k m(5) by (auto simp: lost_def)
    have "m = be_val t div 256 ^ lost" unfolding m(3) l(2,3) by (simp add: power_add div_mult2_eq)
    moreover have "lost < 32" using l(1) m(5) k by auto
    ultimately show ?thesis using False c l(1) by simp
  qed
  show "hsk_pow_to_bits t \<noteq> 0" using m(2,6) by (metis add_is_0 less_not_refl unsigned_0)
  show "\<not> bit (hsk_pow_to_bits t) 23" by (rule compact_value_fields(2) [OF m(2,1)])
qed

lemma target_of_bits:
  assumes "length t = 32" and "be_val t \<noteq> 0"
  defines "lost \<equiv> sig_bytes t - kept_bytes t"
  shows "fst (hsk_pow_to_target (hsk_pow_to_bits t))"
    and "be_val (snd (hsk_pow_to_target (hsk_pow_to_bits t))) = be_val t div 256 ^ lost * 256 ^ lost"
proof -
  note c = compact_value_bits [OF assms(1,2), folded lost_def]
  have "compact_value (hsk_pow_to_bits t) \<le> be_val t" unfolding c(1) by simp
  also have "\<dots> < 2 ^ 256" using be_val_lt [of t] assms(1) by simp
  finally have lt: "compact_value (hsk_pow_to_bits t) < 2 ^ 256" .
  show "fst (hsk_pow_to_target (hsk_pow_to_bits t))"
    using pow_to_target_cases [OF c(2,3)] lt by (auto split: if_splits)
  then show "be_val (snd (hsk_pow_to_target (hsk_pow_to_bits t))) = be_val t div 256 ^ lost * 256 ^ lost"
    using pow_to_target_cases [OF c(2,3)] c(1) by simp
qed

section \<open>Reading and writing\<close>

definition header_ok :: "hsk_header \<Rightarrow> bool" where
  "header_ok h \<longleftrightarrow> length (hdr_prev_block h) = 32 \<and> length (hdr_name_root h) = 32 \<and>
     length (hdr_extra_nonce h) = 24 \<and> length (hdr_reserved_root h) = 32 \<and>
     length (hdr_witness_root h) = 32 \<and> length (hdr_merkle_root h) = 32 \<and> length (hdr_mask h) = 32 \<and>
     length (hdr_hash h) = 32 \<and> length (hdr_work h) = 32"

lemma header_ok_init [simp]: "header_ok hsk_header_init"
  by (simp add: header_ok_def hsk_header_init_def)

text \<open>What the wire format carries; the cached hash, the height and the work are local.\<close>

definition wire_part :: "hsk_header \<Rightarrow> hsk_header" where
  "wire_part h = h\<lparr>hdr_cache := False, hdr_hash := replicate 32 0, hdr_height := 0, hdr_work := replicate 32 0\<rparr>"

definition header_bytes :: "hsk_header \<Rightarrow> bytes" where
  "header_bytes h = emit (write_u32 (hdr_nonce h)) @ emit (write_u64 (hdr_time h)) @ hdr_prev_block h @
     hdr_name_root h @ hdr_extra_nonce h @ hdr_reserved_root h @ hdr_witness_root h @
     hdr_merkle_root h @ emit (write_u32 (hdr_version h)) @ emit (write_u32 (hdr_bits h)) @ hdr_mask h"

lemma writes_header: "header_ok h \<Longrightarrow> writes (hsk_header_write h) (header_bytes h)"
  unfolding hsk_header_write_def header_bytes_def header_ok_def
  by (intro writes_seq_Cons writes_seq_single writes_prims) simp_all

lemma header_read_iff:
  "hsk_header_read h0 d = Some (h, r) \<longleftrightarrow>
     d = header_bytes h @ r \<and> length (hdr_prev_block h) = 32 \<and> length (hdr_name_root h) = 32 \<and>
     length (hdr_extra_nonce h) = 24 \<and> length (hdr_reserved_root h) = 32 \<and>
     length (hdr_witness_root h) = 32 \<and> length (hdr_merkle_root h) = 32 \<and> length (hdr_mask h) = 32 \<and>
     hdr_cache h = hdr_cache h0 \<and> hdr_hash h = hdr_hash h0 \<and> hdr_height h = hdr_height h0 \<and>
     hdr_work h = hdr_work h0"
  unfolding hsk_header_read_def
  by (cases h; cases h0) (auto simp: bind_eq_Some_conv u32.dec_iff u64.dec_iff bytes.dec_iff header_bytes_def)

interpretation header: codec header_bytes "hsk_header_read hsk_header_init"
  "\<lambda>h. header_ok h \<and> wire_part h = h"
proof
  fix h r
  assume "header_ok h \<and> wire_part h = h"
  then show "hsk_header_read hsk_header_init (header_bytes h @ r) = Some (h, r)"
    unfolding header_read_iff by (cases h) (simp add: header_ok_def wire_part_def hsk_header_init_def)
next
  fix d h r
  assume "hsk_header_read hsk_header_init d = Some (h, r)"
  then show "(header_ok h \<and> wire_part h = h) \<and> d = header_bytes h @ r"
    unfolding header_read_iff by (cases h) (simp add: header_ok_def wire_part_def hsk_header_init_def)
qed

lemma sgn_diff: "sgn (int a - int b) = (if a < b then -1 else if b < a then 1 else 0)"
  by (simp add: sgn_if)

lemma memcmp_be_val: "length a = length b \<Longrightarrow> memcmp a b = sgn (int (be_val a) - int (be_val b))"
proof (induction a b rule: list_induct2)
  case (Cons x a y b)
  let ?B = "256 ^ length b :: nat"
  have lt: "be_val a < ?B" "be_val b < ?B" using be_val_lt [of a] be_val_lt [of b] Cons(1) by simp_all
  have "be_val (x # a) < be_val (y # b) \<longleftrightarrow> x < y \<or> x = y \<and> be_val a < be_val b"
    "be_val (y # b) < be_val (x # a) \<longleftrightarrow> y < x \<or> x = y \<and> be_val b < be_val a"
    using digit_less_iff [OF lt, of "unat x" "unat y"] digit_less_iff [OF lt(2,1), of "unat y" "unat x"] Cons(1)
    by (auto simp: word_nat word_unat_eq_iff algebra_simps)
  then show ?case unfolding sgn_diff using Cons(2) [unfolded sgn_diff] by auto
qed simp

section \<open>The proof-of-work hash\<close>

text \<open>The hash functions deliver digests of the length asked for.\<close>

definition hash_fns_ok :: "hash_fns \<Rightarrow> bool" where
  "hash_fns_ok H \<longleftrightarrow> (\<forall>n d. length (blake2b H n d) = n) \<and> (\<forall>d. length (sha3 H d) = 32)"

text \<open>The hash of a header as a function of its wire fields.\<close>

definition pow_hash :: "hash_fns \<Rightarrow> hsk_header \<Rightarrow> bytes" where
  "pow_hash H h = fst (hsk_header_cache H (h\<lparr>hdr_cache := False\<rparr>))"

text \<open>A cached hash, when there is one, is the hash of the header.\<close>

definition cache_ok :: "hash_fns \<Rightarrow> hsk_header \<Rightarrow> bool" where
  "cache_ok H h \<longleftrightarrow> (hdr_cache h \<longrightarrow> hdr_hash h = pow_hash H h)"

lemma padding_cong [simp]:
  "hsk_header_padding (h\<lparr>hdr_cache := c\<rparr>) n = hsk_header_padding h n"
  "hsk_header_padding (h\<lparr>hdr_hash := x\<rparr>) n = hsk_header_padding h n"
  "hsk_header_padding (h\<lparr>hdr_height := y\<rparr>) n = hsk_header_padding h n"
  "hsk_header_padding (h\<lparr>hdr_work := z\<rparr>) n = hsk_header_padding h n"
  by (simp_all add: hsk_header_padding_def)

lemma pre_write_cong [simp]:
  "hsk_header_pre_write H (h\<lparr>hdr_cache := c\<rparr>) = hsk_header_pre_write H h"
  "hsk_header_pre_write H (h\<lparr>hdr_hash := x\<rparr>) = hsk_header_pre_write H h"
  "hsk_header_pre_write H (h\<lparr>hdr_height := y\<rparr>) = hsk_header_pre_write H h"
  "hsk_header_pre_write H (h\<lparr>hdr_work := z\<rparr>) = hsk_header_pre_write H h"
  by (simp_all add: hsk_header_pre_write_def hsk_header_commit_hash_def hsk_header_sub_hash_def
      hsk_header_mask_hash_def hsk_header_sub_size_def hsk_header_sub_encode_def hsk_header_sub_write_def)

lemma pow_hash_cong [simp]:
  "pow_hash H (h\<lparr>hdr_cache := c\<rparr>) = pow_hash H h" "pow_hash H (h\<lparr>hdr_hash := x\<rparr>) = pow_hash H h"
  "pow_hash H (h\<lparr>hdr_height := y\<rparr>) = pow_hash H h" "pow_hash H (h\<lparr>hdr_work := z\<rparr>) = pow_hash H h"
  by (simp_all add: pow_hash_def hsk_header_cache_def hsk_header_pre_size_def hsk_header_pre_encode_def Let_def)

lemma header_cache:
  assumes "cache_ok H h"
  shows "hsk_header_cache H h = (pow_hash H h, h\<lparr>hdr_hash := pow_hash H h, hdr_cache := True\<rparr>)"
proof (cases "hdr_cache h")
  case True
  with assms show ?thesis by (simp add: hsk_header_cache_def cache_ok_def)
next
  case False
  then have "h\<lparr>hdr_cache := False\<rparr> = h" by simp
  with False show ?thesis
    by (simp add: pow_hash_def hsk_header_cache_def Let_def hsk_header_pre_size_def hsk_header_pre_encode_def)
qed

lemma length_pow_hash:
  "hash_fns_ok H \<Longrightarrow> length (hdr_mask h) = 32 \<Longrightarrow> length (pow_hash H h) = 32"
  by (simp add: pow_hash_def hsk_header_cache_def Let_def hash_fns_ok_def)

lemma verify_pow_value:
  assumes "hash_fns_ok H" and "header_ok h" and "cache_ok H h"
  shows "hsk_header_verify_pow H h =
    (if \<not> fst (hsk_pow_to_target (hdr_bits h)) then (HSK_ENEGTARGET, h)
     else (if be_val (pow_hash H h) \<le> be_val (snd (hsk_pow_to_target (hdr_bits h))) then HSK_SUCCESS else HSK_EHIGHHASH,
           h\<lparr>hdr_hash := pow_hash H h, hdr_cache := True\<rparr>))"
proof -
  have "length (pow_hash H h) = 32" using assms by (intro length_pow_hash) (auto simp: header_ok_def)
  then show ?thesis
    using memcmp_be_val [of "pow_hash H h" "snd (hsk_pow_to_target (hdr_bits h))"]
    by (auto simp: hsk_header_verify_pow_def hsk_header_hash_def header_cache [OF assms(3)] sgn_diff
        split: if_splits prod.splits)
qed

lemma calc_work_value:
  fixes h :: hsk_header and prev :: "hsk_header option"
  assumes "\<forall>p. prev = Some p \<longrightarrow> length (hdr_work p) = 32"
  defines "base \<equiv> (case prev of None \<Rightarrow> 0 | Some p \<Rightarrow> be_val (hdr_work p))"
    and "ok \<equiv> fst (hsk_pow_to_target (hdr_bits h))"
    and "target \<equiv> be_val (snd (hsk_pow_to_target (hdr_bits h)))"
  shows "\<exists>w. hsk_header_calc_work h prev = Some (ok, if ok then h\<lparr>hdr_work := w\<rparr> else h) \<and> length w = 32 \<and>
           (ok \<longrightarrow> be_val w = (base + 2 ^ 256 div (target + 1)) mod 2 ^ 256)"
proof -
  obtain pf where g: "hsk_header_get_proof h = Some (ok, pf)" "length pf = 32"
    "ok \<longrightarrow> be_val pf = (2 ^ 256 div (target + 1)) mod 2 ^ 256"
    using get_proof_value [of h] unfolding ok_def target_def by blast
  show ?thesis
  proof (cases prev)
    case None
    with g show ?thesis by (intro exI [of _ pf]) (simp add: hsk_header_calc_work_def base_def)
  next
    case (Some p)
    let ?s = "hsk_bn_add (hsk_bn_from_array (hdr_work p) 32) (hsk_bn_from_array pf 32)"
    have p: "bn_ok (hsk_bn_from_array (hdr_work p) 32)" "bn_val (hsk_bn_from_array (hdr_work p) 32) = base"
      using bn_from_array [of "hdr_work p" 8] assms(1) Some by (simp_all add: base_def)
    have q: "bn_ok (hsk_bn_from_array pf 32)" "bn_val (hsk_bn_from_array pf 32) = be_val pf"
      using bn_from_array [of pf 8] g(2) by simp_all
    have "be_val (hsk_bn_to_array ?s 32) = (base + be_val pf) mod 2 ^ 512 mod 2 ^ 256"
      using bn_to_array [of ?s 8] p q by (simp add: bn_val_add)
    also have "\<dots> = (base + be_val pf) mod 2 ^ 256"
      by (rule mod_mod_cancel) (simp add: le_imp_power_dvd)
    finally have "ok \<longrightarrow> be_val (hsk_bn_to_array ?s 32) = (base + 2 ^ 256 div (target + 1)) mod 2 ^ 256"
      using g(3) mod_add_right_eq [of base] by simp
    then show ?thesis using g(1) Some length_to_array [of ?s 8]
      by (intro exI [of _ "hsk_bn_to_array ?s 32"]) (simp add: hsk_header_calc_work_def)
  qed
qed

section \<open>Correctness\<close>

text \<open>
  Expanding a compact target: zero and forms with the sign bit are refused; any other form is
  accepted exactly when the number it stands for fits 256 bits, and the array is that number in
  big-endian order. The number follows the code in taking the exponent's shift modulo 32, so an
  exponent of 35 or more wraps instead of overflowing.
\<close>

theorem compact_expand:
  "if bits = 0 \<or> bit bits 23 then hsk_pow_to_target bits = (False, replicate 32 0)
   else (fst (hsk_pow_to_target bits) \<longleftrightarrow> compact_value bits < 2 ^ 256) \<and>
        (if fst (hsk_pow_to_target bits) then be_val (snd (hsk_pow_to_target bits)) = compact_value bits else True)"
proof (cases "bits = 0 \<or> bit bits 23")
  case False
  moreover have "be_val (snd (hsk_pow_to_target bits)) < 2 ^ 256"
    using be_val_lt [of "snd (hsk_pow_to_target bits)"] by simp
  ultimately show ?thesis using pow_to_target_cases [of bits] by auto
qed (use pow_to_target_reject in auto)

text \<open>
  C24. Compacting a target of 32 bytes that is not zero and expanding it again gives the target
  with all but its leading three significant bytes (two, when the first has its top bit set)
  replaced by zeros: it never grows.
\<close>

theorem compact_roundtrip:
  assumes "length t = 32" and "be_val t \<noteq> 0"
  shows "\<exists>t'. hsk_pow_to_target (hsk_pow_to_bits t) = (True, t') \<and> be_val t' \<le> be_val t \<and>
    be_val t' = be_val t div 256 ^ (sig_bytes t - kept_bytes t) * 256 ^ (sig_bytes t - kept_bytes t)"
  using target_of_bits [OF assms] by (intro exI [of _ "snd (hsk_pow_to_target (hsk_pow_to_bits t))"]) (simp add: prod_eq_iff)

theorem compact_roundtrip_witness:
  "\<exists>t'. hsk_pow_to_target (hsk_pow_to_bits (replicate 28 0 @ [0x12, 0x34, 0x56, 0x78])) = (True, t') \<and>
     be_val t' = 0x12345600"
  using compact_roundtrip [of "replicate 28 0 @ [0x12, 0x34, 0x56, 0x78]"]
  by (auto simp: sig_bytes_def kept_bytes_def dropWhile_append)

text \<open>
  C23. The reader of headers accepts exactly the 236-byte encodings that the writer produces, gives
  back every field of the wire format and leaves the rest of the input.
\<close>

theorem header_wire:
  "(hsk_header_read hsk_header_init d = Some (h, r) \<longleftrightarrow>
      header_ok h \<and> wire_part h = h \<and> d = hsk_header_encode h @ r) \<and>
   (if header_ok h then hsk_header_size h = 236 \<and> length (hsk_header_encode h) = 236 else True)"
proof -
  have enc: "hsk_header_encode h = header_bytes h \<and> hsk_header_size h = length (header_bytes h)" if "header_ok h"
    using writes_emit [OF writes_header [OF that]] writes_size [OF writes_header [OF that]]
    by (simp add: hsk_header_encode_def hsk_header_size_def)
  have len: "length (header_bytes h) = 236" if "header_ok h"
    using that by (simp add: header_bytes_def header_ok_def)
  have "hsk_header_read hsk_header_init d = Some (h, r) \<longleftrightarrow>
      (header_ok h \<and> wire_part h = h) \<and> d = header_bytes h @ r" by (rule header.dec_iff)
  then show ?thesis using enc len by auto
qed

text \<open>
  C22. A header passes the proof-of-work check exactly when its compact target expands and its hash,
  as a 256-bit number, is not above it; the check caches the hash in the header and changes nothing
  else of it.
\<close>

theorem verify_pow_correct:
  assumes "hash_fns_ok H" and "header_ok h" and "cache_ok H h"
  shows "(fst (hsk_header_verify_pow H h) = HSK_SUCCESS \<longleftrightarrow>
           fst (hsk_pow_to_target (hdr_bits h)) \<and> be_val (pow_hash H h) \<le> be_val (snd (hsk_pow_to_target (hdr_bits h)))) \<and>
         wire_part (snd (hsk_header_verify_pow H h)) = wire_part h \<and> cache_ok H (snd (hsk_header_verify_pow H h))"
  using assms(3) unfolding verify_pow_value [OF assms] by (auto simp: wire_part_def cache_ok_def)

text \<open>Hash functions for the witnesses: digests of zero bytes.\<close>

definition zero_hash_fns :: hash_fns where
  "zero_hash_fns = \<lparr>blake2b = \<lambda>n d. replicate n 0, sha3 = \<lambda>d. replicate 32 0\<rparr>"

lemma zero_hash_fns_ok [simp]: "hash_fns_ok zero_hash_fns"
  by (simp add: hash_fns_ok_def zero_hash_fns_def)

theorem verify_pow_correct_witness:
  "fst (hsk_header_verify_pow zero_hash_fns (hsk_header_init\<lparr>hdr_bits := 0x207fffff\<rparr>)) = HSK_SUCCESS"
proof -
  let ?h = "hsk_header_init\<lparr>hdr_bits := 0x207fffff\<rparr>"
  have "pow_hash zero_hash_fns ?h = replicate 32 0"
    by (simp add: pow_hash_def hsk_header_cache_def hsk_header_init_def Let_def zero_hash_fns_def zip_replicate)
  moreover have "fst (hsk_pow_to_target 0x207fffff)" by code_simp
  moreover have "header_ok ?h" "cache_ok zero_hash_fns ?h"
    by (simp_all add: header_ok_def cache_ok_def hsk_header_init_def)
  ultimately show ?thesis using verify_pow_correct [OF zero_hash_fns_ok, of ?h] by simp
qed

text \<open>
  C25. The work of a header is that of its predecessor plus \<open>2 ^ 256 div (target + 1)\<close>, modulo
  \<open>2 ^ 256\<close>; computing it always returns, and fails exactly when the compact target does not expand.
\<close>

theorem calc_work_correct:
  assumes "length (hdr_work p) = 32"
  shows "\<exists>w. hsk_header_calc_work h (Some p) =
      Some (if fst (hsk_pow_to_target (hdr_bits h)) then (True, h\<lparr>hdr_work := w\<rparr>) else (False, h)) \<and> length w = 32 \<and>
    (if fst (hsk_pow_to_target (hdr_bits h))
     then be_val w = (be_val (hdr_work p) + 2 ^ 256 div (be_val (snd (hsk_pow_to_target (hdr_bits h))) + 1)) mod 2 ^ 256
     else True)"
proof -
  obtain w where "hsk_header_calc_work h (Some p) = Some (fst (hsk_pow_to_target (hdr_bits h)),
      if fst (hsk_pow_to_target (hdr_bits h)) then h\<lparr>hdr_work := w\<rparr> else h)" "length w = 32"
    "fst (hsk_pow_to_target (hdr_bits h)) \<longrightarrow> be_val w =
       (be_val (hdr_work p) + 2 ^ 256 div (be_val (snd (hsk_pow_to_target (hdr_bits h))) + 1)) mod 2 ^ 256"
    using calc_work_value [of "Some p" h] assms by (auto simp del: power_numeral)
  then show ?thesis by (intro exI [of _ w]) (simp del: power_numeral)
qed

theorem calc_work_correct_witness:
  "\<exists>w. hsk_header_calc_work (hsk_header_init\<lparr>hdr_bits := 0x03000001\<rparr>) (Some hsk_header_init) =
     Some (True, hsk_header_init\<lparr>hdr_bits := 0x03000001, hdr_work := w\<rparr>) \<and> be_val w = 2 ^ 255"
proof -
  have "hsk_pow_to_target 0x03000001 = (True, replicate 31 0 @ [1])" by code_simp
  then show ?thesis
    using calc_work_correct [of hsk_header_init "hsk_header_init\<lparr>hdr_bits := 0x03000001\<rparr>"]
    by (auto simp: hsk_header_init_def be_val_append simp flip: numeral_2_eq_2)
qed

end
