(* ===== verification/Network.thy ===== *)
theory Network
  imports Bio
begin

text \<open>
  The consensus parameters of \<^verbatim>\<open>constants.h\<close> and \<^verbatim>\<open>genesis.h\<close>: the values that differ between the
  four networks are the fields of a record, the definitions that read them take the record as an
  argument, and \<open>net_ok\<close> states what the proofs use of it; it holds for all four.
\<close>

record hsk_network =
  net_magic :: u32
  net_bits :: u32
  net_limit :: bytes
  net_chainwork :: bytes
  net_tree_interval :: u32
  net_target_reset :: bool
  net_no_retargetting :: bool
  net_genesis :: bytes
  net_checkpoint_window :: int
  net_max_tip_age :: int
  net_port :: u16
  net_brontide_port :: u16

section \<open>Values shared by the networks\<close>

definition HSK_TARGET_WINDOW :: int where
  "HSK_TARGET_WINDOW = 144"

definition HSK_TARGET_SPACING :: int where
  "HSK_TARGET_SPACING = 10 * 60"

definition HSK_TARGET_TIMESPAN :: int where
  "HSK_TARGET_TIMESPAN = HSK_TARGET_WINDOW * HSK_TARGET_SPACING"

definition HSK_MIN_ACTUAL :: int where
  "HSK_MIN_ACTUAL = HSK_TARGET_TIMESPAN div 4"

definition HSK_MAX_ACTUAL :: int where
  "HSK_MAX_ACTUAL = HSK_TARGET_TIMESPAN * 4"

text \<open>The four genesis headers differ in the lowest byte of the time and in the compact target.\<close>

definition genesis_data :: "u8 \<Rightarrow> bytes \<Rightarrow> bytes" where
  "genesis_data t bits =
     [0, 0, 0, 0, t, 0x41, 0x38, 0x5e] @ replicate 124 0 @
     [0x1a, 0x2c, 0x60, 0xb9, 0x43, 0x92, 0x06, 0x93, 0x8f, 0x8d, 0x78, 0x23, 0x78, 0x2a, 0xbd, 0xb8,
      0xb2, 0x11, 0xa5, 0x74, 0x31, 0xe9, 0xc9, 0xb6, 0xa6, 0x36, 0x5d, 0x8d, 0x42, 0x89, 0x33, 0x51,
      0x8e, 0x4c, 0x97, 0x56, 0xfe, 0xf2, 0xad, 0x10, 0x37, 0x5f, 0x36, 0x0e, 0x05, 0x60, 0xfc, 0xc7,
      0x58, 0x7e, 0xb5, 0x22, 0x3d, 0xdf, 0x8c, 0xd7, 0xc7, 0xe0, 0x6e, 0x60, 0xa1, 0x14, 0x0b, 0x15] @
     [0, 0, 0, 0] @ bits @ replicate 32 0"

definition HSK_GENESIS_MAIN :: bytes where
  "HSK_GENESIS_MAIN = genesis_data 0x76 [0xff, 0xff, 0x00, 0x1c]"

definition HSK_GENESIS_TESTNET :: bytes where
  "HSK_GENESIS_TESTNET = genesis_data 0x77 [0xff, 0xff, 0x00, 0x1d]"

definition HSK_GENESIS_REGTEST :: bytes where
  "HSK_GENESIS_REGTEST = genesis_data 0x78 [0xff, 0xff, 0x7f, 0x20]"

definition HSK_GENESIS_SIMNET :: bytes where
  "HSK_GENESIS_SIMNET = genesis_data 0x79 [0xff, 0xff, 0x7f, 0x20]"

section \<open>The networks\<close>

definition HSK_MAIN :: hsk_network where
  "HSK_MAIN = \<lparr>
     net_magic = 0x5b6ef2d3, net_bits = 0x1c00ffff,
     net_limit = [0, 0, 0, 0, 0, 0xff, 0xff] @ replicate 25 0,
     net_chainwork = replicate 24 0 @ [0x75, 0xb5, 0xa2, 0xb7, 0xbf, 0x52, 0x2d, 0x45],
     net_tree_interval = 36, net_target_reset = False, net_no_retargetting = False,
     net_genesis = HSK_GENESIS_MAIN, net_checkpoint_window = 2000, net_max_tip_age = 24 * 60 * 60, net_port = 12038, net_brontide_port = 44806\<rparr>"

definition HSK_TESTNET :: hsk_network where
  "HSK_TESTNET = \<lparr>
     net_magic = 0xb1520dd2, net_bits = 0x1d00ffff,
     net_limit = [0, 0, 0, 0, 0xff, 0xff] @ replicate 26 0, net_chainwork = replicate 32 0,
     net_tree_interval = 36, net_target_reset = True, net_no_retargetting = False,
     net_genesis = HSK_GENESIS_TESTNET, net_checkpoint_window = 2000,
     net_max_tip_age = 2 * 7 * 24 * 60 * 60, net_port = 13038, net_brontide_port = 45806\<rparr>"

definition HSK_REGTEST :: hsk_network where
  "HSK_REGTEST = \<lparr>
     net_magic = 0xae3895cf, net_bits = 0x207fffff,
     net_limit = [0x7f, 0xff, 0xff] @ replicate 29 0, net_chainwork = replicate 32 0,
     net_tree_interval = 5, net_target_reset = True, net_no_retargetting = True,
     net_genesis = HSK_GENESIS_REGTEST, net_checkpoint_window = 200,
     net_max_tip_age = 2 * 7 * 24 * 60 * 60, net_port = 14038, net_brontide_port = 46806\<rparr>"

definition HSK_SIMNET :: hsk_network where
  "HSK_SIMNET = \<lparr>
     net_magic = 0xe648edc, net_bits = 0x207fffff,
     net_limit = [0x7f, 0xff, 0xff] @ replicate 29 0, net_chainwork = replicate 32 0,
     net_tree_interval = 2, net_target_reset = False, net_no_retargetting = False,
     net_genesis = HSK_GENESIS_SIMNET, net_checkpoint_window = 200,
     net_max_tip_age = 2 * 7 * 24 * 60 * 60, net_port = 15038, net_brontide_port = 47806\<rparr>"

definition hsk_networks :: "hsk_network list" where
  "hsk_networks = [HSK_MAIN, HSK_TESTNET, HSK_REGTEST, HSK_SIMNET]"

section \<open>What the proofs use\<close>

definition net_ok :: "hsk_network \<Rightarrow> bool" where
  "net_ok N \<longleftrightarrow> length (net_limit N) = 32 \<and> length (net_chainwork N) = 32 \<and>
     length (net_genesis N) = 236 \<and> 0 < net_tree_interval N \<and>
     150 < net_checkpoint_window N \<and> net_checkpoint_window N < 2 ^ 32"

lemma length_genesis_data: "length bits = 4 \<Longrightarrow> length (genesis_data t bits) = 236"
  by (simp add: genesis_data_def)

lemmas network_defs = HSK_MAIN_def HSK_TESTNET_def HSK_REGTEST_def HSK_SIMNET_def
  HSK_GENESIS_MAIN_def HSK_GENESIS_TESTNET_def HSK_GENESIS_REGTEST_def HSK_GENESIS_SIMNET_def

lemma networks_ok: "N \<in> set hsk_networks \<Longrightarrow> net_ok N"
  by (auto simp: hsk_networks_def net_ok_def network_defs length_genesis_data)

end
