(* ===== verification/Addr.thy ===== *)
theory Addr
  imports Hmap
begin

text \<open>
  Network addresses, \<^verbatim>\<open>addr.c\<close>: a 36-byte field that holds an IPv6 address, an IPv4 address mapped
  into it or an onion address, with a port and a public key. Covers construction, classification,
  the hash and equality used as keys of hash tables, and the wire format. Parsing and printing of
  address strings call \<^verbatim>\<open>uv_inet_pton\<close> and \<^verbatim>\<open>uv_inet_ntop\<close> and are not covered.
\<close>

section \<open>Data\<close>

record hsk_addr =
  ad_type :: u8
  ad_ip :: bytes
  ad_port :: u16
  ad_key :: bytes

record hsk_netaddr =
  na_time :: u64
  na_services :: u64
  na_addr :: hsk_addr

text \<open>The address families of the socket interface that the code distinguishes.\<close>

datatype family = AF_INET | AF_INET6 | AF_OTHER

definition hsk_ip4_mapped :: bytes where
  "hsk_ip4_mapped = replicate 10 0 @ [0xff, 0xff]"

definition hsk_local_ip :: bytes where
  "hsk_local_ip = replicate 15 0 @ [1]"

definition hsk_zero_ip :: bytes where
  "hsk_zero_ip = replicate 16 0"

definition hsk_rfc6052 :: bytes where
  "hsk_rfc6052 = [0x00, 0x64, 0xff, 0x9b, 0, 0, 0, 0, 0, 0, 0, 0]"

definition hsk_rfc4862 :: bytes where
  "hsk_rfc4862 = [0xfe, 0x80, 0, 0, 0, 0, 0, 0]"

definition hsk_rfc6145 :: bytes where
  "hsk_rfc6145 = [0, 0, 0, 0, 0, 0, 0, 0, 0xff, 0xff, 0, 0]"

definition hsk_shifted :: bytes where
  "hsk_shifted = [0, 0, 0, 0, 0, 0, 0, 0xff, 0xff]"

definition hsk_tor_onion :: bytes where
  "hsk_tor_onion = [0xfd, 0x87, 0xd8, 0x7e, 0xeb, 0x43]"

definition hsk_zero_pub :: bytes where
  "hsk_zero_pub = replicate 33 0"

text \<open>\<^verbatim>\<open>memcmp(field, pattern, sizeof(pattern)) == 0\<close>\<close>

definition begins :: "bytes \<Rightarrow> bytes \<Rightarrow> bool" where
  "begins field pattern \<longleftrightarrow> memcmp (take (length pattern) field) pattern = 0"

section \<open>Construction\<close>

definition hsk_addr_init :: hsk_addr where
  "hsk_addr_init = \<lparr>ad_type = 0, ad_ip = replicate 36 0, ad_port = 0, ad_key = replicate 33 0\<rparr>"

definition hsk_addr_is_mapped :: "hsk_addr \<Rightarrow> bool" where
  "hsk_addr_is_mapped addr \<longleftrightarrow> begins (ad_ip addr) hsk_ip4_mapped"

definition hsk_addr_is_ip4 :: "hsk_addr \<Rightarrow> bool" where
  "hsk_addr_is_ip4 addr \<longleftrightarrow> hsk_addr_is_mapped addr"

definition hsk_addr_is_onion :: "hsk_addr \<Rightarrow> bool" where
  "hsk_addr_is_onion addr \<longleftrightarrow> begins (ad_ip addr) hsk_tor_onion"

definition hsk_addr_is_ip6 :: "hsk_addr \<Rightarrow> bool" where
  "hsk_addr_is_ip6 addr \<longleftrightarrow> \<not> hsk_addr_is_mapped addr \<and> \<not> hsk_addr_is_onion addr"

definition hsk_addr_has_key :: "hsk_addr \<Rightarrow> bool" where
  "hsk_addr_has_key addr \<longleftrightarrow> memcmp (take 33 (ad_key addr)) hsk_zero_pub \<noteq> 0"

definition hsk_addr_get_af :: "hsk_addr \<Rightarrow> family" where
  "hsk_addr_get_af addr = (if hsk_addr_is_mapped addr then AF_INET else AF_INET6)"

text \<open>A pointer into the address field: the bytes from there to its end.\<close>

definition hsk_addr_get_ip :: "hsk_addr \<Rightarrow> bytes" where
  "hsk_addr_get_ip addr = (if hsk_addr_is_ip6 addr then ad_ip addr else drop 12 (ad_ip addr))"

definition hsk_addr_set_ip :: "hsk_addr \<Rightarrow> family \<Rightarrow> bytes \<Rightarrow> bool \<times> hsk_addr" where
  "hsk_addr_set_ip addr af ip =
     (if af = AF_INET then
        (True, addr\<lparr>ad_ip := replicate 10 0 @ replicate 2 0xff @ take 4 ip @ replicate 20 0\<rparr>)
      else if af = AF_INET6 then (True, addr\<lparr>ad_ip := take 16 ip @ replicate 20 0\<rparr>)
      else (False, addr))"

definition hsk_addr_from_ip :: "family \<Rightarrow> bytes \<Rightarrow> u16 \<Rightarrow> bool \<times> hsk_addr" where
  "hsk_addr_from_ip af ip port =
     (let (ok, addr) = hsk_addr_set_ip hsk_addr_init af ip
      in if \<not> ok then (False, addr) else (False, addr\<lparr>ad_port := port\<rparr>))"

definition hsk_addr_to_ip :: "hsk_addr \<Rightarrow> family \<times> bytes \<times> u16" where
  "hsk_addr_to_ip addr =
     (let af = hsk_addr_get_af addr
      in (af, if af = AF_INET then take 4 (drop 12 (ad_ip addr)) else take 16 (ad_ip addr), ad_port addr))"

text \<open>A socket address is its family, its address bytes and its port in host order.\<close>

type_synonym sockaddr = "family \<times> bytes \<times> u16"

definition hsk_addr_from_sa :: "sockaddr \<Rightarrow> bool \<times> hsk_addr" where
  "hsk_addr_from_sa sa =
     (case sa of (af, ip, port) \<Rightarrow>
        if af = AF_INET then
          (True, (snd (hsk_addr_set_ip (hsk_addr_init\<lparr>ad_type := 0\<rparr>) AF_INET ip))\<lparr>ad_port := port\<rparr>)
        else if af = AF_INET6 then
          (True, (snd (hsk_addr_set_ip (hsk_addr_init\<lparr>ad_type := 0\<rparr>) AF_INET6 ip))\<lparr>ad_port := port\<rparr>)
        else (False, hsk_addr_init))"

definition hsk_addr_to_sa :: "hsk_addr \<Rightarrow> sockaddr option" where
  "hsk_addr_to_sa addr =
     (let af = hsk_addr_get_af addr in
      if af = AF_INET then Some (AF_INET, take 4 (drop 12 (ad_ip addr)), ad_port addr)
      else if af = AF_INET6 then Some (AF_INET6, take 16 (ad_ip addr), ad_port addr)
      else None)"

section \<open>Hash and equality\<close>

definition hsk_addr_hash :: "hsk_addr \<Rightarrow> u32" where
  "hsk_addr_hash addr = hsk_map_tweak3 (ad_ip addr) 36 (ucast (ad_type addr) + 1) (ucast (ad_port addr))"

definition hsk_addr_equal :: "hsk_addr \<Rightarrow> hsk_addr \<Rightarrow> bool" where
  "hsk_addr_equal x y =
     (if ad_type x \<noteq> ad_type y then False
      else if memcmp (take 36 (ad_ip x)) (take 36 (ad_ip y)) \<noteq> 0 then False
      else if ad_port x \<noteq> ad_port y then False
      else True)"

section \<open>Classification\<close>

definition hsk_addr_is_null :: "hsk_addr \<Rightarrow> bool" where
  "hsk_addr_is_null addr =
     (let ip = ad_ip addr in
      if hsk_addr_is_ip4 addr then ip ! 12 = 0 \<and> ip ! 13 = 0 \<and> ip ! 14 = 0 \<and> ip ! 15 = 0
      else begins ip hsk_zero_ip)"

definition hsk_addr_is_broadcast :: "hsk_addr \<Rightarrow> bool" where
  "hsk_addr_is_broadcast addr =
     (let ip = ad_ip addr in
      if \<not> hsk_addr_is_ip4 addr then False
      else ip ! 12 = 255 \<and> ip ! 13 = 255 \<and> ip ! 14 = 255 \<and> ip ! 15 = 255)"

definition hsk_addr_is_rfc1918 :: "hsk_addr \<Rightarrow> bool" where
  "hsk_addr_is_rfc1918 addr =
     (let ip = ad_ip addr in
      if \<not> hsk_addr_is_ip4 addr then False
      else if ip ! 12 = 10 then True
      else if ip ! 12 = 192 \<and> ip ! 13 = 168 then True
      else ip ! 12 = 172 \<and> (ip ! 13 \<ge> 16 \<and> ip ! 13 \<le> 31))"

definition hsk_addr_is_rfc2544 :: "hsk_addr \<Rightarrow> bool" where
  "hsk_addr_is_rfc2544 addr =
     (let ip = ad_ip addr in
      if \<not> hsk_addr_is_ip4 addr then False
      else if ip ! 12 = 198 \<and> (ip ! 13 = 18 \<or> ip ! 13 = 19) then True
      else ip ! 12 = 169 \<and> ip ! 13 = 254)"

definition hsk_addr_is_rfc3927 :: "hsk_addr \<Rightarrow> bool" where
  "hsk_addr_is_rfc3927 addr =
     (let ip = ad_ip addr in
      if \<not> hsk_addr_is_ip4 addr then False else ip ! 12 = 169 \<and> ip ! 13 = 254)"

definition hsk_addr_is_rfc6598 :: "hsk_addr \<Rightarrow> bool" where
  "hsk_addr_is_rfc6598 addr =
     (let ip = ad_ip addr in
      if \<not> hsk_addr_is_ip4 addr then False else ip ! 12 = 100 \<and> (ip ! 13 \<ge> 64 \<and> ip ! 13 \<le> 127))"

definition hsk_addr_is_rfc5737 :: "hsk_addr \<Rightarrow> bool" where
  "hsk_addr_is_rfc5737 addr =
     (let ip = ad_ip addr in
      if \<not> hsk_addr_is_ip4 addr then False
      else if ip ! 12 = 192 \<and> (ip ! 13 = 0 \<and> ip ! 14 = 2) then True
      else if ip ! 12 = 198 \<and> ip ! 13 = 51 \<and> ip ! 14 = 100 then True
      else ip ! 12 = 203 \<and> ip ! 13 = 0 \<and> ip ! 14 = 113)"

definition hsk_addr_is_rfc3849 :: "hsk_addr \<Rightarrow> bool" where
  "hsk_addr_is_rfc3849 addr =
     (let ip = ad_ip addr in ip ! 0 = 0x20 \<and> ip ! 1 = 0x01 \<and> ip ! 2 = 0x0d \<and> ip ! 3 = 0xb8)"

definition hsk_addr_is_rfc3964 :: "hsk_addr \<Rightarrow> bool" where
  "hsk_addr_is_rfc3964 addr = (let ip = ad_ip addr in ip ! 0 = 0x20 \<and> ip ! 1 = 0x02)"

definition hsk_addr_is_rfc6052 :: "hsk_addr \<Rightarrow> bool" where
  "hsk_addr_is_rfc6052 addr = begins (ad_ip addr) hsk_rfc6052"

definition hsk_addr_is_rfc4380 :: "hsk_addr \<Rightarrow> bool" where
  "hsk_addr_is_rfc4380 addr =
     (let ip = ad_ip addr in ip ! 0 = 0x20 \<and> ip ! 1 = 0x01 \<and> ip ! 2 = 0x00 \<and> ip ! 3 = 0x00)"

definition hsk_addr_is_rfc4862 :: "hsk_addr \<Rightarrow> bool" where
  "hsk_addr_is_rfc4862 addr = begins (ad_ip addr) hsk_rfc4862"

definition hsk_addr_is_rfc4193 :: "hsk_addr \<Rightarrow> bool" where
  "hsk_addr_is_rfc4193 addr \<longleftrightarrow> ad_ip addr ! 0 AND 0xfe = 0xfc"

definition hsk_addr_is_rfc6145 :: "hsk_addr \<Rightarrow> bool" where
  "hsk_addr_is_rfc6145 addr = begins (ad_ip addr) hsk_rfc6145"

definition hsk_addr_is_rfc4843 :: "hsk_addr \<Rightarrow> bool" where
  "hsk_addr_is_rfc4843 addr =
     (let ip = ad_ip addr
      in ip ! 0 = 0x20 \<and> ip ! 1 = 0x01 \<and> ip ! 2 = 0x00 \<and> ip ! 3 AND 0xf0 = 0x10)"

definition hsk_addr_is_local :: "hsk_addr \<Rightarrow> bool" where
  "hsk_addr_is_local addr =
     (let ip = ad_ip addr in
      if hsk_addr_is_ip4 addr then ip ! 12 = 127 \<and> ip ! 13 = 0 else begins ip hsk_local_ip)"

definition hsk_addr_is_multicast :: "hsk_addr \<Rightarrow> bool" where
  "hsk_addr_is_multicast addr =
     (let ip = ad_ip addr in
      if hsk_addr_is_ip4 addr then ip ! 12 AND 0xf0 = 0xe0 else ip ! 0 = 0xff)"

definition hsk_addr_is_valid :: "hsk_addr \<Rightarrow> bool" where
  "hsk_addr_is_valid addr =
     (if ad_type addr \<noteq> 0 then False
      else if begins (ad_ip addr) hsk_shifted then False
      else if hsk_addr_is_null addr then False
      else if hsk_addr_is_broadcast addr then False
      else if hsk_addr_is_rfc3849 addr then False
      else True)"

definition hsk_addr_is_routable :: "hsk_addr \<Rightarrow> bool" where
  "hsk_addr_is_routable addr =
     (if \<not> hsk_addr_is_valid addr then False
      else if hsk_addr_is_rfc1918 addr then False
      else if hsk_addr_is_rfc2544 addr then False
      else if hsk_addr_is_rfc3927 addr then False
      else if hsk_addr_is_rfc4862 addr then False
      else if hsk_addr_is_rfc6598 addr then False
      else if hsk_addr_is_rfc5737 addr then False
      else if hsk_addr_is_rfc4193 addr \<and> \<not> hsk_addr_is_onion addr then False
      else if hsk_addr_is_rfc4843 addr then False
      else if hsk_addr_is_local addr then False
      else True)"

definition hsk_addr_localize :: "hsk_addr \<Rightarrow> bool \<times> hsk_addr" where
  "hsk_addr_localize addr =
     (if ad_type addr \<noteq> 0 then (False, addr)
      else (True,
        if hsk_addr_is_null addr then
          if hsk_addr_is_ip4 addr then addr\<lparr>ad_ip := (ad_ip addr)[12 := 127, 15 := 1]\<rparr>
          else addr\<lparr>ad_ip := (ad_ip addr)[15 := 1]\<rparr>
        else addr))"

section \<open>Wire format\<close>

definition hsk_netaddr_init :: hsk_netaddr where
  "hsk_netaddr_init = \<lparr>na_time = 0, na_services = 0, na_addr = hsk_addr_init\<rparr>"

definition hsk_netaddr_read :: "bytes \<Rightarrow> (hsk_netaddr \<times> bytes) option" where
  "hsk_netaddr_read d = do {
     (time, d) \<leftarrow> read_u64 d;
     (services, d) \<leftarrow> read_u64 d;
     (type, d) \<leftarrow> read_u8 d;
     (ip, d) \<leftarrow> read_bytes 36 d;
     let ip = (if type = 0 then take 16 ip @ replicate 20 0 else ip);
     (port, d) \<leftarrow> read_u16 d;
     (key, d) \<leftarrow> read_bytes 33 d;
     Some (\<lparr>na_time = time, na_services = services,
            na_addr = \<lparr>ad_type = type, ad_ip = ip, ad_port = port, ad_key = key\<rparr>\<rparr>, d)
   }"

definition hsk_netaddr_write :: "hsk_netaddr \<Rightarrow> writer" where
  "hsk_netaddr_write na = write_seq [
     write_u64 (na_time na), write_u64 (na_services na), write_u8 (ad_type (na_addr na)),
     write_bytes (ad_ip (na_addr na)) 36, write_u16 (ad_port (na_addr na)),
     write_bytes (ad_key (na_addr na)) 33]"

section \<open>Lemmas\<close>

definition addr_ok :: "hsk_addr \<Rightarrow> bool" where
  "addr_ok a \<longleftrightarrow> length (ad_ip a) = 36 \<and> length (ad_key a) = 33 \<and>
     (ad_type a = 0 \<longrightarrow> drop 16 (ad_ip a) = replicate 20 0)"

lemma begins_iff: "length pattern \<le> length field \<Longrightarrow> begins field pattern \<longleftrightarrow> take (length pattern) field = pattern"
  by (simp add: begins_def memcmp_eq_0)

definition netaddr_bytes :: "hsk_netaddr \<Rightarrow> bytes" where
  "netaddr_bytes na = emit (write_u64 (na_time na)) @ emit (write_u64 (na_services na)) @
     [ad_type (na_addr na)] @ ad_ip (na_addr na) @ emit (write_u16 (ad_port (na_addr na))) @ ad_key (na_addr na)"

lemma writes_netaddr: "addr_ok (na_addr na) \<Longrightarrow> writes (hsk_netaddr_write na) (netaddr_bytes na)"
  unfolding hsk_netaddr_write_def netaddr_bytes_def addr_ok_def
  by (intro writes_seq_Cons writes_seq_single writes_prims) simp_all

lemma take_append_self: "take n xs @ ys = xs \<Longrightarrow> drop n xs = ys"
  by (metis append_take_drop_id same_append_eq)

lemma netaddr_read_iff:
  "hsk_netaddr_read d = Some (na, r) \<longleftrightarrow>
     addr_ok (na_addr na) \<and>
     (\<exists>ip. length ip = 36 \<and> ad_ip (na_addr na) = (if ad_type (na_addr na) = 0 then take 16 ip @ replicate 20 0 else ip) \<and>
        d = netaddr_bytes (na\<lparr>na_addr := (na_addr na)\<lparr>ad_ip := ip\<rparr>\<rparr>) @ r)"
  (is "?lhs \<longleftrightarrow> ?rhs")
proof
  assume ?lhs
  then show ?rhs
    unfolding hsk_netaddr_read_def
    by (auto simp: bind_eq_Some_conv u64.dec_iff u8.dec_iff u16.dec_iff bytes.dec_iff netaddr_bytes_def addr_ok_def
        emit_put write_u8_def Let_def dest: take_append_self split: if_splits intro!: exI)
next
  assume ?rhs
  then obtain ip where ok: "addr_ok (na_addr na)" and ip: "length ip = 36"
    "ad_ip (na_addr na) = (if ad_type (na_addr na) = 0 then take 16 ip @ replicate 20 0 else ip)"
    "d = netaddr_bytes (na\<lparr>na_addr := (na_addr na)\<lparr>ad_ip := ip\<rparr>\<rparr>) @ r" by blast
  have u8: "read_u8 (x # ys) = Some (x, ys)" for x ys by (simp add: read_u8_def)
  show ?lhs
    using ok ip(1,2) unfolding ip(3) hsk_netaddr_read_def netaddr_bytes_def
    by (cases na; cases "na_addr na") (simp add: u64.dec_enc u8 u16.dec_enc bytes.dec_enc addr_ok_def)
qed

lemma netaddr_write_read:
  assumes "addr_ok (na_addr na)"
  shows "hsk_netaddr_read (netaddr_bytes na @ r) = Some (na, r)"
proof -
  have "ad_ip (na_addr na) = take 16 (ad_ip (na_addr na)) @ replicate 20 0" if "ad_type (na_addr na) = 0"
    using assms that append_take_drop_id [of 16 "ad_ip (na_addr na)"] by (simp add: addr_ok_def)
  then show ?thesis
    unfolding netaddr_read_iff using assms by (auto simp: addr_ok_def intro!: exI [of _ "ad_ip (na_addr na)"])
qed

text \<open>A mapped IPv4 address is none of the IPv6 ranges the classification tests.\<close>

definition ip4_addr :: "u8 \<Rightarrow> u8 \<Rightarrow> u8 \<Rightarrow> u8 \<Rightarrow> u16 \<Rightarrow> hsk_addr" where
  "ip4_addr a b c d port = snd (hsk_addr_from_sa (AF_INET, [a, b, c, d], port))"

lemma ip4_addr_fields:
  "ad_ip (ip4_addr a b c d port) = [0, 0, 0, 0, 0, 0, 0, 0, 0, 0, 0xff, 0xff, a, b, c, d] @ replicate 20 0"
  "ad_type (ip4_addr a b c d port) = 0" "ad_port (ip4_addr a b c d port) = port"
  by (simp_all add: ip4_addr_def hsk_addr_from_sa_def hsk_addr_set_ip_def hsk_addr_init_def numeral_eq_Suc)

lemma ip4_mapped: "hsk_addr_is_ip4 (ip4_addr a b c d port)"
  by (simp add: hsk_addr_is_ip4_def hsk_addr_is_mapped_def begins_iff ip4_addr_fields hsk_ip4_mapped_def numeral_eq_Suc)

section \<open>Correctness\<close>

text \<open>
  Which IPv4 addresses the code takes for routable: all but 0.0.0.0, 255.255.255.255, the
  private, link-local, benchmarking, shared and documentation blocks, and 127.0/16, which is less
  than the loopback block 127/8.
\<close>

theorem ip4_routable:
  "hsk_addr_is_routable (ip4_addr a b c d port) \<longleftrightarrow>
     \<not> (a = 0 \<and> b = 0 \<and> c = 0 \<and> d = 0) \<and> \<not> (a = 255 \<and> b = 255 \<and> c = 255 \<and> d = 255) \<and>
     a \<noteq> 10 \<and> \<not> (a = 192 \<and> b = 168) \<and> \<not> (a = 172 \<and> 16 \<le> b \<and> b \<le> 31) \<and>
     \<not> (a = 169 \<and> b = 254) \<and> \<not> (a = 198 \<and> (b = 18 \<or> b = 19)) \<and> \<not> (a = 100 \<and> 64 \<le> b \<and> b \<le> 127) \<and>
     \<not> (a = 192 \<and> b = 0 \<and> c = 2) \<and> \<not> (a = 198 \<and> b = 51 \<and> c = 100) \<and> \<not> (a = 203 \<and> b = 0 \<and> c = 113) \<and>
     \<not> (a = 127 \<and> b = 0)"
proof -
  let ?a = "ip4_addr a b c d port"
  have at: "ad_ip ?a ! 0 = 0" "ad_ip ?a ! 12 = a" "ad_ip ?a ! 13 = b" "ad_ip ?a ! 14 = c" "ad_ip ?a ! 15 = d"
    by (simp_all add: ip4_addr_fields)
  have no: "\<not> begins (ad_ip ?a) hsk_shifted" "\<not> hsk_addr_is_rfc3849 ?a" "\<not> hsk_addr_is_rfc4862 ?a"
    "\<not> hsk_addr_is_rfc4193 ?a" "\<not> hsk_addr_is_rfc4843 ?a"
    by (simp_all add: begins_iff ip4_addr_fields hsk_shifted_def hsk_rfc4862_def
        hsk_addr_is_rfc3849_def hsk_addr_is_rfc4862_def hsk_addr_is_rfc4193_def hsk_addr_is_rfc4843_def)
  show ?thesis
    unfolding hsk_addr_is_routable_def hsk_addr_is_valid_def
    by (simp only: no ip4_mapped at ip4_addr_fields(2) hsk_addr_is_null_def hsk_addr_is_broadcast_def
        hsk_addr_is_rfc1918_def hsk_addr_is_rfc2544_def hsk_addr_is_rfc3927_def hsk_addr_is_rfc6598_def
        hsk_addr_is_rfc5737_def hsk_addr_is_local_def Let_def if_True if_False simp_thms if_bool_eq_conj) argo
qed

text \<open>
  Addresses the hash tables take for the same key have the same hash, and they are the
  addresses that agree in type, address bytes and port: the public key is ignored.
\<close>

theorem addr_key_contract:
  "(if addr_ok x \<and> addr_ok y
    then (hsk_addr_equal x y \<longleftrightarrow> x = y\<lparr>ad_key := ad_key x\<rparr>) \<and>
         (if hsk_addr_equal x y then hsk_addr_hash x = hsk_addr_hash y else True)
    else True)"
proof (cases "addr_ok x \<and> addr_ok y")
  case True
  then have "hsk_addr_equal x y \<longleftrightarrow> x = y\<lparr>ad_key := ad_key x\<rparr>"
    by (cases x; cases y) (auto simp: hsk_addr_equal_def addr_ok_def memcmp_eq_0)
  moreover have "hsk_addr_hash x = hsk_addr_hash y" if "x = y\<lparr>ad_key := ad_key x\<rparr>"
    by (subst that) (simp add: hsk_addr_hash_def)
  ultimately show ?thesis by simp
qed (simp only: if_False)



end
