(* ===== verification/Table.thy ===== *)
theory Table
  imports Dictionary "HOL-Library.AList"
begin

text \<open>
  The tables the chain and the peers keep, seen through the contract \<open>dictionary\<close> that the hash
  table of \<^verbatim>\<open>map.c\<close> satisfies (theory \<open>Hmap_Resize\<close>): association lists without repeated keys.
  An insertion may need memory; the outcomes of the next allocations are a list of booleans, and
  once it is used up every allocation succeeds.
\<close>

type_synonym ('k, 'v) table = "('k \<times> 'v) list"

fun next_alloc :: "bool list \<Rightarrow> bool \<times> bool list" where
  "next_alloc [] = (True, [])"
| "next_alloc (b # bs) = (b, bs)"

definition tbl_get :: "('k, 'v) table \<Rightarrow> 'k \<Rightarrow> 'v option" where
  "tbl_get t k = map_of t k"

definition tbl_has :: "('k, 'v) table \<Rightarrow> 'k \<Rightarrow> bool" where
  "tbl_has t k \<longleftrightarrow> tbl_get t k \<noteq> None"

definition tbl_set :: "bool \<Rightarrow> ('k, 'v) table \<Rightarrow> 'k \<Rightarrow> 'v \<Rightarrow> bool \<times> ('k, 'v) table" where
  "tbl_set ok t k v = (if ok then (True, AList.update k v t) else (False, t))"

definition tbl_del :: "('k, 'v) table \<Rightarrow> 'k \<Rightarrow> ('k, 'v) table" where
  "tbl_del t k = AList.delete k t"

definition tbl_size :: "('k, 'v) table \<Rightarrow> nat" where
  "tbl_size t = length t"

definition tbl_ok :: "('k, 'v) table \<Rightarrow> bool" where
  "tbl_ok t \<longleftrightarrow> distinct (map fst t)"

lemma tbl_get_Nil [simp]: "tbl_get [] k = None"
  by (simp add: tbl_get_def)

lemma tbl_get_set [simp]: "tbl_get (snd (tbl_set True t k v)) j = (if j = k then Some v else tbl_get t j)"
  by (simp add: tbl_get_def tbl_set_def update_conv')

lemma tbl_set_True [simp]: "tbl_set True t k v = (True, AList.update k v t)"
  by (simp add: tbl_set_def)

lemma tbl_get_update [simp]: "tbl_get (AList.update k v t) j = (if j = k then Some v else tbl_get t j)"
  by (simp add: tbl_get_def update_conv')

lemma tbl_get_del [simp]: "tbl_get (tbl_del t k) j = (if j = k then None else tbl_get t j)"
  by (simp add: tbl_get_def tbl_del_def delete_conv')

lemma tbl_ok_simps [simp]:
  "tbl_ok []" "tbl_ok t \<Longrightarrow> tbl_ok (AList.update k v t)" "tbl_ok t \<Longrightarrow> tbl_ok (tbl_del t k)"
  by (simp_all add: tbl_ok_def tbl_del_def distinct_update distinct_delete)

lemma tbl_size_dom: "tbl_ok t \<Longrightarrow> tbl_size t = card (dom (tbl_get t))"
proof -
  assume "tbl_ok t"
  moreover have "dom (tbl_get t) = fst ` set t" by (simp add: tbl_get_def [abs_def] dom_map_of_conv_image_fst)
  ultimately show ?thesis unfolding tbl_size_def tbl_ok_def by (metis distinct_card length_map set_map)
qed

lemma tbl_size_update:
  assumes "tbl_ok t"
  shows "tbl_size (AList.update k v t) = (if tbl_get t k = None then tbl_size t + 1 else tbl_size t)"
proof -
  have "dom (tbl_get (AList.update k v t)) = insert k (dom (tbl_get t))" by auto
  moreover have "finite (dom (tbl_get t))" by (simp add: tbl_get_def [abs_def] finite_dom_map_of)
  ultimately show ?thesis
    using assms tbl_size_dom [of t] tbl_size_dom [of "AList.update k v t"] by (auto simp: card_insert_if)
qed

lemma tbl_size_del: "tbl_ok t \<Longrightarrow> tbl_get t k \<noteq> None \<Longrightarrow> tbl_size (tbl_del t k) + 1 = tbl_size t"
proof -
  assume t: "tbl_ok t" "tbl_get t k \<noteq> None"
  have "dom (tbl_get (tbl_del t k)) = dom (tbl_get t) - {k}" by (auto split: if_splits)
  moreover have "Suc (card (dom (tbl_get t) - {k})) = card (dom (tbl_get t))"
  proof (rule card.remove [symmetric])
    show "finite (dom (tbl_get t))" by (simp add: tbl_get_def [abs_def] finite_dom_map_of)
    show "k \<in> dom (tbl_get t)" using t(2) by auto
  qed
  ultimately show ?thesis using tbl_size_dom [OF t(1)] tbl_size_dom [of "tbl_del t k"] t(1) by simp
qed

text \<open>The association-list operations in the form of the contract; the value \<open>None\<close> stands for a null pointer.\<close>

definition tbl_ins :: "('k, 'v) table \<Rightarrow> 'k \<Rightarrow> 'v option \<Rightarrow> (bool \<times> ('k, 'v) table) option" where
  "tbl_ins t k v = Some (case v of None \<Rightarrow> (True, tbl_del t k) | Some v \<Rightarrow> tbl_set True t k v)"

interpretation tbl: dictionary tbl_ok "\<lambda>_. True" "\<lambda>_. True" tbl_get "\<lambda>t k. Some (tbl_get t k)" tbl_ins
  "\<lambda>t k. Some (tbl_has t k, tbl_del t k)"
  by unfold_locales (auto simp: tbl_ins_def split: option.splits)

end
