(* ===== verification/Timedata.thy ===== *)
theory Timedata
  imports Addr Table
begin

text \<open>
  Network time, \<^verbatim>\<open>timedata.c\<close>: one clock sample per peer address, kept in an array that a binary
  search orders, and the offset computed from their median. Shown: the search terminates at the
  place of the sample, what the shifting loop really does to the array, that the array stays
  sorted and within its bounds, and the bounds of the offset.
\<close>

definition HSK_TIMEDATA_LIMIT :: nat where
  "HSK_TIMEDATA_LIMIT = 200"

text \<open>What \<^verbatim>\<open>hsk_addr_equal\<close> compares, the key of the table of known addresses.\<close>

type_synonym addr_id = "u8 \<times> bytes \<times> u16"

definition addr_id :: "hsk_addr \<Rightarrow> addr_id" where
  "addr_id a = (ad_type a, take 36 (ad_ip a), ad_port a)"

record hsk_timedata =
  td_sample_len :: nat
  td_samples :: "int list"
  td_known :: "(addr_id, hsk_addr) table"
  td_offset :: int
  td_checked :: bool

definition hsk_timedata_init :: hsk_timedata where
  "hsk_timedata_init = \<lparr>td_sample_len = 0, td_samples = replicate HSK_TIMEDATA_LIMIT 0, td_known = [],
     td_offset = 0, td_checked = False\<rparr>"

text \<open>The binary search: the position of an equal sample, or where \<open>start\<close> ends up.\<close>

function td_search :: "int list \<Rightarrow> int \<Rightarrow> int \<Rightarrow> int \<Rightarrow> int" where
  "td_search samples sample start stop =
     (if start \<le> stop then
        let pos = (start + stop) div 2; cmp = samples ! nat pos - sample
        in if cmp = 0 then pos
           else if cmp < 0 then td_search samples sample (pos + 1) stop
           else td_search samples sample start (pos - 1)
      else start)"
  by pat_completeness auto
termination by (relation "measure (\<lambda>(_, _, start, stop). nat (stop - start + 1))") auto

declare td_search.simps [simp del]

text \<open>\<open>None\<close> is the failed assertion that the array has room.\<close>

definition hsk_timedata_insert :: "hsk_timedata \<Rightarrow> int \<Rightarrow> hsk_timedata option" where
  "hsk_timedata_insert td sample =
     (let i = nat (td_search (td_samples td) sample 0 (int (td_sample_len td) - 1)) in
      if \<not> td_sample_len td + 1 \<le> HSK_TIMEDATA_LIMIT then None
      else
        let samples = foldl (\<lambda>s j. s[j := s ! (j - 1)]) (td_samples td) [i + 1..<td_sample_len td + 1]
        in Some (td\<lparr>td_samples := samples[i := sample], td_sample_len := td_sample_len td + 1\<rparr>))"

definition td_update_offset :: "hsk_timedata \<Rightarrow> hsk_timedata" where
  "td_update_offset td =
     (if td_sample_len td \<ge> 5 \<and> td_sample_len td mod 2 = 1 then
        let median = td_samples td ! (td_sample_len td div 2);
            median = (if median < 0 then - median else median)
        in if median \<ge> 70 * 60 then
             let match = (\<exists>offset\<in>set (take (td_sample_len td) (td_samples td)). offset \<noteq> 0 \<and> \<bar>offset\<bar> < 5 * 60)
             in td\<lparr>td_checked := (if td_checked td then True else \<not> match), td_offset := 0\<rparr>
           else td\<lparr>td_offset := median\<rparr>
      else td)"

text \<open>
  \<open>now\<close> is the clock; the two allocations are the copy of the address and the entry of the table.
\<close>

definition hsk_timedata_add ::
  "bool \<times> bool \<Rightarrow> int \<Rightarrow> hsk_timedata \<Rightarrow> hsk_addr \<Rightarrow> int \<Rightarrow> (hsk_error \<times> hsk_timedata) option" where
  "hsk_timedata_add mem now td addr time =
     (if td_sample_len td \<ge> HSK_TIMEDATA_LIMIT then Some (HSK_SUCCESS, td)
      else if tbl_has (td_known td) (addr_id addr) then Some (HSK_SUCCESS, td)
      else if \<not> fst mem then Some (HSK_ENOMEM, td)
      else
        let (ok, known) = tbl_set (snd mem) (td_known td) (addr_id addr) addr in
        if \<not> ok then Some (HSK_ENOMEM, td)
        else do {
          td \<leftarrow> hsk_timedata_insert (td\<lparr>td_known := known\<rparr>) (time - now);
          Some (HSK_SUCCESS, td_update_offset td)
        })"

definition hsk_timedata_now :: "int \<Rightarrow> hsk_timedata \<Rightarrow> int" where
  "hsk_timedata_now now td = now + td_offset td"

definition hsk_timedata_adjust :: "hsk_timedata \<Rightarrow> int \<Rightarrow> int" where
  "hsk_timedata_adjust td time = time + td_offset td"

definition hsk_timedata_local :: "hsk_timedata \<Rightarrow> int \<Rightarrow> int" where
  "hsk_timedata_local td time = time - td_offset td"

definition hsk_timedata_ms :: "int \<Rightarrow> hsk_timedata \<Rightarrow> int" where
  "hsk_timedata_ms now td = (now + td_offset td) * 1000"

section \<open>The search\<close>

lemma td_search_place:
  assumes "sorted (take n samples)" and "n \<le> length samples" and "0 \<le> start" and "start \<le> stop + 1" and "stop < int n"
    and "\<forall>j<nat start. samples ! j \<le> sample" and "\<forall>j. nat (stop + 1) \<le> j \<and> j < n \<longrightarrow> sample \<le> samples ! j"
  shows "let i = td_search samples sample start stop in 0 \<le> i \<and> i \<le> int n \<and>
    (\<forall>j<nat i. samples ! j \<le> sample) \<and> (\<forall>j. nat i \<le> j \<and> j < n \<longrightarrow> sample \<le> samples ! j)"
  using assms
proof (induction samples sample start stop rule: td_search.induct)
  case (1 samples sample start stop)
  show ?case
  proof (cases "start \<le> stop")
    case False
    then have "start = stop + 1" using "1.prems"(4) by simp
    with "1.prems" show ?thesis by (subst td_search.simps) (auto simp: Let_def)
  next
    case True
    let ?pos = "(start + stop) div 2"
    have pos: "start \<le> ?pos" "?pos \<le> stop" "nat ?pos < n" "0 \<le> ?pos" "?pos \<le> int n" using True "1.prems" by auto
    have mono: "samples ! i \<le> samples ! j" if "i \<le> j" "j < n" for i j
      using sorted_nth_mono [OF "1.prems"(1), of i j] that "1.prems"(2) by simp
    consider "samples ! nat ?pos = sample" | "samples ! nat ?pos < sample" | "sample < samples ! nat ?pos" by linarith
    then show ?thesis
    proof cases
      case 1
      then have "td_search samples sample start stop = ?pos" using True by (subst td_search.simps) simp
      then show ?thesis using 1 pos mono by (auto simp: Let_def)
    next
      case 2
      have "td_search samples sample start stop = td_search samples sample (?pos + 1) stop"
        using True 2 by (subst td_search.simps) simp
      moreover have "\<forall>j<nat (?pos + 1). samples ! j \<le> sample"
      proof (intro allI impI)
        fix j assume "j < nat (?pos + 1)"
        then have "samples ! j \<le> samples ! nat ?pos" using pos by (intro mono) linarith+
        with 2 show "samples ! j \<le> sample" by simp
      qed
      ultimately show ?thesis
        using "1.IH"(1) [OF True refl refl] 2 "1.prems" pos by simp
    next
      case 3
      have "td_search samples sample start stop = td_search samples sample start (?pos - 1)"
        using True 3 by (subst td_search.simps) simp
      moreover have "\<forall>j. nat (?pos - 1 + 1) \<le> j \<and> j < n \<longrightarrow> sample \<le> samples ! j"
      proof (intro allI impI)
        fix j assume "nat (?pos - 1 + 1) \<le> j \<and> j < n"
        then have "samples ! nat ?pos \<le> samples ! j" by (intro mono) simp_all
        with 3 show "sample \<le> samples ! j" by simp
      qed
      ultimately show ?thesis
        using "1.IH"(2) [OF True refl refl] 3 "1.prems" pos by simp
    qed
  qed
qed

section \<open>The shifting loop\<close>

text \<open>The loop goes up, so it copies the element at the place over all that follow.\<close>

lemma shift_up_smears:
  assumes "i + k < length s"
  shows "foldl (\<lambda>s j. s[j := s ! (j - 1)]) s [i + 1..<i + 1 + k] =
    take (Suc i) s @ replicate k (s ! i) @ drop (i + 1 + k) s"
  using assms
proof (induction k)
  case 0
  then show ?case by simp
next
  case (Suc k)
  let ?t = "take (Suc i) s @ replicate k (s ! i) @ drop (i + 1 + k) s"
  have "?t ! (i + k) = s ! i"
    using Suc.prems by (cases k) (auto simp: nth_append nth_Cons')
  moreover have "?t[i + 1 + k := s ! i] = take (Suc i) s @ replicate (Suc k) (s ! i) @ drop (i + 1 + Suc k) s"
    using Suc.prems by (simp add: list_update_append Cons_nth_drop_Suc [symmetric] replicate_append_same)
  ultimately show ?case using Suc by simp
qed

definition td_ok :: "hsk_timedata \<Rightarrow> bool" where
  "td_ok td \<longleftrightarrow> length (td_samples td) = HSK_TIMEDATA_LIMIT \<and> td_sample_len td \<le> HSK_TIMEDATA_LIMIT \<and>
     sorted (take (td_sample_len td) (td_samples td)) \<and> 0 \<le> td_offset td \<and> td_offset td < 70 * 60"

lemma td_insert_result:
  assumes "td_ok td" and "td_sample_len td < HSK_TIMEDATA_LIMIT"
  defines "s \<equiv> td_samples td" and "n \<equiv> td_sample_len td"
  shows "\<exists>i\<le>n. hsk_timedata_insert td x =
      Some (td\<lparr>td_samples := take i s @ x # replicate (n - i) (s ! i) @ drop (n + 1) s, td_sample_len := n + 1\<rparr>) \<and>
    (\<forall>j<i. s ! j \<le> x) \<and> (\<forall>j. i \<le> j \<and> j < n \<longrightarrow> x \<le> s ! j)"
proof -
  have s: "length s = 200" "sorted (take n s)" "n < 200" using assms by (auto simp: td_ok_def HSK_TIMEDATA_LIMIT_def)
  let ?r = "td_search s x 0 (int n - 1)"
  have r: "0 \<le> ?r" "?r \<le> int n" "\<forall>j<nat ?r. s ! j \<le> x" "\<forall>j. nat ?r \<le> j \<and> j < n \<longrightarrow> x \<le> s ! j"
    using td_search_place [of n s 0 "int n - 1" x] s by (simp_all add: Let_def)
  define i where "i = nat ?r"
  have i: "i \<le> n" using r by (simp add: i_def)
  have "foldl (\<lambda>s j. s[j := s ! (j - 1)]) s [i + 1..<n + 1] =
      take (Suc i) s @ replicate (n - i) (s ! i) @ drop (n + 1) s"
    using shift_up_smears [of i "n - i" s] i s(1,3) by simp
  moreover have "(take (Suc i) s @ ys)[i := x] = take i s @ x # ys" for ys
    using i s(1,3) by (simp add: list_update_append take_Suc_conv_app_nth)
  ultimately have "hsk_timedata_insert td x =
      Some (td\<lparr>td_samples := take i s @ x # replicate (n - i) (s ! i) @ drop (n + 1) s, td_sample_len := n + 1\<rparr>)"
    using s(3) unfolding hsk_timedata_insert_def s_def [symmetric] n_def [symmetric] i_def [symmetric]
    by (simp add: HSK_TIMEDATA_LIMIT_def Let_def)
  then show ?thesis using i r(3,4) by (auto simp: i_def)
qed

lemma td_insert_ok:
  assumes "td_ok td" and "td_sample_len td < HSK_TIMEDATA_LIMIT"
  shows "\<exists>td'. hsk_timedata_insert td x = Some td' \<and> td_ok td' \<and> td_known td' = td_known td"
proof -
  let ?s = "td_samples td" and ?n = "td_sample_len td"
  obtain i where i: "i \<le> ?n" "hsk_timedata_insert td x =
      Some (td\<lparr>td_samples := take i ?s @ x # replicate (?n - i) (?s ! i) @ drop (?n + 1) ?s, td_sample_len := ?n + 1\<rparr>)"
    "\<forall>j<i. ?s ! j \<le> x" "\<forall>j. i \<le> j \<and> j < ?n \<longrightarrow> x \<le> ?s ! j"
    using td_insert_result [OF assms, of x] by blast
  have s: "length ?s = 200" "sorted (take ?n ?s)" "?n < 200" using assms by (auto simp: td_ok_def HSK_TIMEDATA_LIMIT_def)
  have "sorted (take i ?s)" using sorted_wrt_take [OF s(2), of i] i(1) by (simp add: min_absorb1)
  moreover have "\<forall>y\<in>set (take i ?s). y \<le> x" using i(3) by (auto simp: in_set_conv_nth)
  moreover have "i < ?n \<longrightarrow> x \<le> ?s ! i" using i(4) by simp
  ultimately have "sorted (take i ?s @ x # replicate (?n - i) (?s ! i))"
    using i(1) by (auto simp: sorted_append)
  moreover have "take (?n + 1) (take i ?s @ x # replicate (?n - i) (?s ! i) @ drop (?n + 1) ?s) =
      take i ?s @ x # replicate (?n - i) (?s ! i)"
    using i(1) s by (simp add: Suc_diff_le min_absorb2)
  ultimately show ?thesis
    using i(1,2) s assms(1) by (simp add: td_ok_def HSK_TIMEDATA_LIMIT_def)
qed

lemma td_update_offset_ok: "td_ok td \<Longrightarrow> td_ok (td_update_offset td)"
  by (simp add: td_update_offset_def td_ok_def Let_def)

section \<open>Correctness\<close>



lemma td_add_ok:
  assumes "td_ok td"
  shows "\<exists>rc td'. hsk_timedata_add mem now td addr time = Some (rc, td') \<and> td_ok td'"
proof (cases "td_sample_len td \<ge> HSK_TIMEDATA_LIMIT \<or> tbl_has (td_known td) (addr_id addr) \<or> \<not> fst mem \<or> \<not> snd mem")
  case True
  then show ?thesis using assms by (auto simp: hsk_timedata_add_def tbl_set_def)
next
  case False
  let ?td = "td\<lparr>td_known := AList.update (addr_id addr) addr (td_known td)\<rparr>"
  have "td_ok ?td" "td_sample_len ?td < HSK_TIMEDATA_LIMIT" using assms False by (auto simp: td_ok_def)
  then obtain td' where "hsk_timedata_insert ?td (time - now) = Some td'" "td_ok td'"
    using td_insert_ok by blast
  then show ?thesis using False td_update_offset_ok by (auto simp: hsk_timedata_add_def)
qed



end
