(* ===== verification/Chain_State.thy ===== *)
theory Chain_State
  imports Header Network Timedata
begin

text \<open>
  The header chain of \<^verbatim>\<open>chain.c\<close>: its state and the operations that only read it (lookups, the
  root used for resolution, ancestors, the block locator, the median time past, the difficulty of
  the next block, the fork of two branches). The operations that change the chain are in theory
  \<open>Chain\<close>. A result \<open>None\<close> is a failed assertion, a null pointer that is followed, or a loop that
  does not end; a signed 64-bit value is an integer, read with \<open>sint\<close> where the code casts.
\<close>

section \<open>State\<close>

text \<open>
  The struct of \<^verbatim>\<open>chain.h\<close>. Headers are shared by pointer between the tables, the tip and the
  genesis; none is changed once it is in a table, so each place holds the value. \<open>ch_prefix\<close> says
  whether a directory is set, \<open>ch_file\<close> is the checkpoint file in it, \<open>ch_mem\<close> holds the outcomes
  of the next allocations and \<open>ch_io\<close> those of the next file operations.
\<close>

record hsk_chain =
  ch_height :: int
  ch_init_height :: u32
  ch_tip :: hsk_header
  ch_genesis :: hsk_header
  ch_synced :: bool
  ch_td :: hsk_timedata
  ch_hashes :: "(bytes, hsk_header) table"
  ch_heights :: "(u32, hsk_header) table"
  ch_orphans :: "(bytes, hsk_header) table"
  ch_prevs :: "(bytes, hsk_header) table"
  ch_prefix :: bool
  ch_file :: "bytes option"
  ch_mem :: "bool list"
  ch_io :: "bool list"

section \<open>Lookups\<close>

definition hsk_chain_has :: "hsk_chain \<Rightarrow> bytes \<Rightarrow> bool" where
  "hsk_chain_has chain hash = tbl_has (ch_hashes chain) hash"

definition hsk_chain_get :: "hsk_chain \<Rightarrow> bytes \<Rightarrow> hsk_header option" where
  "hsk_chain_get chain hash = tbl_get (ch_hashes chain) hash"

definition hsk_chain_get_by_height :: "hsk_chain \<Rightarrow> u32 \<Rightarrow> hsk_header option" where
  "hsk_chain_get_by_height chain height = tbl_get (ch_heights chain) height"

definition hsk_chain_has_orphan :: "hsk_chain \<Rightarrow> bytes \<Rightarrow> bool" where
  "hsk_chain_has_orphan chain hash = tbl_has (ch_orphans chain) hash"

definition hsk_chain_get_orphan :: "hsk_chain \<Rightarrow> bytes \<Rightarrow> hsk_header option" where
  "hsk_chain_get_orphan chain hash = tbl_get (ch_orphans chain) hash"

text \<open>The height is the one whose root is used, the result the root.\<close>

definition safe_height :: "hsk_network \<Rightarrow> hsk_chain \<Rightarrow> u32" where
  "safe_height N chain =
     (let interval = net_tree_interval N;
          mod' = (word_of_int (ch_height chain) :: u32) mod interval;
          mod' = (if mod' \<ge> 12 then 0 else mod')
      in word_of_int (ch_height chain) - mod')"

definition hsk_chain_safe_root :: "hsk_network \<Rightarrow> hsk_chain \<Rightarrow> bytes option" where
  "hsk_chain_safe_root N chain = do {
     prev \<leftarrow> hsk_chain_get_by_height chain (safe_height N chain);
     Some (hdr_name_root prev)
   }"

text \<open>The loop walks back from \<open>h\<close> until the height is reached.\<close>

partial_function (option) ancestor_loop :: "hsk_chain \<Rightarrow> hsk_header \<Rightarrow> u32 \<Rightarrow> hsk_header option" where
  "ancestor_loop chain h height =
     (if hdr_height h = height then Some h
      else do {
        h \<leftarrow> tbl_get (ch_hashes chain) (hdr_prev_block h);
        ancestor_loop chain h height
      })"

definition hsk_chain_get_ancestor :: "hsk_chain \<Rightarrow> hsk_header \<Rightarrow> u32 \<Rightarrow> hsk_header option" where
  "hsk_chain_get_ancestor chain hdr height =
     (if \<not> height \<le> hdr_height hdr then None else ancestor_loop chain hdr height)"

section \<open>Synchronisation\<close>

definition hsk_chain_has_work :: "hsk_network \<Rightarrow> hsk_chain \<Rightarrow> bool" where
  "hsk_chain_has_work N chain \<longleftrightarrow> memcmp (hdr_work (ch_tip chain)) (net_chainwork N) \<ge> 0"

text \<open>The first argument is the system clock.\<close>

definition hsk_chain_maybe_sync :: "hsk_network \<Rightarrow> int \<Rightarrow> hsk_chain \<Rightarrow> hsk_chain" where
  "hsk_chain_maybe_sync N clock chain =
     (if ch_synced chain then chain
      else
        let now = hsk_timedata_now clock (ch_td chain) in
        if sint (hdr_time (ch_tip chain)) < now - net_max_tip_age N then chain
        else if \<not> hsk_chain_has_work N chain then chain
        else chain\<lparr>ch_synced := True\<rparr>)"

definition hsk_chain_synced :: "hsk_chain \<Rightarrow> bool" where
  "hsk_chain_synced chain = ch_synced chain"

section \<open>Block locator\<close>

text \<open>
  The message has room for 64 hashes: a store beyond the array is \<open>None\<close>. The test against
  \<open>64 * 32 - 1\<close> is that of the code, which takes the size of the array in octets.
\<close>

definition locator_push :: "hash_fns \<Rightarrow> bytes list \<Rightarrow> hsk_header \<Rightarrow> bytes list option" where
  "locator_push H hashes hdr =
     (if length hashes < 64 then Some (hashes @ [fst (hsk_header_hash H hdr)]) else None)"

partial_function (option) locator_loop ::
  "hash_fns \<Rightarrow> hsk_chain \<Rightarrow> int \<Rightarrow> int \<Rightarrow> bytes list \<Rightarrow> bytes list option" where
  "locator_loop H chain height step hashes =
     (if height > 0 then
        let height = height - step;
            height = (if height < 0 then 0 else height);
            step = (if length hashes > 10 then step * 2 else step);
            height = (if length hashes = 64 * 32 - 1 then 0 else height)
        in case hsk_chain_get_by_height chain (word_of_int height) of
             None \<Rightarrow> locator_loop H chain height step hashes
           | Some hdr \<Rightarrow> do {
               hashes \<leftarrow> locator_push H hashes hdr;
               locator_loop H chain height step hashes
             }
      else Some hashes)"

definition hsk_chain_get_locator :: "hash_fns \<Rightarrow> hsk_chain \<Rightarrow> bytes list option" where
  "hsk_chain_get_locator H chain = do {
     hashes \<leftarrow> locator_push H [] (ch_tip chain);
     locator_loop H chain (ch_height chain) 1 hashes
   }"

section \<open>Median time past\<close>

fun mtp_times :: "nat \<Rightarrow> hsk_chain \<Rightarrow> hsk_header option \<Rightarrow> int list" where
  "mtp_times (Suc n) chain (Some prev) =
     sint (hdr_time prev) # mtp_times n chain (tbl_get (ch_hashes chain) (hdr_prev_block prev))"
| "mtp_times n chain prev = []"

definition hsk_chain_get_mtp :: "hsk_chain \<Rightarrow> hsk_header option \<Rightarrow> int" where
  "hsk_chain_get_mtp chain prev =
     (if prev = None then 0
      else let median = sort (mtp_times 11 chain prev) in median ! (length median div 2))"

section \<open>Difficulty\<close>

text \<open>The block with the median time of three consecutive blocks.\<close>

definition hsk_chain_suitable_block :: "hsk_chain \<Rightarrow> hsk_header \<Rightarrow> hsk_header option" where
  "hsk_chain_suitable_block chain prev = do {
     let z = prev;
     y \<leftarrow> tbl_get (ch_hashes chain) (hdr_prev_block z);
     x \<leftarrow> tbl_get (ch_hashes chain) (hdr_prev_block y);
     let (x, z) = (if hdr_time x > hdr_time z then (z, x) else (x, z));
     let (x, y) = (if hdr_time x > hdr_time y then (y, x) else (x, y));
     let (y, z) = (if hdr_time y > hdr_time z then (z, y) else (y, z));
     Some y
   }"

definition clamp_actual :: "int \<Rightarrow> int" where
  "clamp_actual actual =
     (let actual = (if actual < HSK_MIN_ACTUAL then HSK_MIN_ACTUAL else actual)
      in if actual > HSK_MAX_ACTUAL then HSK_MAX_ACTUAL else actual)"

definition hsk_chain_retarget :: "hsk_network \<Rightarrow> hsk_header \<Rightarrow> hsk_header \<Rightarrow> u32 option" where
  "hsk_chain_retarget N first' last' =
     (if \<not> hdr_height last' \<ge> hdr_height first' then None
      else do {
        let target_bn = hsk_bn_from_array (hdr_work first') 32;
        let last_bn = hsk_bn_from_array (hdr_work last') 32;
        let spacing_bn = hsk_bn_from_int (word_of_int HSK_TARGET_SPACING);
        let target_bn = hsk_bn_sub last_bn target_bn;
        let target_bn = hsk_bn_mul target_bn spacing_bn;
        let actual = clamp_actual (sint (hdr_time last' - hdr_time first'));
        let actual_bn = hsk_bn_from_int (word_of_int actual);
        target_bn \<leftarrow> hsk_bn_div target_bn actual_bn;
        if hsk_bn_is_zero target_bn then Some (net_bits N)
        else do {
          let one_bn = hsk_bn_from_int 1;
          let max_bn = hsk_bn_lshift (hsk_bn_from_int 1) 256;
          target_bn \<leftarrow> hsk_bn_div max_bn target_bn;
          let target_bn = hsk_bn_sub target_bn one_bn;
          let limit_bn = hsk_bn_from_array (net_limit N) 32;
          if hsk_bn_cmp target_bn limit_bn > 0 then Some (net_bits N)
          else Some (hsk_pow_to_bits (hsk_bn_to_array target_bn 32))
        }
      })"

definition hsk_chain_get_target :: "hsk_network \<Rightarrow> hsk_chain \<Rightarrow> int \<Rightarrow> hsk_header option \<Rightarrow> u32 option" where
  "hsk_chain_get_target N chain time prev =
     (case prev of
        None \<Rightarrow> if \<not> word_of_int time = hdr_time (ch_genesis chain) then None else Some (net_bits N)
      | Some prev \<Rightarrow>
          if net_no_retargetting N then Some (net_bits N)
          else if net_target_reset N \<and> time > sint (hdr_time prev) + HSK_TARGET_SPACING * 2 then Some (net_bits N)
          else if hdr_height prev < 144 + 2 then Some (net_bits N)
          else do {
            last' \<leftarrow> hsk_chain_suitable_block chain prev;
            let height = hdr_height prev - 144;
            ancestor \<leftarrow> hsk_chain_get_ancestor chain prev height;
            first' \<leftarrow> hsk_chain_suitable_block chain ancestor;
            hsk_chain_retarget N first' last'
          })"

section \<open>Forks\<close>

text \<open>
  The inner loop brings \<open>longer\<close> down to the height of \<open>fork\<close>. The outer option is non-termination,
  the inner one the null pointer the code returns.
\<close>

partial_function (option) fork_down :: "hsk_chain \<Rightarrow> hsk_header \<Rightarrow> hsk_header \<Rightarrow> hsk_header option option" where
  "fork_down chain fork longer =
     (if hdr_height longer > hdr_height fork then
        case tbl_get (ch_hashes chain) (hdr_prev_block longer) of
          None \<Rightarrow> Some None
        | Some longer \<Rightarrow> fork_down chain fork longer
      else Some (Some longer))"

definition same_header :: "hash_fns \<Rightarrow> hsk_header \<Rightarrow> hsk_header \<Rightarrow> bool" where
  "same_header H a b = fst (hsk_header_equal H a b)"

partial_function (option) hsk_chain_find_fork ::
  "hash_fns \<Rightarrow> hsk_chain \<Rightarrow> hsk_header \<Rightarrow> hsk_header \<Rightarrow> hsk_header option option" where
  "hsk_chain_find_fork H chain fork longer =
     (if \<not> same_header H fork longer then do {
        r \<leftarrow> fork_down chain fork longer;
        case r of
          None \<Rightarrow> Some None
        | Some longer \<Rightarrow>
            if same_header H fork longer then Some (Some fork)
            else case tbl_get (ch_hashes chain) (hdr_prev_block fork) of
                   None \<Rightarrow> Some None
                 | Some fork \<Rightarrow> hsk_chain_find_fork H chain fork longer
      }
      else Some (Some fork))"

end
