(* ===== verification/Chain.thy ===== *)
theory Chain
  imports Chain_State
begin

text \<open>
  The operations that change the header chain: adding a header (\<^verbatim>\<open>hsk_chain_add\<close> with orphans,
  forks and reorganisation), the genesis block, and the checkpoint file of \<^verbatim>\<open>store.c\<close>, which the
  chain writes on the way and is restored from. Every function returns the new state with its
  result; \<open>None\<close> is a failed assertion, a null pointer that is followed or a loop that does not end.
\<close>

section \<open>Allocation and tables\<close>

definition chain_alloc :: "hsk_chain \<Rightarrow> bool \<times> hsk_chain" where
  "chain_alloc chain = (let (ok, mem) = next_alloc (ch_mem chain) in (ok, chain\<lparr>ch_mem := mem\<rparr>))"

definition chain_io :: "hsk_chain \<Rightarrow> bool \<times> hsk_chain" where
  "chain_io chain = (let (ok, io) = next_alloc (ch_io chain) in (ok, chain\<lparr>ch_io := io\<rparr>))"

definition set_hashes :: "hsk_chain \<Rightarrow> bytes \<Rightarrow> hsk_header \<Rightarrow> bool \<times> hsk_chain" where
  "set_hashes chain k v =
     (let (ok, chain) = chain_alloc chain; (r, t) = tbl_set ok (ch_hashes chain) k v in (r, chain\<lparr>ch_hashes := t\<rparr>))"

definition set_heights :: "hsk_chain \<Rightarrow> u32 \<Rightarrow> hsk_header \<Rightarrow> bool \<times> hsk_chain" where
  "set_heights chain k v =
     (let (ok, chain) = chain_alloc chain; (r, t) = tbl_set ok (ch_heights chain) k v in (r, chain\<lparr>ch_heights := t\<rparr>))"

definition set_orphans :: "hsk_chain \<Rightarrow> bytes \<Rightarrow> hsk_header \<Rightarrow> bool \<times> hsk_chain" where
  "set_orphans chain k v =
     (let (ok, chain) = chain_alloc chain; (r, t) = tbl_set ok (ch_orphans chain) k v in (r, chain\<lparr>ch_orphans := t\<rparr>))"

definition set_prevs :: "hsk_chain \<Rightarrow> bytes \<Rightarrow> hsk_header \<Rightarrow> bool \<times> hsk_chain" where
  "set_prevs chain k v =
     (let (ok, chain) = chain_alloc chain; (r, t) = tbl_set ok (ch_prevs chain) k v in (r, chain\<lparr>ch_prevs := t\<rparr>))"

section \<open>The checkpoint file\<close>

definition HSK_STORE_VERSION :: u8 where
  "HSK_STORE_VERSION = 0"

definition HSK_STORE_HEADERS_COUNT :: nat where
  "HSK_STORE_HEADERS_COUNT = 150"

definition HSK_STORE_CHECKPOINT_SIZE :: nat where
  "HSK_STORE_CHECKPOINT_SIZE = 35441"

text \<open>The headers of consecutive heights, \<open>None\<close> when one is missing.\<close>

fun headers_from :: "hsk_chain \<Rightarrow> u32 \<Rightarrow> nat \<Rightarrow> hsk_header list option" where
  "headers_from chain height 0 = Some []"
| "headers_from chain height (Suc n) = do {
     hdr \<leftarrow> hsk_chain_get_by_height chain height;
     hdrs \<leftarrow> headers_from chain (height + 1) n;
     Some (hdr # hdrs)
   }"

definition store_write :: "u32 \<Rightarrow> u32 \<Rightarrow> bytes \<Rightarrow> hsk_header list \<Rightarrow> writer" where
  "store_write magic height work hdrs = write_seq
     ([write_u32be magic, write_u8 HSK_STORE_VERSION, write_u32be height, write_bytes work 32] @
      map hsk_header_write hdrs)"

text \<open>The file is written under a temporary name and renamed: it is replaced as a whole or not at all.\<close>

definition store_commit :: "hsk_chain \<Rightarrow> bytes \<Rightarrow> hsk_chain" where
  "store_commit chain buf =
     (let (opened, chain) = chain_io chain in
      if \<not> opened then chain
      else let (written, chain) = chain_io chain in
        if \<not> written then chain
        else let (renamed, chain) = chain_io chain in
          if renamed then chain\<lparr>ch_file := Some buf\<rparr> else chain)"

definition hsk_store_write :: "hsk_network \<Rightarrow> hsk_chain \<Rightarrow> hsk_chain option" where
  "hsk_store_write N chain =
     (if \<not> ch_height chain mod net_checkpoint_window N = 0 then None
      else
        let height = word_of_int (ch_height chain - net_checkpoint_window N) in do {
          prev \<leftarrow> hsk_chain_get_by_height chain (height - 1);
          hdrs \<leftarrow> headers_from chain height HSK_STORE_HEADERS_COUNT;
          Some (store_commit chain (emit (store_write (net_magic N) height (hdr_work prev) hdrs)))
        })"

definition hsk_chain_checkpoint_flush :: "hsk_network \<Rightarrow> hsk_chain \<Rightarrow> hsk_chain option" where
  "hsk_chain_checkpoint_flush N chain =
     (if \<not> ch_prefix chain then Some chain
      else if ch_height chain - uint (ch_init_height chain) \<le> net_checkpoint_window N then Some chain
      else hsk_store_write N chain)"

section \<open>Saving a header on the main chain\<close>

definition hsk_chain_save ::
  "hsk_network \<Rightarrow> int \<Rightarrow> hsk_chain \<Rightarrow> hsk_header \<Rightarrow> (hsk_error \<times> hsk_chain) option" where
  "hsk_chain_save N clock chain hdr =
     (let (ok, chain) = set_hashes chain (hdr_hash hdr) hdr in
      if \<not> ok then Some (HSK_ENOMEM, chain)
      else
        let (ok, chain) = set_heights chain (hdr_height hdr) hdr in
        if \<not> ok then Some (HSK_ENOMEM, chain\<lparr>ch_hashes := tbl_del (ch_hashes chain) (hdr_hash hdr)\<rparr>)
        else
          let chain = chain\<lparr>ch_height := uint (hdr_height hdr), ch_tip := hdr\<rparr>;
              chain = hsk_chain_maybe_sync N clock chain
          in if ch_height chain mod net_checkpoint_window N = 0 then do {
               chain \<leftarrow> hsk_chain_checkpoint_flush N chain;
               Some (HSK_SUCCESS, chain)
             }
             else Some (HSK_SUCCESS, chain))"

section \<open>Reorganisation\<close>

text \<open>
  The blocks from \<open>entry\<close> back to \<open>fork\<close>, \<open>fork\<close> excluded, \<open>entry\<close> first. The code links them
  through their \<^verbatim>\<open>next\<close> pointers, which are null before and after.
\<close>

partial_function (option) branch ::
  "hash_fns \<Rightarrow> hsk_chain \<Rightarrow> hsk_header \<Rightarrow> hsk_header \<Rightarrow> hsk_header list option" where
  "branch H chain entry fork =
     (if \<not> same_header H entry fork then do {
        prev \<leftarrow> tbl_get (ch_hashes chain) (hdr_prev_block entry);
        rest \<leftarrow> branch H chain prev fork;
        Some (entry # rest)
      }
      else Some [])"

text \<open>A failed insertion while the new branch is connected fails the assertion around it.\<close>

fun connect_blocks :: "hsk_chain \<Rightarrow> hsk_header list \<Rightarrow> hsk_chain option" where
  "connect_blocks chain (c # n # cs) =
     (let (ok, chain) = set_heights chain (hdr_height c) c in if ok then connect_blocks chain (n # cs) else None)"
| "connect_blocks chain cs = Some chain"

definition hsk_chain_reorganize :: "hash_fns \<Rightarrow> hsk_chain \<Rightarrow> hsk_header \<Rightarrow> hsk_chain option" where
  "hsk_chain_reorganize H chain competitor = do {
     fork \<leftarrow> hsk_chain_find_fork H chain (ch_tip chain) competitor;
     fork \<leftarrow> fork;
     disconnect \<leftarrow> branch H chain (ch_tip chain) fork;
     connect \<leftarrow> branch H chain competitor fork;
     let chain = foldl (\<lambda>chain c. chain\<lparr>ch_heights := tbl_del (ch_heights chain) (hdr_height c)\<rparr>) chain disconnect;
     connect_blocks chain (rev connect)
   }"

section \<open>Inserting a header whose parent is known\<close>

definition hsk_chain_insert ::
  "hash_fns \<Rightarrow> hsk_network \<Rightarrow> int \<Rightarrow> hsk_chain \<Rightarrow> hsk_header \<Rightarrow> hsk_header \<Rightarrow>
   (hsk_error \<times> hsk_header \<times> hsk_chain) option" where
  "hsk_chain_insert H N clock chain hdr prev =
     (let (hash, hdr) = hsk_header_cache H hdr;
          mtp = hsk_chain_get_mtp chain (Some prev)
      in if sint (hdr_time hdr) \<le> mtp then Some (HSK_ETIMETOOOLD, hdr, chain)
         else do {
           bits \<leftarrow> hsk_chain_get_target N chain (sint (hdr_time hdr)) (Some prev);
           if hdr_bits hdr \<noteq> bits then Some (HSK_EBADDIFFBITS, hdr, chain)
           else do {
             let hdr = hdr\<lparr>hdr_height := hdr_height prev + 1\<rparr>;
             (ok, hdr) \<leftarrow> hsk_header_calc_work hdr (Some prev);
             if \<not> ok then None
             else if memcmp (hdr_work hdr) (hdr_work (ch_tip chain)) \<le> 0 then
               let (ok, chain) = set_hashes chain hash hdr in
               Some (if ok then HSK_SUCCESS else HSK_ENOMEM, hdr, chain)
             else do {
               let (tip_hash, tip) = hsk_header_cache H (ch_tip chain);
               chain \<leftarrow> (if memcmp (hdr_prev_block hdr) tip_hash \<noteq> 0 then hsk_chain_reorganize H chain hdr
                         else Some chain);
               (rc, chain) \<leftarrow> hsk_chain_save N clock chain hdr;
               Some (rc, hdr, chain)
             }
           }
         })"

section \<open>Adding a header\<close>

definition hsk_chain_resolve_orphan :: "hash_fns \<Rightarrow> hsk_chain \<Rightarrow> bytes \<Rightarrow> (hsk_header \<times> hsk_chain) option" where
  "hsk_chain_resolve_orphan H chain hash =
     (case tbl_get (ch_prevs chain) hash of
        None \<Rightarrow> None
      | Some orphan \<Rightarrow>
          let (h, orphan) = hsk_header_cache H orphan in
          Some (orphan, chain\<lparr>ch_prevs := tbl_del (ch_prevs chain) (hdr_prev_block orphan),
                              ch_orphans := tbl_del (ch_orphans chain) h\<rparr>))"

text \<open>The loop that connects the orphans waiting for the header just added.\<close>

partial_function (option) resolve_loop ::
  "hash_fns \<Rightarrow> hsk_network \<Rightarrow> int \<Rightarrow> hsk_error \<Rightarrow> hsk_chain \<Rightarrow> hsk_header \<Rightarrow> bytes \<Rightarrow> (hsk_error \<times> hsk_chain) option" where
  "resolve_loop H N clock rc chain prev hash =
     (case hsk_chain_resolve_orphan H chain hash of
        None \<Rightarrow> Some (rc, chain)
      | Some (hdr, chain) \<Rightarrow>
          let (hash, hdr) = hsk_header_cache H hdr in do {
            (rc, hdr, chain) \<leftarrow> hsk_chain_insert H N clock chain hdr prev;
            if rc \<noteq> HSK_SUCCESS then Some (rc, chain)
            else resolve_loop H N clock rc chain hdr hash
          })"

definition chain_add_orphan :: "hsk_chain \<Rightarrow> hsk_header \<Rightarrow> bytes \<Rightarrow> hsk_error \<times> hsk_chain" where
  "chain_add_orphan chain hdr hash =
     (let chain = (if tbl_size (ch_orphans chain) > 10000 then chain\<lparr>ch_prevs := [], ch_orphans := []\<rparr> else chain);
          (ok, chain) = set_orphans chain hash hdr
      in if \<not> ok then (HSK_ENOMEM, chain)
         else
           let (ok, chain) = set_prevs chain (hdr_prev_block hdr) hdr in
           if \<not> ok then (HSK_ENOMEM, chain\<lparr>ch_orphans := tbl_del (ch_orphans chain) hash\<rparr>)
           else (HSK_EORPHAN, chain))"

definition hsk_chain_add ::
  "hash_fns \<Rightarrow> hsk_network \<Rightarrow> int \<Rightarrow> hsk_chain \<Rightarrow> hsk_header \<Rightarrow> (hsk_error \<times> hsk_chain) option" where
  "hsk_chain_add H N clock chain h =
     (let (ok, chain) = chain_alloc chain in
      if \<not> ok then Some (HSK_ENOMEM, chain)
      else
        let (hash, hdr) = hsk_header_cache H h;
            now = hsk_timedata_now clock (ch_td chain)
        in if hdr_time hdr > word_of_int (now + 2 * 60 * 60) then Some (HSK_ETIMETOONEW, chain)
           else if tbl_has (ch_hashes chain) hash then Some (HSK_EDUPLICATE, chain)
           else if tbl_has (ch_orphans chain) hash then Some (HSK_EDUPLICATEORPHAN, chain)
           else
             let (rc, hdr) = hsk_header_verify_pow H hdr in
             if rc \<noteq> HSK_SUCCESS then Some (rc, chain)
             else
               case hsk_chain_get chain (hdr_prev_block hdr) of
                 None \<Rightarrow> Some (chain_add_orphan chain hdr hash)
               | Some prev \<Rightarrow> do {
                   (rc, hdr, chain) \<leftarrow> hsk_chain_insert H N clock chain hdr prev;
                   if rc \<noteq> HSK_SUCCESS then Some (rc, chain)
                   else resolve_loop H N clock rc chain hdr hash
                 })"

section \<open>The genesis block\<close>

definition hsk_chain_init_genesis ::
  "hash_fns \<Rightarrow> hsk_network \<Rightarrow> int \<Rightarrow> hsk_chain \<Rightarrow> (hsk_error \<times> hsk_chain) option" where
  "hsk_chain_init_genesis H N clock chain =
     (let (ok, chain) = chain_alloc chain in
      if \<not> ok then Some (HSK_ENOMEM, chain)
      else do {
        tip \<leftarrow> hsk_header_decode hsk_header_init (net_genesis N);
        (ok, tip) \<leftarrow> hsk_header_calc_work tip None;
        if \<not> ok then None
        else do {
          let (hash, tip) = hsk_header_cache H tip;
          let (ok, chain) = set_hashes chain hash tip;
          if \<not> ok then Some (HSK_ENOMEM, chain)
          else do {
            let (ok, chain) = set_heights chain (hdr_height tip) tip;
            if \<not> ok then Some (HSK_ENOMEM, chain\<lparr>ch_hashes := tbl_del (ch_hashes chain) hash\<rparr>)
            else
              Some (HSK_SUCCESS, hsk_chain_maybe_sync N clock
                (chain\<lparr>ch_height := uint (hdr_height tip), ch_init_height := hdr_height tip,
                       ch_tip := tip, ch_genesis := tip\<rparr>))
          }
        }
      })"

text \<open>
  A new chain. The tip and the genesis are null until the genesis block is read; no operation
  follows them before, so their value here does not matter. The directory is set afterwards.
\<close>

definition hsk_chain_init ::
  "hash_fns \<Rightarrow> hsk_network \<Rightarrow> int \<Rightarrow> bool list \<Rightarrow> hsk_timedata \<Rightarrow> (hsk_error \<times> hsk_chain) option" where
  "hsk_chain_init H N clock mem td = hsk_chain_init_genesis H N clock
     \<lparr>ch_height = 0, ch_init_height = 0, ch_tip = hsk_header_init, ch_genesis = hsk_header_init,
      ch_synced = False, ch_td = td, ch_hashes = [], ch_heights = [], ch_orphans = [], ch_prevs = [],
      ch_prefix = False, ch_file = None, ch_mem = mem, ch_io = []\<rparr>"

section \<open>Restoring a chain from a checkpoint\<close>

text \<open>
  The loop over the headers of the checkpoint; \<open>prev\<close> is the header before, at first one of which
  only the work is known. The boolean is the C result: a short input or a failed save leaves the
  headers read so far in the chain. The callers do not read the input any further.
\<close>

fun inject_loop ::
  "hash_fns \<Rightarrow> hsk_network \<Rightarrow> int \<Rightarrow> nat \<Rightarrow> nat \<Rightarrow> hsk_header \<Rightarrow> bytes \<Rightarrow> hsk_chain \<Rightarrow> (bool \<times> hsk_chain) option" where
  "inject_loop H N clock 0 i prev d chain = Some (True, chain)"
| "inject_loop H N clock (Suc n) i prev d chain = do {
     let (ok, chain) = chain_alloc chain;
     if \<not> ok then None
     else case hsk_header_read hsk_header_init d of
       None \<Rightarrow> Some (False, chain)
     | Some (hdr, d) \<Rightarrow> do {
         let (hash, hdr) = hsk_header_cache H hdr;
         let hdr = hdr\<lparr>hdr_height := ch_init_height chain + of_nat i\<rparr>;
         if i > 0 \<and> memcmp (hdr_prev_block hdr) (hdr_hash prev) \<noteq> 0 then None
         else do {
           (ok, hdr) \<leftarrow> hsk_header_calc_work hdr (Some prev);
           if \<not> ok then None
           else do {
             (rc, chain) \<leftarrow> hsk_chain_save N clock chain hdr;
             if rc \<noteq> HSK_SUCCESS then Some (False, chain)
             else inject_loop H N clock n (i + 1) hdr d chain
           }
         }
       }
   }"

definition hsk_store_inject_checkpoint ::
  "hash_fns \<Rightarrow> hsk_network \<Rightarrow> int \<Rightarrow> bytes \<Rightarrow> hsk_chain \<Rightarrow> (bool \<times> hsk_chain) option" where
  "hsk_store_inject_checkpoint H N clock d chain =
     (case read_u32be d of
        None \<Rightarrow> Some (False, chain)
      | Some (height, d) \<Rightarrow>
          if ch_init_height chain \<ge> height then Some (True, chain)
          else
            let chain = chain\<lparr>ch_init_height := height\<rparr> in
            case read_bytes 32 d of
              None \<Rightarrow> Some (False, chain)
            | Some (work, d) \<Rightarrow>
                inject_loop H N clock HSK_STORE_HEADERS_COUNT 0 (hsk_header_init\<lparr>hdr_work := work\<rparr>) d chain)"

text \<open>
  Reading the file into a buffer of the given size: what follows the magic number and the version,
  \<open>None\<close> when the C result is false.
\<close>

definition hsk_store_read :: "hsk_network \<Rightarrow> nat \<Rightarrow> hsk_chain \<Rightarrow> bytes option" where
  "hsk_store_read N data_len chain = do {
     file \<leftarrow> ch_file chain;
     let d = take data_len file;
     if length d \<noteq> data_len then None
     else do {
       (magic, d) \<leftarrow> read_u32be d;
       if magic \<noteq> net_magic N then None
       else do {
         (version, d) \<leftarrow> read_u8 d;
         if version \<noteq> HSK_STORE_VERSION then None else Some d
       }
     }
   }"

end
