(* ===== verification/Chain_Tree.thy ===== *)
theory Chain_Tree
  imports Chain
begin

text \<open>
  The headers of the chain as a tree under the genesis block: the invariant of the table of
  headers, walking back along the parents, what the loops over ancestors return on such a tree, and
  that they always return.
\<close>

section \<open>Headers in the tables\<close>

text \<open>A header whose hash is computed and whose compact target expands.\<close>

definition ok_header :: "hash_fns \<Rightarrow> hsk_header \<Rightarrow> bool" where
  "ok_header H h \<longleftrightarrow> header_ok h \<and> hdr_cache h \<and> hdr_hash h = pow_hash H h \<and> fst (hsk_pow_to_target (hdr_bits h))"

lemma ok_header_cache:
  assumes "ok_header H h"
  shows "hsk_header_cache H h = (hdr_hash h, h)" "hsk_header_hash H h = (hdr_hash h, h)" "length (hdr_hash h) = 32"
  using assms by (auto simp: ok_header_def hsk_header_cache_def hsk_header_hash_def header_ok_def)

lemma same_header_iff: "ok_header H a \<Longrightarrow> ok_header H b \<Longrightarrow> same_header H a b \<longleftrightarrow> hdr_hash a = hdr_hash b"
  by (simp add: same_header_def hsk_header_equal_def ok_header_cache memcmp_eq_0)

abbreviation stored :: "hsk_chain \<Rightarrow> bytes \<Rightarrow> hsk_header \<Rightarrow> bool" where
  "stored c k h \<equiv> tbl_get (ch_hashes c) k = Some h"

abbreviation nheight :: "hsk_header \<Rightarrow> nat" where
  "nheight h \<equiv> unat (hdr_height h)"

section \<open>The rules a header satisfies under its parent\<close>

definition block_proof :: "hsk_header \<Rightarrow> nat" where
  "block_proof h = 2 ^ 256 div (be_val (snd (hsk_pow_to_target (hdr_bits h))) + 1)"

definition child_ok :: "hash_fns \<Rightarrow> hsk_network \<Rightarrow> hsk_chain \<Rightarrow> hsk_header \<Rightarrow> hsk_header \<Rightarrow> bool" where
  "child_ok H N c p h \<longleftrightarrow>
     nheight h = nheight p + 1 \<and>
     be_val (pow_hash H h) \<le> be_val (snd (hsk_pow_to_target (hdr_bits h))) \<and>
     hsk_chain_get_mtp c (Some p) < sint (hdr_time h) \<and>
     hsk_chain_get_target N c (sint (hdr_time h)) (Some p) = Some (hdr_bits h) \<and>
     be_val (hdr_work h) = (be_val (hdr_work p) + block_proof h) mod 2 ^ 256"

definition tree_ok :: "hash_fns \<Rightarrow> hsk_network \<Rightarrow> hsk_chain \<Rightarrow> bool" where
  "tree_ok H N c \<longleftrightarrow>
     tbl_ok (ch_hashes c) \<and>
     (\<forall>k h. stored c k h \<longrightarrow> ok_header H h \<and> hdr_hash h = k) \<and>
     stored c (hdr_hash (ch_genesis c)) (ch_genesis c) \<and> hdr_height (ch_genesis c) = 0 \<and>
     tbl_get (ch_hashes c) (hdr_prev_block (ch_genesis c)) = None \<and>
     (\<forall>k h. stored c k h \<and> h \<noteq> ch_genesis c \<longrightarrow> (\<exists>p. stored c (hdr_prev_block h) p \<and> child_ok H N c p h))"

lemma tree_okD:
  assumes "tree_ok H N c"
  shows "stored c k h \<Longrightarrow> ok_header H h" "stored c k h \<Longrightarrow> hdr_hash h = k"
    "stored c (hdr_hash (ch_genesis c)) (ch_genesis c)" "hdr_height (ch_genesis c) = 0"
    "stored c k h \<Longrightarrow> h \<noteq> ch_genesis c \<Longrightarrow> \<exists>p. stored c (hdr_prev_block h) p \<and> child_ok H N c p h"
  using assms by (auto simp: tree_ok_def)

lemma stored_inj: "tree_ok H N c \<Longrightarrow> stored c k a \<Longrightarrow> stored c l b \<Longrightarrow> hdr_hash a = hdr_hash b \<Longrightarrow> a = b"
  by (metis option.inject tree_okD(2))

lemma stored_key: "tree_ok H N c \<Longrightarrow> stored c k h \<Longrightarrow> stored c (hdr_hash h) h"
  using tree_okD(2) by metis

text \<open>A header that hangs on the tree, whether or not it is in the table itself.\<close>

definition linked :: "hash_fns \<Rightarrow> hsk_chain \<Rightarrow> hsk_header \<Rightarrow> bool" where
  "linked H c h \<longleftrightarrow> ok_header H h \<and> (tbl_get (ch_hashes c) (hdr_hash h) = None \<or> stored c (hdr_hash h) h) \<and>
     (h = ch_genesis c \<or> (\<exists>p. stored c (hdr_prev_block h) p \<and> nheight h = nheight p + 1))"

lemma stored_linked:
  assumes "tree_ok H N c" and "stored c k h"
  shows "linked H c h"
proof -
  have "h = ch_genesis c \<or> (\<exists>p. stored c (hdr_prev_block h) p \<and> nheight h = nheight p + 1)"
    using tree_okD(5) [OF assms] by (auto simp: child_ok_def)
  then show ?thesis using tree_okD(1) [OF assms] stored_key [OF assms] by (simp add: linked_def)
qed

lemma linked_cases:
  assumes "tree_ok H N c" and "linked H c h"
  obtains "h = ch_genesis c" "nheight h = 0" |
    p where "stored c (hdr_prev_block h) p" "linked H c p" "nheight h = nheight p + 1"
  using assms stored_linked [OF assms(1)] tree_okD(4) [OF assms(1)] by (auto simp: linked_def)

section \<open>Walking back\<close>

fun walk :: "hsk_chain \<Rightarrow> hsk_header \<Rightarrow> nat \<Rightarrow> hsk_header option" where
  "walk c h 0 = Some h"
| "walk c h (Suc n) = (case tbl_get (ch_hashes c) (hdr_prev_block h) of None \<Rightarrow> None | Some p \<Rightarrow> walk c p n)"

lemma walk_add: "walk c h (m + n) = Option.bind (walk c h m) (\<lambda>a. walk c a n)"
  by (induction m arbitrary: h) (auto split: option.splits)

lemma walk_ancestor:
  assumes "tree_ok H N c" and "linked H c h" and "n \<le> nheight h"
  shows "\<exists>a. walk c h n = Some a \<and> linked H c a \<and> nheight a + n = nheight h \<and> (n > 0 \<longrightarrow> stored c (hdr_hash a) a)"
  using assms(2,3)
proof (induction n arbitrary: h)
  case (Suc n)
  from assms(1) Suc.prems obtain p where p: "stored c (hdr_prev_block h) p" "linked H c p" "nheight h = nheight p + 1"
    by (auto elim: linked_cases)
  then obtain a where "walk c p n = Some a" "linked H c a" "nheight a + n = nheight p" "n > 0 \<longrightarrow> stored c (hdr_hash a) a"
    using Suc.IH [of p] Suc.prems by auto
  then show ?case using p stored_key [OF assms(1) p(1)] by (cases n) auto
qed simp

lemma walk_stored:
  assumes "tree_ok H N c" and "stored c k h" and "walk c h n = Some a"
  shows "stored c (hdr_hash a) a"
  using assms(2,3)
proof (induction n arbitrary: h k)
  case 0
  then show ?case using stored_key [OF assms(1)] by simp
next
  case (Suc n)
  then show ?case by (auto split: option.splits)
qed

lemma ancestor_loop_walk:
  assumes "tree_ok H N c" and "linked H c h" and "height \<le> hdr_height h"
  shows "ancestor_loop c h height = walk c h (nheight h - unat height)"
  using assms(2,3)
proof (induction "nheight h - unat height" arbitrary: h)
  case 0
  then have "hdr_height h = height" by (simp add: word_le_nat_alt word_unat_eq_iff)
  with 0 show ?case by (simp add: ancestor_loop.simps)
next
  case (Suc n)
  then have ne: "hdr_height h \<noteq> height" by auto
  from assms(1) Suc.prems(1) Suc.hyps(2) obtain p where p: "stored c (hdr_prev_block h) p" "linked H c p" "nheight h = nheight p + 1"
    by (auto elim: linked_cases)
  then have "n = nheight p - unat height" "height \<le> hdr_height p"
    using Suc.hyps(2) by (auto simp: word_le_nat_alt)
  then show ?case using Suc.hyps(1) [of p] Suc.hyps(2) [symmetric] p ne by (simp add: ancestor_loop.simps [of c h])
qed

lemma get_ancestor_returns:
  assumes "tree_ok H N c" and "linked H c h" and "height \<le> hdr_height h"
  shows "\<exists>a. hsk_chain_get_ancestor c h height = Some a \<and> linked H c a \<and> hdr_height a = height"
proof -
  from walk_ancestor [OF assms(1,2), of "nheight h - unat height"] assms(3) show ?thesis
    by (auto simp: hsk_chain_get_ancestor_def ancestor_loop_walk [OF assms] word_le_nat_alt word_unat_eq_iff)
qed

text \<open>The median of three blocks, for any header above height 1.\<close>

lemma suitable_block_returns:
  assumes "tree_ok H N c" and "linked H c h" and "2 \<le> nheight h"
  shows "\<exists>s. hsk_chain_suitable_block c h = Some s \<and> linked H c s \<and> nheight s \<le> nheight h \<and> nheight h \<le> nheight s + 2"
proof -
  obtain y where y: "stored c (hdr_prev_block h) y" "linked H c y" "nheight h = nheight y + 1"
    using assms by (auto elim: linked_cases)
  obtain x where x: "stored c (hdr_prev_block y) x" "linked H c x" "nheight y = nheight x + 1"
    using assms y by (auto elim!: linked_cases [OF _ y(2)])
  show ?thesis using assms(2) x y by (auto simp: hsk_chain_suitable_block_def)
qed

section \<open>Forks\<close>

lemma fork_down_walk:
  assumes "tree_ok H N c" and "linked H c longer" and "nheight fork' \<le> nheight longer"
  shows "fork_down c fork' longer = Some (walk c longer (nheight longer - nheight fork'))"
  using assms(2,3)
proof (induction "nheight longer - nheight fork'" arbitrary: longer)
  case 0
  then show ?case by (simp add: fork_down.simps word_less_nat_alt)
next
  case (Suc n)
  then have gt: "hdr_height longer > hdr_height fork'" by (simp add: word_less_nat_alt)
  from assms(1) Suc.prems(1) Suc.hyps(2) obtain p where
    p: "stored c (hdr_prev_block longer) p" "linked H c p" "nheight longer = nheight p + 1"
    by (auto elim: linked_cases)
  then show ?case
    using Suc.hyps(1) [of p] Suc.hyps(2) gt by (simp add: fork_down.simps [of c fork' longer] Suc_diff_le)
qed

lemma fork_down_lower: "nheight longer \<le> nheight fork' \<Longrightarrow> fork_down c fork' longer = Some (Some longer)"
  by (simp add: fork_down.simps word_less_nat_alt)

lemma linked_same_hash:
  "tree_ok H N c \<Longrightarrow> stored c (hdr_hash a) a \<Longrightarrow> linked H c b \<Longrightarrow> hdr_hash a = hdr_hash b \<Longrightarrow> a = b"
  by (auto simp: linked_def)

text \<open>The fork point is on both branches.\<close>

lemma find_fork_returns:
  assumes "tree_ok H N c" and "stored c (hdr_hash fork') fork'" and "linked H c longer"
  shows "\<exists>f i j. hsk_chain_find_fork H c fork' longer = Some (Some f) \<and> stored c (hdr_hash f) f \<and>
    walk c fork' i = Some f \<and> walk c longer j = Some f \<and> i + nheight f = nheight fork' \<and> j + nheight f = nheight longer"
  using assms(2,3)
proof (induction "nheight fork'" arbitrary: fork' longer rule: less_induct)
  case less
  note T = assms(1)
  have F: "linked H c fork'" using stored_linked [OF T less.prems(1)] .
  note same = same_header_iff [of H fork']
  have okF: "ok_header H fork'" and okL: "ok_header H longer" using F less.prems(2) by (simp_all add: linked_def)
  show ?case
  proof (cases "hdr_hash fork' = hdr_hash longer")
    case True
    then have "fork' = longer" using linked_same_hash [OF T less.prems] by simp
    then show ?thesis using True less.prems(1) same [OF okF okL]
      by (intro exI [of _ fork'] exI [of _ 0]) (simp add: hsk_chain_find_fork.simps)
  next
    case ne: False
    let ?d = "nheight longer - nheight fork'"
    obtain l where l: "fork_down c fork' longer = Some (Some l)" "walk c longer ?d = Some l" "linked H c l"
      "nheight l + ?d = nheight longer" "nheight l \<le> nheight fork'"
    proof (cases "nheight fork' \<le> nheight longer")
      case True
      then show ?thesis using that fork_down_walk [OF T less.prems(2) True] walk_ancestor [OF T less.prems(2), of ?d] by auto
    next
      case False
      then show ?thesis using that fork_down_lower [of longer fork'] less.prems(2) by simp
    qed
    have okl: "ok_header H l" using l(3) by (simp add: linked_def)
    show ?thesis
    proof (cases "hdr_hash fork' = hdr_hash l")
      case True
      then have "fork' = l" using linked_same_hash [OF T less.prems(1) l(3)] by simp
      then show ?thesis using ne same [OF okF okL] same [OF okF okl] l less.prems(1)
        by (rule_tac x = fork' in exI, rule_tac x = 0 in exI, rule_tac x = ?d in exI)
          (simp add: hsk_chain_find_fork.simps [of H c l longer])
    next
      case ne': False
      have "fork' \<noteq> ch_genesis c"
      proof
        assume g: "fork' = ch_genesis c"
        then have "nheight l = 0" using l(5) tree_okD(4) [OF T] by simp
        then have "l = ch_genesis c" using T l(3) by (auto elim: linked_cases)
        with g ne' show False by simp
      qed
      then obtain p where p: "stored c (hdr_prev_block fork') p" "nheight fork' = nheight p + 1"
        using F by (auto simp: linked_def)
      obtain f i j where f: "hsk_chain_find_fork H c p l = Some (Some f)" "stored c (hdr_hash f) f"
        "walk c p i = Some f" "walk c l j = Some f" "i + nheight f = nheight p" "j + nheight f = nheight l"
        using less.hyps [of p l] stored_key [OF T p(1)] p(2) l(3) by auto
      have "walk c longer (?d + j) = Some f" using l(2) f(4) by (simp add: walk_add)
      moreover have "hsk_chain_find_fork H c fork' longer = Some (Some f)"
        using ne ne' same [OF okF okL] same [OF okF okl] l(1) p(1) f(1)
        by (simp add: hsk_chain_find_fork.simps [of H c fork' longer])
      moreover have "?d + j + nheight f = nheight longer" using f(6) l(4) by simp
      ultimately show ?thesis using f(2,3,5) p by (rule_tac x = f in exI, rule_tac x = "Suc i" in exI, rule_tac x = "?d + j" in exI) simp
    qed
  qed
qed

text \<open>The blocks between a header and an ancestor of it.\<close>

fun path :: "hsk_chain \<Rightarrow> hsk_header \<Rightarrow> nat \<Rightarrow> hsk_header list" where
  "path c h 0 = []"
| "path c h (Suc n) = h # (case tbl_get (ch_hashes c) (hdr_prev_block h) of None \<Rightarrow> [] | Some p \<Rightarrow> path c p n)"

lemma branch_path:
  assumes "tree_ok H N c" and "stored c (hdr_hash f) f" and "linked H c h" and "walk c h n = Some f" and "n + nheight f = nheight h"
  shows "branch H c h f = Some (path c h n)"
  using assms(3-5)
proof (induction n arbitrary: h)
  case 0
  then show ?case by (simp add: branch.simps same_header_iff linked_def)
next
  case (Suc n)
  from assms(1) Suc.prems obtain p where p: "stored c (hdr_prev_block h) p" "linked H c p" "nheight h = nheight p + 1"
    by (auto elim: linked_cases)
  have "hdr_hash h \<noteq> hdr_hash f"
    using linked_same_hash [OF assms(1,2) Suc.prems(1)] Suc.prems(3) by auto
  then have "\<not> same_header H h f"
    using Suc.prems(1) tree_okD(1) [OF assms(1,2)] by (simp add: same_header_iff linked_def)
  then show ?case using Suc.IH [of p] Suc.prems p by (simp add: branch.simps [of H c h])
qed

lemma path_walk:
  assumes "tree_ok H N c" and "linked H c h" and "n \<le> nheight h"
  shows "b \<in> set (path c h n) \<longleftrightarrow> (\<exists>i<n. walk c h i = Some b)" "length (path c h n) = n"
proof -
  have "(b \<in> set (path c h n) \<longleftrightarrow> (\<exists>i<n. walk c h i = Some b)) \<and> length (path c h n) = n"
    using assms(2,3)
  proof (induction n arbitrary: h)
    case (Suc n)
    from assms(1) Suc.prems obtain p where p: "stored c (hdr_prev_block h) p" "linked H c p" "nheight h = nheight p + 1"
      by (auto elim: linked_cases)
    have "(\<exists>i<Suc n. walk c h i = Some b) \<longleftrightarrow> b = h \<or> (\<exists>i<n. walk c p i = Some b)"
      using p(1) by (auto simp: less_Suc_eq_0_disj)
    then show ?case using Suc.IH [of p] Suc.prems p by auto
  qed simp
  then show "b \<in> set (path c h n) \<longleftrightarrow> (\<exists>i<n. walk c h i = Some b)" "length (path c h n) = n" by auto
qed

end
