(* ===== verification/Retarget.thy ===== *)
theory Retarget
  imports Chain_Tree
begin

text \<open>
  The difficulty of the next block: the number \<^verbatim>\<open>hsk_chain_retarget\<close> computes from the work and
  the time of a window of blocks, its bounds, and that \<^verbatim>\<open>hsk_chain_get_target\<close> always returns on a
  tree of headers and does not change when headers are added.
\<close>

section \<open>The new target\<close>

lemma clamp_bounds: "21600 \<le> clamp_actual a" "clamp_actual a \<le> 345600"
  by (auto simp: clamp_actual_def HSK_MIN_ACTUAL_def HSK_MAX_ACTUAL_def HSK_TARGET_TIMESPAN_def
      HSK_TARGET_WINDOW_def HSK_TARGET_SPACING_def)

text \<open>The work done in the window, per spacing of the blocks.\<close>

definition window_time :: "hsk_header \<Rightarrow> hsk_header \<Rightarrow> nat" where
  "window_time f l = nat (clamp_actual (sint (hdr_time l - hdr_time f)))"

definition window_work :: "hsk_header \<Rightarrow> hsk_header \<Rightarrow> nat" where
  "window_work f l =
     (nat ((int (be_val (hdr_work l)) - int (be_val (hdr_work f))) mod 2 ^ 512) * 600) mod 2 ^ 512 div window_time f l"

lemma window_time_bounds: "21600 \<le> window_time f l" "window_time f l \<le> 345600"
  using clamp_bounds [of "sint (hdr_time l - hdr_time f)"] by (simp_all add: window_time_def)

definition at_limit :: "hsk_network \<Rightarrow> nat \<Rightarrow> bool" where
  "at_limit N w \<longleftrightarrow> w = 0 \<or> 2 ^ 256 div w = 0 \<or> be_val (net_limit N) < 2 ^ 256 div w - 1"

lemma sub_one_above:
  assumes "bn_ok a" and "bn_ok b" and "bn_val b = 1" and "bn_val a \<le> 2 ^ 256" and "limit < 2 ^ 256"
  shows "limit < bn_val (hsk_bn_sub a b) \<longleftrightarrow> bn_val a = 0 \<or> limit < bn_val a - 1"
proof (cases "bn_val a = 0")
  case True
  then have "int (bn_val (hsk_bn_sub a b)) = 2 ^ 512 - 1"
    using bn_val_sub_mod [OF assms(1,2)] assms(3) by simp
  then have "int limit < int (bn_val (hsk_bn_sub a b))" using assms(5) by simp
  then show ?thesis using True by simp
qed (use assms in \<open>simp add: bn_val_sub\<close>)

lemma retarget_steps:
  assumes "length (hdr_work f) = 32" and "length (hdr_work l) = 32" and "length (net_limit N) = 32"
    and "hdr_height f \<le> hdr_height l"
  defines "w \<equiv> window_work f l"
  shows "\<exists>t. length t = 32 \<and> (\<not> at_limit N w \<longrightarrow> be_val t = (2 ^ 256 div w - 1) mod 2 ^ 256) \<and>
    hsk_chain_retarget N f l = Some (if at_limit N w then net_bits N else hsk_pow_to_bits t)"
proof -
  let ?f = "hsk_bn_from_array (hdr_work f) 32" and ?l = "hsk_bn_from_array (hdr_work l) 32"
  let ?limit = "hsk_bn_from_array (net_limit N) 32"
  let ?act = "hsk_bn_from_int (word_of_int (clamp_actual (sint (hdr_time l - hdr_time f))))"
  let ?spacing = "hsk_bn_from_int (word_of_int HSK_TARGET_SPACING)"
  let ?max = "hsk_bn_lshift (hsk_bn_from_int 1) 256" and ?one = "hsk_bn_from_int 1"
  have f: "bn_ok ?f" "bn_val ?f = be_val (hdr_work f)" using bn_from_array [of "hdr_work f" 8] assms(1) by simp_all
  have l: "bn_ok ?l" "bn_val ?l = be_val (hdr_work l)" using bn_from_array [of "hdr_work l" 8] assms(2) by simp_all
  have limit: "bn_ok ?limit" "bn_val ?limit = be_val (net_limit N)"
    using bn_from_array [of "net_limit N" 8] assms(3) by simp_all
  have lt: "be_val (net_limit N) < 2 ^ 256" using be_val_lt [of "net_limit N"] assms(3) by simp
  have act: "bn_val ?act = window_time f l"
    using clamp_bounds [of "sint (hdr_time l - hdr_time f)"]
    by (simp add: bn_val_from_int window_time_def unsigned_of_int take_bit_int_eq_self_iff nat_eq_iff take_bit_eq_mod)
  have spacing: "bn_val ?spacing = 600" by (simp add: bn_val_from_int HSK_TARGET_SPACING_def)
  let ?m = "hsk_bn_mul (hsk_bn_sub ?l ?f) ?spacing"
  have sub: "bn_val (hsk_bn_sub ?l ?f) = nat ((int (be_val (hdr_work l)) - int (be_val (hdr_work f))) mod 2 ^ 512)"
    using bn_val_sub_mod [OF l(1) f(1)] f l by (simp only: nat_int [symmetric])
  have m: "bn_ok ?m" using f(1) l(1) by simp
  obtain q where q: "hsk_bn_div ?m ?act = Some q" "bn_ok q" "bn_val q = w"
    using bn_div [OF m, of ?act] act window_time_bounds(1) [of f l] f(1) l(1) spacing
    by (auto simp: w_def window_work_def bn_val_mul sub)
  show ?thesis
  proof (cases "w = 0")
    case True
    then show ?thesis using q assms(4)
      by (intro exI [of _ "replicate 32 0"]) (simp add: hsk_chain_retarget_def Let_def bn_is_zero at_limit_def)
  next
    case False
    have max: "bn_ok ?max" "bn_val ?max = 2 ^ 256" by (simp_all add: bn_val_lshift bn_val_from_int)
    obtain r where r: "hsk_bn_div ?max q = Some r" "bn_ok r" "bn_val r = 2 ^ 256 div w"
      using bn_div [OF max(1) q(2)] max(2) q(3) False by auto
    let ?x = "hsk_bn_sub r ?one"
    have "hsk_bn_cmp ?x ?limit > 0 \<longleftrightarrow> at_limit N w"
      using sub_one_above [of r ?one "be_val (net_limit N)"] r limit lt False
      by (simp add: bn_cmp bn_val_from_int at_limit_def del: power_numeral)
    moreover have "\<not> at_limit N w \<longrightarrow> be_val (hsk_bn_to_array ?x 32) = (2 ^ 256 div w - 1) mod 2 ^ 256"
      using bn_to_array [of ?x 8] r
      by (simp add: at_limit_def bn_val_sub bn_val_from_int del: power_numeral)
    ultimately show ?thesis using q r False assms(4) length_to_array [of ?x 8]
      by (intro exI [of _ "hsk_bn_to_array ?x 32"])
        (simp add: hsk_chain_retarget_def Let_def bn_is_zero del: power_numeral)
  qed
qed

text \<open>The target a compact form expands to, as a number.\<close>

definition target_of :: "u32 \<Rightarrow> nat" where
  "target_of bits = be_val (snd (hsk_pow_to_target bits))"

lemma target_of_compacted:
  assumes "length t = 32"
  shows "target_of (hsk_pow_to_bits t) \<le> be_val t"
proof (cases "be_val t = 0")
  case True
  then have "t = replicate 32 0" using assms be_val_inj [of t "replicate 32 0"] be_val_replicate0 [of 32] by simp
  then have "length (takeWhile (\<lambda>b. b = 0) (take 32 t)) = 32" by simp
  then have "hsk_pow_to_bits t = 0" unfolding hsk_pow_to_bits_def Let_def by simp
  then show ?thesis by (simp add: target_of_def pow_to_target_reject)
next
  case False
  then show ?thesis using target_of_bits(2) [OF assms] by (simp add: target_of_def)
qed

definition net_limit_ok :: "hsk_network \<Rightarrow> bool" where
  "net_limit_ok N \<longleftrightarrow> fst (hsk_pow_to_target (net_bits N)) \<and> snd (hsk_pow_to_target (net_bits N)) = net_limit N"

lemma networks_limit_ok: "N \<in> set hsk_networks \<Longrightarrow> net_limit_ok N"
proof -
  have "net_limit_ok HSK_MAIN" "net_limit_ok HSK_TESTNET" "net_limit_ok HSK_REGTEST" "net_limit_ok HSK_SIMNET"
    by code_simp+
  then show "N \<in> set hsk_networks \<Longrightarrow> net_limit_ok N" by (auto simp: hsk_networks_def)
qed

lemma retarget_bounded:
  assumes "net_ok N" and "net_limit_ok N" and "length (hdr_work f) = 32" and "length (hdr_work l) = 32"
    and "hdr_height f \<le> hdr_height l"
  shows "\<exists>b. hsk_chain_retarget N f l = Some b \<and> target_of b \<le> be_val (net_limit N)"
proof -
  let ?w = "window_work f l"
  have len: "length (net_limit N) = 32" using assms(1) by (simp add: net_ok_def)
  obtain t where t: "length t = 32" "\<not> at_limit N ?w \<longrightarrow> be_val t = (2 ^ 256 div ?w - 1) mod 2 ^ 256"
    "hsk_chain_retarget N f l = Some (if at_limit N ?w then net_bits N else hsk_pow_to_bits t)"
    using retarget_steps [OF assms(3,4) len assms(5)] by blast
  have "target_of (hsk_pow_to_bits t) \<le> be_val (net_limit N)" if "\<not> at_limit N ?w"
  proof -
    have "be_val t \<le> 2 ^ 256 div ?w - 1" using t(2) that by simp
    also have "\<dots> \<le> be_val (net_limit N)" using that by (simp add: at_limit_def)
    finally show ?thesis using target_of_compacted [OF t(1)] by simp
  qed
  moreover have "target_of (net_bits N) = be_val (net_limit N)" using assms(2) by (simp add: target_of_def net_limit_ok_def)
  ultimately show ?thesis using t(3) by auto
qed

section \<open>The difficulty rule on a tree\<close>

lemma get_target_returns:
  assumes "tree_ok H N c" and "net_ok N" and "net_limit_ok N" and "linked H c p"
  shows "\<exists>b. hsk_chain_get_target N c time (Some p) = Some b \<and> target_of b \<le> be_val (net_limit N)"
proof -
  note T = assms(1)
  have lim: "target_of (net_bits N) \<le> be_val (net_limit N)" using assms(3) by (simp add: target_of_def net_limit_ok_def)
  have work: "length (hdr_work x) = 32" if "linked H c x" for x
    using that by (simp add: linked_def ok_header_def header_ok_def)
  show ?thesis
  proof (cases "hdr_height p < 144 + 2")
    case True
    then show ?thesis using lim by (simp add: hsk_chain_get_target_def)
  next
    case False
    then have ge: "146 \<le> nheight p" by (simp add: word_less_nat_alt)
    then have h: "unat (hdr_height p - 144) = nheight p - 144" by (simp add: unat_sub word_le_nat_alt)
    obtain l where l: "hsk_chain_suitable_block c p = Some l" "linked H c l" "nheight p \<le> nheight l + 2"
      using suitable_block_returns [OF T assms(4)] ge by auto
    obtain a where a: "hsk_chain_get_ancestor c p (hdr_height p - 144) = Some a" "linked H c a" "hdr_height a = hdr_height p - 144"
      using get_ancestor_returns [OF T assms(4), of "hdr_height p - 144"] ge h by (auto simp: word_le_nat_alt)
    have "2 \<le> nheight a" using a(3) h ge by simp
    then obtain f where f: "hsk_chain_suitable_block c a = Some f" "linked H c f" "nheight f \<le> nheight a"
      using suitable_block_returns [OF T a(2)] by auto
    have "nheight f \<le> nheight l" using f(3) l(3) a(3) h ge by simp
    then obtain b where "hsk_chain_retarget N f l = Some b" "target_of b \<le> be_val (net_limit N)"
      using retarget_bounded [OF assms(2,3) work [OF f(2)] work [OF l(2)]] by (auto simp: word_le_nat_alt)
    then show ?thesis using lim l(1) a(1) f(1) False by (auto simp: hsk_chain_get_target_def)
  qed
qed

section \<open>Adding headers does not change the rules for the others\<close>

definition grows :: "hsk_chain \<Rightarrow> hsk_chain \<Rightarrow> bool" where
  "grows c c' \<longleftrightarrow> (\<forall>k h. stored c k h \<longrightarrow> stored c' k h) \<and> ch_genesis c' = ch_genesis c \<and>
     tbl_get (ch_hashes c') (hdr_prev_block (ch_genesis c)) = None"

lemma grows_stored: "grows c c' \<Longrightarrow> stored c k h \<Longrightarrow> stored c' k h"
  by (simp add: grows_def)

lemma mtp_times_grows:
  assumes "tree_ok H N c" and "grows c c'" and "stored c k p"
  shows "mtp_times n c' (Some p) = mtp_times n c (Some p)"
  using assms(3)
proof (induction n arbitrary: k p)
  case (Suc n)
  show ?case
  proof (cases "p = ch_genesis c")
    case True
    then show ?thesis using assms(1,2) by (cases n) (auto simp: grows_def tree_ok_def)
  next
    case False
    then obtain q where "stored c (hdr_prev_block p) q" using tree_okD(5) [OF assms(1) Suc.prems] by blast
    then show ?thesis using Suc.IH grows_stored [OF assms(2)] by simp
  qed
qed simp

lemma suitable_block_grows:
  assumes "grows c c'" and "hsk_chain_suitable_block c p = Some b"
  shows "hsk_chain_suitable_block c' p = Some b"
proof -
  obtain y where y: "stored c (hdr_prev_block p) y"
    using assms(2) by (cases "tbl_get (ch_hashes c) (hdr_prev_block p)") (simp_all add: hsk_chain_suitable_block_def)
  obtain x where x: "stored c (hdr_prev_block y) x"
    using assms(2) y by (cases "tbl_get (ch_hashes c) (hdr_prev_block y)") (simp_all add: hsk_chain_suitable_block_def)
  show ?thesis
    using assms(2) unfolding hsk_chain_suitable_block_def
    by (simp add: x y grows_stored [OF assms(1) x] grows_stored [OF assms(1) y])
qed

lemma ancestor_loop_grows:
  assumes "grows c c'" and ret: "ancestor_loop c h n = Some a"
  shows "ancestor_loop c' h n = Some a"
proof -
  have "c = c \<longrightarrow> ancestor_loop c' h n = Some a"
  proof (rule ancestor_loop.raw_induct [where P = "\<lambda>x h n a. x = c \<longrightarrow> ancestor_loop c' h n = Some a", OF _ ret])
    fix f x h n a
    assume IH: "\<And>x h n a. f x h n = Some a \<Longrightarrow> x = c \<longrightarrow> ancestor_loop c' h n = Some a"
      and eq: "(if hdr_height h = n then Some h
         else tbl_get (ch_hashes x) (hdr_prev_block h) \<bind> (\<lambda>h. f x h n)) = Some a"
    show "x = c \<longrightarrow> ancestor_loop c' h n = Some a"
    proof (cases "hdr_height h = n")
      case False
      with eq obtain p where "tbl_get (ch_hashes x) (hdr_prev_block h) = Some p" "f x p n = Some a"
        by (auto simp: bind_eq_Some_conv)
      then show ?thesis using IH False grows_stored [OF assms(1)] by (auto simp: ancestor_loop.simps [of c' h n])
    qed (use eq in \<open>simp add: ancestor_loop.simps\<close>)
  qed
  then show ?thesis by simp
qed

lemma get_target_grows:
  assumes "grows c c'" and "hsk_chain_get_target N c t (Some p) = Some b"
  shows "hsk_chain_get_target N c' t (Some p) = Some b"
  using assms suitable_block_grows [OF assms(1)] ancestor_loop_grows [OF assms(1)]
  by (auto simp: hsk_chain_get_target_def hsk_chain_get_ancestor_def Let_def bind_eq_Some_conv split: if_splits)

lemma child_ok_grows:
  assumes "tree_ok H N c" and "grows c c'" and "stored c k p" and "child_ok H N c p h"
  shows "child_ok H N c' p h"
  using assms mtp_times_grows [OF assms(1-3)] get_target_grows [OF assms(2)]
  by (simp add: child_ok_def hsk_chain_get_mtp_def)

end
