(* ===== verification/Chain_Ok.thy ===== *)
theory Chain_Ok
  imports Retarget
begin

text \<open>
  The invariant of the chain started from a genesis block and that every operation keeps it: the
  headers form a tree of valid blocks, the table of heights is the branch of the tip, no stored
  header has more work than the tip, and the orphans are bounded. While memory lasts, adding any
  header returns: no assertion of \<^verbatim>\<open>chain.c\<close> fails and no loop runs forever.
\<close>

section \<open>The invariant\<close>

text \<open>The table of heights below a header that is about to become the tip.\<close>

definition heights_below :: "hsk_chain \<Rightarrow> (u32, hsk_header) table \<Rightarrow> hsk_header \<Rightarrow> bool" where
  "heights_below c T h \<longleftrightarrow> tbl_ok T \<and>
     (\<forall>n. tbl_get T n = (if n < hdr_height h then walk c h (nheight h - unat n) else None))"

definition main_ok :: "hsk_chain \<Rightarrow> bool" where
  "main_ok c \<longleftrightarrow>
     stored c (hdr_hash (ch_tip c)) (ch_tip c) \<and> ch_height c = uint (hdr_height (ch_tip c)) \<and>
     ch_init_height c = 0 \<and> tbl_ok (ch_heights c) \<and>
     (\<forall>n. tbl_get (ch_heights c) n =
        (if n \<le> hdr_height (ch_tip c) then walk c (ch_tip c) (nheight (ch_tip c) - unat n) else None)) \<and>
     (\<forall>k h. stored c k h \<longrightarrow> be_val (hdr_work h) \<le> be_val (hdr_work (ch_tip c)))"

definition orphans_ok :: "hash_fns \<Rightarrow> hsk_chain \<Rightarrow> bool" where
  "orphans_ok H c \<longleftrightarrow> tbl_ok (ch_orphans c) \<and> tbl_ok (ch_prevs c) \<and>
     (\<forall>k h. tbl_get (ch_orphans c) k = Some h \<longrightarrow>
        ok_header H h \<and> hdr_hash h = k \<and> tbl_get (ch_hashes c) k = None \<and>
        k \<noteq> hdr_prev_block (ch_genesis c) \<and> be_val (pow_hash H h) \<le> target_of (hdr_bits h)) \<and>
     (\<forall>k h. tbl_get (ch_prevs c) k = Some h \<longrightarrow> hdr_prev_block h = k \<and> tbl_get (ch_orphans c) (hdr_hash h) = Some h) \<and>
     tbl_size (ch_prevs c) \<le> tbl_size (ch_orphans c) \<and> tbl_size (ch_orphans c) \<le> 10001"

definition chain_ok :: "hash_fns \<Rightarrow> hsk_network \<Rightarrow> hsk_chain \<Rightarrow> bool" where
  "chain_ok H N c \<longleftrightarrow> tree_ok H N c \<and> main_ok c \<and> orphans_ok H c"

section \<open>Adding a node to the tree\<close>

lemma chain_alloc_ok [chain_simps]: "ch_mem c = [] \<Longrightarrow> chain_alloc c = (True, c)"
  by (simp add: chain_alloc_def)

lemma set_tables_ok [chain_simps]:
  assumes "ch_mem c = []"
  shows "set_hashes c k v = (True, c\<lparr>ch_hashes := AList.update k v (ch_hashes c)\<rparr>)"
    and "set_heights c n v = (True, c\<lparr>ch_heights := AList.update n v (ch_heights c)\<rparr>)"
    and "set_orphans c k v = (True, c\<lparr>ch_orphans := AList.update k v (ch_orphans c)\<rparr>)"
    and "set_prevs c k v = (True, c\<lparr>ch_prevs := AList.update k v (ch_prevs c)\<rparr>)"
  using assms by (simp_all add: set_hashes_def set_heights_def set_orphans_def set_prevs_def chain_alloc_ok)

lemma walk_grows: "grows c c' \<Longrightarrow> walk c h n = Some a \<Longrightarrow> walk c' h n = Some a"
  by (induction n arbitrary: h) (auto split: option.splits dest: grows_stored)

lemma walk_same: "ch_hashes c' = ch_hashes c \<Longrightarrow> walk c' h n = walk c h n"
  by (induction n arbitrary: h) (simp_all split: option.splits)

lemma grows_update:
  assumes "tree_ok H N c" and "tbl_get (ch_hashes c) (hdr_hash h) = None"
    and "hdr_hash h \<noteq> hdr_prev_block (ch_genesis c)"
    and "ch_hashes c' = AList.update (hdr_hash h) h (ch_hashes c)" and "ch_genesis c' = ch_genesis c"
  shows "grows c c'"
  using assms by (auto simp: grows_def tree_ok_def)

lemma tree_ok_update:
  assumes T: "tree_ok H N c" and "ok_header H h" and new: "tbl_get (ch_hashes c) (hdr_hash h) = None"
    and g: "grows c c'" and h': "ch_hashes c' = AList.update (hdr_hash h) h (ch_hashes c)"
    and p: "stored c (hdr_prev_block h) p" and "child_ok H N c p h"
  shows "tree_ok H N c'"
proof -
  have gen: "ch_genesis c' = ch_genesis c" "tbl_get (ch_hashes c') (hdr_prev_block (ch_genesis c)) = None"
    using g by (simp_all add: grows_def)
  have parents: "\<forall>k x. stored c' k x \<and> x \<noteq> ch_genesis c \<longrightarrow> (\<exists>q. stored c' (hdr_prev_block x) q \<and> child_ok H N c' q x)"
  proof (intro allI impI)
    fix k x assume x: "stored c' k x \<and> x \<noteq> ch_genesis c"
    show "\<exists>q. stored c' (hdr_prev_block x) q \<and> child_ok H N c' q x"
    proof (cases "k = hdr_hash h")
      case True
      then have "x = h" using x h' by simp
      then show ?thesis using child_ok_grows [OF T g p assms(7)] grows_stored [OF g p] by blast
    next
      case False
      then have "stored c k x" using x h' by simp
      then obtain q where q: "stored c (hdr_prev_block x) q" "child_ok H N c q x"
        using tree_okD(5) [OF T, of k x] x by blast
      then show ?thesis using child_ok_grows [OF T g q] grows_stored [OF g q(1)] by blast
    qed
  qed
  have keys: "\<forall>k x. stored c' k x \<longrightarrow> ok_header H x \<and> hdr_hash x = k"
    using h' assms(2) tree_okD(1,2) [OF T] by (auto split: if_splits)
  have "tbl_ok (ch_hashes c')" using T h' by (simp add: tree_ok_def)
  then show ?thesis
    unfolding tree_ok_def gen
    using parents keys gen(2) tree_okD(4) [OF T] grows_stored [OF g tree_okD(3) [OF T]] by blast
qed

lemma tree_ok_cong:
  assumes T: "tree_ok H N c" and "ch_hashes c' = ch_hashes c" and "ch_genesis c' = ch_genesis c"
  shows "tree_ok H N c'"
proof -
  have g: "grows c c'" using assms by (simp add: grows_def tree_ok_def)
  have "\<exists>p. stored c' (hdr_prev_block h) p \<and> child_ok H N c' p h" if "stored c k h" "h \<noteq> ch_genesis c" for k h
    using tree_okD(5) [OF T that] child_ok_grows [OF T g] assms(2) by metis
  then show ?thesis using T unfolding tree_ok_def assms(2,3) by blast
qed

section \<open>Reorganisation\<close>

lemma get_deletes:
  "tbl_get (foldl (\<lambda>T b. tbl_del T (hdr_height b)) T bs) n = (if n \<in> hdr_height ` set bs then None else tbl_get T n)"
  by (induction bs arbitrary: T) auto

lemma tbl_ok_deletes: "tbl_ok T \<Longrightarrow> tbl_ok (foldl (\<lambda>T b. tbl_del T (hdr_height b)) T bs)"
  by (induction bs arbitrary: T) auto

lemma get_updates:
  "n \<notin> hdr_height ` set bs \<Longrightarrow> tbl_get (foldl (\<lambda>T b. AList.update (hdr_height b) b T) T bs) n = tbl_get T n"
  "inj_on hdr_height (set bs) \<Longrightarrow> b \<in> set bs \<Longrightarrow>
   tbl_get (foldl (\<lambda>T b. AList.update (hdr_height b) b T) T bs) (hdr_height b) = Some b"
proof -
  show "n \<notin> hdr_height ` set bs \<Longrightarrow> tbl_get (foldl (\<lambda>T b. AList.update (hdr_height b) b T) T bs) n = tbl_get T n"
    by (induction bs arbitrary: T) auto
  show "inj_on hdr_height (set bs) \<Longrightarrow> b \<in> set bs \<Longrightarrow>
    tbl_get (foldl (\<lambda>T b. AList.update (hdr_height b) b T) T bs) (hdr_height b) = Some b"
    by (induction bs rule: rev_induct) (auto simp: inj_on_def)
qed

lemma tbl_ok_updates: "tbl_ok T \<Longrightarrow> tbl_ok (foldl (\<lambda>T b. AList.update (hdr_height b) b T) T bs)"
  by (induction bs arbitrary: T) auto

lemma connect_blocks_ok:
  "ch_mem c = [] \<Longrightarrow> connect_blocks c (bs @ [h]) =
     Some (c\<lparr>ch_heights := foldl (\<lambda>T b. AList.update (hdr_height b) b T) (ch_heights c) bs\<rparr>)"
proof (induction bs arbitrary: c)
  case (Cons x bs)
  obtain y ys where ys: "bs @ [h] = y # ys" by (cases bs) auto
  let ?c = "c\<lparr>ch_heights := AList.update (hdr_height x) x (ch_heights c)\<rparr>"
  have "connect_blocks ?c (bs @ [h]) =
      Some (?c\<lparr>ch_heights := foldl (\<lambda>T b. AList.update (hdr_height b) b T) (ch_heights ?c) bs\<rparr>)"
    using Cons.IH [of ?c] Cons.prems by simp
  then show ?case using Cons.prems by (simp add: ys chain_simps)
qed simp

lemma disconnect_ok:
  "foldl (\<lambda>c b. c\<lparr>ch_heights := tbl_del (ch_heights c) (hdr_height b)\<rparr>) c bs =
   c\<lparr>ch_heights := foldl (\<lambda>T b. tbl_del T (hdr_height b)) (ch_heights c) bs\<rparr>"
  by (induction bs arbitrary: c) simp_all

text \<open>The heights on a path are those between its ends.\<close>

lemma path_heights:
  assumes "tree_ok H N c" and "linked H c h" and "k \<le> nheight h"
  shows "n \<in> hdr_height ` set (path c h k) \<longleftrightarrow> nheight h - k < unat n \<and> unat n \<le> nheight h"
    and "b \<in> set (path c h k) \<Longrightarrow> walk c h (nheight h - nheight b) = Some b"
    and "inj_on hdr_height (set (path c h k))"
proof -
  have at: "nheight b + i = nheight h \<and> walk c h (nheight h - nheight b) = Some b"
    if "walk c h i = Some b" "i < k" for i b
  proof -
    have "nheight b + i = nheight h" using walk_ancestor [OF assms(1,2), of i] that assms(3) by auto
    moreover then have "nheight h - nheight b = i" by simp
    ultimately show ?thesis using that(1) by simp
  qed
  show mem: "walk c h (nheight h - nheight b) = Some b" if "b \<in> set (path c h k)" for b
    using that at path_walk(1) [OF assms, of b] by auto
  show "inj_on hdr_height (set (path c h k))"
  proof (rule inj_onI)
    fix x y assume xy: "x \<in> set (path c h k)" "y \<in> set (path c h k)" "hdr_height x = hdr_height y"
    have "Some x = Some y" using mem [OF xy(1)] mem [OF xy(2)] unfolding xy(3) by (rule trans [OF sym])
    then show "x = y" by simp
  qed
  show "n \<in> hdr_height ` set (path c h k) \<longleftrightarrow> nheight h - k < unat n \<and> unat n \<le> nheight h"
  proof
    assume "n \<in> hdr_height ` set (path c h k)"
    then obtain b i where "n = hdr_height b" "walk c h i = Some b" "i < k" using path_walk(1) [OF assms] by blast
    then have "unat n + i = nheight h" "i < k" using at [of i b] by simp_all
    then show "nheight h - k < unat n \<and> unat n \<le> nheight h" using assms(3) by arith
  next
    assume n: "nheight h - k < unat n \<and> unat n \<le> nheight h"
    let ?i = "nheight h - unat n"
    obtain b where b: "walk c h ?i = Some b" "nheight b + ?i = nheight h"
      using walk_ancestor [OF assms(1,2), of ?i] by auto
    then have "hdr_height b = n" using n by (auto simp: word_unat_eq_iff)
    moreover have "?i < k" using n assms(3) by auto
    ultimately show "n \<in> hdr_height ` set (path c h k)" using path_walk(1) [OF assms, of b] b(1) by auto
  qed
qed

lemma reorganize_ok:
  assumes T: "tree_ok H N c" and M: "main_ok c" and mem: "ch_mem c = []"
    and L: "linked H c h" and new: "tbl_get (ch_hashes c) (hdr_hash h) = None"
  shows "\<exists>t. hsk_chain_reorganize H c h = Some (c\<lparr>ch_heights := t\<rparr>) \<and> heights_below c t h"
proof -
  let ?t = "ch_tip c"
  have S: "stored c (hdr_hash ?t) ?t" using M by (simp add: main_ok_def)
  note LT = stored_linked [OF T S]
  obtain f i j where f: "hsk_chain_find_fork H c ?t h = Some (Some f)" "stored c (hdr_hash f) f"
    "walk c ?t i = Some f" "walk c h j = Some f" "i + nheight f = nheight ?t" "j + nheight f = nheight h"
    using find_fork_returns [OF T S L] by blast
  have "j \<noteq> 0" using f(2,4) new by (cases j) auto
  obtain p where p: "stored c (hdr_prev_block h) p" "linked H c p" "nheight h = nheight p + 1"
    using T L \<open>j \<noteq> 0\<close> f(6) by (auto elim: linked_cases)
  obtain j' where j': "j = Suc j'" using \<open>j \<noteq> 0\<close> by (cases j) auto
  let ?A = "path c ?t i" and ?B = "path c p j'"
  let ?T1 = "foldl (\<lambda>T b. tbl_del T (hdr_height b)) (ch_heights c) ?A"
  let ?T2 = "foldl (\<lambda>T b. AList.update (hdr_height b) b T) ?T1 (rev ?B)"
  have "branch H c ?t f = Some ?A" "branch H c h f = Some (h # ?B)"
    using branch_path [OF T f(2) LT f(3,5)] branch_path [OF T f(2) L f(4,6)] p(1) j' by simp_all
  then have run: "hsk_chain_reorganize H c h = Some (c\<lparr>ch_heights := ?T2\<rparr>)"
    using f(1) mem by (simp add: hsk_chain_reorganize_def disconnect_ok connect_blocks_ok)
  have A: "n \<in> hdr_height ` set ?A \<longleftrightarrow> nheight f < unat n \<and> unat n \<le> nheight ?t" for n
  proof -
    have "nheight ?t - i = nheight f" "i \<le> nheight ?t" using f(5) by simp_all
    then show ?thesis using path_heights(1) [OF T LT, of i n] by simp
  qed
  have B: "n \<in> hdr_height ` set ?B \<longleftrightarrow> nheight f < unat n \<and> unat n < nheight h" for n
  proof -
    have "nheight p - j' = nheight f" "j' \<le> nheight p" using f(6) p(3) j' by simp_all
    then show ?thesis using path_heights(1) [OF T p(2), of j' n] p(3) by auto
  qed
  have "tbl_get ?T2 n = (if n < hdr_height h then walk c h (nheight h - unat n) else None)" for n
  proof (cases "n \<in> hdr_height ` set ?B")
    case True
    then obtain b where b: "n = hdr_height b" "b \<in> set ?B" by auto
    have inj: "inj_on hdr_height (set (rev ?B))" using path_heights(3) [OF T p(2), of j'] f(6) p(3) j' by simp
    have "walk c p (nheight p - unat n) = Some b"
      using path_heights(2) [OF T p(2) _ b(2)] b(1) f(6) p(3) j' by simp
    moreover have "nheight h - unat n = Suc (nheight p - unat n)" using True B p(3) by auto
    ultimately show ?thesis using True B get_updates(2) [OF inj, of b] b p(1) by (auto simp: word_less_nat_alt)
  next
    case out: False
    then have get: "tbl_get ?T2 n = (if n \<in> hdr_height ` set ?A then None else tbl_get (ch_heights c) n)"
      by (simp add: get_updates(1) get_deletes)
    show ?thesis
    proof (cases "unat n \<le> nheight f")
      case True
      have "walk c ?t (nheight ?t - unat n) = walk c f (nheight f - unat n)"
        using walk_add [of c ?t i "nheight f - unat n"] f(3,5) True by simp
      moreover have "walk c h (nheight h - unat n) = walk c f (nheight f - unat n)"
        using walk_add [of c h j "nheight f - unat n"] f(4,6) True by simp
      ultimately show ?thesis
        using get A M True f(5,6) \<open>j \<noteq> 0\<close> by (auto simp: main_ok_def word_less_nat_alt word_le_nat_alt)
    next
      case False
      then show ?thesis using get A B out M by (auto simp: main_ok_def word_less_nat_alt word_le_nat_alt)
    qed
  qed
  moreover have "tbl_ok ?T2" using M by (simp add: main_ok_def tbl_ok_updates tbl_ok_deletes)
  ultimately show ?thesis using run by (auto simp: heights_below_def)
qed

text \<open>No reorganisation is needed when the header extends the tip.\<close>

lemma extend_heights:
  assumes "main_ok c" and "hdr_prev_block h = hdr_hash (ch_tip c)" and "nheight h = nheight (ch_tip c) + 1"
  shows "heights_below c (ch_heights c) h"
proof -
  have S: "stored c (hdr_prev_block h) (ch_tip c)" using assms(1,2) by (simp add: main_ok_def)
  have "walk c h (nheight h - unat n) = walk c (ch_tip c) (nheight (ch_tip c) - unat n)" if "n \<le> hdr_height (ch_tip c)" for n
    using S assms(3) that by (simp add: word_le_nat_alt Suc_diff_le)
  moreover have "n < hdr_height h \<longleftrightarrow> n \<le> hdr_height (ch_tip c)" for n
    using assms(3) by (auto simp: word_less_nat_alt word_le_nat_alt)
  ultimately show ?thesis using assms(1) by (simp add: heights_below_def main_ok_def)
qed

end
