(* ===== verification/Chain_Steps.thy ===== *)
theory Chain_Steps
  imports Chain_Ok
begin

text \<open>
  Every operation of \<^verbatim>\<open>chain.c\<close> returns and keeps the invariant \<open>chain_ok\<close>: writing the checkpoint
  file, saving a header on the main chain, inserting a header under its parent, adding a header
  from the network with the orphans that wait for it, and the chain of a genesis block.
\<close>

section \<open>The checkpoint file\<close>

lemma int_unat_of_int: "0 \<le> k \<Longrightarrow> k < 2 ^ 32 \<Longrightarrow> int (unat (word_of_int k :: u32)) = k"
  by (simp add: unsigned_of_int take_bit_int_eq_self)

lemma headers_from_ok:
  "(\<forall>i<n. tbl_get (ch_heights c) (height + of_nat i) \<noteq> None) \<Longrightarrow> \<exists>hs. headers_from c height n = Some hs \<and> length hs = n"
proof (induction n arbitrary: height)
  case (Suc n)
  have "\<forall>i<n. tbl_get (ch_heights c) (height + 1 + of_nat i) \<noteq> None"
  proof (intro allI impI)
    fix i assume "i < n"
    then have "Suc i < Suc n" by simp
    then have "tbl_get (ch_heights c) (height + of_nat (Suc i)) \<noteq> None" using Suc.prems by blast
    then show "tbl_get (ch_heights c) (height + 1 + of_nat i) \<noteq> None" by (simp add: add.assoc)
  qed
  then obtain hs where "headers_from c (height + 1) n = Some hs" "length hs = n" using Suc.IH by blast
  moreover have "tbl_get (ch_heights c) height \<noteq> None" using Suc.prems [rule_format, of 0] by simp
  ultimately show ?case by (auto simp: hsk_chain_get_by_height_def)
qed simp

lemma store_commit_same: "\<exists>io f. store_commit c buf = c\<lparr>ch_io := io, ch_file := f\<rparr>"
proof -
  have "store_commit c buf = c\<lparr>ch_io := ch_io (store_commit c buf), ch_file := ch_file (store_commit c buf)\<rparr>"
    by (simp add: store_commit_def chain_io_def split_beta Let_def)
  then show ?thesis by blast
qed

lemma flush_ok:
  assumes "net_ok N" and "ch_init_height c = 0" and "0 \<le> ch_height c" and "ch_height c < 2 ^ 32"
    and "ch_height c mod net_checkpoint_window N = 0"
    and heights: "\<And>n. int (unat n) \<le> ch_height c \<Longrightarrow> tbl_get (ch_heights c) n \<noteq> None"
  shows "\<exists>io f. hsk_chain_checkpoint_flush N c = Some (c\<lparr>ch_io := io, ch_file := f\<rparr>)"
proof (cases "\<not> ch_prefix c \<or> ch_height c \<le> net_checkpoint_window N")
  case True
  then show ?thesis using assms(2)
    by (intro exI [of _ "ch_io c"] exI [of _ "ch_file c"]) (auto simp: hsk_chain_checkpoint_flush_def)
next
  case False
  define height :: u32 where "height = word_of_int (ch_height c - net_checkpoint_window N)"
  have W: "150 < net_checkpoint_window N" using assms(1) by (simp add: net_ok_def)
  have h: "int (unat height) = ch_height c - net_checkpoint_window N"
    unfolding height_def using False W assms(4) by (intro int_unat_of_int) auto
  have up: "tbl_get (ch_heights c) (height + of_nat i) \<noteq> None" if "i < 150" for i
  proof (rule heights)
    have "unat (height + of_nat i) \<le> unat height + unat (of_nat i :: u32)"
      by (simp add: unat_word_ariths(1))
    also have "\<dots> \<le> unat height + i" by (simp add: unat_of_nat)
    finally show "int (unat (height + of_nat i)) \<le> ch_height c" using h W that by linarith
  qed
  then obtain hs where hs: "headers_from c height 150 = Some hs" using headers_from_ok [of 150 c height] by blast
  have "unat (height - 1) \<le> unat height"
  proof -
    have "1 \<le> unat height" using False h by linarith
    then have "1 \<le> height" by (simp add: word_le_nat_alt)
    then show ?thesis by (simp add: unat_sub)
  qed
  then obtain p where p: "tbl_get (ch_heights c) (height - 1) = Some p"
    using heights [of "height - 1"] h W by fastforce
  have "hsk_chain_checkpoint_flush N c = Some (store_commit c (emit (store_write (net_magic N) height (hdr_work p) hs)))"
    using False hs p assms(2,5)
    unfolding hsk_chain_checkpoint_flush_def hsk_store_write_def height_def [symmetric] Let_def
    by (simp add: hsk_chain_get_by_height_def HSK_STORE_HEADERS_COUNT_def)
  then show ?thesis using store_commit_same by metis
qed

section \<open>Saving a header\<close>

text \<open>The fields \<^verbatim>\<open>hsk_chain_save\<close> leaves alone, and those it sets.\<close>

definition saved :: "hsk_chain \<Rightarrow> hsk_header \<Rightarrow> hsk_chain \<Rightarrow> bool" where
  "saved c h c' \<longleftrightarrow>
     ch_hashes c' = AList.update (hdr_hash h) h (ch_hashes c) \<and>
     ch_heights c' = AList.update (hdr_height h) h (ch_heights c) \<and>
     ch_tip c' = h \<and> ch_height c' = uint (hdr_height h) \<and> ch_genesis c' = ch_genesis c \<and>
     ch_init_height c' = ch_init_height c \<and> ch_td c' = ch_td c \<and> ch_orphans c' = ch_orphans c \<and>
     ch_prevs c' = ch_prevs c \<and> ch_prefix c' = ch_prefix c \<and> ch_mem c' = ch_mem c"

lemma save_ok:
  assumes "net_ok N" and T: "tree_ok H N c" and "ch_mem c = []" and "ch_init_height c = 0"
    and L: "linked H c h" and below: "heights_below c (ch_heights c) h"
  shows "\<exists>c'. hsk_chain_save N clock c h = Some (HSK_SUCCESS, c') \<and> saved c h c'"
proof -
  let ?c1 = "c\<lparr>ch_hashes := AList.update (hdr_hash h) h (ch_hashes c),
    ch_heights := AList.update (hdr_height h) h (ch_heights c), ch_height := uint (hdr_height h), ch_tip := h\<rparr>"
  let ?c2 = "hsk_chain_maybe_sync N clock ?c1"
  have s: "saved c h ?c2" "ch_init_height ?c2 = 0"
    using assms(4) by (simp_all add: saved_def hsk_chain_maybe_sync_def Let_def)
  have run: "hsk_chain_save N clock c h =
      (if ch_height ?c2 mod net_checkpoint_window N = 0
       then Option.bind (hsk_chain_checkpoint_flush N ?c2) (\<lambda>c. Some (HSK_SUCCESS, c))
       else Some (HSK_SUCCESS, ?c2))"
    using assms(3) by (simp add: hsk_chain_save_def chain_simps Let_def)
  show ?thesis
  proof (cases "ch_height ?c2 mod net_checkpoint_window N = 0")
    case True
    have ch: "ch_height ?c2 = int (nheight h)" using s(1) by (simp add: saved_def)
    have "tbl_get (ch_heights ?c2) n \<noteq> None" if "int (unat n) \<le> ch_height ?c2" for n
    proof (cases "n = hdr_height h")
      case False
      have "unat n \<le> nheight h" using that unfolding ch by (simp only: of_nat_le_iff)
      then have lt: "n < hdr_height h" using False by (simp add: word_le_nat_alt [symmetric])
      have "walk c h (nheight h - unat n) \<noteq> None" using walk_ancestor [OF T L, of "nheight h - unat n"] by auto
      then show ?thesis using False lt s(1) below by (auto simp: saved_def heights_below_def)
    qed (use s(1) in \<open>simp add: saved_def\<close>)
    moreover have "0 \<le> ch_height ?c2" "ch_height ?c2 < 2 ^ 32"
      using s(1) unsigned_less [of "hdr_height h", where ?'a = int] by (simp_all add: saved_def)
    ultimately obtain io f where "hsk_chain_checkpoint_flush N ?c2 = Some (?c2\<lparr>ch_io := io, ch_file := f\<rparr>)"
      using flush_ok [OF assms(1) s(2) _ _ True] by blast
    then show ?thesis using run True s(1) by (auto simp: saved_def)
  next
    case False
    then show ?thesis using run s(1) by auto
  qed
qed

section \<open>The invariant after a header is stored\<close>

lemma orphans_ok_stored:
  assumes "orphans_ok H c" and "ch_orphans c' = ch_orphans c" and "ch_prevs c' = ch_prevs c"
    and "ch_genesis c' = ch_genesis c" and "ch_hashes c' = AList.update k h (ch_hashes c)"
    and "tbl_get (ch_orphans c) k = None"
  shows "orphans_ok H c'"
  using assms unfolding orphans_ok_def by (auto split: if_splits)

lemma main_ok_stored:
  assumes T: "tree_ok H N c" and M: "main_ok c" and g: "grows c c'"
    and "ch_hashes c' = AList.update (hdr_hash h) h (ch_hashes c)" and "ch_heights c' = ch_heights c"
    and "ch_tip c' = ch_tip c" and "ch_height c' = ch_height c" and "ch_init_height c' = ch_init_height c"
    and "be_val (hdr_work h) \<le> be_val (hdr_work (ch_tip c))"
  shows "main_ok c'"
proof -
  have S: "stored c (hdr_hash (ch_tip c)) (ch_tip c)" using M by (simp add: main_ok_def)
  have "walk c' (ch_tip c) n = walk c (ch_tip c) n" if "n \<le> nheight (ch_tip c)" for n
    using walk_ancestor [OF T stored_linked [OF T S] that] walk_grows [OF g] by fastforce
  then show ?thesis
    using M assms(4-9) grows_stored [OF g S] unfolding main_ok_def by (auto split: if_splits)
qed

lemma main_ok_saved:
  assumes T: "tree_ok H N c" and M: "main_ok c" and L: "linked H c h" and g: "grows c c'"
    and below: "heights_below c t h" and s: "saved (c\<lparr>ch_heights := t\<rparr>) h c'"
    and "be_val (hdr_work (ch_tip c)) \<le> be_val (hdr_work h)"
  shows "main_ok c'"
proof -
  have w: "walk c' h n = walk c h n" if "n \<le> nheight h" for n
    using walk_ancestor [OF T L that] walk_grows [OF g] by fastforce
  have "tbl_get (ch_heights c') n = (if n \<le> hdr_height h then walk c' h (nheight h - unat n) else None)" for n
  proof (cases "n = hdr_height h")
    case False
    then have "n \<le> hdr_height h \<longleftrightarrow> n < hdr_height h" by auto
    then show ?thesis using False s below w [of "nheight h - unat n"] by (auto simp: saved_def heights_below_def)
  qed (use s in \<open>simp add: saved_def\<close>)
  moreover have "be_val (hdr_work x) \<le> be_val (hdr_work h)" if "stored c' k x" for k x
    using that s M assms(7) by (auto simp: saved_def main_ok_def split: if_splits intro: order_trans)
  ultimately show ?thesis using s below M by (auto simp: main_ok_def saved_def heights_below_def)
qed

section \<open>Inserting a header under its parent\<close>

text \<open>What a header must satisfy before it reaches \<^verbatim>\<open>hsk_chain_insert\<close>.\<close>

definition fresh :: "hash_fns \<Rightarrow> hsk_chain \<Rightarrow> hsk_header \<Rightarrow> bool" where
  "fresh H c h \<longleftrightarrow> header_ok h \<and> cache_ok H h \<and> fst (hsk_pow_to_target (hdr_bits h)) \<and>
     be_val (pow_hash H h) \<le> target_of (hdr_bits h) \<and> tbl_get (ch_hashes c) (pow_hash H h) = None \<and>
     tbl_get (ch_orphans c) (pow_hash H h) = None \<and> pow_hash H h \<noteq> hdr_prev_block (ch_genesis c)"

definition placed :: "hash_fns \<Rightarrow> hsk_header \<Rightarrow> hsk_header \<Rightarrow> bytes \<Rightarrow> hsk_header" where
  "placed H h p w = h\<lparr>hdr_hash := pow_hash H h, hdr_cache := True, hdr_height := hdr_height p + 1, hdr_work := w\<rparr>"

lemma placed_simps [simp]:
  "hdr_hash (placed H h p w) = pow_hash H h" "hdr_cache (placed H h p w)" "hdr_height (placed H h p w) = hdr_height p + 1"
  "hdr_work (placed H h p w) = w" "hdr_prev_block (placed H h p w) = hdr_prev_block h" "hdr_time (placed H h p w) = hdr_time h"
  "hdr_bits (placed H h p w) = hdr_bits h" "pow_hash H (placed H h p w) = pow_hash H h"
  by (simp_all add: placed_def)

lemma placed_ok:
  assumes "hash_fns_ok H" and "header_ok h" and "length w = 32" and "fst (hsk_pow_to_target (hdr_bits h))"
  shows "ok_header H (placed H h p w)"
  using assms length_pow_hash [OF assms(1), of h] by (simp add: ok_header_def header_ok_def placed_def)

lemma store_side:
  assumes "chain_ok H N c" and "grows c c'" and "tree_ok H N c'" and "tbl_get (ch_orphans c) (hdr_hash h) = None"
    and "c' = c\<lparr>ch_hashes := AList.update (hdr_hash h) h (ch_hashes c)\<rparr>"
    and "be_val (hdr_work h) \<le> be_val (hdr_work (ch_tip c))"
  shows "chain_ok H N c'"
  using assms main_ok_stored [of H N c c' h] orphans_ok_stored [of H c c' "hdr_hash h" h]
  unfolding chain_ok_def by simp

lemma store_tip:
  assumes C: "chain_ok H N c" and "net_ok N" and mem: "ch_mem c = []" and L: "linked H c h"
    and new: "tbl_get (ch_hashes c) (hdr_hash h) = None"
    and more: "be_val (hdr_work (ch_tip c)) < be_val (hdr_work h)"
    and tree: "\<And>c'. ch_hashes c' = AList.update (hdr_hash h) h (ch_hashes c) \<Longrightarrow> ch_genesis c' = ch_genesis c \<Longrightarrow>
      grows c c' \<and> tree_ok H N c'"
    and orphan: "tbl_get (ch_orphans c) (hdr_hash h) = None"
    and p: "stored c (hdr_prev_block h) p" "nheight h = nheight p + 1"
  shows "\<exists>c1 c'. (if hdr_prev_block h \<noteq> hdr_hash (ch_tip c) then hsk_chain_reorganize H c h else Some c) = Some c1 \<and>
    hsk_chain_save N clock c1 h = Some (HSK_SUCCESS, c') \<and> chain_ok H N c' \<and> saved c1 h c' \<and> (\<exists>t. c1 = c\<lparr>ch_heights := t\<rparr>)"
proof -
  have T: "tree_ok H N c" and M: "main_ok c" and O: "orphans_ok H c" using C by (simp_all add: chain_ok_def)
  have S: "stored c (hdr_hash (ch_tip c)) (ch_tip c)" using M by (simp add: main_ok_def)
  obtain t where t: "(if hdr_prev_block h \<noteq> hdr_hash (ch_tip c) then hsk_chain_reorganize H c h else Some c) =
      Some (c\<lparr>ch_heights := t\<rparr>)" "heights_below c t h"
  proof (cases "hdr_prev_block h = hdr_hash (ch_tip c)")
    case True
    then have "p = ch_tip c" using S p(1) by simp
    then show ?thesis using that [of "ch_heights c"] True extend_heights [OF M True] p(2) by simp
  next
    case False
    then show ?thesis using that reorganize_ok [OF T M mem L new] by auto
  qed
  let ?c = "c\<lparr>ch_heights := t\<rparr>"
  have below: "heights_below ?c (ch_heights ?c) h"
    using t(2) walk_same [of ?c c] by (simp add: heights_below_def)
  obtain c' where c': "hsk_chain_save N clock ?c h = Some (HSK_SUCCESS, c')" "saved ?c h c'"
  proof -
    have "tree_ok H N ?c" "linked H ?c h" "ch_mem ?c = []" "ch_init_height ?c = 0"
      using tree_ok_cong [OF T, of ?c] L mem M by (simp_all add: linked_def main_ok_def)
    then show ?thesis using that save_ok [OF assms(2) _ _ _ _ below] by blast
  qed
  have h': "ch_hashes c' = AList.update (hdr_hash h) h (ch_hashes c)" "ch_genesis c' = ch_genesis c"
    using c'(2) by (simp_all add: saved_def)
  note g = tree [OF h']
  have "main_ok c'" using main_ok_saved [OF T M L conjunct1 [OF g] t(2) c'(2)] more by simp
  moreover have "orphans_ok H c'"
    using orphans_ok_stored [OF O _ _ h'(2) h'(1) orphan] c'(2) by (simp add: saved_def)
  ultimately have "chain_ok H N c'" using g by (simp add: chain_ok_def)
  then show ?thesis using t(1) c' by blast
qed

text \<open>What the insertion returns, and what it changes.\<close>

definition inserted :: "hsk_chain \<Rightarrow> hsk_header \<Rightarrow> hsk_chain \<Rightarrow> bool" where
  "inserted c h c' \<longleftrightarrow> ch_hashes c' = AList.update (hdr_hash h) h (ch_hashes c) \<and> ch_genesis c' = ch_genesis c \<and>
     ch_td c' = ch_td c \<and> ch_orphans c' = ch_orphans c \<and> ch_prevs c' = ch_prevs c \<and> ch_mem c' = [] \<and>
     ch_tip c' = (if be_val (hdr_work (ch_tip c)) < be_val (hdr_work h) then h else ch_tip c)"

lemma insert_ok:
  assumes C: "chain_ok H N c" and nets: "net_ok N" "net_limit_ok N" and mem: "ch_mem c = []" and H: "hash_fns_ok H"
    and F: "fresh H c h" and p: "stored c (hdr_prev_block h) p" and room: "nheight p + 1 < 2 ^ 32"
  shows "\<exists>rc h' c'. hsk_chain_insert H N clock c h p = Some (rc, h', c') \<and>
    (if sint (hdr_time h) \<le> hsk_chain_get_mtp c (Some p) then rc = HSK_ETIMETOOOLD \<and> c' = c
     else if hsk_chain_get_target N c (sint (hdr_time h)) (Some p) \<noteq> Some (hdr_bits h) then rc = HSK_EBADDIFFBITS \<and> c' = c
     else rc = HSK_SUCCESS \<and> chain_ok H N c' \<and> inserted c h' c' \<and> (\<exists>w. h' = placed H h p w) \<and> ok_header H h' \<and>
       child_ok H N c p h')"
proof -
  have T: "tree_ok H N c" and M: "main_ok c" using C by (simp_all add: chain_ok_def)
  have S: "stored c (hdr_hash (ch_tip c)) (ch_tip c)" using M by (simp add: main_ok_def)
  have ok: "header_ok h" "cache_ok H h" "fst (hsk_pow_to_target (hdr_bits h))"
    and new: "tbl_get (ch_hashes c) (pow_hash H h) = None" "tbl_get (ch_orphans c) (pow_hash H h) = None"
      "pow_hash H h \<noteq> hdr_prev_block (ch_genesis c)"
    using F by (simp_all add: fresh_def)
  obtain b where b: "hsk_chain_get_target N c (sint (hdr_time h)) (Some p) = Some b"
    using get_target_returns [OF T nets stored_linked [OF T p]] by blast
  let ?h1 = "h\<lparr>hdr_hash := pow_hash H h, hdr_cache := True\<rparr>"
  note def = hsk_chain_insert_def header_cache [OF ok(2)] Let_def prod.case
  show ?thesis
  proof (cases "sint (hdr_time h) \<le> hsk_chain_get_mtp c (Some p) \<or> b \<noteq> hdr_bits h")
    case True
    then show ?thesis using b by (auto simp: def)
  next
    case False
    obtain w where w: "hsk_header_calc_work (?h1\<lparr>hdr_height := hdr_height p + 1\<rparr>) (Some p) = Some (True, placed H h p w)"
      "length w = 32" "be_val w = (be_val (hdr_work p) + block_proof h) mod 2 ^ 256"
      using calc_work_value [of "Some p" "?h1\<lparr>hdr_height := hdr_height p + 1\<rparr>"] tree_okD(1) [OF T p] ok(3)
      by (auto simp: placed_def block_proof_def ok_header_def header_ok_def)
    let ?h = "placed H h p w"
    have okh: "ok_header H ?h" using placed_ok [OF H ok(1) w(2) ok(3)] .
    have hp: "nheight ?h = nheight p + 1" using room by (simp add: unat_word_ariths)
    have child: "child_ok H N c p ?h"
      using False b w(3) hp F by (simp add: child_ok_def fresh_def target_of_def block_proof_def)
    have L: "linked H c ?h" using okh new(1) p hp by (auto simp: linked_def)
    have tree: "grows c c' \<and> tree_ok H N c'"
      if "ch_hashes c' = AList.update (hdr_hash ?h) ?h (ch_hashes c)" "ch_genesis c' = ch_genesis c" for c'
    proof -
      have "grows c c'" using grows_update [OF T _ _ that] new by simp
      then show ?thesis using tree_ok_update [OF T okh _ _ that(1) _ child] new(1) p by simp
    qed
    have tip: "hsk_header_cache H (ch_tip c) = (hdr_hash (ch_tip c), ch_tip c)" "length (hdr_hash (ch_tip c)) = 32"
      "length (hdr_work (ch_tip c)) = 32"
      using ok_header_cache [OF tree_okD(1) [OF T S]] tree_okD(1) [OF T S] by (simp_all add: ok_header_def header_ok_def)
    have cmp: "memcmp w (hdr_work (ch_tip c)) \<le> 0 \<longleftrightarrow> be_val w \<le> be_val (hdr_work (ch_tip c))"
      using memcmp_be_val [of w "hdr_work (ch_tip c)"] w(2) tip(3) by (simp add: sgn_diff)
    have prev: "memcmp (hdr_prev_block h) (hdr_hash (ch_tip c)) = 0 \<longleftrightarrow> hdr_prev_block h = hdr_hash (ch_tip c)"
      using memcmp_eq_0 [of "hdr_prev_block h"] tip(2) ok(1) by (simp add: header_ok_def)
    show ?thesis
    proof (cases "be_val w \<le> be_val (hdr_work (ch_tip c))")
      case True
      let ?c = "c\<lparr>ch_hashes := AList.update (hdr_hash ?h) ?h (ch_hashes c)\<rparr>"
      have "hsk_chain_insert H N clock c h p = Some (HSK_SUCCESS, ?h, ?c)"
        using False b w(1) cmp True mem by (simp add: def chain_simps)
      moreover have "chain_ok H N ?c"
        using store_side [OF C, of ?c ?h] tree [of ?c] new(2) True by simp
      moreover have "inserted c ?h ?c" using True mem by (simp add: inserted_def)
      ultimately show ?thesis using False b child okh by auto
    next
      case more: False
      obtain c1 c' where s: "(if hdr_prev_block ?h \<noteq> hdr_hash (ch_tip c) then hsk_chain_reorganize H c ?h else Some c) = Some c1"
        "hsk_chain_save N clock c1 ?h = Some (HSK_SUCCESS, c')" "chain_ok H N c'" "saved c1 ?h c'" "\<exists>t. c1 = c\<lparr>ch_heights := t\<rparr>"
        using store_tip [OF C nets(1) mem L, of p clock] tree new p hp more by simp blast
      then obtain t where t: "c1 = c\<lparr>ch_heights := t\<rparr>" by blast
      have "hsk_chain_insert H N clock c h p = Some (HSK_SUCCESS, ?h, c')"
        using False b w(1) cmp more s(1,2) prev tip(1) by (auto simp: def)
      moreover have "inserted c ?h c'" using more mem s(4) by (simp add: inserted_def saved_def t)
      ultimately show ?thesis using False b child okh s(3) by auto
    qed
  qed
qed

end
