(* ===== verification/Chain_Add.thy ===== *)
theory Chain_Add
  imports Chain_Steps
begin

text \<open>
  Adding headers to the chain: \<^verbatim>\<open>hsk_chain_add\<close> returns for every header, with the verdict of the
  consensus rules in the order the code checks them, and keeps the invariant through the loop that
  connects waiting orphans. The chain of a genesis block satisfies the invariant, so every chain a
  sequence of additions can reach does.
\<close>

section \<open>Orphans\<close>

text \<open>What an operation on the chain may do: it only adds, and the work of the tip never falls.\<close>

definition extended :: "hash_fns \<Rightarrow> hsk_network \<Rightarrow> hsk_chain \<Rightarrow> hsk_chain \<Rightarrow> bool" where
  "extended H N c c' \<longleftrightarrow> chain_ok H N c' \<and> ch_mem c' = [] \<and> ch_genesis c' = ch_genesis c \<and> ch_td c' = ch_td c \<and>
     (\<forall>k h. stored c k h \<longrightarrow> stored c' k h) \<and> be_val (hdr_work (ch_tip c)) \<le> be_val (hdr_work (ch_tip c'))"

lemma extended_refl: "chain_ok H N c \<Longrightarrow> ch_mem c = [] \<Longrightarrow> extended H N c c"
  by (simp add: extended_def)

lemma extended_trans: "extended H N a b \<Longrightarrow> extended H N b c \<Longrightarrow> extended H N a c"
  unfolding extended_def by (auto intro: order_trans)

lemma inserted_extended:
  assumes "chain_ok H N c'" and "inserted c h c'" and "tbl_get (ch_hashes c) (hdr_hash h) = None"
  shows "extended H N c c'"
  using assms by (auto simp: extended_def inserted_def)

lemma chain_ok_orphans:
  assumes "chain_ok H N c" and "orphans_ok H (c\<lparr>ch_prevs := P, ch_orphans := Q\<rparr>)"
  shows "chain_ok H N (c\<lparr>ch_prevs := P, ch_orphans := Q\<rparr>)"
proof -
  let ?c = "c\<lparr>ch_prevs := P, ch_orphans := Q\<rparr>"
  have "tree_ok H N ?c" using tree_ok_cong [of H N c ?c] assms(1) by (simp add: chain_ok_def)
  moreover have "main_ok ?c" using assms(1) walk_same [of ?c c] by (simp add: chain_ok_def main_ok_def)
  ultimately show ?thesis using assms(2) by (simp add: chain_ok_def)
qed

lemma orphans_okD:
  assumes "orphans_ok H c"
  shows "tbl_get (ch_prevs c) k = Some h \<Longrightarrow> hdr_prev_block h = k \<and> tbl_get (ch_orphans c) (hdr_hash h) = Some h"
    and "tbl_get (ch_orphans c) k = Some h \<Longrightarrow> ok_header H h \<and> hdr_hash h = k \<and> tbl_get (ch_hashes c) k = None \<and>
      k \<noteq> hdr_prev_block (ch_genesis c) \<and> be_val (pow_hash H h) \<le> target_of (hdr_bits h)"
  using assms unfolding orphans_ok_def by blast+

lemma orphans_okI:
  assumes "tbl_ok (ch_orphans c)" and "tbl_ok (ch_prevs c)" and "tbl_size (ch_prevs c) \<le> tbl_size (ch_orphans c)"
    and "tbl_size (ch_orphans c) \<le> 10001"
    and "\<And>k h. tbl_get (ch_prevs c) k = Some h \<Longrightarrow> hdr_prev_block h = k \<and> tbl_get (ch_orphans c) (hdr_hash h) = Some h"
    and "\<And>k h. tbl_get (ch_orphans c) k = Some h \<Longrightarrow> ok_header H h \<and> hdr_hash h = k \<and> tbl_get (ch_hashes c) k = None \<and>
      k \<noteq> hdr_prev_block (ch_genesis c) \<and> be_val (pow_hash H h) \<le> target_of (hdr_bits h)"
  shows "orphans_ok H c"
  using assms unfolding orphans_ok_def by blast

lemma resolve_ok:
  assumes C: "chain_ok H N c" and o: "tbl_get (ch_prevs c) hash = Some h"
  defines "c1 \<equiv> c\<lparr>ch_prevs := tbl_del (ch_prevs c) hash, ch_orphans := tbl_del (ch_orphans c) (hdr_hash h)\<rparr>"
  shows "hsk_chain_resolve_orphan H c hash = Some (h, c1)" "chain_ok H N c1" "fresh H c1 h" "hdr_prev_block h = hash"
    "ok_header H h" "tbl_size (ch_prevs c1) + 1 = tbl_size (ch_prevs c)"
proof -
  have O: "orphans_ok H c" using C by (simp add: chain_ok_def)
  have h: "hdr_prev_block h = hash" "tbl_get (ch_orphans c) (hdr_hash h) = Some h" using orphans_okD(1) [OF O o] by simp_all
  then have okh: "ok_header H h" "tbl_get (ch_hashes c) (hdr_hash h) = None" "hdr_hash h \<noteq> hdr_prev_block (ch_genesis c)"
    "be_val (pow_hash H h) \<le> target_of (hdr_bits h)"
    using orphans_okD(2) [OF O h(2)] by simp_all
  show "hdr_prev_block h = hash" "ok_header H h" using h okh by simp_all
  show "hsk_chain_resolve_orphan H c hash = Some (h, c1)"
    using o h ok_header_cache(1) [OF okh(1)] by (simp add: hsk_chain_resolve_orphan_def c1_def)
  have ok: "tbl_ok (ch_prevs c)" "tbl_ok (ch_orphans c)" using O by (simp_all add: orphans_ok_def)
  show s: "tbl_size (ch_prevs c1) + 1 = tbl_size (ch_prevs c)" using tbl_size_del [OF ok(1)] o by (simp add: c1_def)
  have s': "tbl_size (ch_orphans c1) + 1 = tbl_size (ch_orphans c)" using tbl_size_del [OF ok(2)] h(2) by (simp add: c1_def)
  have "orphans_ok H c1"
  proof (rule orphans_okI)
    show "tbl_ok (ch_orphans c1)" "tbl_ok (ch_prevs c1)" using ok by (simp_all add: c1_def)
    show "tbl_size (ch_prevs c1) \<le> tbl_size (ch_orphans c1)" "tbl_size (ch_orphans c1) \<le> 10001"
      using O s s' by (simp_all add: orphans_ok_def)
  next
    fix k x assume "tbl_get (ch_prevs c1) k = Some x"
    then have x: "k \<noteq> hash" "tbl_get (ch_prevs c) k = Some x" by (simp_all add: c1_def split: if_splits)
    then have p: "hdr_prev_block x = k" "tbl_get (ch_orphans c) (hdr_hash x) = Some x" using orphans_okD(1) [OF O x(2)] by simp_all
    have "hdr_hash x \<noteq> hdr_hash h"
    proof
      assume e: "hdr_hash x = hdr_hash h"
      have "Some x = Some h" using p(2) h(2) unfolding e by (rule trans [OF sym])
      then show False using p(1) h(1) x(1) by simp
    qed
    then show "hdr_prev_block x = k \<and> tbl_get (ch_orphans c1) (hdr_hash x) = Some x" using p by (simp add: c1_def)
  next
    fix k x assume "tbl_get (ch_orphans c1) k = Some x"
    then have "tbl_get (ch_orphans c) k = Some x" by (simp add: c1_def split: if_splits)
    from orphans_okD(2) [OF O this] show "ok_header H x \<and> hdr_hash x = k \<and> tbl_get (ch_hashes c1) k = None \<and>
      k \<noteq> hdr_prev_block (ch_genesis c1) \<and> be_val (pow_hash H x) \<le> target_of (hdr_bits x)"
      by (simp add: c1_def)
  qed
  then show "chain_ok H N c1" using chain_ok_orphans [OF C] by (simp add: c1_def)
  show "fresh H c1 h" using okh by (auto simp: fresh_def c1_def ok_header_def cache_ok_def)
qed

text \<open>Each round of the loop takes an orphan out of the table of waiting ones.\<close>

lemma resolve_loop_ok:
  assumes nets: "net_ok N" "net_limit_ok N" and H: "hash_fns_ok H"
    and "chain_ok H N c" and "ch_mem c = []" and "stored c hash prev"
    and "\<forall>k x. stored c k x \<longrightarrow> nheight x + tbl_size (ch_prevs c) < 2 ^ 32"
  shows "\<exists>rc' c'. resolve_loop H N clock rc c prev hash = Some (rc', c') \<and> extended H N c c'"
  using assms(4-7)
proof (induction "tbl_size (ch_prevs c)" arbitrary: c rc prev hash rule: less_induct)
  case less
  show ?case
  proof (cases "tbl_get (ch_prevs c) hash")
    case None
    then show ?thesis using less.prems extended_refl
      by (simp add: resolve_loop.simps [of H N clock rc c] hsk_chain_resolve_orphan_def)
  next
    case (Some h)
    note r = resolve_ok [OF less.prems(1) Some]
    let ?c = "c\<lparr>ch_prevs := tbl_del (ch_prevs c) hash, ch_orphans := tbl_del (ch_orphans c) (hdr_hash h)\<rparr>"
    have ext: "extended H N c ?c" using r(2) less.prems(2) by (simp add: extended_def)
    have room: "nheight prev + 1 < 2 ^ 32" using less.prems(3,4) r(6) by fastforce
    obtain rc1 h' c' where i: "hsk_chain_insert H N clock ?c h prev = Some (rc1, h', c')"
      "rc1 \<noteq> HSK_SUCCESS \<and> c' = ?c \<or> rc1 = HSK_SUCCESS \<and> chain_ok H N c' \<and> inserted ?c h' c' \<and>
         (\<exists>w. h' = placed H h prev w) \<and> child_ok H N ?c prev h'"
      using insert_ok [OF r(2) nets _ H r(3), of prev clock] r(4) less.prems(2,3) room by (auto split: if_splits)
    note run = resolve_loop.simps [of H N clock rc c prev hash] r(1) ok_header_cache(1) [OF r(5)] i(1)
    show ?thesis
    proof (cases "rc1 = HSK_SUCCESS")
      case False
      then show ?thesis using i(2) ext by (simp add: run)
    next
      case True
      then have i2: "chain_ok H N c'" "inserted ?c h' c'" "hdr_hash h' = hdr_hash h" "nheight h' = nheight prev + 1"
        using i(2) r(5) by (auto simp: child_ok_def ok_header_def)
      have "tbl_get (ch_hashes ?c) (hdr_hash h') = None" using r(3,5) i2(3) by (simp add: fresh_def ok_header_def)
      then have ext': "extended H N ?c c'" using inserted_extended [OF i2(1,2)] by simp
      have "tbl_size (ch_prevs c') < tbl_size (ch_prevs c)" using i2(2) r(6) by (simp add: inserted_def)
      moreover have "stored c' (hdr_hash h) h'" "ch_mem c' = []" using i2(2,3) by (simp_all add: inserted_def)
      moreover have "\<forall>k x. stored c' k x \<longrightarrow> nheight x + tbl_size (ch_prevs c') < 2 ^ 32"
        using i2(2,4) less.prems(3,4) r(6) by (fastforce simp: inserted_def split: if_splits)
      ultimately obtain rc2 c2 where "resolve_loop H N clock HSK_SUCCESS c' h' (hdr_hash h) = Some (rc2, c2)" "extended H N c' c2"
        using less.hyps [of c' "hdr_hash h" h' HSK_SUCCESS] i2(1) by blast
      then show ?thesis using True extended_trans [OF extended_trans [OF ext ext']] by (simp add: run)
    qed
  qed
qed

lemma add_orphan_ok:
  assumes C: "chain_ok H N c" and mem: "ch_mem c = []" and h: "ok_header H h" and F: "fresh H c h"
  shows "fst (chain_add_orphan c h (hdr_hash h)) = HSK_EORPHAN" "extended H N c (snd (chain_add_orphan c h (hdr_hash h)))"
    "tbl_get (ch_orphans (snd (chain_add_orphan c h (hdr_hash h)))) (hdr_hash h) = Some h"
proof -
  define full where "full = (tbl_size (ch_orphans c) > 10000)"
  define P Q where "P = (if full then [] else ch_prevs c)" and "Q = (if full then [] else ch_orphans c)"
  let ?c = "c\<lparr>ch_prevs := AList.update (hdr_prev_block h) h P, ch_orphans := AList.update (hdr_hash h) h Q\<rparr>"
  have run: "chain_add_orphan c h (hdr_hash h) = (HSK_EORPHAN, ?c)"
    using mem by (simp add: chain_add_orphan_def set_tables_ok P_def Q_def full_def Let_def)
  have O: "orphans_ok H c" using C by (simp add: chain_ok_def)
  have hash: "hdr_hash h = pow_hash H h" using h by (simp add: ok_header_def)
  have new: "tbl_get (ch_orphans c) (hdr_hash h) = None" using F hash by (simp add: fresh_def)
  have PQ: "tbl_ok P" "tbl_ok Q" "tbl_size P \<le> tbl_size Q" "tbl_size Q \<le> 10000" "tbl_get Q (hdr_hash h) = None"
    "\<And>k x. tbl_get P k = Some x \<Longrightarrow> hdr_prev_block x = k \<and> tbl_get Q (hdr_hash x) = Some x"
    "\<And>k x. tbl_get Q k = Some x \<Longrightarrow> tbl_get (ch_orphans c) k = Some x"
    using O new by (auto simp: P_def Q_def full_def orphans_ok_def tbl_size_def split: if_splits)
  have "orphans_ok H ?c"
  proof (rule orphans_okI)
    show "tbl_ok (ch_orphans ?c)" "tbl_ok (ch_prevs ?c)" using PQ(1,2) by simp_all
    show "tbl_size (ch_prevs ?c) \<le> tbl_size (ch_orphans ?c)" "tbl_size (ch_orphans ?c) \<le> 10001"
      using PQ(3-5) tbl_size_update [OF PQ(1)] tbl_size_update [OF PQ(2)] by auto
  next
    fix k x assume "tbl_get (ch_prevs ?c) k = Some x"
    then show "hdr_prev_block x = k \<and> tbl_get (ch_orphans ?c) (hdr_hash x) = Some x"
    proof (cases "k = hdr_prev_block h")
      case False
      then have "tbl_get P k = Some x" using \<open>tbl_get (ch_prevs ?c) k = Some x\<close> by simp
      then have "hdr_prev_block x = k" "tbl_get Q (hdr_hash x) = Some x" using PQ(6) by simp_all
      moreover then have "hdr_hash x \<noteq> hdr_hash h" using PQ(5) by auto
      ultimately show ?thesis by simp
    qed simp
  next
    fix k x assume x: "tbl_get (ch_orphans ?c) k = Some x"
    show "ok_header H x \<and> hdr_hash x = k \<and> tbl_get (ch_hashes ?c) k = None \<and>
      k \<noteq> hdr_prev_block (ch_genesis ?c) \<and> be_val (pow_hash H x) \<le> target_of (hdr_bits x)"
    proof (cases "k = hdr_hash h")
      case True
      then show ?thesis using x h hash F by (simp add: fresh_def)
    next
      case False
      then have "tbl_get (ch_orphans c) k = Some x" using x PQ(7) by simp
      from orphans_okD(2) [OF O this] show ?thesis by simp
    qed
  qed
  then have "chain_ok H N ?c" by (rule chain_ok_orphans [OF C])
  then show "fst (chain_add_orphan c h (hdr_hash h)) = HSK_EORPHAN" "extended H N c (snd (chain_add_orphan c h (hdr_hash h)))"
    "tbl_get (ch_orphans (snd (chain_add_orphan c h (hdr_hash h)))) (hdr_hash h) = Some h"
    using mem by (simp_all add: run extended_def)
qed

section \<open>Adding a header\<close>

text \<open>The first rule a header breaks, in the order of the code.\<close>

definition verdict :: "hash_fns \<Rightarrow> hsk_network \<Rightarrow> int \<Rightarrow> hsk_chain \<Rightarrow> hsk_header \<Rightarrow> hsk_error" where
  "verdict H N clock c h =
     (if hdr_time h > word_of_int (hsk_timedata_now clock (ch_td c) + 2 * 60 * 60) then HSK_ETIMETOONEW
      else if tbl_has (ch_hashes c) (pow_hash H h) then HSK_EDUPLICATE
      else if tbl_has (ch_orphans c) (pow_hash H h) then HSK_EDUPLICATEORPHAN
      else if \<not> fst (hsk_pow_to_target (hdr_bits h)) then HSK_ENEGTARGET
      else if \<not> be_val (pow_hash H h) \<le> target_of (hdr_bits h) then HSK_EHIGHHASH
      else case tbl_get (ch_hashes c) (hdr_prev_block h) of
        None \<Rightarrow> HSK_EORPHAN
      | Some p \<Rightarrow>
          if sint (hdr_time h) \<le> hsk_chain_get_mtp c (Some p) then HSK_ETIMETOOOLD
          else if hsk_chain_get_target N c (sint (hdr_time h)) (Some p) \<noteq> Some (hdr_bits h) then HSK_EBADDIFFBITS
          else HSK_SUCCESS)"

text \<open>A height from which ten thousand orphans can still be connected without a wrap-around.\<close>

definition low_heights :: "hsk_chain \<Rightarrow> bool" where
  "low_heights c \<longleftrightarrow> (\<forall>k h. stored c k h \<longrightarrow> nheight h < 2 ^ 32 - 10003)"

lemma add_ok:
  fixes clock :: int
  assumes C: "chain_ok H N c" and nets: "net_ok N" "net_limit_ok N" and mem: "ch_mem c = []" and H: "hash_fns_ok H"
    and h: "header_ok h" "cache_ok H h" and zero: "pow_hash H h \<noteq> hdr_prev_block (ch_genesis c)" and low: "low_heights c"
  defines "v \<equiv> verdict H N clock c h"
  shows "\<exists>rc c'. hsk_chain_add H N clock c h = Some (rc, c') \<and> extended H N c c' \<and>
    (v \<noteq> HSK_SUCCESS \<longrightarrow> rc = v \<and> (v \<noteq> HSK_EORPHAN \<longrightarrow> c' = c)) \<and>
    (v = HSK_EORPHAN \<longrightarrow> tbl_has (ch_orphans c') (pow_hash H h)) \<and>
    (v = HSK_SUCCESS \<longrightarrow> (\<exists>h' p. stored c' (pow_hash H h) h' \<and> stored c (hdr_prev_block h) p \<and> (\<exists>w. h' = placed H h p w) \<and>
      child_ok H N c p h' \<and> (ch_prevs c = [] \<longrightarrow> inserted c h' c')))"
proof -
  let ?h = "h\<lparr>hdr_hash := pow_hash H h, hdr_cache := True\<rparr>"
  have hok: "header_ok ?h" "cache_ok H ?h" using h(1) length_pow_hash [OF H, of h] by (simp_all add: header_ok_def cache_ok_def)
  have vp: "hsk_header_verify_pow H ?h =
      (if \<not> fst (hsk_pow_to_target (hdr_bits h)) then HSK_ENEGTARGET
       else if be_val (pow_hash H h) \<le> target_of (hdr_bits h) then HSK_SUCCESS else HSK_EHIGHHASH, ?h)"
    using verify_pow_value [OF H hok] by (simp add: target_of_def)
  note run = hsk_chain_add_def chain_alloc_ok [OF mem] header_cache [OF h(2)] vp Let_def prod.case hsk_chain_get_def
  show ?thesis
  proof (cases "v \<in> {HSK_ETIMETOONEW, HSK_EDUPLICATE, HSK_EDUPLICATEORPHAN, HSK_ENEGTARGET, HSK_EHIGHHASH}")
    case True
    then have "hsk_chain_add H N clock c h = Some (v, c)"
      unfolding v_def verdict_def by (auto simp: run split: if_splits option.splits)
    then show ?thesis using True extended_refl [OF C mem] by auto
  next
    case False
    then have pass: "\<not> hdr_time h > word_of_int (hsk_timedata_now clock (ch_td c) + 2 * 60 * 60)"
      "tbl_get (ch_hashes c) (pow_hash H h) = None" "tbl_get (ch_orphans c) (pow_hash H h) = None"
      "fst (hsk_pow_to_target (hdr_bits h))" "be_val (pow_hash H h) \<le> target_of (hdr_bits h)"
      unfolding v_def verdict_def by (auto simp: tbl_has_def split: if_splits)
    have F: "fresh H c ?h" using pass zero hok by (simp add: fresh_def)
    have okh: "ok_header H ?h" using hok pass(4) by (simp add: ok_header_def)
    show ?thesis
    proof (cases "tbl_get (ch_hashes c) (hdr_prev_block h)")
      case None
      then have "v = HSK_EORPHAN" using pass by (simp add: v_def verdict_def tbl_has_def)
      moreover have "hsk_chain_add H N clock c h = Some (chain_add_orphan c ?h (pow_hash H h))"
        using pass None by (simp add: run tbl_has_def)
      ultimately show ?thesis
        using add_orphan_ok [OF C mem okh F] by (auto simp: tbl_has_def prod_eq_iff)
    next
      case (Some p)
      have room: "nheight p + 1 < 2 ^ 32" using low Some by (fastforce simp: low_heights_def)
      have times: "hdr_time ?h = hdr_time h" "hdr_bits ?h = hdr_bits h" "hdr_prev_block ?h = hdr_prev_block h" by simp_all
      obtain rc h' c' where i: "hsk_chain_insert H N clock c ?h p = Some (rc, h', c')"
        "if sint (hdr_time h) \<le> hsk_chain_get_mtp c (Some p) then rc = HSK_ETIMETOOOLD \<and> c' = c
         else if hsk_chain_get_target N c (sint (hdr_time h)) (Some p) \<noteq> Some (hdr_bits h) then rc = HSK_EBADDIFFBITS \<and> c' = c
         else rc = HSK_SUCCESS \<and> chain_ok H N c' \<and> inserted c h' c' \<and> (\<exists>w. h' = placed H ?h p w) \<and> ok_header H h' \<and>
           child_ok H N c p h'"
        using insert_ok [OF C nets mem H F _ room, of clock] Some unfolding times by blast
      have v: "v = rc" using i(2) pass Some by (auto simp: v_def verdict_def tbl_has_def split: if_splits)
      have add: "hsk_chain_add H N clock c h =
          (if rc \<noteq> HSK_SUCCESS then Some (rc, c') else resolve_loop H N clock rc c' h' (pow_hash H h))"
        using pass Some i(1) by (simp add: run tbl_has_def)
      show ?thesis
      proof (cases "rc = HSK_SUCCESS")
        case False
        then show ?thesis using add v i(2) extended_refl [OF C mem] by (auto split: if_splits)
      next
        case True
        then obtain w where i2: "chain_ok H N c'" "inserted c h' c'" "h' = placed H ?h p w" "child_ok H N c p h'"
          using i(2) by (auto split: if_splits)
        have hash: "hdr_hash h' = pow_hash H h" using i2(3) by simp
        have ext: "extended H N c c'" using inserted_extended [OF i2(1,2)] pass(2) hash by simp
        have S: "stored c' (pow_hash H h) h'" "ch_mem c' = []" using i2(2) hash by (simp_all add: inserted_def)
        have "tbl_size (ch_prevs c') \<le> 10001" using i2(1) by (simp add: chain_ok_def orphans_ok_def)
        moreover have "nheight x < 2 ^ 32 - 10002" if "stored c' k x" for k x
          using that i2(2,4) low Some by (fastforce simp: inserted_def low_heights_def child_ok_def split: if_splits)
        ultimately have "\<forall>k x. stored c' k x \<longrightarrow> nheight x + tbl_size (ch_prevs c') < 2 ^ 32" by fastforce
        then obtain rc' c2 where r: "resolve_loop H N clock rc c' h' (pow_hash H h) = Some (rc', c2)" "extended H N c' c2"
          using resolve_loop_ok [OF nets H i2(1) S(2) S(1)] by blast
        have h': "h' = placed H h p w" using i2(3) by (simp add: placed_def)
        have alone: "inserted c h' c2" if "ch_prevs c = []"
        proof -
          have "ch_prevs c' = []" using i2(2) that by (simp add: inserted_def)
          then have "c2 = c'" using r(1) by (simp add: resolve_loop.simps [of H N clock rc c'] hsk_chain_resolve_orphan_def)
          then show ?thesis using i2(2) by simp
        qed
        have "stored c2 (pow_hash H h) h'" using S(1) r(2) by (simp add: extended_def)
        moreover have "extended H N c c2" by (rule extended_trans [OF ext r(2)])
        ultimately show ?thesis using add True v r(1) Some h' i2(4) alone by auto
      qed
    qed
  qed
qed

end
