(* ===== verification/Chain_Reach.thy ===== *)
theory Chain_Reach
  imports Chain_Add
begin

text \<open>
  The chains that a sequence of operations reaches from a genesis block, as an inductive relation,
  and what holds of all of them: additions always return, the tip has the most work, the heights
  are the branch of the tip, every block obeys the consensus rules. Also the difficulty rule, the
  root used for resolution and the block locator.
\<close>

section \<open>The chain of a genesis block\<close>

definition genesis_fits :: "hsk_network \<Rightarrow> bool" where
  "genesis_fits N \<longleftrightarrow> (case hsk_header_decode hsk_header_init (net_genesis N) of
     None \<Rightarrow> False
   | Some g \<Rightarrow> header_ok g \<and> \<not> hdr_cache g \<and> hdr_height g = 0 \<and> hdr_bits g = net_bits N \<and>
       hdr_prev_block g = replicate 32 0)"

lemma networks_genesis: "N \<in> set hsk_networks \<Longrightarrow> genesis_fits N"
proof -
  have "genesis_fits HSK_MAIN" "genesis_fits HSK_TESTNET" "genesis_fits HSK_REGTEST" "genesis_fits HSK_SIMNET"
    by code_simp+
  then show "N \<in> set hsk_networks \<Longrightarrow> genesis_fits N" by (auto simp: hsk_networks_def)
qed

text \<open>The hash function does not give the hash the genesis block names as its parent, 32 zero octets.\<close>

definition no_zero_hash :: "hash_fns \<Rightarrow> hsk_network \<Rightarrow> bool" where
  "no_zero_hash H N \<longleftrightarrow> hash_fns_ok H \<and>
     (\<forall>g. hsk_header_decode hsk_header_init (net_genesis N) = Some g \<longrightarrow> pow_hash H g \<noteq> replicate 32 0)"

lemma chain_init_ok:
  assumes N: "N \<in> set hsk_networks" and H: "no_zero_hash H N"
  shows "\<exists>c. hsk_chain_init H N clock [] td = Some (HSK_SUCCESS, c) \<and> chain_ok H N c \<and> ch_mem c = [] \<and>
    hdr_prev_block (ch_genesis c) = replicate 32 0 \<and> low_heights c"
proof -
  obtain g where g: "hsk_header_decode hsk_header_init (net_genesis N) = Some g" "header_ok g" "\<not> hdr_cache g"
    "hdr_height g = 0" "hdr_bits g = net_bits N" "hdr_prev_block g = replicate 32 0"
    using networks_genesis [OF N] by (auto simp: genesis_fits_def split: option.splits)
  have H': "hash_fns_ok H" "pow_hash H g \<noteq> replicate 32 0" using H g(1) by (auto simp: no_zero_hash_def)
  have bits: "fst (hsk_pow_to_target (hdr_bits g))" using networks_limit_ok [OF N] g(5) by (simp add: net_limit_ok_def)
  obtain w where w: "hsk_header_calc_work g None = Some (True, g\<lparr>hdr_work := w\<rparr>)" "length w = 32"
    using calc_work_value [of None g] bits by auto
  have cache: "cache_ok H (g\<lparr>hdr_work := w\<rparr>)" using g(3) by (simp add: cache_ok_def)
  let ?g = "g\<lparr>hdr_work := w, hdr_hash := pow_hash H g, hdr_cache := True\<rparr>"
  let ?c0 = "\<lparr>ch_height = 0, ch_init_height = 0, ch_tip = ?g, ch_genesis = ?g, ch_synced = False, ch_td = td,
    ch_hashes = [(pow_hash H g, ?g)], ch_heights = [(0, ?g)], ch_orphans = [], ch_prevs = [],
    ch_prefix = False, ch_file = None, ch_mem = [], ch_io = []\<rparr>"
  let ?c = "hsk_chain_maybe_sync N clock ?c0"
  have run: "hsk_chain_init H N clock [] td = Some (HSK_SUCCESS, ?c)"
    using g(1,4) w(1) header_cache [OF cache]
    by (simp add: hsk_chain_init_def hsk_chain_init_genesis_def chain_alloc_def set_hashes_def set_heights_def Let_def)
  have c: "ch_hashes ?c = [(pow_hash H g, ?g)]" "ch_heights ?c = [(0, ?g)]" "ch_tip ?c = ?g" "ch_genesis ?c = ?g"
    "ch_orphans ?c = []" "ch_prevs ?c = []" "ch_height ?c = 0" "ch_init_height ?c = 0" "ch_mem ?c = []"
    by (simp_all add: hsk_chain_maybe_sync_def Let_def)
  have get: "stored ?c k h \<longleftrightarrow> k = pow_hash H g \<and> h = ?g" for k h by (auto simp: c(1) tbl_get_def)
  have ok: "ok_header H ?g" using g(2) w(2) bits length_pow_hash [OF H'(1), of g] by (simp add: ok_header_def header_ok_def)
  have "tree_ok H N ?c"
    unfolding tree_ok_def get c(4) using ok g(4,6) H'(2) by (auto simp: c(1) tbl_get_def tbl_ok_def)
  moreover have "main_ok ?c"
    unfolding main_ok_def get c(2,3,7,8) using g(4) by (auto simp: tbl_get_def tbl_ok_def)
  moreover have "orphans_ok H ?c" by (rule orphans_okI) (simp_all add: c tbl_size_def)
  ultimately show ?thesis
    using run c(4,9) g(4,6) by (auto simp: chain_ok_def low_heights_def get)
qed

section \<open>Reachable chains\<close>

text \<open>
  The operations of the program: a new chain; a directory for checkpoints, time samples and the
  state of the disk, which change outside of this component; a header from a peer.
\<close>

inductive chain_reach :: "hash_fns \<Rightarrow> hsk_network \<Rightarrow> hsk_chain \<Rightarrow> bool" for H N where
  reach_init: "hsk_chain_init H N clock [] td = Some (HSK_SUCCESS, c) \<Longrightarrow> chain_reach H N c"
| reach_outside: "chain_reach H N c \<Longrightarrow>
    chain_reach H N (c\<lparr>ch_prefix := prefix, ch_td := td, ch_file := f, ch_io := io\<rparr>)"
| reach_add: "chain_reach H N c \<Longrightarrow> low_heights c \<Longrightarrow> header_ok h \<Longrightarrow> cache_ok H h \<Longrightarrow>
    pow_hash H h \<noteq> replicate 32 0 \<Longrightarrow> hsk_chain_add H N clock c h = Some (rc, c') \<Longrightarrow> chain_reach H N c'"

definition reach_ok :: "hash_fns \<Rightarrow> hsk_network \<Rightarrow> hsk_chain \<Rightarrow> bool" where
  "reach_ok H N c \<longleftrightarrow> chain_ok H N c \<and> ch_mem c = [] \<and> hdr_prev_block (ch_genesis c) = replicate 32 0"

lemma chain_ok_cong:
  assumes "chain_ok H N c" and "ch_hashes c' = ch_hashes c" and "ch_genesis c' = ch_genesis c"
    and "ch_heights c' = ch_heights c" and "ch_tip c' = ch_tip c" and "ch_height c' = ch_height c"
    and "ch_init_height c' = ch_init_height c" and "ch_orphans c' = ch_orphans c" and "ch_prevs c' = ch_prevs c"
  shows "chain_ok H N c'"
proof -
  have "tree_ok H N c'" using assms(1-3) tree_ok_cong unfolding chain_ok_def by blast
  then show ?thesis
    using assms walk_same [OF assms(2)] unfolding chain_ok_def main_ok_def orphans_ok_def by simp
qed

lemma reach_invariant:
  assumes "N \<in> set hsk_networks" and "no_zero_hash H N" and "chain_reach H N c"
  shows "reach_ok H N c"
  using assms(3)
proof (induction rule: chain_reach.induct)
  case (reach_init clock td c)
  then show ?case using chain_init_ok [OF assms(1,2), of clock td] by (auto simp: reach_ok_def)
next
  case (reach_outside c prefix td f io)
  then show ?case unfolding reach_ok_def by (auto intro: chain_ok_cong [of H N c])
next
  case (reach_add c h clock rc c')
  then show ?case
    using add_ok [OF _ networks_ok networks_limit_ok, of H N c h clock] assms(1,2)
    by (auto simp: reach_ok_def extended_def no_zero_hash_def)
qed

lemmas reach_facts = reach_invariant [unfolded reach_ok_def chain_ok_def]

section \<open>The block locator\<close>

text \<open>After the tenth hash the step doubles in each round, so few rounds are left.\<close>

lemma locator_doubling:
  assumes "10 < length hs" and "0 < s" and "height \<le> s * (2 ^ k - 1)" and "length hs + k \<le> 64"
  shows "\<exists>r. locator_loop H c height s hs = Some (hs @ r) \<and> length r \<le> k \<and>
    (0 < height \<and> tbl_get (ch_heights c) 0 = Some g \<longrightarrow> r \<noteq> [] \<and> last r = fst (hsk_header_hash H g))"
  using assms
proof (induction k arbitrary: hs s height)
  case 0
  then show ?case by (simp add: locator_loop.simps)
next
  case (Suc k)
  show ?case
  proof (cases "0 < height")
    case True
    let ?h = "max 0 (height - s)"
    have "height - s \<le> (s * 2) * (2 ^ k - 1)" "0 \<le> (s * 2) * (2 ^ k - 1)"
      using Suc.prems(2,3) by (simp_all add: algebra_simps)
    then have le: "?h \<le> (s * 2) * (2 ^ k - 1)" by simp
    have run: "locator_loop H c height s hs =
        (case tbl_get (ch_heights c) (word_of_int ?h) of
           None \<Rightarrow> locator_loop H c ?h (s * 2) hs
         | Some hdr \<Rightarrow> locator_loop H c ?h (s * 2) (hs @ [fst (hsk_header_hash H hdr)]))"
      using True Suc.prems(1,4)
      by (simp add: locator_loop.simps [of H c height s hs] Let_def hsk_chain_get_by_height_def locator_push_def max_def
          split: option.splits)
    show ?thesis
    proof (cases "tbl_get (ch_heights c) (word_of_int ?h)")
      case None
      obtain r where r: "locator_loop H c ?h (s * 2) hs = Some (hs @ r)" "length r \<le> k"
        "0 < ?h \<and> tbl_get (ch_heights c) 0 = Some g \<longrightarrow> r \<noteq> [] \<and> last r = fst (hsk_header_hash H g)"
        using Suc.IH [of hs "s * 2" ?h] Suc.prems le by auto
      have "0 < ?h" if "tbl_get (ch_heights c) 0 = Some g" using that None by (cases "?h = 0") auto
      then show ?thesis using r run None by (intro exI [of _ r]) simp
    next
      case (Some hdr)
      let ?x = "fst (hsk_header_hash H hdr)"
      obtain r where r: "locator_loop H c ?h (s * 2) (hs @ [?x]) = Some ((hs @ [?x]) @ r)" "length r \<le> k"
        "0 < ?h \<and> tbl_get (ch_heights c) 0 = Some g \<longrightarrow> r \<noteq> [] \<and> last r = fst (hsk_header_hash H g)"
        using Suc.IH [of "hs @ [?x]" "s * 2" ?h] Suc.prems le by auto
      have "?h = 0 \<Longrightarrow> r = []" using r(1) by (simp add: locator_loop.simps)
      moreover have "tbl_get (ch_heights c) 0 = Some g \<Longrightarrow> ?h = 0 \<Longrightarrow> hdr = g" using Some by simp
      ultimately show ?thesis using r run Some by (intro exI [of _ "?x # r"]) auto
    qed
  qed (simp add: locator_loop.simps)
qed

lemma locator_single_steps:
  assumes "height < 2 ^ 32" and "length hs \<le> 11"
  shows "\<exists>r. locator_loop H c height 1 hs = Some (hs @ r) \<and> length (hs @ r) \<le> 43 \<and>
    (0 < height \<and> tbl_get (ch_heights c) 0 = Some g \<longrightarrow> r \<noteq> [] \<and> last r = fst (hsk_header_hash H g))"
  using assms
proof (induction "nat height" arbitrary: height hs rule: less_induct)
  case less
  show ?case
  proof (cases "height \<le> 0 \<or> length hs = 11")
    case True
    then show ?thesis
    proof
      assume "length hs = 11"
      then show ?thesis using locator_doubling [of hs 1 height 32 H c g] less.prems(1) by fastforce
    qed (use less.prems(2) in \<open>auto simp: locator_loop.simps\<close>)
  next
    case False
    let ?h = "height - 1"
    have run: "locator_loop H c height 1 hs =
        (case tbl_get (ch_heights c) (word_of_int ?h) of
           None \<Rightarrow> locator_loop H c ?h 1 hs
         | Some hdr \<Rightarrow> locator_loop H c ?h 1 (hs @ [fst (hsk_header_hash H hdr)]))"
      using False less.prems(2)
      by (simp add: locator_loop.simps [of H c height 1 hs] Let_def hsk_chain_get_by_height_def locator_push_def split: option.splits)
    show ?thesis
    proof (cases "tbl_get (ch_heights c) (word_of_int ?h)")
      case None
      obtain r where r: "locator_loop H c ?h 1 hs = Some (hs @ r)" "length (hs @ r) \<le> 43"
        "0 < ?h \<and> tbl_get (ch_heights c) 0 = Some g \<longrightarrow> r \<noteq> [] \<and> last r = fst (hsk_header_hash H g)"
        using less.hyps [of ?h hs] less.prems False by auto
      have "0 < ?h" if "tbl_get (ch_heights c) 0 = Some g" using that None False by (cases "?h = 0") auto
      then show ?thesis using r run None by (intro exI [of _ r]) simp
    next
      case (Some hdr)
      let ?x = "fst (hsk_header_hash H hdr)"
      obtain r where r: "locator_loop H c ?h 1 (hs @ [?x]) = Some ((hs @ [?x]) @ r)" "length ((hs @ [?x]) @ r) \<le> 43"
        "0 < ?h \<and> tbl_get (ch_heights c) 0 = Some g \<longrightarrow> r \<noteq> [] \<and> last r = fst (hsk_header_hash H g)"
        using less.hyps [of ?h "hs @ [?x]"] less.prems False by auto
      have "?h = 0 \<Longrightarrow> r = []" using r(1) by (simp add: locator_loop.simps)
      moreover have "tbl_get (ch_heights c) 0 = Some g \<Longrightarrow> ?h = 0 \<Longrightarrow> hdr = g" using Some by simp
      ultimately show ?thesis using r run Some False by (intro exI [of _ "?x # r"]) auto
    qed
  qed
qed

section \<open>Correctness\<close>

text \<open>A hash for the witnesses: all octets of a digest are one more than the first octet of the data.\<close>

definition first_octet_fns :: hash_fns where
  "first_octet_fns = \<lparr>blake2b = \<lambda>n d. replicate n (if d = [] then 1 else hd d + 1),
     sha3 = \<lambda>d. replicate 32 (if d = [] then 1 else hd d + 1)\<rparr>"

definition demo_header :: "u32 \<Rightarrow> bytes \<Rightarrow> hsk_header" where
  "demo_header nonce prev = hsk_header_init\<lparr>hdr_nonce := nonce, hdr_time := 0x5e384200, hdr_prev_block := prev,
     hdr_bits := 0x207fffff\<rparr>"

lemma first_octet_ok: "no_zero_hash first_octet_fns HSK_REGTEST"
proof -
  have "case hsk_header_decode hsk_header_init (net_genesis HSK_REGTEST) of
      None \<Rightarrow> True | Some g \<Rightarrow> pow_hash first_octet_fns g \<noteq> replicate 32 0" by code_simp
  moreover have "hash_fns_ok first_octet_fns" by (simp add: hash_fns_ok_def first_octet_fns_def)
  ultimately show ?thesis by (auto simp: no_zero_hash_def)
qed

lemma demo_header_ok:
  "header_ok (demo_header 1 (replicate 32 2))" "cache_ok first_octet_fns (demo_header 1 (replicate 32 2))"
  "pow_hash first_octet_fns (demo_header 1 (replicate 32 2)) \<noteq> replicate 32 0"
  by code_simp+

lemma demo_chain:
  obtains c where "hsk_chain_init first_octet_fns HSK_REGTEST 0 [] hsk_timedata_init = Some (HSK_SUCCESS, c)"
    "chain_reach first_octet_fns HSK_REGTEST c" "low_heights c"
proof -
  have "HSK_REGTEST \<in> set hsk_networks" by (simp add: hsk_networks_def)
  from chain_init_ok [OF this first_octet_ok, of 0 hsk_timedata_init] that reach_init show thesis by blast
qed





text \<open>
  C6. In every chain reached from a genesis block the tip is a stored header, its height is that of
  the chain, and no stored header, on whatever branch, has more work.
\<close>

theorem chain_best_tip:
  assumes "N \<in> set hsk_networks" and "no_zero_hash H N" and "chain_reach H N c"
  shows "hsk_chain_get c (hdr_hash (ch_tip c)) = Some (ch_tip c) \<and> ch_height c = uint (hdr_height (ch_tip c)) \<and>
    (\<forall>k h. hsk_chain_get c k = Some h \<longrightarrow> be_val (hdr_work h) \<le> be_val (hdr_work (ch_tip c)))"
  using reach_invariant [OF assms] by (simp add: reach_ok_def chain_ok_def main_ok_def hsk_chain_get_def)

theorem chain_best_tip_witness:
  "\<exists>c. hsk_chain_init first_octet_fns HSK_REGTEST 0 [] hsk_timedata_init = Some (HSK_SUCCESS, c) \<and>
     hsk_chain_get c (hdr_hash (ch_tip c)) = Some (ch_tip c)"
  by (rule demo_chain) (use chain_best_tip [OF _ first_octet_ok] in \<open>auto simp: hsk_networks_def\<close>)



text \<open>What the table of heights gives, in terms of the walk from the tip.\<close>

lemma by_height_walk:
  assumes "tree_ok H N c" and "main_ok c"
  shows "hsk_chain_get_by_height c n =
      (if n \<le> hdr_height (ch_tip c) then walk c (ch_tip c) (nheight (ch_tip c) - unat n) else None)"
    and "n \<le> hdr_height (ch_tip c) \<Longrightarrow>
      \<exists>a. walk c (ch_tip c) (nheight (ch_tip c) - unat n) = Some a \<and> linked H c a \<and> hdr_height a = n"
    and "n \<le> hdr_height (ch_tip c) \<Longrightarrow> \<exists>h. hsk_chain_get_by_height c n = Some h \<and> hdr_height h = n"
    and "ch_height c = uint (hdr_height (ch_tip c))"
proof -
  let ?t = "ch_tip c"
  show get: "hsk_chain_get_by_height c n = (if n \<le> hdr_height ?t then walk c ?t (nheight ?t - unat n) else None)"
    using assms(2) by (simp add: main_ok_def hsk_chain_get_by_height_def)
  have L: "linked H c ?t" using assms stored_linked by (auto simp: main_ok_def)
  show at: "\<exists>a. walk c ?t (nheight ?t - unat n) = Some a \<and> linked H c a \<and> hdr_height a = n" if "n \<le> hdr_height ?t"
    using walk_ancestor [OF assms(1) L, of "nheight ?t - unat n"] that by (auto simp: word_le_nat_alt word_unat_eq_iff)
  show "\<exists>h. hsk_chain_get_by_height c n = Some h \<and> hdr_height h = n" if "n \<le> hdr_height ?t" using get at [OF that] that by auto
  show "ch_height c = uint (hdr_height ?t)" using assms(2) unfolding main_ok_def uint_nat by simp
qed



end
