(* ===== verification/Chain_Use.thy ===== *)
theory Chain_Use
  imports Chain_Reach
begin

text \<open>
  What the rest of the program reads from the chain: the root of the name tree that proofs are
  checked against, the locator sent to peers, and the difficulty rule as a formula.
\<close>

lemma safe_root_found:
  assumes "N \<in> set hsk_networks" and "no_zero_hash H N" and "chain_reach H N c"
  shows "\<exists>h. hsk_chain_safe_root N c = Some (hdr_name_root h) \<and>
    hsk_chain_get_by_height c (hdr_height h) = Some h \<and>
    unat (hdr_height h) \<le> nat (ch_height c) \<and> nat (ch_height c) < unat (hdr_height h) + 12 \<and>
    (int (unat (hdr_height h)) = ch_height c \<or> unat (hdr_height h) mod unat (net_tree_interval N) = 0)"
proof -
  let ?t = "hdr_height (ch_tip c)" and ?i = "net_tree_interval N"
  have ok: "tree_ok H N c" "main_ok c" using reach_facts [OF assms] by simp_all
  note tip = by_height_walk(4) [OF ok] and branch = by_height_walk(3) [OF ok]
  define m where "m = (if ?t mod ?i \<ge> 12 then 0 else ?t mod ?i)"
  have safe: "safe_height N c = ?t - m" by (simp add: safe_height_def tip m_def Let_def)
  have le: "?t mod ?i \<le> ?t" by (simp add: word_le_nat_alt unat_mod)
  then have m: "m \<le> ?t" "unat m < 12" by (auto simp: m_def word_le_nat_alt not_le)
  have u: "unat (?t - m) = unat ?t - unat m" using m(1) by (simp add: unat_sub)
  have mult: "m = 0 \<or> unat (?t - m) mod unat ?i = 0"
  proof (cases "m = 0")
    case False
    then have "m = ?t mod ?i" by (simp add: m_def split: if_splits)
    then have "unat (?t - m) = unat ?t - unat ?t mod unat ?i" using u by (simp add: unat_mod)
    then show ?thesis by (simp add: minus_mod_eq_mult_div)
  qed simp
  have "?t - m \<le> ?t" using u by (simp add: word_le_nat_alt)
  then obtain h where h: "hsk_chain_get_by_height c (?t - m) = Some h" "hdr_height h = ?t - m" using branch by blast
  have "hsk_chain_safe_root N c = Some (hdr_name_root h)" using h(1) by (simp add: hsk_chain_safe_root_def safe)
  moreover have "nat (ch_height c) = unat ?t" using tip by simp
  ultimately show ?thesis using h u m mult tip by (intro exI [of _ h]) (auto simp: word_le_nat_alt)
qed

text \<open>
  C20. Resolution always finds a root: it is the name root of a header on the main branch at most
  eleven blocks below the tip, the tip itself or a block on the commitment interval.
\<close>

theorem safe_root_returns:
  assumes "N \<in> set hsk_networks" and "no_zero_hash H N" and "chain_reach H N c"
  shows "\<exists>h. hsk_chain_safe_root N c = Some (hdr_name_root h) \<and>
    hsk_chain_get_by_height c (hdr_height h) = Some h \<and>
    unat (hdr_height h) \<le> nat (ch_height c) \<and> nat (ch_height c) < unat (hdr_height h) + 12 \<and>
    (int (unat (hdr_height h)) = ch_height c \<or> unat (hdr_height h) mod unat (net_tree_interval N) = 0)"
  by (rule safe_root_found [OF assms])

theorem safe_root_returns_witness:
  "\<exists>c (h :: hsk_header). hsk_chain_init first_octet_fns HSK_REGTEST 0 [] hsk_timedata_init = Some (HSK_SUCCESS, c) \<and>
     hsk_chain_safe_root HSK_REGTEST c = Some (hdr_name_root h)"
proof -
  obtain c where c: "hsk_chain_init first_octet_fns HSK_REGTEST 0 [] hsk_timedata_init = Some (HSK_SUCCESS, c)"
    "chain_reach first_octet_fns HSK_REGTEST c" by (rule demo_chain)
  have "HSK_REGTEST \<in> set hsk_networks" by (simp add: hsk_networks_def)
  from safe_root_returns [OF this first_octet_ok c(2)] c(1) show ?thesis by blast
qed

lemma locator_found:
  assumes "0 \<le> ch_height c" and "ch_height c < 2 ^ 32"
  shows "\<exists>hs. hsk_chain_get_locator H c = Some hs \<and> 0 < length hs \<and> length hs \<le> 43 \<and>
    hd hs = fst (hsk_header_hash H (ch_tip c)) \<and>
    (\<forall>g. 0 < ch_height c \<and> hsk_chain_get_by_height c 0 = Some g \<longrightarrow> last hs = fst (hsk_header_hash H g))"
proof -
  let ?t = "fst (hsk_header_hash H (ch_tip c))" and ?g = "the (tbl_get (ch_heights c) 0)"
  obtain r where r: "locator_loop H c (ch_height c) 1 [?t] = Some ([?t] @ r)" "length ([?t] @ r) \<le> 43"
    "0 < ch_height c \<and> tbl_get (ch_heights c) 0 = Some ?g \<longrightarrow> r \<noteq> [] \<and> last r = fst (hsk_header_hash H ?g)"
    using locator_single_steps [of "ch_height c" "[?t]" H c ?g] assms by auto
  then have "hsk_chain_get_locator H c = Some ([?t] @ r)" by (simp add: hsk_chain_get_locator_def locator_push_def)
  then show ?thesis using r(2,3) by (auto simp: hsk_chain_get_by_height_def)
qed

text \<open>
  C21. The block locator never writes past the 64 hashes of the message: on any state whose height
  is a block height it returns at most 43 hashes, the first that of the tip and, when the genesis
  block is in the table, the last that of the genesis block.
\<close>

theorem locator_bounded:
  assumes "0 \<le> ch_height c" and "ch_height c < 2 ^ 32"
  shows "\<exists>hs. hsk_chain_get_locator H c = Some hs \<and> 0 < length hs \<and> length hs \<le> 43 \<and>
    hd hs = fst (hsk_header_hash H (ch_tip c)) \<and>
    (\<forall>g. 0 < ch_height c \<and> hsk_chain_get_by_height c 0 = Some g \<longrightarrow> last hs = fst (hsk_header_hash H g))"
  by (rule locator_found [OF assms])

theorem locator_bounded_witness:
  "\<exists>c hs. hsk_chain_init first_octet_fns HSK_REGTEST 0 [] hsk_timedata_init = Some (HSK_SUCCESS, c) \<and>
     hsk_chain_get_locator first_octet_fns c = Some hs \<and> length hs \<le> 43"
proof -
  obtain c where c: "hsk_chain_init first_octet_fns HSK_REGTEST 0 [] hsk_timedata_init = Some (HSK_SUCCESS, c)"
    "chain_reach first_octet_fns HSK_REGTEST c" by (rule demo_chain)
  have "main_ok c" using reach_facts [OF _ first_octet_ok c(2)] by (simp add: hsk_networks_def)
  then have "0 \<le> ch_height c" "ch_height c < 2 ^ 32"
    using unsigned_less [of "hdr_height (ch_tip c)", where ?'a = int] by (simp_all add: main_ok_def)
  from locator_bounded [OF this] c(1) show ?thesis by blast
qed



end
