(* ===== verification/Chain_Demo.thy ===== *)
theory Chain_Demo
  imports Chain_Reach
begin

text \<open>
  A concrete chain of any length on the regression-test network, for the witnesses that need one:
  with a hash function that is constant up to the mask of a header, every block chooses its hash.
\<close>

definition ones_fns :: hash_fns where
  "ones_fns = \<lparr>blake2b = \<lambda>n d. replicate n 1, sha3 = \<lambda>d. replicate 32 1\<rparr>"

definition demo_hash :: "nat \<Rightarrow> bytes" where
  "demo_hash n = [2] @ replicate 29 0 @ [of_nat (n div 256), of_nat (n mod 256)]"

definition demo_block :: "nat \<Rightarrow> bytes \<Rightarrow> hsk_header" where
  "demo_block n prev = hsk_header_init\<lparr>hdr_time := 0x5e384200 + of_nat n, hdr_prev_block := prev,
     hdr_bits := 0x207fffff, hdr_mask := map2 (\<lambda>x m. x XOR m) (replicate 32 1) (demo_hash n)\<rparr>"

lemma ones_pow_hash: "pow_hash ones_fns h = map2 (\<lambda>x m. x XOR m) (replicate 32 1) (hdr_mask h)"
  by (simp add: pow_hash_def hsk_header_cache_def ones_fns_def Let_def)

lemma xor_twice: "length xs = length ys \<Longrightarrow> map2 (\<lambda>x m. x XOR m) xs (map2 (\<lambda>x m. x XOR m) xs ys) = (ys :: bytes)"
  by (induction xs ys rule: list_induct2) (simp_all add: xor.assoc [symmetric])

lemma demo_hash_facts:
  "length (demo_hash n) = 32" "demo_hash n \<noteq> replicate 32 0" "demo_hash n \<noteq> replicate 32 1"
proof -
  show "length (demo_hash n) = 32" by (simp add: demo_hash_def)
  have "hd (demo_hash n) = 2" by (simp add: demo_hash_def)
  moreover have "hd (replicate 32 x) = x" for x :: u8 by simp
  ultimately show "demo_hash n \<noteq> replicate 32 0" "demo_hash n \<noteq> replicate 32 1" by force+
qed

lemma demo_block_hash: "pow_hash ones_fns (demo_block n prev) = demo_hash n"
proof -
  have m: "hdr_mask (demo_block n prev) = map2 (\<lambda>x m. x XOR m) (replicate 32 1) (demo_hash n)" by (simp add: demo_block_def)
  show ?thesis unfolding ones_pow_hash m by (rule xor_twice) (simp add: demo_hash_facts)
qed

lemma demo_hash_inj: "m < 65536 \<Longrightarrow> n < 65536 \<Longrightarrow> demo_hash m = demo_hash n \<longleftrightarrow> m = n"
proof
  assume mn: "m < 65536" "n < 65536" and e: "demo_hash m = demo_hash n"
  have "(of_nat (m div 256) :: u8) = of_nat (n div 256)" "(of_nat (m mod 256) :: u8) = of_nat (n mod 256)"
    using e by (simp_all add: demo_hash_def)
  then have "unat (of_nat (m div 256) :: u8) = unat (of_nat (n div 256) :: u8)"
    "unat (of_nat (m mod 256) :: u8) = unat (of_nat (n mod 256) :: u8)" by simp_all
  moreover have "unat (of_nat (k div 256) :: u8) = k div 256" "unat (of_nat (k mod 256) :: u8) = k mod 256"
    if "k < 65536" for k
    using that by (simp_all add: unat_of_nat)
  ultimately have "m div 256 = n div 256" "m mod 256 = n mod 256" using mn by simp_all
  then show "m = n" by (metis div_mult_mod_eq)
qed simp

lemma ones_no_zero: "no_zero_hash ones_fns HSK_REGTEST"
proof -
  have "case hsk_header_decode hsk_header_init (net_genesis HSK_REGTEST) of
      None \<Rightarrow> True | Some g \<Rightarrow> pow_hash ones_fns g \<noteq> replicate 32 0" by code_simp
  moreover have "hash_fns_ok ones_fns" by (simp add: hash_fns_ok_def ones_fns_def)
  ultimately show ?thesis by (auto simp: no_zero_hash_def)
qed

text \<open>What holds of the chain after \<open>n\<close> blocks.\<close>

definition demo_state :: "nat \<Rightarrow> hsk_chain \<Rightarrow> bool" where
  "demo_state n c \<longleftrightarrow> chain_reach ones_fns HSK_REGTEST c \<and> ch_td c = hsk_timedata_init \<and> ch_orphans c = [] \<and> ch_prevs c = [] \<and>
     nheight (ch_tip c) = n \<and> be_val (hdr_work (ch_tip c)) = 2 * (n + 1) \<and>
     (\<forall>k h. stored c k h \<longrightarrow> (k = replicate 32 1 \<or> (\<exists>i\<le>n. k = demo_hash i)) \<and>
       unat (hdr_time h) \<le> 0x5e384200 + n \<and> nheight h \<le> n)"

lemma regtest_proof: "hdr_bits h = 0x207fffff \<Longrightarrow> block_proof h = 2"
proof -
  assume "hdr_bits h = 0x207fffff"
  moreover have "snd (hsk_pow_to_target 0x207fffff) = [0x7f, 0xff, 0xff] @ replicate 29 0" by code_simp
  ultimately show ?thesis by (simp add: block_proof_def)
qed

lemma mtp_times_stored:
  assumes "tree_ok H N c" and "stored c k p"
  shows "t \<in> set (mtp_times n c (Some p)) \<Longrightarrow> \<exists>k h. stored c k h \<and> t = sint (hdr_time h)"
  using assms(2)
proof (induction n arbitrary: k p)
  case (Suc n)
  show ?case
  proof (cases "t = sint (hdr_time p)")
    case False
    then obtain q where "stored c (hdr_prev_block p) q" "t \<in> set (mtp_times n c (Some q))"
      using Suc.prems(1) by (cases "tbl_get (ch_hashes c) (hdr_prev_block p)") auto
    then show ?thesis using Suc.IH by blast
  qed (use Suc.prems(2) in blast)
qed simp

lemma mtp_stored:
  assumes "tree_ok H N c" and "stored c k p"
  shows "\<exists>k h. stored c k h \<and> hsk_chain_get_mtp c (Some p) = sint (hdr_time h)"
proof -
  let ?ts = "mtp_times 11 c (Some p)"
  have "?ts \<noteq> []" by (simp add: eval_nat_numeral)
  then have "length ?ts div 2 < length (sort ?ts)" by simp
  then have "sort ?ts ! (length (sort ?ts) div 2) \<in> set ?ts" by (metis length_sort nth_mem set_sort)
  then show ?thesis using mtp_times_stored [OF assms] by (auto simp: hsk_chain_get_mtp_def Let_def)
qed

lemma demo_start: "\<exists>c. demo_state 0 c"
proof -
  have N: "HSK_REGTEST \<in> set hsk_networks" by (simp add: hsk_networks_def)
  have H: "hash_fns_ok ones_fns" by (simp add: hash_fns_ok_def ones_fns_def)
  have "case hsk_header_decode hsk_header_init (net_genesis HSK_REGTEST) of None \<Rightarrow> False
      | Some g \<Rightarrow> hdr_mask g = replicate 32 0 \<and> hdr_time g = 0x5e384178 \<and> hdr_bits g = 0x207fffff \<and> \<not> hdr_cache g \<and>
          hdr_height g = 0" by code_simp
  then obtain g where g: "hsk_header_decode hsk_header_init (net_genesis HSK_REGTEST) = Some g"
    "hdr_mask g = replicate 32 0" "hdr_time g = 0x5e384178" "hdr_bits g = 0x207fffff" "\<not> hdr_cache g" "hdr_height g = 0"
    by (auto split: option.splits)
  have hash: "pow_hash ones_fns g = replicate 32 1" by (simp add: ones_pow_hash g(2))
  have "fst (hsk_pow_to_target 0x207fffff)" by code_simp
  then obtain w where w: "hsk_header_calc_work g None = Some (True, g\<lparr>hdr_work := w\<rparr>)" "be_val w = 2"
    using calc_work_value [of None g] regtest_proof [OF g(4)] by (auto simp: g(4) block_proof_def)
  have cache: "cache_ok ones_fns (g\<lparr>hdr_work := w\<rparr>)" using g(5) by (simp add: cache_ok_def)
  obtain c where c: "hsk_chain_init ones_fns HSK_REGTEST 0 [] hsk_timedata_init = Some (HSK_SUCCESS, c)"
    using chain_init_ok [OF N ones_no_zero] by blast
  then have "ch_td c = hsk_timedata_init \<and> ch_orphans c = [] \<and> ch_prevs c = [] \<and> nheight (ch_tip c) = 0 \<and>
      be_val (hdr_work (ch_tip c)) = 2 \<and>
      ch_hashes c = [(replicate 32 1, g\<lparr>hdr_work := w, hdr_hash := pow_hash ones_fns g, hdr_cache := True\<rparr>)]"
    using g(1,6) w header_cache [OF cache] hash
    by (auto simp: hsk_chain_init_def hsk_chain_init_genesis_def chain_alloc_def set_hashes_def set_heights_def Let_def
        hsk_chain_maybe_sync_def)
  then have "demo_state 0 c" using reach_init [OF c] g(3,6) by (auto simp: demo_state_def tbl_get_def split: if_splits)
  then show ?thesis by blast
qed

lemma sint_small:
  assumes "unat (t :: u64) < 9223372036854775808"
  shows "sint t = int (unat t)"
proof -
  have "uint t < 9223372036854775808" unfolding uint_nat using assms by linarith
  then have "uint t < 2 ^ 63" by simp
  moreover have "- (2 ^ 63) \<le> uint t" by (rule order_trans [OF _ uint_ge_0]) simp
  ultimately have "signed_take_bit 63 (uint t) = uint t" by (simp only: signed_take_bit_int_eq_self)
  then show ?thesis by (simp add: sint_uint)
qed

lemma demo_step:
  assumes D: "demo_state n c" and n: "n < 60000"
  shows "\<exists>c'. demo_state (n + 1) c'"
proof -
  have N: "HSK_REGTEST \<in> set hsk_networks" by (simp add: hsk_networks_def)
  let ?H = ones_fns and ?N = HSK_REGTEST and ?t = "ch_tip c"
  let ?h = "demo_block (n + 1) (hdr_hash ?t)" and ?clock = "0x5e384200 + int n"
  have reach: "chain_reach ?H ?N c" using D by (simp add: demo_state_def)
  have C: "chain_ok ?H ?N c" and mem: "ch_mem c = []" and zero: "hdr_prev_block (ch_genesis c) = replicate 32 0"
    using reach_invariant [OF N ones_no_zero reach] by (simp_all add: reach_ok_def)
  have T: "tree_ok ?H ?N c" and M: "main_ok c" using C by (simp_all add: chain_ok_def)
  have S: "stored c (hdr_hash ?t) ?t" using M by (simp add: main_ok_def)
  have H: "hash_fns_ok ?H" using ones_no_zero by (simp add: no_zero_hash_def)
  have okt: "ok_header ?H ?t" by (rule tree_okD(1) [OF T S])
  have h: "header_ok ?h" "cache_ok ?H ?h" using ok_header_cache(3) [OF okt]
    by (simp_all add: demo_block_def header_ok_def cache_ok_def hsk_header_init_def demo_hash_facts)
  have hash: "pow_hash ?H ?h = demo_hash (n + 1)" by (rule demo_block_hash)
  have low: "low_heights c" using D n by (fastforce simp: low_heights_def demo_state_def)
  have new: "tbl_get (ch_hashes c) (demo_hash (n + 1)) = None"
  proof (rule ccontr)
    assume "tbl_get (ch_hashes c) (demo_hash (n + 1)) \<noteq> None"
    then obtain i where "i \<le> n" "demo_hash (n + 1) = demo_hash i"
      using D demo_hash_facts(3) [of "n + 1"] unfolding demo_state_def by blast
    then show False using demo_hash_inj [of "n + 1" i] n by simp
  qed
  have time: "unat (hdr_time ?h) = 0x5e384200 + (n + 1)" using n by (simp add: demo_block_def unat_word_ariths unat_of_nat)
  have now: "unat (word_of_int (hsk_timedata_now ?clock (ch_td c) + 2 * 60 * 60) :: u64) = 0x5e384200 + n + 7200"
  proof -
    have "hsk_timedata_now ?clock (ch_td c) + 2 * 60 * 60 = int (0x5e384200 + n + 7200)"
      using D by (simp add: demo_state_def hsk_timedata_now_def hsk_timedata_init_def)
    then have "(word_of_int (hsk_timedata_now ?clock (ch_td c) + 2 * 60 * 60) :: u64) = of_nat (0x5e384200 + n + 7200)"
      by (simp only: of_int_of_nat_eq)
    moreover have "unat (of_nat (0x5e384200 + n + 7200) :: u64) = 0x5e384200 + n + 7200"
      using n by (simp only: unat_of_nat) simp
    ultimately show ?thesis by simp
  qed
  have mtp: "hsk_chain_get_mtp c (Some ?t) < sint (hdr_time ?h)"
  proof -
    obtain k x where x: "stored c k x" "hsk_chain_get_mtp c (Some ?t) = sint (hdr_time x)"
      using mtp_stored [OF T S] by blast
    have "unat (hdr_time x) \<le> 0x5e384200 + n" using D x(1) unfolding demo_state_def by blast
    then have "unat (hdr_time x) < unat (hdr_time ?h)" "unat (hdr_time ?h) < 9223372036854775808" using time n by simp_all
    moreover then have "sint (hdr_time x) = int (unat (hdr_time x))" "sint (hdr_time ?h) = int (unat (hdr_time ?h))"
      using sint_small [of "hdr_time x"] sint_small [of "hdr_time ?h"] by simp_all
    ultimately show ?thesis unfolding x(2) by (simp only: of_nat_less_iff)
  qed
  have low_hash: "be_val (demo_hash (n + 1)) \<le> target_of 0x207fffff"
  proof -
    have t: "snd (hsk_pow_to_target 0x207fffff) = [0x7f, 0xff, 0xff] @ replicate 29 0" by code_simp
    have "be_val (demo_hash (n + 1)) = 2 * 256 ^ 31 + be_val (tl (demo_hash (n + 1)))" by (simp add: demo_hash_def)
    moreover have "be_val (tl (demo_hash (n + 1))) < 256 ^ 31"
      using be_val_lt [of "tl (demo_hash (n + 1))"] demo_hash_facts(1) [of "n + 1"] by simp
    ultimately show ?thesis unfolding target_of_def t by simp
  qed
  have bits: "hdr_bits ?h = 0x207fffff" "hdr_prev_block ?h = hdr_hash ?t" by (simp_all add: demo_block_def)
  have "fst (hsk_pow_to_target 0x207fffff)" by code_simp
  moreover have "\<not> hdr_time ?h > word_of_int (hsk_timedata_now ?clock (ch_td c) + 2 * 60 * 60)"
    unfolding word_less_nat_alt now time by simp
  moreover have "hsk_chain_get_target ?N c (sint (hdr_time ?h)) (Some ?t) = Some 0x207fffff"
    by (simp add: hsk_chain_get_target_def HSK_REGTEST_def)
  moreover have "ch_orphans c = []" "ch_prevs c = []" using D by (simp_all add: demo_state_def)
  ultimately have v: "verdict ?H ?N ?clock c ?h = HSK_SUCCESS"
    using new low_hash mtp S unfolding verdict_def hash bits by (simp add: tbl_has_def)
  obtain rc c' h' w where a: "hsk_chain_add ?H ?N ?clock c ?h = Some (rc, c')" "extended ?H ?N c c'"
    "stored c' (demo_hash (n + 1)) h'" "h' = placed ?H ?h ?t w" "child_ok ?H ?N c ?t h'" "inserted c h' c'"
    using add_ok [OF C networks_ok [OF N] networks_limit_ok [OF N] mem H h _ low, of ?clock] v hash S \<open>ch_prevs c = []\<close> zero
      demo_hash_facts(2) [of "n + 1"] unfolding bits by (auto simp: demo_block_def)
  have reach': "chain_reach ?H ?N c'"
    using reach_add [OF reach low h _ a(1)] hash demo_hash_facts(2) by simp
  have work: "be_val (hdr_work h') = 2 * (n + 1) + 2"
    using a(4,5) D n regtest_proof [of h'] bits(1) by (simp add: child_ok_def demo_state_def)
  have tip: "ch_tip c' = h'" using a(6) work D by (simp add: inserted_def demo_state_def)
  have ht: "nheight h' = n + 1" "hdr_time h' = hdr_time ?h" "hdr_hash h' = demo_hash (n + 1)"
    using a(4,5) D hash by (simp_all add: child_ok_def demo_state_def)
  have "demo_state (n + 1) c'"
    unfolding demo_state_def
  proof (intro conjI allI impI)
    show "chain_reach ?H ?N c'" by (rule reach')
    show "ch_td c' = hsk_timedata_init" "ch_orphans c' = []" "ch_prevs c' = []"
      using a(6) D by (simp_all add: inserted_def demo_state_def)
    show "nheight (ch_tip c') = n + 1" "be_val (hdr_work (ch_tip c')) = 2 * (n + 1 + 1)"
      using tip ht(1) work by simp_all
  next
    fix k x assume x: "stored c' k x"
    have upd: "stored c' k x \<longleftrightarrow> (if k = demo_hash (n + 1) then x = h' else stored c k x)"
      using a(6) ht(3) by (auto simp: inserted_def)
    have "(k = replicate 32 1 \<or> (\<exists>i\<le>n + 1. k = demo_hash i)) \<and> unat (hdr_time x) \<le> 0x5e384200 + (n + 1) \<and> nheight x \<le> n + 1"
    proof (cases "k = demo_hash (n + 1)")
      case True
      then show ?thesis using x ht(1,2) time unfolding upd by auto
    next
      case False
      then have "stored c k x" using x unfolding upd by simp
      then have "(k = replicate 32 1 \<or> (\<exists>i\<le>n. k = demo_hash i)) \<and> unat (hdr_time x) \<le> 0x5e384200 + n \<and> nheight x \<le> n"
        using D unfolding demo_state_def by blast
      then show ?thesis by (auto intro: le_SucI)
    qed
    then show "k = replicate 32 1 \<or> (\<exists>i\<le>n + 1. k = demo_hash i)" "unat (hdr_time x) \<le> 0x5e384200 + (n + 1)" "nheight x \<le> n + 1"
      by simp_all
  qed
  then show ?thesis by blast
qed

lemma demo_chain_of: "n \<le> 60000 \<Longrightarrow> \<exists>c. demo_state n c"
proof (induction n)
  case (Suc n)
  then show ?case using demo_step [of n] by auto
qed (use demo_start in blast)

text \<open>The chain with no file operation outstanding.\<close>

lemma demo_with_io:
  assumes "demo_state n c"
  shows "chain_reach ones_fns HSK_REGTEST (c\<lparr>ch_io := []\<rparr>)" "ch_height (c\<lparr>ch_io := []\<rparr>) = int n"
proof -
  have reach: "chain_reach ones_fns HSK_REGTEST c" using assms by (simp add: demo_state_def)
  have N: "HSK_REGTEST \<in> set hsk_networks" by (simp add: hsk_networks_def)
  have "c\<lparr>ch_prefix := ch_prefix c, ch_td := ch_td c, ch_file := ch_file c, ch_io := []\<rparr> = c\<lparr>ch_io := []\<rparr>" by simp
  then show "chain_reach ones_fns HSK_REGTEST (c\<lparr>ch_io := []\<rparr>)" using reach_outside [OF reach] by metis
  have e: "ch_height c = int (nheight (ch_tip c))"
    using reach_invariant [OF N ones_no_zero reach] by (simp add: reach_ok_def chain_ok_def main_ok_def)
  have "nheight (ch_tip c) = n" using assms by (simp add: demo_state_def)
  moreover have "ch_height (c\<lparr>ch_io := []\<rparr>) = ch_height c" by simp
  ultimately show "ch_height (c\<lparr>ch_io := []\<rparr>) = int n" using e by (simp only:)
qed

end
