(* ===== verification/Proof_Radix.thy ===== *)
theory Proof_Radix
  imports Header
begin

text \<open>
  Proofs of membership and of absence in the name tree, \<^verbatim>\<open>proof-radix.c\<close> (the file that \<^verbatim>\<open>proof.c\<close>
  includes): how they are read and how they are checked against a root. A null pointer of the
  struct is \<open>None\<close>; the array of nodes is a list, its count the length. A result \<open>None\<close> is a failed
  assertion.
\<close>

section \<open>Proofs\<close>

definition HSK_PROOF_DEADEND :: u8 where
  "HSK_PROOF_DEADEND = 0"

definition HSK_PROOF_SHORT :: u8 where
  "HSK_PROOF_SHORT = 1"

definition HSK_PROOF_COLLISION :: u8 where
  "HSK_PROOF_COLLISION = 2"

definition HSK_PROOF_EXISTS :: u8 where
  "HSK_PROOF_EXISTS = 3"

lemmas proof_type_defs = HSK_PROOF_DEADEND_def HSK_PROOF_SHORT_def HSK_PROOF_COLLISION_def HSK_PROOF_EXISTS_def

definition HSK_MAX_DATA_SIZE :: nat where
  "HSK_MAX_DATA_SIZE = 668"

record hsk_proof_node =
  pn_prefix :: bytes
  pn_prefix_size :: u16
  pn_node :: bytes

record hsk_proof =
  pf_type :: u8
  pf_depth :: u16
  pf_nodes :: "hsk_proof_node list"
  pf_prefix :: "bytes option"
  pf_prefix_size :: u16
  pf_left :: "bytes option"
  pf_right :: "bytes option"
  pf_nx_key :: "bytes option"
  pf_nx_hash :: "bytes option"
  pf_value :: "bytes option"
  pf_value_size :: u16

definition hsk_proof_init :: hsk_proof where
  "hsk_proof_init = \<lparr>
     pf_type = HSK_PROOF_DEADEND, pf_depth = 0, pf_nodes = [], pf_prefix = None, pf_prefix_size = 0,
     pf_left = None, pf_right = None, pf_nx_key = None, pf_nx_hash = None, pf_value = None,
     pf_value_size = 0\<rparr>"

text \<open>Bit \<open>i\<close> of a bit string, the highest bit of each octet first.\<close>

definition hsk_has_bit :: "bytes \<Rightarrow> nat \<Rightarrow> bool" where
  "hsk_has_bit m i \<longleftrightarrow> bit (m ! (i div 8)) (7 - i mod 8)"

section \<open>Reading\<close>

text \<open>The length of a bit string and the number of octets it takes.\<close>

definition read_bitlen :: "bytes \<Rightarrow> ((u16 \<times> nat) \<times> bytes) option" where
  "read_bitlen d = do {
     (byte, d) \<leftarrow> read_u8 d;
     let sz = (ucast byte :: u16);
     (sz, d) \<leftarrow> (if sz AND 0x80 \<noteq> 0 then do {
         (byte, d) \<leftarrow> read_u8 d;
         Some (push_bit 8 (sz AND NOT 0x80) OR ucast byte, d)
       }
       else Some (sz, d));
     if sz = 0 \<or> sz > 256 then None else Some ((sz, (unat sz + 7) div 8), d)
   }"

text \<open>The loop over the nodes; \<open>map'\<close> says which have a prefix. The array is cleared beforehand.\<close>

fun proof_read_nodes :: "bytes \<Rightarrow> nat \<Rightarrow> nat \<Rightarrow> bytes \<Rightarrow> (hsk_proof_node list \<times> bytes) option" where
  "proof_read_nodes map' i 0 d = Some ([], d)"
| "proof_read_nodes map' i (Suc n) d = do {
     ((prefix, sz), d) \<leftarrow> (if hsk_has_bit map' i then do {
         ((sz, bytes), d) \<leftarrow> read_bitlen d;
         (prefix, d) \<leftarrow> read_bytes bytes d;
         Some ((prefix @ replicate (32 - bytes) 0, sz), d)
       }
       else Some ((replicate 32 0, 0), d));
     (node, d) \<leftarrow> read_bytes 32 d;
     (items, d) \<leftarrow> proof_read_nodes map' (i + 1) n d;
     Some (\<lparr>pn_prefix = prefix, pn_prefix_size = sz, pn_node = node\<rparr> # items, d)
   }"

text \<open>What follows the nodes, for a type of two bits: the default case is not reached.\<close>

definition proof_read_tail :: "hsk_proof \<Rightarrow> bytes \<Rightarrow> (hsk_proof \<times> bytes) option" where
  "proof_read_tail pf d =
     (if pf_type pf = HSK_PROOF_DEADEND then Some (pf, d)
      else if pf_type pf = HSK_PROOF_SHORT then do {
        ((sz, bytes), d) \<leftarrow> read_bitlen d;
        (prefix, d) \<leftarrow> alloc_bytes bytes d;
        (left, d) \<leftarrow> alloc_bytes 32 d;
        (right, d) \<leftarrow> alloc_bytes 32 d;
        Some (pf\<lparr>pf_prefix := Some prefix, pf_prefix_size := sz, pf_left := Some left, pf_right := Some right\<rparr>, d)
      }
      else if pf_type pf = HSK_PROOF_COLLISION then do {
        (nx_key, d) \<leftarrow> alloc_bytes 32 d;
        (nx_hash, d) \<leftarrow> alloc_bytes 32 d;
        Some (pf\<lparr>pf_nx_key := Some nx_key, pf_nx_hash := Some nx_hash\<rparr>, d)
      }
      else do {
        (value_size, d) \<leftarrow> read_u16 d;
        if unat value_size > HSK_MAX_DATA_SIZE then None
        else do {
          (value, d) \<leftarrow> alloc_bytes (unat value_size) d;
          Some (pf\<lparr>pf_value_size := value_size, pf_value := Some value\<rparr>, d)
        }
      })"

text \<open>The outer option is the assertion on the count, the inner one the boolean result.\<close>

definition hsk_proof_read :: "bytes \<Rightarrow> hsk_proof \<Rightarrow> (hsk_proof \<times> bytes) option option" where
  "hsk_proof_read d pf =
     (if pf_nodes pf \<noteq> [] then None
      else Some (do {
        (field, d) \<leftarrow> read_u16 d;
        let type = drop_bit 14 field;
        let depth = field AND NOT (push_bit 14 3);
        if depth > 256 then None
        else do {
          (count, d) \<leftarrow> read_u16 d;
          if count > 256 then None
          else do {
            (map', d) \<leftarrow> slice_bytes ((unat count + 7) div 8) d;
            (nodes, d) \<leftarrow> proof_read_nodes map' 0 (unat count) d;
            proof_read_tail (pf\<lparr>pf_type := ucast type, pf_depth := depth, pf_nodes := nodes\<rparr>) d
          }
        }
      }))"

definition hsk_proof_decode :: "bytes \<Rightarrow> hsk_proof \<Rightarrow> hsk_proof option option" where
  "hsk_proof_decode d pf = map_option (map_option fst) (hsk_proof_read d pf)"

section \<open>Hashes\<close>

definition hsk_proof_hash_internal :: "hash_fns \<Rightarrow> bytes \<Rightarrow> u16 \<Rightarrow> bytes \<Rightarrow> bytes \<Rightarrow> bytes" where
  "hsk_proof_hash_internal H prefix prefix_size left right =
     (if prefix_size = 0 then blake2b H 32 ([0x01] @ take 32 left @ take 32 right)
      else
        let size = emit (write_u16 prefix_size);
            bytes = (unat prefix_size + 7) div 8
        in blake2b H 32 ([0x02] @ size @ take bytes prefix @ take 32 left @ take 32 right))"

definition hsk_proof_hash_leaf :: "hash_fns \<Rightarrow> bytes \<Rightarrow> bytes \<Rightarrow> bytes" where
  "hsk_proof_hash_leaf H key hash = blake2b H 32 ([0x00] @ take 32 key @ take 32 hash)"

definition hsk_proof_hash_value :: "hash_fns \<Rightarrow> bytes \<Rightarrow> bytes \<Rightarrow> nat \<Rightarrow> bytes" where
  "hsk_proof_hash_value H key value value_size =
     hsk_proof_hash_leaf H key (blake2b H 32 (take value_size value))"

section \<open>Checking\<close>

text \<open>The number of bits that agree, from bit \<open>x\<close> of the prefix and bit \<open>y\<close> of the key on.\<close>

fun common_bits :: "bytes \<Rightarrow> bytes \<Rightarrow> nat \<Rightarrow> nat \<Rightarrow> nat \<Rightarrow> nat" where
  "common_bits prefix key x y 0 = 0"
| "common_bits prefix key x y (Suc n) =
     (if hsk_has_bit prefix x \<noteq> hsk_has_bit key y then 0 else 1 + common_bits prefix key (x + 1) (y + 1) n)"

definition hsk_proof_has :: "bytes \<Rightarrow> u16 \<Rightarrow> bytes \<Rightarrow> u16 \<Rightarrow> bool option" where
  "hsk_proof_has prefix prefix_size key depth =
     (let xs = uint prefix_size; ys = 256 - uint depth; len = (if xs < ys then xs else ys)
      in if \<not> (0 \<le> len \<and> len \<le> 256) then None
         else Some (int (common_bits prefix key 0 (unat depth) (nat len)) = uint prefix_size))"

definition hsk_parse_namestate :: "bytes \<Rightarrow> nat \<Rightarrow> bytes option" where
  "hsk_parse_namestate d data_len =
     (if data_len > HSK_MAX_DATA_SIZE then None
      else do {
        (name_size, d) \<leftarrow> read_u8 (take data_len d);
        (name, d) \<leftarrow> slice_bytes (unat name_size) d;
        (res_size, d) \<leftarrow> read_u16 d;
        (res, d) \<leftarrow> alloc_bytes (unat res_size) d;
        Some res
      })"

text \<open>The leaf the proof starts from.\<close>

definition proof_leaf :: "hash_fns \<Rightarrow> bytes \<Rightarrow> hsk_proof \<Rightarrow> (hsk_error + bytes) option" where
  "proof_leaf H key pf =
     (if pf_type pf = HSK_PROOF_DEADEND then Some (Inr (replicate 32 0))
      else if pf_type pf = HSK_PROOF_SHORT then do {
        prefix \<leftarrow> pf_prefix pf;
        if pf_prefix_size pf = 0 then None
        else do {
          left \<leftarrow> pf_left pf;
          right \<leftarrow> pf_right pf;
          has \<leftarrow> hsk_proof_has prefix (pf_prefix_size pf) key (pf_depth pf);
          if has then Some (Inl HSK_ESAMEPATH)
          else Some (Inr (hsk_proof_hash_internal H prefix (pf_prefix_size pf) left right))
        }
      }
      else if pf_type pf = HSK_PROOF_COLLISION then do {
        nx_key \<leftarrow> pf_nx_key pf;
        nx_hash \<leftarrow> pf_nx_hash pf;
        if memcmp (take 32 nx_key) (take 32 key) = 0 then Some (Inl HSK_ESAMEKEY)
        else Some (Inr (hsk_proof_hash_leaf H nx_key nx_hash))
      }
      else if pf_type pf = HSK_PROOF_EXISTS then
        (if pf_value pf = None \<and> pf_value_size pf \<noteq> 0 then None
         else Some (Inr (hsk_proof_hash_value H key (case pf_value pf of None \<Rightarrow> [] | Some v \<Rightarrow> v) (unat (pf_value_size pf)))))
      else None)"

text \<open>The loop from the last node to the first; it ends with the depth that is left and the hash.\<close>

fun climb :: "hash_fns \<Rightarrow> bytes \<Rightarrow> hsk_proof_node list \<Rightarrow> int \<Rightarrow> bytes \<Rightarrow> (hsk_error + int \<times> bytes) option" where
  "climb H key [] depth next' = Some (Inr (depth, next'))"
| "climb H key (item # items) depth next' =
     (if depth < uint (pn_prefix_size item) + 1 then Some (Inl HSK_ENEGDEPTH)
      else
        let depth = depth - 1;
            next' = (if hsk_has_bit key (nat depth)
                     then hsk_proof_hash_internal H (pn_prefix item) (pn_prefix_size item) (pn_node item) next'
                     else hsk_proof_hash_internal H (pn_prefix item) (pn_prefix_size item) next' (pn_node item));
            depth = depth - uint (pn_prefix_size item)
        in do {
          has \<leftarrow> hsk_proof_has (pn_prefix item) (pn_prefix_size item) key (word_of_int depth);
          if \<not> has then Some (Inl HSK_EPATHMISMATCH) else climb H key items depth next'
        })"

text \<open>
  The result is an error code, or for \<open>HSK_EPROOFOK\<close> what the function stores in \<^verbatim>\<open>exists\<close> and
  \<^verbatim>\<open>data\<close>. The key and the root have 32 octets.
\<close>

definition hsk_proof_verify :: "hash_fns \<Rightarrow> bytes \<Rightarrow> bytes \<Rightarrow> hsk_proof \<Rightarrow> (hsk_error + bool \<times> bytes) option" where
  "hsk_proof_verify H root key pf =
     (if \<not> (pf_depth pf \<le> 256 \<and> length (pf_nodes pf) \<le> 256 \<and> unat (pf_value_size pf) \<le> HSK_MAX_DATA_SIZE) then None
      else do {
        leaf \<leftarrow> proof_leaf H key pf;
        case leaf of Inl rc \<Rightarrow> Some (Inl rc)
        | Inr leaf \<Rightarrow> do {
            end' \<leftarrow> climb H key (rev (pf_nodes pf)) (uint (pf_depth pf)) leaf;
            case end' of Inl rc \<Rightarrow> Some (Inl rc)
            | Inr (depth, next') \<Rightarrow>
                if depth \<noteq> 0 then Some (Inl HSK_ETOODEEP)
                else if memcmp (take 32 next') (take 32 root) \<noteq> 0 then Some (Inl HSK_EHASHMISMATCH)
                else if pf_type pf = HSK_PROOF_EXISTS then
                  (case hsk_parse_namestate (case pf_value pf of None \<Rightarrow> [] | Some v \<Rightarrow> v) (unat (pf_value_size pf)) of
                     None \<Rightarrow> Some (Inl HSK_EENCODING)
                   | Some res \<Rightarrow> Some (Inr (True, res)))
                else Some (Inr (False, []))
          }
      })"

end
