(* ===== verification/Proof_Tree.thy ===== *)
theory Proof_Tree
  imports Proof_Radix
begin

text \<open>
  What a proof proves. The name tree is a radix tree over the bits of the keys whose hash commits to
  its content; \<open>tree_lookup\<close> is the map it stands for. A checked proof agrees with the tree its root
  belongs to unless the hash function collides on an octet string that occurs, and every tree has
  a proof of the answer for every key.
\<close>

section \<open>Bit strings\<close>

definition octet_of :: "bool list \<Rightarrow> nat \<Rightarrow> u8" where
  "octet_of bs j = horner_sum of_bool 2 (map (\<lambda>i. 8 * j + (7 - i) < length bs \<and> bs ! (8 * j + (7 - i))) [0..<8])"

definition pack :: "bool list \<Rightarrow> bytes" where
  "pack bs = map (octet_of bs) [0..<(length bs + 7) div 8]"

lemma length_pack [simp]: "length (pack bs) = (length bs + 7) div 8"
  by (simp add: pack_def)

lemma bit_octet_of: "k < 8 \<Longrightarrow> bit (octet_of bs j) k \<longleftrightarrow> 8 * j + (7 - k) < length bs \<and> bs ! (8 * j + (7 - k))"
  by (simp add: octet_of_def bit_horner_sum_bit_word_iff)

lemma has_bit_pack: "i < length bs \<Longrightarrow> hsk_has_bit (pack bs @ r) i = bs ! i"
proof -
  assume i: "i < length bs"
  then have j: "i div 8 < (length bs + 7) div 8" by linarith
  have e: "8 * (i div 8) + (7 - (7 - i mod 8)) = i"
  proof -
    have "7 - (7 - i mod 8) = i mod 8" by (simp add: Suc_diff_Suc) 
    then show ?thesis by simp
  qed
  have "(pack bs @ r) ! (i div 8) = octet_of bs (i div 8)" using j by (simp add: pack_def nth_append)
  then show ?thesis
    using i unfolding hsk_has_bit_def by (subst (asm) refl, simp only: bit_octet_of [of "7 - i mod 8"] e) simp
qed

lemma pack_inj: "length a = length b \<Longrightarrow> pack a = pack b \<Longrightarrow> a = b"
  using has_bit_pack [of _ a "[]"] has_bit_pack [of _ b "[]"] by (intro nth_equalityI) auto

section \<open>The tree\<close>

datatype utree = UNull | ULeaf bytes bytes | UNode "bool list" utree utree

text \<open>The positions are the depths at which a subtree hangs; a path has at most 256 bits.\<close>

fun tree_wf :: "nat \<Rightarrow> utree \<Rightarrow> bool" where
  "tree_wf d UNull \<longleftrightarrow> True"
| "tree_wf d (ULeaf key value) \<longleftrightarrow> length key = 32 \<and> length value \<le> HSK_MAX_DATA_SIZE"
| "tree_wf d (UNode p l r) \<longleftrightarrow> d + length p + 1 \<le> 256 \<and> tree_wf (d + length p + 1) l \<and> tree_wf (d + length p + 1) r"

fun utree_hash :: "hash_fns \<Rightarrow> utree \<Rightarrow> bytes" where
  "utree_hash H UNull = replicate 32 0"
| "utree_hash H (ULeaf key value) = hsk_proof_hash_leaf H key (blake2b H 32 value)"
| "utree_hash H (UNode p l r) =
     hsk_proof_hash_internal H (pack p) (of_nat (length p)) (utree_hash H l) (utree_hash H r)"

definition key_has :: "bytes \<Rightarrow> nat \<Rightarrow> bool list \<Rightarrow> bool" where
  "key_has key d p \<longleftrightarrow> (\<forall>i<length p. hsk_has_bit key (d + i) = p ! i)"

fun tree_lookup :: "bytes \<Rightarrow> nat \<Rightarrow> utree \<Rightarrow> bytes option" where
  "tree_lookup key d UNull = None"
| "tree_lookup key d (ULeaf k value) = (if k = key then Some value else None)"
| "tree_lookup key d (UNode p l r) =
     (if key_has key d p
      then tree_lookup key (d + length p + 1) (if hsk_has_bit key (d + length p) then r else l) else None)"

section \<open>The octet strings that are hashed\<close>

definition internal_pre :: "bytes \<Rightarrow> u16 \<Rightarrow> bytes \<Rightarrow> bytes \<Rightarrow> bytes" where
  "internal_pre prefix sz left right =
     (if sz = 0 then [0x01] @ left @ right
      else [0x02] @ emit (write_u16 sz) @ take ((unat sz + 7) div 8) prefix @ left @ right)"

definition leaf_pre :: "bytes \<Rightarrow> bytes \<Rightarrow> bytes" where
  "leaf_pre key hash = [0x00] @ key @ hash"

lemma hash_pre:
  "length l = 32 \<Longrightarrow> length r = 32 \<Longrightarrow> hsk_proof_hash_internal H p sz l r = blake2b H 32 (internal_pre p sz l r)"
  "length k = 32 \<Longrightarrow> length h = 32 \<Longrightarrow> hsk_proof_hash_leaf H k h = blake2b H 32 (leaf_pre k h)"
  by (simp_all add: hsk_proof_hash_internal_def internal_pre_def hsk_proof_hash_leaf_def leaf_pre_def Let_def)

lemma leaf_not_internal: "leaf_pre k h \<noteq> internal_pre p sz l r"
  by (simp add: leaf_pre_def internal_pre_def)

lemma leaf_pre_inj: "length k = length k' \<Longrightarrow> leaf_pre k h = leaf_pre k' h' \<Longrightarrow> k = k' \<and> h = h'"
  by (simp add: leaf_pre_def)

lemma emit_u16_inj: "emit (write_u16 a) @ x = emit (write_u16 b) @ y \<Longrightarrow> a = b \<and> x = y"
  by (rule u16.enc_prefix_free [OF TrueI TrueI])

lemma internal_pre_inj:
  assumes "internal_pre p sz l r = internal_pre p' sz' l' r'"
    and "length l = 32" "length l' = 32" "length p \<ge> (unat sz + 7) div 8" "length p' \<ge> (unat sz' + 7) div 8"
  shows "sz = sz' \<and> take ((unat sz + 7) div 8) p = take ((unat sz + 7) div 8) p' \<and> l = l' \<and> r = r'"
proof (cases "sz = 0")
  case False
  then have nz: "sz' \<noteq> 0" using assms(1) by (auto simp: internal_pre_def)
  then have "emit (write_u16 sz) @ (take ((unat sz + 7) div 8) p @ l @ r) =
      emit (write_u16 sz') @ (take ((unat sz' + 7) div 8) p' @ l' @ r')"
    using assms(1) False by (simp add: internal_pre_def)
  then have "sz = sz' \<and> take ((unat sz + 7) div 8) p @ l @ r = take ((unat sz' + 7) div 8) p' @ l' @ r'"
    by (rule emit_u16_inj)
  then show ?thesis using assms(2-5) by auto
qed (use assms in \<open>auto simp: internal_pre_def split: if_splits\<close>)

fun tree_pres :: "hash_fns \<Rightarrow> utree \<Rightarrow> bytes set" where
  "tree_pres H UNull = {}"
| "tree_pres H (ULeaf key value) = {value, leaf_pre key (blake2b H 32 value)}"
| "tree_pres H (UNode p l r) =
     insert (internal_pre (pack p) (of_nat (length p)) (utree_hash H l) (utree_hash H r)) (tree_pres H l \<union> tree_pres H r)"

definition step_pre :: "bytes \<Rightarrow> hsk_proof_node \<Rightarrow> nat \<Rightarrow> bytes \<Rightarrow> bytes" where
  "step_pre key item d next' =
     (if hsk_has_bit key (d - 1) then internal_pre (pn_prefix item) (pn_prefix_size item) (pn_node item) next'
      else internal_pre (pn_prefix item) (pn_prefix_size item) next' (pn_node item))"

fun climb_pres :: "hash_fns \<Rightarrow> bytes \<Rightarrow> hsk_proof_node list \<Rightarrow> nat \<Rightarrow> bytes \<Rightarrow> bytes set" where
  "climb_pres H key [] d next' = {}"
| "climb_pres H key (item # items) d next' =
     insert (step_pre key item d next')
       (climb_pres H key items (d - 1 - unat (pn_prefix_size item)) (blake2b H 32 (step_pre key item d next')))"

text \<open>
  What the theorems ask of the hash function: 32 octets, and on the octet strings in question no
  collision and no result that stands for the empty subtree.
\<close>

definition hash_len :: "hash_fns \<Rightarrow> bool" where
  "hash_len H \<longleftrightarrow> (\<forall>x. length (blake2b H 32 x) = 32)"

definition no_collision :: "hash_fns \<Rightarrow> bytes set \<Rightarrow> bool" where
  "no_collision H S \<longleftrightarrow> inj_on (blake2b H 32) S \<and> replicate 32 0 \<notin> blake2b H 32 ` S"

lemma no_collision_mono: "no_collision H S \<Longrightarrow> T \<subseteq> S \<Longrightarrow> no_collision H T"
  by (auto simp: no_collision_def intro: inj_on_subset)

lemma no_collisionD:
  "no_collision H S \<Longrightarrow> x \<in> S \<Longrightarrow> y \<in> S \<Longrightarrow> blake2b H 32 x = blake2b H 32 y \<Longrightarrow> x = y"
  "no_collision H S \<Longrightarrow> x \<in> S \<Longrightarrow> blake2b H 32 x \<noteq> replicate 32 0"
  by (auto simp: no_collision_def inj_on_def) (metis imageI)

lemma length_utree_hash:
  assumes "hash_len H"
  shows "length (utree_hash H t) = 32"
  using assms by (cases t) (simp_all add: hash_len_def hsk_proof_hash_leaf_def hsk_proof_hash_internal_def Let_def)

text \<open>The subtree whose hash is that of a node with the given children is such a node.\<close>

lemma node_of_hash:
  assumes H: "hash_len H" and wf: "tree_wf d s" and S: "no_collision H S"
    and eq: "utree_hash H s = blake2b H 32 (internal_pre prefix sz a b)" and "length a = 32"
    and "internal_pre prefix sz a b \<in> S" and "tree_pres H s \<subseteq> S" and "(unat sz + 7) div 8 \<le> length prefix"
  shows "\<exists>p l r. s = UNode p l r \<and> length p = unat sz \<and> utree_hash H l = a \<and> utree_hash H r = b \<and>
    (\<forall>i<length p. hsk_has_bit prefix i = p ! i)"
proof (cases s)
  case UNull
  then show ?thesis using no_collisionD(2) [OF S assms(6)] eq by simp
next
  case (ULeaf k v)
  then have "blake2b H 32 (leaf_pre k (blake2b H 32 v)) = blake2b H 32 (internal_pre prefix sz a b)"
    using wf H eq hash_pre(2) by (simp add: hash_len_def)
  then show ?thesis using no_collisionD(1) [OF S _ assms(6)] assms(7) ULeaf leaf_not_internal by (simp add: subset_iff) metis
next
  case (UNode p l r)
  let ?n = "of_nat (length p) :: u16"
  have n: "unat ?n = length p" using wf UNode by (simp add: unat_of_nat)
  have len: "length (utree_hash H l) = 32" "length (utree_hash H r) = 32"
    using wf UNode length_utree_hash [OF H] by auto
  have "blake2b H 32 (internal_pre (pack p) ?n (utree_hash H l) (utree_hash H r)) = blake2b H 32 (internal_pre prefix sz a b)"
    using eq UNode hash_pre(1) [OF len] by simp
  then have "internal_pre (pack p) ?n (utree_hash H l) (utree_hash H r) = internal_pre prefix sz a b"
    using no_collisionD(1) [OF S _ assms(6)] assms(7) UNode by auto
  then have e: "?n = sz" "take ((unat ?n + 7) div 8) (pack p) = take ((unat ?n + 7) div 8) prefix"
    "utree_hash H l = a" "utree_hash H r = b"
    using internal_pre_inj [of "pack p" ?n _ _ prefix sz a b] len(1) assms(5,8) n by simp_all
  then have "pack p = take ((length p + 7) div 8) prefix" using n by simp
  then have "prefix = pack p @ drop ((length p + 7) div 8) prefix" by simp
  then have "hsk_has_bit prefix i = p ! i" if "i < length p" for i using has_bit_pack [OF that] by metis
  then show ?thesis using UNode e n by auto
qed

section \<open>The loop of the check\<close>

lemma common_bits_le: "common_bits p key x y n \<le> n"
  by (induction p key x y n rule: common_bits.induct) auto

lemma common_bits_all: "common_bits p key x y n = n \<longleftrightarrow> (\<forall>i<n. hsk_has_bit p (x + i) = hsk_has_bit key (y + i))"
proof (induction p key x y n rule: common_bits.induct)
  case (2 p key x y n)
  have "(\<forall>i<Suc n. hsk_has_bit p (x + i) = hsk_has_bit key (y + i)) \<longleftrightarrow>
      hsk_has_bit p x = hsk_has_bit key y \<and> (\<forall>i<n. hsk_has_bit p (x + 1 + i) = hsk_has_bit key (y + 1 + i))"
    by (simp add: All_less_Suc2)
  then show ?case using 2 by simp
qed simp

lemma proof_has:
  assumes "d \<le> 256"
  shows "hsk_proof_has p sz key (of_nat d) =
    Some (d + unat sz \<le> 256 \<and> (\<forall>i<unat sz. hsk_has_bit p i = hsk_has_bit key (d + i)))"
proof -
  have d: "unat (of_nat d :: u16) = d" using assms by (simp add: unat_of_nat)
  have u: "uint sz = int (unat sz)" "uint (of_nat d :: u16) = int d" unfolding uint_nat d by simp_all
  define len where "len = min (unat sz) (256 - d)"
  have len: "nat (if uint sz < 256 - uint (of_nat d :: u16) then uint sz else 256 - uint (of_nat d :: u16)) = len"
    using assms unfolding u len_def by (auto simp del: of_nat_unat)
  have "common_bits p key 0 d len = unat sz \<longleftrightarrow> d + unat sz \<le> 256 \<and> (\<forall>i<unat sz. hsk_has_bit p i = hsk_has_bit key (d + i))"
  proof (cases "d + unat sz \<le> 256")
    case True
    then have "len = unat sz" by (simp add: len_def)
    then show ?thesis using True common_bits_all [of p key 0 d "unat sz"] by simp
  next
    case False
    then have "len < unat sz" using assms by (simp add: len_def)
    then show ?thesis using False common_bits_le [of p key 0 d len] by simp
  qed
  moreover have "(int (common_bits p key 0 d len) = uint sz) = (common_bits p key 0 d len = unat sz)"
    by (simp only: u of_nat_eq_iff)
  moreover have "0 \<le> (if uint sz < 256 - uint (of_nat d :: u16) then uint sz else 256 - uint (of_nat d :: u16)) \<and>
      (if uint sz < 256 - uint (of_nat d :: u16) then uint sz else 256 - uint (of_nat d :: u16)) \<le> 256"
    using assms unfolding u by simp
  ultimately show ?thesis by (simp only: hsk_proof_has_def Let_def len d simp_thms if_False)
qed

definition proof_node_ok :: "hsk_proof_node \<Rightarrow> bool" where
  "proof_node_ok item \<longleftrightarrow> length (pn_prefix item) = 32 \<and> unat (pn_prefix_size item) \<le> 256 \<and> length (pn_node item) = 32"

text \<open>One turn of the loop, with the depth as a natural number.\<close>

lemma climb_Cons:
  assumes "proof_node_ok item" and "length next' = 32" and "d \<le> 256"
  defines "sz \<equiv> unat (pn_prefix_size item)"
  shows "climb H key (item # items) (int d) next' =
    (if d < sz + 1 then Some (Inl HSK_ENEGDEPTH)
     else if \<not> (\<forall>i < sz. hsk_has_bit (pn_prefix item) i = hsk_has_bit key (d - 1 - sz + i)) then Some (Inl HSK_EPATHMISMATCH)
     else climb H key items (int (d - 1 - sz)) (blake2b H 32 (step_pre key item d next')))"
proof (cases "d < sz + 1")
  case True
  then have "int d < uint (pn_prefix_size item) + 1" unfolding uint_nat sz_def by linarith
  then show ?thesis using True by simp
next
  case False
  have lt: "\<not> int d < uint (pn_prefix_size item) + 1" using False unfolding uint_nat sz_def by linarith
  have dd: "int d - 1 - uint (pn_prefix_size item) = int (d - 1 - sz)" using False unfolding uint_nat sz_def by linarith
  have "length (pn_node item) = 32" using assms(1) by (simp add: proof_node_ok_def)
  moreover have "nat (int d - 1) = d - 1" by simp
  ultimately have nxt: "(if hsk_has_bit key (nat (int d - 1))
      then hsk_proof_hash_internal H (pn_prefix item) (pn_prefix_size item) (pn_node item) next'
      else hsk_proof_hash_internal H (pn_prefix item) (pn_prefix_size item) next' (pn_node item)) =
    blake2b H 32 (step_pre key item d next')"
    using assms(2) by (simp add: step_pre_def hash_pre)
  have "climb H key (item # items) (int d) next' =
    hsk_proof_has (pn_prefix item) (pn_prefix_size item) key (of_nat (d - 1 - sz)) \<bind>
      (\<lambda>has. if \<not> has then Some (Inl HSK_EPATHMISMATCH)
             else climb H key items (int (d - 1 - sz)) (blake2b H 32 (step_pre key item d next')))"
    by (simp only: climb.simps(2) lt if_False Let_def nxt dd of_int_of_nat_eq)
  moreover have "d - 1 - sz + sz \<le> 256" using assms(3) False by simp
  moreover have "d - 1 - sz \<le> 256" using assms(3) by simp
  ultimately show ?thesis
    using False proof_has [of "d - 1 - sz" "pn_prefix item" "pn_prefix_size item" key] by (simp only: sz_def [symmetric]) simp
qed

lemma climb_sound:
  assumes H: "hash_len H" and key: "length key = 32" and wf: "tree_wf d0 t"
    and "climb H key items (int d) next' = Some (Inr (int d0, utree_hash H t))"
    and "\<forall>item\<in>set items. proof_node_ok item" and "length next' = 32" and "d \<le> 256"
    and "no_collision H S" and "climb_pres H key items d next' \<subseteq> S" and "tree_pres H t \<subseteq> S"
  shows "\<exists>s. utree_hash H s = next' \<and> tree_wf d s \<and> tree_pres H s \<subseteq> S \<and> tree_lookup key d0 t = tree_lookup key d s"
  using assms(4-)
proof (induction items arbitrary: d next')
  case Nil
  then show ?case using wf by auto
next
  case (Cons item items)
  let ?sz = "unat (pn_prefix_size item)" and ?pre = "step_pre key item d next'"
  have ok: "proof_node_ok item" using Cons.prems(2) by simp
  note step = Cons.prems(1) [unfolded climb_Cons [OF ok Cons.prems(3,4)]]
  have d: "?sz + 1 \<le> d" using step by (auto split: if_splits)
  have m: "hsk_has_bit (pn_prefix item) i = hsk_has_bit key (d - 1 - ?sz + i)" if "i < ?sz" for i
    using step that by (auto split: if_splits)
  have rest: "climb H key items (int (d - 1 - ?sz)) (blake2b H 32 ?pre) = Some (Inr (int d0, utree_hash H t))"
    using step by (auto split: if_splits)
  have S: "?pre \<in> S" "climb_pres H key items (d - 1 - ?sz) (blake2b H 32 ?pre) \<subseteq> S" using Cons.prems(6) by simp_all
  obtain s where s: "utree_hash H s = blake2b H 32 ?pre" "tree_wf (d - 1 - ?sz) s" "tree_pres H s \<subseteq> S"
    "tree_lookup key d0 t = tree_lookup key (d - 1 - ?sz) s"
  proof -
    have "length (blake2b H 32 ?pre) = 32" "\<forall>item\<in>set items. proof_node_ok item" "d - 1 - ?sz \<le> 256"
      using Cons.prems(2,4) H by (simp_all add: hash_len_def)
    then show thesis using Cons.IH [OF rest _ _ _ Cons.prems(5) S(2) Cons.prems(7)] that by blast
  qed
  define a where "a = (if hsk_has_bit key (d - 1) then pn_node item else next')"
  define b where "b = (if hsk_has_bit key (d - 1) then next' else pn_node item)"
  have pre: "?pre = internal_pre (pn_prefix item) (pn_prefix_size item) a b" by (simp add: step_pre_def a_def b_def)
  have "length a = 32" using ok Cons.prems(3) by (simp add: a_def proof_node_ok_def)
  moreover have "(?sz + 7) div 8 \<le> length (pn_prefix item)"
    using ok div_le_mono [of "?sz + 7" 263 8] by (simp add: proof_node_ok_def)
  ultimately obtain p l r where n: "s = UNode p l r" "length p = ?sz" "utree_hash H l = a" "utree_hash H r = b"
    "\<forall>i<length p. hsk_has_bit (pn_prefix item) i = p ! i"
    using node_of_hash [OF H s(2) Cons.prems(5) s(1) [unfolded pre]] S(1) [unfolded pre] s(3) by blast
  have "key_has key (d - 1 - ?sz) p" using n(2,5) m by (simp add: key_has_def)
  moreover have e: "d - 1 - ?sz + length p + 1 = d" "d - 1 - ?sz + length p = d - 1" using d n(2) by simp_all
  ultimately have lk: "tree_lookup key d0 t = tree_lookup key d (if hsk_has_bit key (d - 1) then r else l)"
    using s(4) n(1) by (simp add: e)
  show ?case
    using lk n s(2,3) e by (intro exI [of _ "if hsk_has_bit key (d - 1) then r else l"]) (auto simp: a_def b_def)
qed

end
