(* ===== verification/Proof_Ok.thy ===== *)
theory Proof_Ok
  imports Proof_Tree
begin

text \<open>
  The properties of proof checking: soundness and completeness for the map a name tree stands for,
  and that a proof survives its wire format.
\<close>

section \<open>Proofs as they are read\<close>

definition some_len :: "nat \<Rightarrow> bytes option \<Rightarrow> bool" where
  "some_len n x \<longleftrightarrow> (\<exists>bs. x = Some bs \<and> length bs = n)"

definition proof_ok :: "hsk_proof \<Rightarrow> bool" where
  "proof_ok pf \<longleftrightarrow> pf_depth pf \<le> 256 \<and> length (pf_nodes pf) \<le> 256 \<and> (\<forall>item\<in>set (pf_nodes pf). proof_node_ok item) \<and>
     (pf_type pf = HSK_PROOF_DEADEND \<and> pf_value_size pf = 0 \<or>
      pf_type pf = HSK_PROOF_SHORT \<and> pf_prefix_size pf \<noteq> 0 \<and> unat (pf_prefix_size pf) \<le> 256 \<and>
        some_len ((unat (pf_prefix_size pf) + 7) div 8) (pf_prefix pf) \<and> some_len 32 (pf_left pf) \<and>
        some_len 32 (pf_right pf) \<and> pf_value_size pf = 0 \<or>
      pf_type pf = HSK_PROOF_COLLISION \<and> some_len 32 (pf_nx_key pf) \<and> some_len 32 (pf_nx_hash pf) \<and> pf_value_size pf = 0 \<or>
      pf_type pf = HSK_PROOF_EXISTS \<and> unat (pf_value_size pf) \<le> HSK_MAX_DATA_SIZE \<and>
        some_len (unat (pf_value_size pf)) (pf_value pf))"

lemma bitlen_ok: "read_bitlen d = Some ((sz, n), r) \<Longrightarrow> sz \<noteq> 0 \<and> unat sz \<le> 256 \<and> n = (unat sz + 7) div 8"
proof -
  assume "read_bitlen d = Some ((sz, n), r)"
  then obtain s d' where "(if s = 0 \<or> s > 256 then None else Some ((s, (unat s + 7) div 8), d')) = Some ((sz, n), r)"
    unfolding read_bitlen_def Let_def by (clarsimp simp: bind_eq_Some_conv split del: if_split)
  then show ?thesis by (auto simp: word_le_nat_alt not_less split: if_splits)
qed

lemma read_bytes_length: "read_bytes n d = Some (x, r) \<Longrightarrow> length x = n"
  by (simp add: bytes.dec_iff)

lemma read_nodes_ok:
  "proof_read_nodes map' i n d = Some (items, r) \<Longrightarrow> length items = n \<and> (\<forall>item\<in>set items. proof_node_ok item)"
proof (induction n arbitrary: i d items)
  case (Suc n)
  obtain prefix sz d1 node d2 rest where a: "(if hsk_has_bit map' i then do {
        ((sz, bytes), d) \<leftarrow> read_bitlen d;
        (prefix, d) \<leftarrow> read_bytes bytes d;
        Some ((prefix @ replicate (32 - bytes) 0, sz), d) } else Some ((replicate 32 0, 0), d)) = Some ((prefix, sz), d1)"
    "read_bytes 32 d1 = Some (node, d2)" "proof_read_nodes map' (i + 1) n d2 = Some (rest, r)"
    "items = \<lparr>pn_prefix = prefix, pn_prefix_size = sz, pn_node = node\<rparr> # rest"
    using Suc.prems by (auto simp: bind_eq_Some_conv)
  have "length prefix = 32 \<and> unat sz \<le> 256"
  proof (cases "hsk_has_bit map' i")
    case True
    then obtain n' p d3 d4 where b: "read_bitlen d = Some ((sz, n'), d3)" "read_bytes n' d3 = Some (p, d4)"
      "prefix = p @ replicate (32 - n') 0" using a(1) by (auto simp: bind_eq_Some_conv)
    moreover have "n' \<le> 32" using bitlen_ok [OF b(1)] div_le_mono [of "unat sz + 7" 263 8] by simp
    ultimately show ?thesis using bitlen_ok [OF b(1)] read_bytes_length [OF b(2)] by simp
  qed (use a(1) in auto)
  then show ?case using a(2-4) Suc.IH read_bytes_length by (fastforce simp: proof_node_ok_def)
qed simp

lemma type_cases: "(t :: u16) = drop_bit 14 f \<Longrightarrow> (ucast t :: u8) = 0 \<or> (ucast t :: u8) = 1 \<or> (ucast t :: u8) = 2 \<or> (ucast t :: u8) = 3"
proof -
  assume t: "t = drop_bit 14 f"
  have "unat t < 4" using unat_u16_lt [of f] unfolding t unat_drop_bit by simp
  moreover have "unat (ucast t :: u8) = unat t" using calculation by (intro unat_ucast_small) simp
  ultimately have "unat (ucast t :: u8) \<in> {0, 1, 2, 3}" by auto
  then show ?thesis by (auto simp: word_unat_eq_iff)
qed

lemma tail_ok:
  assumes "proof_read_tail q d = Some (pf, r)" and "pf_type q = 0 \<or> pf_type q = 1 \<or> pf_type q = 2 \<or> pf_type q = 3"
    and "pf_depth q \<le> 256" and "length (pf_nodes q) \<le> 256" and "\<forall>item\<in>set (pf_nodes q). proof_node_ok item"
    and "pf_value_size q = 0"
  shows "proof_ok pf"
proof -
  consider (dead) "pf_type q = HSK_PROOF_DEADEND" | (short) "pf_type q = HSK_PROOF_SHORT"
    | (coll) "pf_type q = HSK_PROOF_COLLISION" | (ex) "pf_type q = HSK_PROOF_EXISTS"
    using assms(2) unfolding proof_type_defs by blast
  then show ?thesis
  proof cases
    case dead
    then show ?thesis using assms by (simp add: proof_read_tail_def proof_ok_def)
  next
    case short
    then obtain sz n d1 prefix d2 left d3 right where a: "read_bitlen d = Some ((sz, n), d1)"
      "read_bytes n d1 = Some (prefix, d2)" "read_bytes 32 d2 = Some (left, d3)" "read_bytes 32 d3 = Some (right, r)"
      "pf = q\<lparr>pf_prefix := Some prefix, pf_prefix_size := sz, pf_left := Some left, pf_right := Some right\<rparr>"
      using assms(1) by (auto simp: proof_read_tail_def proof_type_defs bind_eq_Some_conv alloc_bytes_eq)
    show ?thesis
      using bitlen_ok [OF a(1)] a(2-4) [THEN read_bytes_length] assms(3-6) short unfolding a(5) proof_ok_def
      by (simp add: some_len_def)
  next
    case coll
    then obtain k d1 h where a: "read_bytes 32 d = Some (k, d1)" "read_bytes 32 d1 = Some (h, r)"
      "pf = q\<lparr>pf_nx_key := Some k, pf_nx_hash := Some h\<rparr>"
      using assms(1) by (auto simp: proof_read_tail_def proof_type_defs bind_eq_Some_conv alloc_bytes_eq)
    show ?thesis
      using a(1,2) [THEN read_bytes_length] assms(3-6) coll unfolding a(3) proof_ok_def by (simp add: some_len_def)
  next
    case ex
    then obtain sz d1 v where a: "\<not> unat sz > HSK_MAX_DATA_SIZE" "read_bytes (unat sz) d1 = Some (v, r)"
      "pf = q\<lparr>pf_value_size := sz, pf_value := Some v\<rparr>"
      using assms(1) by (auto simp: proof_read_tail_def proof_type_defs bind_eq_Some_conv alloc_bytes_eq split: if_splits)
    show ?thesis
      using read_bytes_length [OF a(2)] a(1) assms(3-6) ex unfolding a(3) proof_ok_def by (simp add: some_len_def)
  qed
qed

lemma read_ok:
  assumes "hsk_proof_read d hsk_proof_init = Some (Some (pf, r))"
  shows "proof_ok pf"
proof -
  obtain field d1 count d2 map' d3 nodes d4 where a: "field AND NOT (push_bit 14 3) \<le> 256" "(count :: u16) \<le> 256"
    "proof_read_nodes map' 0 (unat count) d3 = Some (nodes, d4)"
    "proof_read_tail (hsk_proof_init\<lparr>pf_type := ucast (drop_bit 14 field), pf_depth := field AND NOT (push_bit 14 3),
       pf_nodes := nodes\<rparr>) d4 = Some (pf, r)"
    using assms unfolding hsk_proof_read_def Let_def
    by (clarsimp simp: bind_eq_Some_conv hsk_proof_init_def not_less split: if_splits)
  have n: "length nodes \<le> 256" "\<forall>item\<in>set nodes. proof_node_ok item"
    using read_nodes_ok [OF a(3)] a(2) by (simp_all add: word_le_nat_alt)
  show ?thesis
    by (rule tail_ok [OF a(4)]) (use a(1) n type_cases [OF refl, of field] in \<open>simp_all add: hsk_proof_init_def\<close>)
qed

section \<open>The check never fails an assertion\<close>

lemma proof_has_word:
  "depth \<le> 256 \<Longrightarrow> hsk_proof_has p sz key depth =
    Some (unat depth + unat sz \<le> 256 \<and> (\<forall>i<unat sz. hsk_has_bit p i = hsk_has_bit key (unat depth + i)))"
  using proof_has [of "unat depth" p sz key] by (simp add: word_le_nat_alt)

lemma leaf_returns:
  assumes "proof_ok pf" and "hash_len H"
  shows "\<exists>res. proof_leaf H key pf = Some res \<and> (\<forall>leaf. res = Inr leaf \<longrightarrow> length leaf = 32)"
  using assms by (auto simp: proof_ok_def proof_leaf_def proof_type_defs some_len_def hash_len_def proof_has_word
      hsk_proof_hash_internal_def hsk_proof_hash_value_def hsk_proof_hash_leaf_def Let_def)

lemma if_cases3: "P x \<Longrightarrow> P y \<Longrightarrow> P z \<Longrightarrow> P (if a then x else if b then y else z)"
  by simp

lemma climb_returns:
  assumes "hash_len H" and "\<forall>item\<in>set items. proof_node_ok item" and "length next' = 32" and "d \<le> 256"
  shows "\<exists>res. climb H key items (int d) next' = Some res \<and> (\<forall>e n. res = Inr (e, n) \<longrightarrow> length n = 32)"
  using assms(2-)
proof (induction items arbitrary: d next')
  case (Cons item items)
  have ok: "proof_node_ok item" using Cons.prems(1) by simp
  have "\<exists>res. climb H key items (int (d - 1 - unat (pn_prefix_size item))) (blake2b H 32 (step_pre key item d next')) = Some res \<and>
      (\<forall>e n. res = Inr (e, n) \<longrightarrow> length n = 32)"
    by (rule Cons.IH) (use Cons.prems assms(1) in \<open>simp_all add: hash_len_def\<close>)
  then show ?case unfolding climb_Cons [OF ok Cons.prems(2,3)] by (rule if_cases3 [rotated 2]) simp_all
qed simp

lemma verify_returns:
  assumes "proof_ok pf" and "hash_len H"
  shows "\<exists>res. hsk_proof_verify H root key pf = Some res"
proof -
  have ok: "pf_depth pf \<le> 256" "length (pf_nodes pf) \<le> 256" "unat (pf_value_size pf) \<le> HSK_MAX_DATA_SIZE"
    "\<forall>item\<in>set (rev (pf_nodes pf)). proof_node_ok item"
    using assms(1) by (auto simp: proof_ok_def HSK_MAX_DATA_SIZE_def)
  obtain leaf where leaf: "proof_leaf H key pf = Some leaf" "\<And>l. leaf = Inr l \<Longrightarrow> length l = 32"
    using leaf_returns [OF assms] by blast
  show ?thesis
  proof (cases leaf)
    case (Inl rc)
    then show ?thesis using leaf(1) ok(1-3) by (simp add: hsk_proof_verify_def)
  next
    case (Inr l)
    have "unat (pf_depth pf) \<le> 256" using ok(1) by (simp add: word_le_nat_alt)
    then obtain res where "climb H key (rev (pf_nodes pf)) (uint (pf_depth pf)) l = Some res"
      using climb_returns [OF assms(2) ok(4) leaf(2) [OF Inr], of "unat (pf_depth pf)" key] by auto
    then show ?thesis using leaf(1) Inr ok(1-3) by (auto simp: hsk_proof_verify_def split: sum.splits option.splits)
  qed
qed

section \<open>Soundness\<close>

definition leaf_pres :: "hash_fns \<Rightarrow> bytes \<Rightarrow> hsk_proof \<Rightarrow> bytes set" where
  "leaf_pres H key pf =
     (if pf_type pf = HSK_PROOF_SHORT
      then {internal_pre (the (pf_prefix pf)) (pf_prefix_size pf) (the (pf_left pf)) (the (pf_right pf))}
      else if pf_type pf = HSK_PROOF_COLLISION then {leaf_pre (the (pf_nx_key pf)) (the (pf_nx_hash pf))}
      else if pf_type pf = HSK_PROOF_EXISTS then {the (pf_value pf), leaf_pre key (blake2b H 32 (the (pf_value pf)))}
      else {})"

text \<open>Every octet string that is hashed when the proof is checked.\<close>

definition proof_pres :: "hash_fns \<Rightarrow> bytes \<Rightarrow> hsk_proof \<Rightarrow> bytes set" where
  "proof_pres H key pf = leaf_pres H key pf \<union>
     (case proof_leaf H key pf of Some (Inr leaf) \<Rightarrow> climb_pres H key (rev (pf_nodes pf)) (unat (pf_depth pf)) leaf | _ \<Rightarrow> {})"

lemma leaf_of_hash:
  assumes H: "hash_len H" and wf: "tree_wf d s" and S: "no_collision H S"
    and eq: "utree_hash H s = blake2b H 32 (leaf_pre key h)" and len: "length key = 32"
    and mem: "leaf_pre key h \<in> S" "tree_pres H s \<subseteq> S"
  shows "\<exists>v. s = ULeaf key v \<and> blake2b H 32 v = h"
proof (cases s)
  case UNull
  then show ?thesis using no_collisionD(2) [OF S mem(1)] eq by simp
next
  case (ULeaf k v)
  then have "blake2b H 32 (leaf_pre k (blake2b H 32 v)) = blake2b H 32 (leaf_pre key h)"
    using wf H eq hash_pre(2) by (simp add: hash_len_def)
  then have "leaf_pre k (blake2b H 32 v) = leaf_pre key h"
    using no_collisionD(1) [OF S _ mem(1)] mem(2) ULeaf by simp
  then show ?thesis using leaf_pre_inj [of k key] wf ULeaf len by auto
next
  case (UNode p l r)
  have len: "length (utree_hash H l) = 32" "length (utree_hash H r) = 32" using length_utree_hash [OF H] by auto
  let ?pre = "internal_pre (pack p) (of_nat (length p)) (utree_hash H l) (utree_hash H r)"
  have "blake2b H 32 ?pre = blake2b H 32 (leaf_pre key h)" using eq UNode hash_pre(1) [OF len] by simp
  then have "?pre = leaf_pre key h" using no_collisionD(1) [OF S _ mem(1)] mem(2) UNode by simp
  then show ?thesis using leaf_not_internal by metis
qed

lemma null_of_hash:
  assumes H: "hash_len H" and wf: "tree_wf d s" and S: "no_collision H S"
    and eq: "utree_hash H s = replicate 32 0" and mem: "tree_pres H s \<subseteq> S"
  shows "s = UNull"
proof (cases s)
  case (ULeaf k v)
  then have "blake2b H 32 (leaf_pre k (blake2b H 32 v)) = replicate 32 0"
    using wf H eq hash_pre(2) by (simp add: hash_len_def)
  then show ?thesis using no_collisionD(2) [OF S] mem ULeaf by simp
next
  case (UNode p l r)
  have len: "length (utree_hash H l) = 32" "length (utree_hash H r) = 32" using length_utree_hash [OF H] by auto
  show ?thesis using no_collisionD(2) [OF S] mem UNode eq hash_pre(1) [OF len] by simp
qed simp

lemma leaf_sound:
  assumes H: "hash_len H" and ok: "proof_ok pf" and leaf: "proof_leaf H key pf = Some (Inr leaf)"
    and key: "length key = 32" and s: "utree_hash H s = leaf" "tree_wf (unat (pf_depth pf)) s"
    and S: "no_collision H S" and mem: "leaf_pres H key pf \<subseteq> S" "tree_pres H s \<subseteq> S"
  shows "tree_lookup key (unat (pf_depth pf)) s = (if pf_type pf = HSK_PROOF_EXISTS then pf_value pf else None)"
  using ok unfolding proof_ok_def
proof (elim conjE disjE)
  assume t: "pf_type pf = HSK_PROOF_DEADEND"
  then have "leaf = replicate 32 0" using leaf by (simp add: proof_leaf_def)
  then show ?thesis using null_of_hash [OF H s(2) S _ mem(2)] s(1) t by (simp add: proof_type_defs)
next
  assume t: "pf_type pf = HSK_PROOF_SHORT" and "pf_depth pf \<le> 256"
    and sz: "unat (pf_prefix_size pf) \<le> 256" "pf_prefix_size pf \<noteq> 0"
    and "some_len ((unat (pf_prefix_size pf) + 7) div 8) (pf_prefix pf)" "some_len 32 (pf_left pf)" "some_len 32 (pf_right pf)"
  then obtain pre l r where f: "pf_prefix pf = Some pre" "pf_left pf = Some l" "pf_right pf = Some r"
    "length pre = (unat (pf_prefix_size pf) + 7) div 8" "length l = 32" "length r = 32"
    by (auto simp: some_len_def)
  have L: "leaf = blake2b H 32 (internal_pre pre (pf_prefix_size pf) l r)"
    and no: "\<not> (unat (pf_depth pf) + unat (pf_prefix_size pf) \<le> 256 \<and>
      (\<forall>i<unat (pf_prefix_size pf). hsk_has_bit pre i = hsk_has_bit key (unat (pf_depth pf) + i)))"
    using leaf t f sz \<open>pf_depth pf \<le> 256\<close> by (auto simp: proof_leaf_def proof_type_defs proof_has_word hash_pre split: if_splits)
  have "internal_pre pre (pf_prefix_size pf) l r \<in> S" using mem(1) t f by (simp add: leaf_pres_def)
  then obtain p a b where n: "s = UNode p a b" "length p = unat (pf_prefix_size pf)"
    "\<forall>i<length p. hsk_has_bit pre i = p ! i"
    using node_of_hash [OF H s(2) S s(1) [unfolded L] f(5) _ mem(2)] f(4) by auto
  then have "\<not> key_has key (unat (pf_depth pf)) p" using no s(2) by (auto simp: key_has_def)
  then show ?thesis using n(1) t by (simp add: proof_type_defs)
next
  assume t: "pf_type pf = HSK_PROOF_COLLISION" and "some_len 32 (pf_nx_key pf)" "some_len 32 (pf_nx_hash pf)"
  then obtain k h where f: "pf_nx_key pf = Some k" "pf_nx_hash pf = Some h" "length k = 32" "length h = 32"
    by (auto simp: some_len_def)
  have L: "leaf = blake2b H 32 (leaf_pre k h)" and "k \<noteq> key"
    using leaf t f key memcmp_eq_0 [of k key] by (auto simp: proof_leaf_def proof_type_defs hash_pre split: if_splits)
  then show ?thesis using leaf_of_hash [OF H s(2) S s(1) [unfolded L] f(3) _ mem(2)] mem(1) t f
    by (auto simp: leaf_pres_def proof_type_defs)
next
  assume t: "pf_type pf = HSK_PROOF_EXISTS" and "some_len (unat (pf_value_size pf)) (pf_value pf)"
  then obtain v where f: "pf_value pf = Some v" "length v = unat (pf_value_size pf)" by (auto simp: some_len_def)
  have L: "leaf = blake2b H 32 (leaf_pre key (blake2b H 32 v))"
    using leaf t f key H by (simp add: proof_leaf_def proof_type_defs hsk_proof_hash_value_def hash_pre hash_len_def)
  have m: "v \<in> S" "leaf_pre key (blake2b H 32 v) \<in> S" using mem(1) t f by (simp_all add: leaf_pres_def proof_type_defs)
  obtain w where "s = ULeaf key w" "blake2b H 32 w = blake2b H 32 v"
    using leaf_of_hash [OF H s(2) S s(1) [unfolded L] key m(2) mem(2)] by blast
  moreover have "w = v" using no_collisionD(1) [OF S _ m(1)] mem(2) calculation by simp
  ultimately show ?thesis using t f by simp
qed

lemma verify_ok:
  assumes "proof_ok pf" and "hash_len H" and "hsk_proof_verify H root key pf = Some (Inr (ex, res))" and "length root = 32"
  shows "\<exists>leaf. proof_leaf H key pf = Some (Inr leaf) \<and> length leaf = 32 \<and>
    climb H key (rev (pf_nodes pf)) (uint (pf_depth pf)) leaf = Some (Inr (0, root)) \<and>
    (if pf_type pf = HSK_PROOF_EXISTS then ex \<and> (\<exists>v. pf_value pf = Some v \<and> hsk_parse_namestate v (length v) = Some res)
     else \<not> ex)"
proof -
  have ok: "pf_depth pf \<le> 256" "length (pf_nodes pf) \<le> 256" "unat (pf_value_size pf) \<le> HSK_MAX_DATA_SIZE"
    "\<forall>item\<in>set (rev (pf_nodes pf)). proof_node_ok item" "unat (pf_depth pf) \<le> 256"
    using assms(1) by (auto simp: proof_ok_def HSK_MAX_DATA_SIZE_def word_le_nat_alt)
  obtain x where x: "proof_leaf H key pf = Some x" "\<And>leaf. x = Inr leaf \<Longrightarrow> length leaf = 32"
    using leaf_returns [OF assms(1,2)] by blast
  then obtain leaf where leaf: "x = Inr leaf" using assms(3) ok(1-3) by (cases x) (auto simp: hsk_proof_verify_def)
  then have l: "proof_leaf H key pf = Some (Inr leaf)" and len: "length leaf = 32" using x by simp_all
  obtain y where y: "climb H key (rev (pf_nodes pf)) (uint (pf_depth pf)) leaf = Some y" "\<And>e n. y = Inr (e, n) \<Longrightarrow> length n = 32"
    using climb_returns [OF assms(2) ok(4) len ok(5), of key] by auto
  then obtain dep next' where "y = Inr (dep, next')" using assms(3) l ok(1-3) by (cases y) (auto simp: hsk_proof_verify_def)
  then have c: "climb H key (rev (pf_nodes pf)) (uint (pf_depth pf)) leaf = Some (Inr (dep, next'))" and n: "length next' = 32"
    using y by simp_all
  have v: "pf_type pf = HSK_PROOF_EXISTS \<Longrightarrow> \<exists>v. pf_value pf = Some v \<and> length v = unat (pf_value_size pf)"
    using assms(1) by (auto simp: proof_ok_def proof_type_defs some_len_def)
  have f: "dep = 0" "memcmp (take 32 next') (take 32 root) = 0"
    "if pf_type pf = HSK_PROOF_EXISTS then ex \<and> hsk_parse_namestate (case pf_value pf of None \<Rightarrow> [] | Some v \<Rightarrow> v) (unat (pf_value_size pf)) = Some res
     else \<not> ex"
    using assms(3) l c ok(1-3) by (auto simp: hsk_proof_verify_def split: if_splits option.splits)
  have "next' = root" using f(2) n assms(4) memcmp_eq_0 [of next' root] by simp
  then show ?thesis using l len c f(1,3) v by (intro exI [of _ leaf]) (auto split: if_splits)
qed

section \<open>Completeness\<close>

text \<open>The nodes on the way to a key, the topmost first, and the rest of the proof.\<close>

fun tree_path :: "hash_fns \<Rightarrow> bytes \<Rightarrow> nat \<Rightarrow> utree \<Rightarrow> hsk_proof_node list \<times> hsk_proof" where
  "tree_path H key d UNull = ([], hsk_proof_init\<lparr>pf_depth := of_nat d\<rparr>)"
| "tree_path H key d (ULeaf k v) = ([],
     if k = key then hsk_proof_init\<lparr>pf_type := HSK_PROOF_EXISTS, pf_depth := of_nat d, pf_value := Some v,
       pf_value_size := of_nat (length v)\<rparr>
     else hsk_proof_init\<lparr>pf_type := HSK_PROOF_COLLISION, pf_depth := of_nat d, pf_nx_key := Some k,
       pf_nx_hash := Some (blake2b H 32 v)\<rparr>)"
| "tree_path H key d (UNode p l r) =
     (if key_has key d p then
        let right = hsk_has_bit key (d + length p);
            (items, pf) = tree_path H key (d + length p + 1) (if right then r else l)
        in (\<lparr>pn_prefix = pack p @ replicate (32 - length (pack p)) 0, pn_prefix_size = of_nat (length p),
             pn_node = utree_hash H (if right then l else r)\<rparr> # items, pf)
      else ([], hsk_proof_init\<lparr>pf_type := HSK_PROOF_SHORT, pf_depth := of_nat d, pf_prefix := Some (pack p),
        pf_prefix_size := of_nat (length p), pf_left := Some (utree_hash H l), pf_right := Some (utree_hash H r)\<rparr>))"

definition tree_prove :: "hash_fns \<Rightarrow> bytes \<Rightarrow> utree \<Rightarrow> hsk_proof" where
  "tree_prove H key t = (let (items, pf) = tree_path H key 0 t in pf\<lparr>pf_nodes := items\<rparr>)"

lemma climb_append:
  "climb H key (xs @ ys) e n = climb H key xs e n \<bind> (\<lambda>r. case r of Inl rc \<Rightarrow> Some (Inl rc) | Inr (e, n) \<Rightarrow> climb H key ys e n)"
proof (induction xs arbitrary: e n)
  case (Cons x xs)
  then show ?case
    by (cases "hsk_proof_has (pn_prefix x) (pn_prefix_size x) key (word_of_int (e - 1 - uint (pn_prefix_size x)))")
      (simp_all add: Let_def)
qed simp

end
