(* ===== verification/Proof_Wire.thy ===== *)
theory Proof_Wire
  imports Proof_Ok
begin

text \<open>
  The wire format of proofs, as the specification of \<open>hsk_proof_read\<close> (the program only reads them),
  and proofs made from a tree.
\<close>

section \<open>The wire format\<close>

definition bitlen_bytes :: "u16 \<Rightarrow> bytes" where
  "bitlen_bytes sz = (if sz < 0x80 then [ucast sz] else [0x80 OR ucast (drop_bit 8 sz), ucast sz])"

definition node_bytes :: "hsk_proof_node \<Rightarrow> bytes" where
  "node_bytes item =
     (if pn_prefix_size item = 0 then []
      else bitlen_bytes (pn_prefix_size item) @ take ((unat (pn_prefix_size item) + 7) div 8) (pn_prefix item)) @
     pn_node item"

definition tail_bytes :: "hsk_proof \<Rightarrow> bytes" where
  "tail_bytes pf =
     (if pf_type pf = HSK_PROOF_DEADEND then []
      else if pf_type pf = HSK_PROOF_SHORT
      then bitlen_bytes (pf_prefix_size pf) @ the (pf_prefix pf) @ the (pf_left pf) @ the (pf_right pf)
      else if pf_type pf = HSK_PROOF_COLLISION then the (pf_nx_key pf) @ the (pf_nx_hash pf)
      else emit (write_u16 (pf_value_size pf)) @ the (pf_value pf))"

definition proof_bytes :: "hsk_proof \<Rightarrow> bytes" where
  "proof_bytes pf =
     emit (write_u16 (push_bit 14 (ucast (pf_type pf)) OR pf_depth pf)) @
     emit (write_u16 (of_nat (length (pf_nodes pf)))) @
     pack (map (\<lambda>item. pn_prefix_size item \<noteq> 0) (pf_nodes pf)) @
     concat (map node_bytes (pf_nodes pf)) @ tail_bytes pf"

text \<open>A proof without anything that is not written: unused fields and octets are those of a fresh one.\<close>

definition node_canon :: "hsk_proof_node \<Rightarrow> bool" where
  "node_canon item \<longleftrightarrow> (let n = (unat (pn_prefix_size item) + 7) div 8 in
     pn_prefix item = take n (pn_prefix item) @ replicate (32 - n) 0)"

definition proof_canon :: "hsk_proof \<Rightarrow> bool" where
  "proof_canon pf \<longleftrightarrow> proof_ok pf \<and> (\<forall>item\<in>set (pf_nodes pf). node_canon item) \<and>
     pf = (let q = hsk_proof_init\<lparr>pf_type := pf_type pf, pf_depth := pf_depth pf, pf_nodes := pf_nodes pf\<rparr> in
       if pf_type pf = HSK_PROOF_DEADEND then q
       else if pf_type pf = HSK_PROOF_SHORT
       then q\<lparr>pf_prefix := pf_prefix pf, pf_prefix_size := pf_prefix_size pf, pf_left := pf_left pf, pf_right := pf_right pf\<rparr>
       else if pf_type pf = HSK_PROOF_COLLISION then q\<lparr>pf_nx_key := pf_nx_key pf, pf_nx_hash := pf_nx_hash pf\<rparr>
       else q\<lparr>pf_value_size := pf_value_size pf, pf_value := pf_value pf\<rparr>)"

section \<open>Reading it back\<close>

lemma bit_small: "unat (sz :: u16) < 2 ^ n \<Longrightarrow> bit sz k \<Longrightarrow> k < n"
  by (metis bit_take_bit_iff take_bit_nat_eq_self bit_unsigned_iff possible_bit_nat unat_take_bit word_unat_eq_iff
      mod_less not_le linorder_not_less bit_unat)

lemma bit_0x80: "bit (0x80 :: int) k \<longleftrightarrow> k = 7"
proof -
  have "(0x80 :: int) = push_bit 7 1" by (simp add: push_bit_eq_mult)
  then show ?thesis by (simp only: bit_push_bit_iff bit_1_iff) auto
qed

lemma bitlen_short:
  assumes "(sz :: u16) < 0x80"
  shows "(ucast (ucast sz :: u8) :: u16) = sz" "sz AND 0x80 = 0"
proof -
  have "unat sz < 2 ^ 7" using assms by (simp add: word_less_nat_alt)
  note b = bit_small [OF this]
  show "(ucast (ucast sz :: u8) :: u16) = sz" by (rule bit_word_eqI) (auto simp: bit_simps dest: b)
  show "sz AND 0x80 = 0" by (rule bit_word_eqI) (auto simp: bit_simps bit_0x80 dest: b)
qed

lemma bitlen_long:
  assumes "(sz :: u16) \<le> 256"
  defines "a \<equiv> ucast (0x80 OR ucast (drop_bit 8 sz) :: u8) :: u16"
  shows "a AND 0x80 \<noteq> 0" "push_bit 8 (a AND NOT 0x80) OR ucast (ucast sz :: u8) = sz"
proof -
  have "unat sz < 2 ^ 9" using assms(1) by (simp add: word_le_nat_alt)
  note b = bit_small [OF this]
  have "bit (a AND 0x80) 7" by (simp add: a_def bit_simps bit_0x80)
  then show "a AND 0x80 \<noteq> 0" by auto
  show "push_bit 8 (a AND NOT 0x80) OR ucast (ucast sz :: u8) = sz"
  proof (rule bit_word_eqI)
    fix k assume k: "k < LENGTH(16)"
    define m :: u16 where "m = 0x80"
    have m: "bit m j \<longleftrightarrow> j = 7" for j by (auto simp: m_def bit_0x80)
    have a: "bit a j \<longleftrightarrow> j < 8 \<and> (j = 7 \<or> bit sz (8 + j))" for j
      by (auto simp: a_def bit_unsigned_iff bit_or_iff bit_0x80 bit_drop_bit_eq)
    have "bit (push_bit 8 (a AND NOT m) OR ucast (ucast sz :: u8)) k = bit sz k"
    proof (cases "k < 8")
      case False
      then have "bit sz k \<Longrightarrow> k = 8" using b by fastforce
      then show ?thesis using False k by (auto simp: a m bit_simps dest: b)
    qed (simp add: bit_simps)
    then show "bit (push_bit 8 (a AND NOT 0x80) OR ucast (ucast sz :: u8)) k = bit sz k" by (simp only: m_def)
  qed
qed

lemma read_bitlen_bytes:
  assumes "sz \<noteq> 0" and "unat sz \<le> 256"
  shows "read_bitlen (bitlen_bytes sz @ r) = Some ((sz, (unat sz + 7) div 8), r)"
proof -
  have le: "sz \<le> 256" "\<not> 256 < sz" using assms(2) by (simp_all add: word_le_nat_alt not_less)
  show ?thesis
  proof (cases "sz < 0x80")
    case True
    then show ?thesis using assms(1) le bitlen_short [OF True] by (simp add: read_bitlen_def bitlen_bytes_def read_u8_def Let_def)
  next
    case False
    then have "bitlen_bytes sz = [0x80 OR ucast (drop_bit 8 sz), ucast sz]" by (simp add: bitlen_bytes_def)
    then show ?thesis using assms(1) le(2) bitlen_long [OF le(1)]
      unfolding read_bitlen_def Let_def read_u8_def by simp
  qed
qed

lemma read_nodes_bytes:
  assumes "\<forall>item\<in>set items. proof_node_ok item \<and> node_canon item"
    and "\<forall>j<length items. hsk_has_bit map' (i + j) = (pn_prefix_size (items ! j) \<noteq> 0)"
  shows "proof_read_nodes map' i (length items) (concat (map node_bytes items) @ r) = Some (items, r)"
  using assms
proof (induction items arbitrary: i)
  case (Cons x xs)
  have IH: "proof_read_nodes map' (i + 1) (length xs) (concat (map node_bytes xs) @ r) = Some (xs, r)"
    using Cons.prems by (intro Cons.IH) fastforce+
  have b: "hsk_has_bit map' i = (pn_prefix_size x \<noteq> 0)" using Cons.prems(2) by fastforce
  have x: "length (pn_prefix x) = 32" "unat (pn_prefix_size x) \<le> 256" "length (pn_node x) = 32" "node_canon x"
    using Cons.prems(1) by (simp_all add: proof_node_ok_def)
  let ?n = "(unat (pn_prefix_size x) + 7) div 8"
  have n: "?n \<le> 32" using x(2) div_le_mono [of "unat (pn_prefix_size x) + 7" 263 8] by simp
  have p: "pn_prefix x = take ?n (pn_prefix x) @ replicate (32 - ?n) 0" using x(4) by (simp add: node_canon_def Let_def)
  have rb: "read_bytes k (bs @ s) = Some (bs, s)" if "length bs = k" for k bs s using that by (simp add: bytes.dec_iff)
  show ?case
  proof (cases "pn_prefix_size x = 0")
    case True
    then have "pn_prefix x = replicate 32 0" using p by simp
    moreover have "node_bytes x = pn_node x" using True by (simp add: node_bytes_def)
    ultimately show ?thesis using b True IH rb [OF x(3)] by simp
  next
    case False
    have "length (take ?n (pn_prefix x)) = ?n" using n x(1) by simp
    moreover have "node_bytes x = bitlen_bytes (pn_prefix_size x) @ take ?n (pn_prefix x) @ pn_node x"
      using False by (simp add: node_bytes_def)
    ultimately show ?thesis
      using b False IH rb [OF x(3)] rb [of "take ?n (pn_prefix x)" ?n] p [symmetric] read_bitlen_bytes [OF False x(2)]
      by simp
  qed
qed simp

lemma read_tail_bytes:
  assumes "proof_canon pf"
  shows "proof_read_tail (hsk_proof_init\<lparr>pf_type := pf_type pf, pf_depth := pf_depth pf, pf_nodes := pf_nodes pf\<rparr>)
    (tail_bytes pf @ r) = Some (pf, r)"
proof -
  let ?q = "hsk_proof_init\<lparr>pf_type := pf_type pf, pf_depth := pf_depth pf, pf_nodes := pf_nodes pf\<rparr>"
  have ok: "proof_ok pf" using assms by (simp add: proof_canon_def)
  note eq = assms [unfolded proof_canon_def Let_def, THEN conjunct2, THEN conjunct2]
  have rb: "read_bytes k (bs @ s) = Some (bs, s)" if "length bs = k" for k bs s using that by (simp add: bytes.dec_iff)
  show ?thesis
    using ok unfolding proof_ok_def
  proof (elim conjE disjE)
    assume "pf_type pf = HSK_PROOF_DEADEND"
    then show ?thesis using eq by (simp add: proof_read_tail_def tail_bytes_def)
  next
    assume t: "pf_type pf = HSK_PROOF_SHORT" and sz: "pf_prefix_size pf \<noteq> 0" "unat (pf_prefix_size pf) \<le> 256"
      and "some_len ((unat (pf_prefix_size pf) + 7) div 8) (pf_prefix pf)" "some_len 32 (pf_left pf)" "some_len 32 (pf_right pf)"
    then obtain p l x where f: "pf_prefix pf = Some p" "pf_left pf = Some l" "pf_right pf = Some x"
      "length p = (unat (pf_prefix_size pf) + 7) div 8" "length l = 32" "length x = 32" by (auto simp: some_len_def)
    have "tail_bytes pf = bitlen_bytes (pf_prefix_size pf) @ p @ l @ x"
      using t f by (simp add: tail_bytes_def proof_type_defs)
    moreover have "pf = ?q\<lparr>pf_prefix := Some p, pf_prefix_size := pf_prefix_size pf, pf_left := Some l, pf_right := Some x\<rparr>"
      using eq t f by (simp add: proof_type_defs)
    ultimately show ?thesis
      using t read_bitlen_bytes [OF sz] rb [OF f(4)] rb [OF f(5)] rb [OF f(6)]
      by (simp add: proof_read_tail_def proof_type_defs alloc_bytes_eq)
  next
    assume t: "pf_type pf = HSK_PROOF_COLLISION" and "some_len 32 (pf_nx_key pf)" "some_len 32 (pf_nx_hash pf)"
    then obtain k h where f: "pf_nx_key pf = Some k" "pf_nx_hash pf = Some h" "length k = 32" "length h = 32"
      by (auto simp: some_len_def)
    have "pf = ?q\<lparr>pf_nx_key := Some k, pf_nx_hash := Some h\<rparr>" using eq t f by (simp add: proof_type_defs)
    then show ?thesis
      using t f rb [OF f(3)] rb [OF f(4)] by (simp add: proof_read_tail_def tail_bytes_def proof_type_defs alloc_bytes_eq)
  next
    assume t: "pf_type pf = HSK_PROOF_EXISTS" and "unat (pf_value_size pf) \<le> HSK_MAX_DATA_SIZE"
      and "some_len (unat (pf_value_size pf)) (pf_value pf)"
    then obtain v where f: "pf_value pf = Some v" "length v = unat (pf_value_size pf)" by (auto simp: some_len_def)
    have "pf = ?q\<lparr>pf_value_size := pf_value_size pf, pf_value := Some v\<rparr>" using eq t f by (simp add: proof_type_defs)
    moreover have "read_u16 (emit (write_u16 (pf_value_size pf)) @ v @ r) = Some (pf_value_size pf, v @ r)"
      by (rule u16.dec_enc) simp
    ultimately show ?thesis
      using t f rb [OF f(2)] \<open>unat (pf_value_size pf) \<le> HSK_MAX_DATA_SIZE\<close>
      by (simp add: proof_read_tail_def tail_bytes_def proof_type_defs alloc_bytes_eq)
  qed
qed

lemma proof_field:
  assumes "(t :: u8) = 0 \<or> t = 1 \<or> t = 2 \<or> t = 3" and "(dep :: u16) \<le> 256"
  shows "ucast (drop_bit 14 (push_bit 14 (ucast t) OR dep)) = t"
    and "(push_bit 14 (ucast t) OR dep) AND NOT (push_bit 14 3) = dep"
proof -
  have "unat dep < 2 ^ 9" using assms(2) by (simp add: word_le_nat_alt)
  note b = bit_small [OF this]
  have t: "unat t < 2 ^ 2" using assms(1) by auto
  have bt: "bit t k \<Longrightarrow> k < 2" for k
    using t by (metis bit_iff_odd bit_unsigned_iff bit_take_bit_iff possible_bit_nat take_bit_nat_eq_self)
  show "ucast (drop_bit 14 (push_bit 14 (ucast t) OR dep)) = t"
    by (rule bit_word_eqI) (auto simp: bit_simps dest: b bt)
  define m where "m = push_bit 14 (3 :: u16)"
  have bm: "bit m k \<longleftrightarrow> k = 14 \<or> k = 15" for k
  proof -
    have "(3 :: u16) = push_bit 1 1 OR 1" by simp
    then show ?thesis unfolding m_def by (simp only: bit_push_bit_iff bit_or_iff bit_1_iff possible_bit_word) auto
  qed
  have nb: "\<not> bit dep 14" "\<not> bit dep 15" using b [of 14] b [of 15] by auto
  have "(push_bit 14 (ucast t) OR dep) AND NOT m = dep"
  proof (rule bit_word_eqI)
    fix k assume k: "k < LENGTH(16)"
    have "14 \<le> k \<Longrightarrow> k = 14 \<or> k = 15" using k by auto
    then show "bit ((push_bit 14 (ucast t) OR dep) AND NOT m) k = bit dep k"
      using nb k by (auto simp only: bit_and_iff bit_or_iff bit_not_iff bm bit_push_bit_iff possible_bit_word)
  qed
  then show "(push_bit 14 (ucast t) OR dep) AND NOT (push_bit 14 3) = dep" by (simp only: m_def)
qed

text \<open>A proof that carries nothing but what its type has is read back, whatever follows it.\<close>

lemma read_proof_bytes:
  assumes "proof_canon pf"
  shows "hsk_proof_read (proof_bytes pf @ r) hsk_proof_init = Some (Some (pf, r))"
proof -
  have ok: "proof_ok pf" and canon: "\<forall>item\<in>set (pf_nodes pf). node_canon item"
    using assms by (simp_all add: proof_canon_def)
  let ?f = "push_bit 14 (ucast (pf_type pf)) OR pf_depth pf" and ?n = "of_nat (length (pf_nodes pf)) :: u16"
  let ?bits = "map (\<lambda>item. pn_prefix_size item \<noteq> 0) (pf_nodes pf)"
  let ?rest = "concat (map node_bytes (pf_nodes pf)) @ tail_bytes pf @ r"
  have len: "length (pf_nodes pf) \<le> 256" and dep: "pf_depth pf \<le> 256"
    and nodes: "\<forall>item\<in>set (pf_nodes pf). proof_node_ok item" using ok by (simp_all add: proof_ok_def)
  have n: "unat ?n = length (pf_nodes pf)" using len by (simp add: unat_of_nat)
  have t: "pf_type pf = 0 \<or> pf_type pf = 1 \<or> pf_type pf = 2 \<or> pf_type pf = 3"
    using ok by (auto simp: proof_ok_def proof_type_defs)
  have r16: "read_u16 (emit (write_u16 w) @ s) = Some (w, s)" for w s by (rule u16.dec_enc) simp
  have "slice_bytes ((unat ?n + 7) div 8) (pack ?bits @ ?rest) = Some (pack ?bits, ?rest)"
    unfolding slice_bytes_eq n by (rule bytes.dec_enc) simp
  moreover have "proof_read_nodes (pack ?bits) 0 (unat ?n) ?rest = Some (pf_nodes pf, tail_bytes pf @ r)"
    unfolding n using nodes canon has_bit_pack [of _ ?bits "[]"] by (intro read_nodes_bytes) auto
  moreover have "\<not> ?n > 256" using n len by (simp add: word_less_nat_alt)
  moreover have "\<not> pf_depth pf > 256" using dep by simp
  ultimately show ?thesis
    using r16 proof_field [OF t dep] read_tail_bytes [OF assms, of r]
    unfolding hsk_proof_read_def proof_bytes_def Let_def by (simp add: hsk_proof_init_def)
qed

section \<open>Proofs made from a tree\<close>

lemma proof_leaf_nodes: "proof_leaf H key (pf\<lparr>pf_nodes := items\<rparr>) = proof_leaf H key pf"
  by (simp add: proof_leaf_def cong: if_cong)

text \<open>What the induction over the tree establishes for a path from depth \<open>d\<close>.\<close>

definition path_ok :: "hash_fns \<Rightarrow> bytes \<Rightarrow> nat \<Rightarrow> utree \<Rightarrow> hsk_proof_node list \<Rightarrow> hsk_proof \<Rightarrow> bool" where
  "path_ok H key d t items pf \<longleftrightarrow>
     proof_canon (pf\<lparr>pf_nodes := items\<rparr>) \<and> d + length items \<le> unat (pf_depth pf) \<and>
     (case tree_lookup key d t of None \<Rightarrow> pf_type pf \<noteq> HSK_PROOF_EXISTS
      | Some v \<Rightarrow> pf_type pf = HSK_PROOF_EXISTS \<and> pf_value pf = Some v \<and> unat (pf_value_size pf) = length v) \<and>
     (\<exists>leaf. proof_leaf H key pf = Some (Inr leaf) \<and>
       climb H key (rev items) (int (unat (pf_depth pf))) leaf = Some (Inr (int d, utree_hash H t)))"

lemma path_leaf:
  assumes "d \<le> 256" and "pf_depth pf = of_nat d" and "pf_nodes pf = []" and "proof_canon pf"
    and "case tree_lookup key d t of None \<Rightarrow> pf_type pf \<noteq> HSK_PROOF_EXISTS
      | Some v \<Rightarrow> pf_type pf = HSK_PROOF_EXISTS \<and> pf_value pf = Some v \<and> unat (pf_value_size pf) = length v"
    and "proof_leaf H key pf = Some (Inr (utree_hash H t))"
  shows "path_ok H key d t [] pf"
proof -
  have "unat (pf_depth pf) = d" using assms(1,2) by (simp add: unat_of_nat)
  moreover have "pf\<lparr>pf_nodes := []\<rparr> = pf" using assms(3) by simp
  ultimately show ?thesis using assms(4-6) by (simp add: path_ok_def)
qed

lemma canon_Cons:
  assumes "proof_canon (pf\<lparr>pf_nodes := items\<rparr>)" and "proof_node_ok item" and "node_canon item" and "length items < 256"
  shows "proof_canon (pf\<lparr>pf_nodes := item # items\<rparr>)"
proof -
  have "proof_ok (pf\<lparr>pf_nodes := item # items\<rparr>)" using assms by (simp add: proof_canon_def proof_ok_def)
  then show ?thesis using assms
    by (cases pf) (auto simp: proof_canon_def Let_def hsk_proof_init_def proof_type_defs split: if_splits)
qed

lemma prefix_field:
  fixes h :: bytes
  assumes "length p \<le> 255"
  defines "item \<equiv> \<lparr>pn_prefix = pack p @ replicate (32 - length (pack p)) 0, pn_prefix_size = of_nat (length p), pn_node = h\<rparr>"
  shows "unat (pn_prefix_size item) = length p" "i < length p \<Longrightarrow> hsk_has_bit (pn_prefix item) i = p ! i"
    "length h = 32 \<Longrightarrow> proof_node_ok item" "node_canon item"
    "internal_pre (pn_prefix item) (pn_prefix_size item) a b = internal_pre (pack p) (of_nat (length p)) a b"
proof -
  show sz: "unat (pn_prefix_size item) = length p" using assms(1) by (simp add: item_def unat_of_nat)
  have n: "(length p + 7) div 8 \<le> 32" using assms(1) div_le_mono [of "length p + 7" 262 8] by simp
  show "hsk_has_bit (pn_prefix item) i = p ! i" if "i < length p" using has_bit_pack [OF that] by (simp add: item_def)
  show "proof_node_ok item" if "length h = 32" using that sz n assms(1) by (simp add: proof_node_ok_def item_def)
  show "node_canon item" using sz by (simp add: node_canon_def Let_def item_def)
  show "internal_pre (pn_prefix item) (pn_prefix_size item) a b = internal_pre (pack p) (of_nat (length p)) a b"
    using sz by (simp add: internal_pre_def item_def)
qed

lemma path_ok_step:
  assumes H: "hash_len H" and key: "length key = 32" and has: "key_has key d p" and wf: "tree_wf d (UNode p l r)"
    and IH: "path_ok H key (d + length p + 1) (if hsk_has_bit key (d + length p) then r else l) items pf"
  defines "item \<equiv> \<lparr>pn_prefix = pack p @ replicate (32 - length (pack p)) 0, pn_prefix_size = of_nat (length p),
      pn_node = utree_hash H (if hsk_has_bit key (d + length p) then l else r)\<rparr>"
  shows "path_ok H key d (UNode p l r) (item # items) pf"
proof -
  let ?c = "if hsk_has_bit key (d + length p) then r else l" and ?d = "d + length p + 1"
  have len: "length p \<le> 255" "?d \<le> 256" using wf by simp_all
  note item = prefix_field [OF len(1), where h = "utree_hash H (if hsk_has_bit key (d + length p) then l else r)", folded item_def]
  have hl: "length (utree_hash H x) = 32" for x by (rule length_utree_hash [OF H])
  have ok: "proof_node_ok item" by (rule item(3)) (rule hl)
  obtain leaf where leaf: "proof_leaf H key pf = Some (Inr leaf)"
    "climb H key (rev items) (int (unat (pf_depth pf))) leaf = Some (Inr (int ?d, utree_hash H ?c))"
    using IH by (auto simp: path_ok_def)
  have dep: "?d + length items \<le> unat (pf_depth pf)" "unat (pf_depth pf) \<le> 256"
    using IH by (simp_all add: path_ok_def proof_canon_def proof_ok_def word_le_nat_alt)
  have "step_pre key item ?d (utree_hash H ?c) = internal_pre (pack p) (of_nat (length p)) (utree_hash H l) (utree_hash H r)"
    using item(5) by (simp add: step_pre_def) (simp add: item_def)
  then have h: "blake2b H 32 (step_pre key item ?d (utree_hash H ?c)) = utree_hash H (UNode p l r)"
    using hash_pre(1) [OF hl hl] by simp
  have e: "?d - 1 - unat (pn_prefix_size item) = d" using item(1) by simp
  have "climb H key [item] (int ?d) (utree_hash H ?c) = Some (Inr (int d, utree_hash H (UNode p l r)))"
    unfolding climb_Cons [OF ok hl len(2)] e h using item(1,2) has by (simp add: key_has_def)
  then have "climb H key (rev (item # items)) (int (unat (pf_depth pf))) leaf = Some (Inr (int d, utree_hash H (UNode p l r)))"
    using leaf(2) by (simp only: rev.simps climb_append) simp
  moreover have "proof_canon (pf\<lparr>pf_nodes := item # items\<rparr>)"
    using IH ok item(4) dep by (intro canon_Cons) (simp_all add: path_ok_def)
  ultimately show ?thesis using IH leaf(1) has dep(1) by (simp add: path_ok_def)
qed

lemma tree_path_ok:
  assumes H: "hash_len H" and key: "length key = 32"
  shows "d \<le> 256 \<Longrightarrow> tree_wf d t \<Longrightarrow> tree_path H key d t = (items, pf) \<Longrightarrow> path_ok H key d t items pf"
proof (induction t arbitrary: d items pf)
  case UNull
  then have "items = []" "pf = hsk_proof_init\<lparr>pf_depth := of_nat d\<rparr>" by simp_all
  then show ?case using UNull.prems(1)
    by (auto intro!: path_leaf simp: hsk_proof_init_def proof_canon_def proof_ok_def proof_type_defs proof_leaf_def
        word_le_nat_alt unat_of_nat)
next
  case (ULeaf k v)
  have len: "length k = 32" "length v \<le> HSK_MAX_DATA_SIZE" "unat (of_nat d :: u16) = d"
    "unat (of_nat (length v) :: u16) = length v"
    using ULeaf.prems(1,2) by (simp_all add: HSK_MAX_DATA_SIZE_def unat_of_nat)
  show ?case
  proof (cases "k = key")
    case True
    then have e: "items = []" "pf = hsk_proof_init\<lparr>pf_type := HSK_PROOF_EXISTS, pf_depth := of_nat d, pf_value := Some v,
       pf_value_size := of_nat (length v)\<rparr>" using ULeaf.prems(3) by simp_all
    show ?thesis using True ULeaf.prems(1) len unfolding e
      by (intro path_leaf) (simp_all add: hsk_proof_init_def proof_canon_def proof_ok_def proof_type_defs proof_leaf_def
        word_le_nat_alt some_len_def hsk_proof_hash_value_def)
  next
    case False
    then have e: "items = []" "pf = hsk_proof_init\<lparr>pf_type := HSK_PROOF_COLLISION, pf_depth := of_nat d, pf_nx_key := Some k,
       pf_nx_hash := Some (blake2b H 32 v)\<rparr>" using ULeaf.prems(3) by simp_all
    show ?thesis using False ULeaf.prems(1) len H key memcmp_eq_0 [of k key] unfolding e
      by (intro path_leaf) (simp_all add: hsk_proof_init_def proof_canon_def proof_ok_def proof_type_defs proof_leaf_def
        word_le_nat_alt some_len_def hash_len_def)
  qed
next
  case (UNode p l r)
  show ?case
  proof (cases "key_has key d p")
    case True
    let ?R = "hsk_has_bit key (d + length p)"
    obtain its q where q: "tree_path H key (d + length p + 1) (if ?R then r else l) = (its, q)" by (meson surj_pair)
    then have e: "items = \<lparr>pn_prefix = pack p @ replicate (32 - length (pack p)) 0, pn_prefix_size = of_nat (length p),
        pn_node = utree_hash H (if ?R then l else r)\<rparr> # its" "pf = q"
      using UNode.prems(3) True by (simp_all add: Let_def split: if_splits)
    have "path_ok H key (d + length p + 1) (if ?R then r else l) its q"
      using q UNode.prems(2) by (cases ?R) (auto intro!: UNode.IH)
    then show ?thesis unfolding e using path_ok_step [OF H key True UNode.prems(2)] by simp
  next
    case False
    have e: "items = []" "pf = hsk_proof_init\<lparr>pf_type := HSK_PROOF_SHORT, pf_depth := of_nat d, pf_prefix := Some (pack p),
        pf_prefix_size := of_nat (length p), pf_left := Some (utree_hash H l), pf_right := Some (utree_hash H r)\<rparr>"
      using UNode.prems(3) False by simp_all
    have sz: "unat (of_nat (length p) :: u16) = length p" "unat (of_nat d :: u16) = d"
      using UNode.prems(1,2) by (simp_all add: unat_of_nat)
    have nz: "(of_nat (length p) :: u16) \<noteq> 0" using False sz(1) by (auto simp: key_has_def)
    have "hsk_proof_has (pack p) (of_nat (length p)) key (of_nat d) = Some False"
      using False UNode.prems(1) has_bit_pack [of _ p "[]"] sz by (auto simp: proof_has key_has_def)
    then show ?thesis using False UNode.prems(1,2) sz nz length_utree_hash [OF H] unfolding e
      by (intro path_leaf) (simp_all add: hsk_proof_init_def proof_canon_def proof_ok_def proof_type_defs proof_leaf_def
        word_le_nat_alt some_len_def)
  qed
qed

section \<open>A tree to evaluate on\<close>

definition sum_fns :: hash_fns where
  "sum_fns = \<lparr>blake2b = \<lambda>n x. sum_list x # replicate (n - 1) 1, sha3 = \<lambda>x. replicate 32 0\<rparr>"

definition demo_key :: "u8 \<Rightarrow> bytes" where
  "demo_key b = b # replicate 31 0"

definition demo_tree :: utree where
  "demo_tree = UNode [] (ULeaf (demo_key 0) [0, 1, 0, 7]) (ULeaf (demo_key 0x80) [0, 1, 0, 9])"

lemma demo_hash_len: "hash_len sum_fns"
  by (simp add: hash_len_def sum_fns_def)

lemma demo_tree_wf: "tree_wf 0 demo_tree"
  by (simp add: demo_tree_def demo_key_def HSK_MAX_DATA_SIZE_def)

lemma accepted_truth:
  assumes "hash_len H" and "tree_wf 0 t" and "length key = 32" and "proof_ok pf"
    and "no_collision H (tree_pres H t \<union> proof_pres H key pf)"
  shows "\<exists>res. hsk_proof_verify H (utree_hash H t) key pf = Some res \<and>
    (\<forall>ex data. res = Inr (ex, data) \<longrightarrow>
      (case tree_lookup key 0 t of None \<Rightarrow> \<not> ex | Some v \<Rightarrow> ex \<and> hsk_parse_namestate v (length v) = Some data))"
proof -
  let ?S = "tree_pres H t \<union> proof_pres H key pf" and ?d = "unat (pf_depth pf)"
  note ok = assms(4)
  have "case tree_lookup key 0 t of None \<Rightarrow> \<not> ex | Some v \<Rightarrow> ex \<and> hsk_parse_namestate v (length v) = Some data"
    if v: "hsk_proof_verify H (utree_hash H t) key pf = Some (Inr (ex, data))" for ex data
  proof -
    obtain leaf where leaf: "proof_leaf H key pf = Some (Inr leaf)" "length leaf = 32"
      "climb H key (rev (pf_nodes pf)) (int ?d) leaf = Some (Inr (int 0, utree_hash H t))"
      and ex: "if pf_type pf = HSK_PROOF_EXISTS then ex \<and> (\<exists>v. pf_value pf = Some v \<and> hsk_parse_namestate v (length v) = Some data)
        else \<not> ex"
      using verify_ok [OF ok assms(1) v length_utree_hash [OF assms(1)]] by auto
    have n: "\<forall>item\<in>set (rev (pf_nodes pf)). proof_node_ok item" "?d \<le> 256"
      using ok by (auto simp: proof_ok_def word_le_nat_alt)
    have S: "climb_pres H key (rev (pf_nodes pf)) ?d leaf \<subseteq> ?S" "leaf_pres H key pf \<subseteq> ?S" "tree_pres H t \<subseteq> ?S"
      using leaf(1) by (auto simp: proof_pres_def)
    obtain s where s: "utree_hash H s = leaf" "tree_wf ?d s" "tree_pres H s \<subseteq> ?S" "tree_lookup key 0 t = tree_lookup key ?d s"
      using climb_sound [OF assms(1,3,2) leaf(3) n(1) leaf(2) n(2) assms(5) S(1,3)] by blast
    show ?thesis
      using leaf_sound [OF assms(1) ok leaf(1) assms(3) s(1,2) assms(5) S(2) s(3)] s(4) ex by (auto split: if_splits)
  qed
  moreover obtain res where "hsk_proof_verify H (utree_hash H t) key pf = Some res"
    using verify_returns [OF ok assms(1)] by blast
  ultimately show ?thesis by auto
qed

text \<open>
  C2. A proof that is accepted tells the truth about the tree its root belongs to: read from any
  octets and checked against the root of a name tree, it never fails an assertion, and if it is
  accepted it says that the key is present exactly when the tree has it, with the resource in the
  value the tree has. The hash function is only asked not to collide on the octet strings that are
  hashed in the tree and in the check.
\<close>

theorem proof_sound:
  assumes "hash_len H" and "tree_wf 0 t" and "length key = 32"
    and "hsk_proof_read d hsk_proof_init = Some (Some (pf, r))"
    and "no_collision H (tree_pres H t \<union> proof_pres H key pf)"
  shows "\<exists>res. hsk_proof_verify H (utree_hash H t) key pf = Some res \<and>
    (\<forall>ex data. res = Inr (ex, data) \<longrightarrow>
      (case tree_lookup key 0 t of None \<Rightarrow> \<not> ex | Some v \<Rightarrow> ex \<and> hsk_parse_namestate v (length v) = Some data))"
  by (rule accepted_truth [OF assms(1-3) read_ok [OF assms(4)] assms(5)])

theorem proof_sound_witness:
  "\<exists>pf. hsk_proof_read (proof_bytes (tree_prove sum_fns (demo_key 0) demo_tree)) hsk_proof_init = Some (Some (pf, [])) \<and>
     hsk_proof_verify sum_fns (utree_hash sum_fns demo_tree) (demo_key 0) pf = Some (Inr (True, [7])) \<and>
     (\<exists>v. tree_lookup (demo_key 0) 0 demo_tree = Some v \<and> hsk_parse_namestate v (length v) = Some [7])"
proof -
  let ?pf = "tree_prove sum_fns (demo_key 0) demo_tree"
  have k: "length (demo_key 0) = 32" by (simp add: demo_key_def)
  have rd: "hsk_proof_read (proof_bytes ?pf) hsk_proof_init = Some (Some (?pf, []))" by code_simp
  have nc: "no_collision sum_fns (tree_pres sum_fns demo_tree \<union> proof_pres sum_fns (demo_key 0) ?pf)" by code_simp
  have v: "hsk_proof_verify sum_fns (utree_hash sum_fns demo_tree) (demo_key 0) ?pf = Some (Inr (True, [7]))" by code_simp
  show ?thesis using proof_sound [OF demo_hash_len demo_tree_wf k rd nc] rd v by (auto split: option.splits)
qed

text \<open>
  C10. Every tree can prove its answer: for each key the proof made from the tree survives the wire,
  and it is accepted for the root of the tree with the value the tree has for the key, or as a
  proof of absence when it has none; only a value that is not a name state is refused.
\<close>

theorem proof_complete:
  assumes "hash_len H" and "tree_wf 0 t" and "length key = 32"
  shows "hsk_proof_read (proof_bytes (tree_prove H key t) @ r) hsk_proof_init = Some (Some (tree_prove H key t, r)) \<and>
    hsk_proof_verify H (utree_hash H t) key (tree_prove H key t) =
      Some (case tree_lookup key 0 t of None \<Rightarrow> Inr (False, [])
        | Some v \<Rightarrow> (case hsk_parse_namestate v (length v) of None \<Rightarrow> Inl HSK_EENCODING | Some res \<Rightarrow> Inr (True, res)))"
proof -
  obtain items pf where p: "tree_path H key 0 t = (items, pf)" by (meson surj_pair)
  have P: "path_ok H key 0 t items pf" using tree_path_ok [OF assms(1,3) _ assms(2) p] by simp
  let ?q = "pf\<lparr>pf_nodes := items\<rparr>"
  have q: "tree_prove H key t = ?q" using p by (simp add: tree_prove_def)
  have C: "proof_canon ?q" using P by (simp add: path_ok_def)
  then have ok: "pf_depth pf \<le> 256" "length items \<le> 256" "unat (pf_value_size pf) \<le> HSK_MAX_DATA_SIZE"
    by (auto simp: proof_canon_def proof_ok_def HSK_MAX_DATA_SIZE_def)
  obtain leaf where leaf: "proof_leaf H key ?q = Some (Inr leaf)"
    "climb H key (rev items) (uint (pf_depth pf)) leaf = Some (Inr (0, utree_hash H t))"
    using P by (auto simp: path_ok_def proof_leaf_nodes)
  have "memcmp (take 32 (utree_hash H t)) (take 32 (utree_hash H t)) = 0" by (simp add: memcmp_eq_0)
  then have "hsk_proof_verify H (utree_hash H t) key ?q =
      Some (case tree_lookup key 0 t of None \<Rightarrow> Inr (False, [])
        | Some v \<Rightarrow> (case hsk_parse_namestate v (length v) of None \<Rightarrow> Inl HSK_EENCODING | Some res \<Rightarrow> Inr (True, res)))"
    using P leaf ok by (auto simp: hsk_proof_verify_def path_ok_def split: option.splits)
  then show ?thesis unfolding q using read_proof_bytes [OF C] by simp
qed

theorem proof_complete_witness:
  "hsk_proof_verify sum_fns (utree_hash sum_fns demo_tree) (demo_key 0x80) (tree_prove sum_fns (demo_key 0x80) demo_tree) =
     Some (Inr (True, [9]))"
proof -
  have k: "length (demo_key 0x80) = 32" by (simp add: demo_key_def)
  have "tree_lookup (demo_key 0x80) 0 demo_tree = Some [0, 1, 0, 9]" "hsk_parse_namestate [0, 1, 0, 9] (length [0, 1, 0, 9 :: u8]) = Some [9]" by code_simp+
  then show ?thesis using proof_complete [OF demo_hash_len demo_tree_wf k] by simp
qed

end
