(* ===== verification/Blocks.thy ===== *)
theory Blocks
  imports Bio
begin

text \<open>
  Hash and authenticator states that take their input in blocks of a fixed size: the blocks that are
  complete are folded into the state and the rest waits for more input. \<^verbatim>\<open>sha256.c\<close>, \<^verbatim>\<open>sha3.c\<close> and
  \<^verbatim>\<open>poly1305.c\<close> keep the rest in a buffer of their own; the lemmas here are what their update functions
  share, and the locale is the contract of such a function.
\<close>

text \<open>Folds every complete block of \<open>B\<close> octets into the state and returns what is left.\<close>

function absorb :: "nat \<Rightarrow> ('h \<Rightarrow> bytes \<Rightarrow> 'h) \<Rightarrow> 'h \<Rightarrow> bytes \<Rightarrow> 'h \<times> bytes" where
  "absorb B f h d = (if B = 0 \<or> length d < B then (h, d) else absorb B f (f h (take B d)) (drop B d))"
  by pat_completeness auto
termination by (relation "measure (\<lambda>(B, f, h, d). length d)") auto

declare absorb.simps [simp del]

lemma absorb_short [simp]: "length d < B \<Longrightarrow> absorb B f h d = (h, d)"
  by (simp add: absorb.simps)

lemma absorb_step: "0 < B \<Longrightarrow> B \<le> length d \<Longrightarrow> absorb B f h d = absorb B f (f h (take B d)) (drop B d)"
  by (rule trans [OF absorb.simps]) simp

lemma absorb_block [simp]: "length b = B \<Longrightarrow> 0 < B \<Longrightarrow> absorb B f h (b @ d) = absorb B f (f h b) d"
  by (simp add: absorb_step)

lemma absorb_full [simp]: "length b = B \<Longrightarrow> 0 < B \<Longrightarrow> absorb B f h b = (f h b, [])"
  by (simp add: absorb_step)

lemma absorb_append:
  "0 < B \<Longrightarrow> absorb B f h (a @ b) = (case absorb B f h a of (h', r) \<Rightarrow> absorb B f h' (r @ b))"
proof (induction B f h a rule: absorb.induct)
  case (1 B f h d)
  show ?case
  proof (cases "length d < B")
    case False
    then have "absorb B f h (d @ b) = absorb B f (f h (take B d)) (drop B d @ b)"
      "absorb B f h d = absorb B f (f h (take B d)) (drop B d)"
      using 1(2) by (simp_all add: absorb_step [of B "d @ b"] absorb_step [of B d])
    then show ?thesis using 1 False by simp
  qed simp
qed

lemma absorb_rest: "0 < B \<Longrightarrow> snd (absorb B f h d) = drop (length d - length d mod B) d"
proof (induction B f h d rule: absorb.induct)
  case (1 B f h d)
  show ?case
  proof (cases "length d < B")
    case False
    let ?n = "length d"
    have m: "(?n - B) mod B = ?n mod B" using False by (simp add: le_mod_geq)
    moreover have "(?n - B) mod B \<le> ?n - B" by (rule mod_less_eq_dividend)
    ultimately have "?n - B - ?n mod B + B = ?n - ?n mod B" using False by linarith
    then show ?thesis using 1 False m by (simp add: absorb_step [of B d])
  qed simp
qed

lemma length_absorb: "0 < B \<Longrightarrow> length (snd (absorb B f h d)) = length d mod B"
  by (simp add: absorb_rest)

text \<open>
  The contract of a buffered update: \<open>abs\<close> reads the state and the octets that wait in the buffer.
\<close>

locale buffered =
  fixes B :: nat
    and step :: "'h \<Rightarrow> bytes \<Rightarrow> 'h"
    and ok :: "'c \<Rightarrow> bool"
    and abs :: "'c \<Rightarrow> 'h \<times> bytes"
    and update :: "'a \<Rightarrow> 'c \<Rightarrow> bytes \<Rightarrow> 'c"
  assumes block: "0 < B"
    and update_ok: "ok c \<Longrightarrow> ok (update a c d)"
    and update_abs: "ok c \<Longrightarrow> abs (update a c d) = (case abs c of (h, r) \<Rightarrow> absorb B step h (r @ d))"
begin

text \<open>Any split of the input gives the state of the whole input.\<close>

lemma update_all:
  "ok c \<Longrightarrow> abs c = absorb B step h d \<Longrightarrow>
   ok (fold (\<lambda>(a, x) c. update a c x) xs c) \<and>
   abs (fold (\<lambda>(a, x) c. update a c x) xs c) = absorb B step h (d @ concat (map snd xs))"
proof (induction xs arbitrary: c d)
  case (Cons x xs)
  obtain a y where x: "x = (a, y)" by fastforce
  have "abs (update a c y) = absorb B step h (d @ y)"
    unfolding update_abs [OF Cons.prems(1)] Cons.prems(2) absorb_append [OF block, of step h d y] ..
  then show ?case using Cons.IH [of "update a c y" "d @ y"] update_ok [OF Cons.prems(1)] by (simp add: x)
qed simp

end

end
