(* ===== verification/Sha256.thy ===== *)
theory Sha256
  imports Blocks
begin

text \<open>
  \<^verbatim>\<open>sha256.c\<close>: SHA-256 with a context that takes its message in pieces. The buffer of sixteen words is
  the 64 octets of its memory (the code's little-endian branch); \<^verbatim>\<open>digest_length\<close> is always 32.
\<close>

record hsk_sha256_ctx =
  sha_message :: bytes
  sha_length :: u64
  sha_hash :: "u32 list"

definition bswap_32 :: "u32 \<Rightarrow> u32" where
  "bswap_32 x = (let x = (push_bit 8 x AND 0xFF00FF00) OR (drop_bit 8 x AND 0x00FF00FF)
                 in drop_bit 16 x OR push_bit 16 x)"

definition ROTR32 :: "u32 \<Rightarrow> nat \<Rightarrow> u32" where
  "ROTR32 dword n = drop_bit n dword XOR push_bit (32 - n) dword"

definition k256 :: "u32 list" where
  "k256 =
    [0x428A2F98, 0x71374491, 0xB5C0FBCF, 0xE9B5DBA5, 0x3956C25B, 0x59F111F1,
     0x923F82A4, 0xAB1C5ED5, 0xD807AA98, 0x12835B01, 0x243185BE, 0x550C7DC3,
     0x72BE5D74, 0x80DEB1FE, 0x9BDC06A7, 0xC19BF174, 0xE49B69C1, 0xEFBE4786,
     0x0FC19DC6, 0x240CA1CC, 0x2DE92C6F, 0x4A7484AA, 0x5CB0A9DC, 0x76F988DA,
     0x983E5152, 0xA831C66D, 0xB00327C8, 0xBF597FC7, 0xC6E00BF3, 0xD5A79147,
     0x06CA6351, 0x14292967, 0x27B70A85, 0x2E1B2138, 0x4D2C6DFC, 0x53380D13,
     0x650A7354, 0x766A0ABB, 0x81C2C92E, 0x92722C85, 0xA2BFE8A1, 0xA81A664B,
     0xC24B8B70, 0xC76C51A3, 0xD192E819, 0xD6990624, 0xF40E3585, 0x106AA070,
     0x19A4C116, 0x1E376C08, 0x2748774C, 0x34B0BCB5, 0x391C0CB3, 0x4ED8AA4A,
     0x5B9CCA4F, 0x682E6FF3, 0x748F82EE, 0x78A5636F, 0x84C87814, 0x8CC70208,
     0x90BEFFFA, 0xA4506CEB, 0xBEF9A3F7, 0xC67178F2]"

definition sha_Ch :: "u32 \<Rightarrow> u32 \<Rightarrow> u32 \<Rightarrow> u32" where
  "sha_Ch x y z = z XOR (x AND (y XOR z))"

definition sha_Maj :: "u32 \<Rightarrow> u32 \<Rightarrow> u32 \<Rightarrow> u32" where
  "sha_Maj x y z = (x AND y) XOR (z AND (x XOR y))"

definition sha_Sigma0 :: "u32 \<Rightarrow> u32" where
  "sha_Sigma0 x = ROTR32 x 2 XOR ROTR32 x 13 XOR ROTR32 x 22"

definition sha_Sigma1 :: "u32 \<Rightarrow> u32" where
  "sha_Sigma1 x = ROTR32 x 6 XOR ROTR32 x 11 XOR ROTR32 x 25"

definition sha_sigma0 :: "u32 \<Rightarrow> u32" where
  "sha_sigma0 x = ROTR32 x 7 XOR ROTR32 x 18 XOR drop_bit 3 x"

definition sha_sigma1 :: "u32 \<Rightarrow> u32" where
  "sha_sigma1 x = ROTR32 x 17 XOR ROTR32 x 19 XOR drop_bit 10 x"

definition RECALCULATE_W :: "u32 list \<Rightarrow> nat \<Rightarrow> u32 list" where
  "RECALCULATE_W W n =
     W[n := W ! n + (sha_sigma1 (W ! ((n + 14) mod 16)) + W ! ((n + 9) mod 16) + sha_sigma0 (W ! ((n + 1) mod 16)))]"

text \<open>
  The macro \<^verbatim>\<open>ROUND\<close>. The code renames the registers from round to round where the model moves them.
\<close>

type_synonym sha_regs = "u32 \<times> u32 \<times> u32 \<times> u32 \<times> u32 \<times> u32 \<times> u32 \<times> u32"

fun sha_ROUND :: "sha_regs \<Rightarrow> u32 \<Rightarrow> u32 \<Rightarrow> sha_regs" where
  "sha_ROUND (a, b, c, d, e, f, g, h) k data =
     (let T1 = h + sha_Sigma1 e + sha_Ch e f g + k + data
      in (T1 + sha_Sigma0 a + sha_Maj a b c, a, b, c, d + T1, e, f, g))"

definition hsk_sha256_init :: hsk_sha256_ctx where
  "hsk_sha256_init = \<lparr>sha_message = replicate 64 0, sha_length = 0,
     sha_hash = [0x6a09e667, 0xbb67ae85, 0x3c6ef372, 0xa54ff53a, 0x510e527f, 0x9b05688c, 0x1f83d9ab, 0x5be0cd19]\<rparr>"

fun round_1_16 :: "bytes \<Rightarrow> nat \<Rightarrow> sha_regs \<times> u32 list \<Rightarrow> sha_regs \<times> u32 list" where
  "round_1_16 block n (r, W) =
     (let W = W[n := bswap_32 (get_u32 (drop (4 * n) block))] in (sha_ROUND r (k256 ! n) (W ! n), W))"

fun round_17_64 :: "nat \<Rightarrow> sha_regs \<times> u32 list \<Rightarrow> sha_regs \<times> u32 list" where
  "round_17_64 i (r, W) =
     (let n = i mod 16; W = RECALCULATE_W W n in (sha_ROUND r (k256 ! i) (W ! n), W))"

definition hsk_sha256_process_block :: "u32 list \<Rightarrow> bytes \<Rightarrow> u32 list" where
  "hsk_sha256_process_block hash block =
     (let s = ((hash ! 0, hash ! 1, hash ! 2, hash ! 3, hash ! 4, hash ! 5, hash ! 6, hash ! 7), replicate 16 0);
          s = fold (round_1_16 block) [0..<16] s;
          ((A, B, C, D, E, F, G, H), W) = fold round_17_64 [16..<64] s
      in [hash ! 0 + A, hash ! 1 + B, hash ! 2 + C, hash ! 3 + D,
          hash ! 4 + E, hash ! 5 + F, hash ! 6 + G, hash ! 7 + H])"

text \<open>\<^verbatim>\<open>memcpy\<close> into a buffer.\<close>

definition blit :: "bytes \<Rightarrow> nat \<Rightarrow> bytes \<Rightarrow> bytes" where
  "blit buf i d = take i buf @ d @ drop (i + length d) buf"

text \<open>
  The loop over whole blocks. \<open>aligned\<close> says whether the address of the message is a multiple of four;
  if not, each block is copied to the buffer first.
\<close>

function sha_blocks :: "bool \<Rightarrow> hsk_sha256_ctx \<Rightarrow> bytes \<Rightarrow> hsk_sha256_ctx \<times> bytes" where
  "sha_blocks aligned ctx msg =
     (if length msg < 64 then (ctx, msg)
      else let ctx = (if aligned then ctx else ctx\<lparr>sha_message := blit (sha_message ctx) 0 (take 64 msg)\<rparr>);
               ctx = ctx\<lparr>sha_hash := hsk_sha256_process_block (sha_hash ctx) (take 64 msg)\<rparr>
           in sha_blocks aligned ctx (drop 64 msg))"
  by pat_completeness auto
termination by (relation "measure (\<lambda>(_, _, msg). length msg)") auto

text \<open>Completes the block in the buffer, if one was begun and the message suffices.\<close>

definition sha_fill :: "hsk_sha256_ctx \<Rightarrow> nat \<Rightarrow> bytes \<Rightarrow> hsk_sha256_ctx \<times> bytes" where
  "sha_fill ctx index msg =
     (if index = 0 then (ctx, msg)
      else let left = 64 - index; m = blit (sha_message ctx) index (take left msg)
           in (ctx\<lparr>sha_message := m, sha_hash := hsk_sha256_process_block (sha_hash ctx) m\<rparr>, drop left msg))"

definition hsk_sha256_update :: "bool \<Rightarrow> hsk_sha256_ctx \<Rightarrow> bytes \<Rightarrow> hsk_sha256_ctx" where
  "hsk_sha256_update aligned ctx msg =
     (let index = unat (sha_length ctx AND 63);
          ctx = ctx\<lparr>sha_length := sha_length ctx + of_nat (length msg)\<rparr>
      in if index \<noteq> 0 \<and> length msg < 64 - index then ctx\<lparr>sha_message := blit (sha_message ctx) index msg\<rparr>
         else let (ctx, msg) = sha_fill ctx index msg;
                  (ctx, msg) = sha_blocks aligned ctx msg
              in if msg = [] then ctx else ctx\<lparr>sha_message := blit (sha_message ctx) 0 msg\<rparr>)"

text \<open>A store to a word of the buffer, in little-endian memory.\<close>

definition put_word :: "bytes \<Rightarrow> nat \<Rightarrow> u32 \<Rightarrow> bytes" where
  "put_word buf i w = blit buf (4 * i) (emit (write_u32 w))"

definition hsk_sha256_final :: "hsk_sha256_ctx \<Rightarrow> bytes" where
  "hsk_sha256_final ctx =
     (let index = unat (sha_length ctx AND 63) div 4;
          shift = unat (sha_length ctx AND 3) * 8;
          m = sha_message ctx;
          m = put_word m index (get_u32 (drop (4 * index) m) AND NOT (push_bit shift 0xFFFFFFFF));
          m = put_word m index (get_u32 (drop (4 * index) m) XOR push_bit shift 0x80);
          index = index + 1;
          (hash, m, index) =
            (if index > 14
             then (hsk_sha256_process_block (sha_hash ctx) (fold (\<lambda>i m. put_word m i 0) [index..<16] m),
                   fold (\<lambda>i m. put_word m i 0) [index..<16] m, 0)
             else (sha_hash ctx, m, index));
          m = fold (\<lambda>i m. put_word m i 0) [index..<14] m;
          m = put_word m 14 (bswap_32 (ucast (drop_bit 29 (sha_length ctx))));
          m = put_word m 15 (bswap_32 (ucast (push_bit 3 (sha_length ctx))));
          hash = hsk_sha256_process_block hash m
      in concat (map (\<lambda>w. emit (write_u32 (bswap_32 w))) hash))"

section \<open>The digest of the standard\<close>

text \<open>The message with its padding and length, and the fold of the compression over its blocks.\<close>

definition sha256_pad :: "bytes \<Rightarrow> bytes" where
  "sha256_pad msg = msg @ [0x80] @ replicate ((119 - length msg mod 64) mod 64) 0 @ emit (write_u64be (of_nat (8 * length msg)))"

definition sha256 :: "bytes \<Rightarrow> bytes" where
  "sha256 msg = concat (map (\<lambda>w. emit (write_u32be w))
     (fst (absorb 64 hsk_sha256_process_block (sha_hash hsk_sha256_init) (sha256_pad msg))))"

section \<open>Updating\<close>

definition sha_ok :: "hsk_sha256_ctx \<Rightarrow> bool" where
  "sha_ok ctx \<longleftrightarrow> length (sha_message ctx) = 64"

definition sha_abs :: "hsk_sha256_ctx \<Rightarrow> u32 list \<times> bytes" where
  "sha_abs ctx = (sha_hash ctx, take (unat (sha_length ctx AND 63)) (sha_message ctx))"

lemma length_blit [simp]: "i + length d \<le> length b \<Longrightarrow> length (blit b i d) = length b"
  by (simp add: blit_def)

lemma take_blit: "i + length d \<le> length b \<Longrightarrow> take (i + length d) (blit b i d) = take i b @ d"
  by (simp add: blit_def)

lemma index_mod: "unat (w AND 63 :: u64) = unat w mod 64"
  using take_bit_eq_mask [of 6 w] unat_take_bit [of 6 w] by (simp add: mask_eq_exp_minus_1 and.commute)

lemma sha_index_add: "unat (w + of_nat n AND 63 :: u64) = (unat (w AND 63) + n) mod 64"
proof -
  have "(unat w + n) mod 18446744073709551616 mod 64 = (unat w mod 64 + n) mod 64"
    by (simp add: mod_mod_cancel mod_add_left_eq)
  then show ?thesis by (simp add: index_mod unat_word_ariths unsigned_of_nat take_bit_eq_mod mod_add_right_eq)
qed

declare sha_blocks.simps [simp del]

lemma sha_blocks_absorb:
  "length (sha_message ctx) = 64 \<Longrightarrow>
   \<exists>m. length m = 64 \<and> sha_blocks al ctx d =
     (ctx\<lparr>sha_message := m, sha_hash := fst (absorb 64 hsk_sha256_process_block (sha_hash ctx) d)\<rparr>,
      snd (absorb 64 hsk_sha256_process_block (sha_hash ctx) d))"
proof (induction al ctx d rule: sha_blocks.induct)
  case (1 al ctx d)
  show ?case
  proof (cases "length d < 64")
    case True
    then show ?thesis using 1(2) by (intro exI [of _ "sha_message ctx"]) (simp add: sha_blocks.simps)
  next
    case False
    then have ab: "absorb 64 f h d = absorb 64 f (f h (take 64 d)) (drop 64 d)" for f :: "u32 list \<Rightarrow> bytes \<Rightarrow> u32 list" and h
      by (simp add: absorb_step)
    show ?thesis
      using 1(1) [OF False refl refl] 1(2) False
      by (subst sha_blocks.simps) (auto simp: ab Let_def)
  qed
qed

lemma update_sha:
  assumes "sha_ok ctx"
  shows "sha_ok (hsk_sha256_update al ctx d)"
    and "sha_abs (hsk_sha256_update al ctx d) =
      (case sha_abs ctx of (h, r) \<Rightarrow> absorb 64 hsk_sha256_process_block h (r @ d))"
    and "sha_length (hsk_sha256_update al ctx d) = sha_length ctx + of_nat (length d)"
proof -
  let ?P = "hsk_sha256_process_block" and ?i = "unat (sha_length ctx AND 63)"
  let ?r = "take ?i (sha_message ctx)"
  have m: "length (sha_message ctx) = 64" using assms by (simp add: sha_ok_def)
  have i: "?i < 64" by (simp add: index_mod)
  then have r: "length ?r = ?i" using m by simp
  have all: "sha_ok (hsk_sha256_update al ctx d) \<and>
      sha_abs (hsk_sha256_update al ctx d) = absorb 64 ?P (sha_hash ctx) (?r @ d) \<and>
      sha_length (hsk_sha256_update al ctx d) = sha_length ctx + of_nat (length d)"
  proof (cases "?i \<noteq> 0 \<and> length d < 64 - ?i")
    case True
    then have lt: "?i + length d < 64" by linarith
    then have "take (?i + length d) (blit (sha_message ctx) ?i d) = ?r @ d" "(?i + length d) mod 64 = ?i + length d"
      "length (?r @ d) < 64"
      using m r by (simp_all add: take_blit)
    then show ?thesis using True m
      by (simp add: hsk_sha256_update_def Let_def sha_ok_def sha_abs_def sha_index_add del: take_append length_append)
  next
    case False
    obtain c e where ce: "sha_fill (ctx\<lparr>sha_length := sha_length ctx + of_nat (length d)\<rparr>) ?i d = (c, e)" by fastforce
    have c: "length (sha_message c) = 64 \<and> sha_length c = sha_length ctx + of_nat (length d) \<and>
        absorb 64 ?P (sha_hash c) e = absorb 64 ?P (sha_hash ctx) (?r @ d)"
    proof (cases "?i = 0")
      case True
      then show ?thesis using ce m by (auto simp: sha_fill_def)
    next
      case n0: False
      let ?m = "blit (sha_message ctx) ?i (take (64 - ?i) d)"
      have "64 - ?i \<le> length d" using False n0 by simp
      then have "?m = ?r @ take (64 - ?i) d" "length ?m = 64" using m i by (simp_all add: blit_def)
      then have "absorb 64 ?P (sha_hash ctx) (?r @ d) = absorb 64 ?P (?P (sha_hash ctx) ?m) (drop (64 - ?i) d)"
        using absorb_block [of ?m 64 ?P "sha_hash ctx" "drop (64 - ?i) d"] by (metis append.assoc append_take_drop_id zero_less_numeral)
      then show ?thesis using ce n0 \<open>length ?m = 64\<close> by (auto simp: sha_fill_def Let_def)
    qed
    obtain m' where m': "length m' = 64" "sha_blocks al c e =
        (c\<lparr>sha_message := m', sha_hash := fst (absorb 64 ?P (sha_hash c) e)\<rparr>, snd (absorb 64 ?P (sha_hash c) e))"
      using sha_blocks_absorb c by blast
    obtain h q where hq: "absorb 64 ?P (sha_hash ctx) (?r @ d) = (h, q)" by fastforce
    have q: "length q = (?i + length d) mod 64"
      using length_absorb [of 64 ?P "sha_hash ctx" "?r @ d"] hq r by simp
    then have "length q < 64" by simp
    then have tq: "take ((?i + length d) mod 64) (blit m' 0 q) = q"
      using take_blit [of 0 q m'] m'(1) q by simp
    have "hsk_sha256_update al ctx d =
        (if q = [] then c\<lparr>sha_message := m', sha_hash := h\<rparr>
         else c\<lparr>sha_message := blit m' 0 q, sha_hash := h\<rparr>)"
      using False ce m'(2) c hq unfolding hsk_sha256_update_def Let_def by (subst if_not_P) auto
    then show ?thesis using c q hq m'(1) \<open>length q < 64\<close>
      by (auto simp: sha_ok_def sha_abs_def sha_index_add tq)
  qed
  then show "sha_ok (hsk_sha256_update al ctx d)"
    "sha_abs (hsk_sha256_update al ctx d) = (case sha_abs ctx of (h, r) \<Rightarrow> absorb 64 ?P h (r @ d))"
    "sha_length (hsk_sha256_update al ctx d) = sha_length ctx + of_nat (length d)"
    by (simp_all only: sha_abs_def [of ctx] prod.case)
qed

interpretation sha: buffered 64 hsk_sha256_process_block sha_ok sha_abs hsk_sha256_update
  by unfold_locales (simp_all add: update_sha)

section \<open>The last blocks\<close>

lemma bit_u8_beyond [simp]: "8 \<le> n \<Longrightarrow> \<not> bit (w :: u8) n"
  by (auto dest: bit_imp_le_length)

lemma emit_get: "length d = 4 \<Longrightarrow> emit (write_u32 (get_u32 d)) = d"
proof -
  assume "length d = 4"
  then obtain a b c e where "d = [a, b, c, e]" by (auto simp: numeral_eq_Suc length_Suc_conv)
  then show ?thesis
    by (auto simp: get_u32_def write_u32_def emit_put intro!: bit_word_eqI simp: bit_simps)
qed

lemma mark_word_bits:
  fixes M X :: u32 and x :: u8
  assumes "length d = 4" and "k < 4" and M: "\<And>n. bit M n \<longleftrightarrow> n < 32" and X: "\<And>n. bit X n \<longleftrightarrow> n = 7" and x: "\<And>n. bit x n \<longleftrightarrow> n = 7"
  shows "emit (write_u32 ((get_u32 d AND NOT (push_bit (k * 8) M)) XOR push_bit (k * 8) X)) = take k d @ [x] @ replicate (3 - k) 0"
proof -
  obtain a b c e where d: "d = [a, b, c, e]" using assms(1) by (auto simp: numeral_eq_Suc length_Suc_conv)
  have zeros: "replicate 3 (0 :: u8) = [0, 0, 0]" "replicate 2 (0 :: u8) = [0, 0]" by (simp_all add: numeral_eq_Suc)
  have "k = 0 \<or> k = 1 \<or> k = 2 \<or> k = 3" using assms(2) by linarith
  then show ?thesis
    unfolding d get_u32_def write_u32_def emit_put
    by (elim disjE) (auto intro!: bit_word_eqI simp: bit_simps M X x zeros)
qed

lemma mark_word:
  assumes "length d = 4" and "k < 4"
  shows "emit (write_u32 ((get_u32 d AND NOT (push_bit (k * 8) 0xFFFFFFFF)) XOR push_bit (k * 8) 0x80)) = take k d @ [0x80] @ replicate (3 - k) 0"
proof (rule mark_word_bits [OF assms])
  have "(0xFFFFFFFF :: u32) = mask 32" "(0x80 :: u32) = push_bit 7 1" "(0x80 :: u8) = push_bit 7 1"
    by (simp_all add: mask_eq_exp_minus_1)
  then show "bit (0xFFFFFFFF :: u32) n \<longleftrightarrow> n < 32" "bit (0x80 :: u32) n \<longleftrightarrow> n = 7" "bit (0x80 :: u8) n \<longleftrightarrow> n = 7" for n
    by (simp_all only: bit_mask_iff bit_push_bit_iff bit_1_iff) auto
qed

lemma put_word_at:
  assumes "length m = 64" and "i < 16"
  shows "put_word m i w = take (4 * i) m @ emit (write_u32 w) @ drop (4 * i + 4) m" "length (put_word m i w) = 64"
  using assms by (simp_all add: put_word_def blit_def)

lemma put_zeros:
  "length m = 64 \<Longrightarrow> i \<le> j \<Longrightarrow> j \<le> 16 \<Longrightarrow>
   fold (\<lambda>i m. put_word m i 0) [i..<j] m = take (4 * i) m @ replicate (4 * (j - i)) 0 @ drop (4 * j) m"
proof (induction "j - i" arbitrary: i m)
  case (Suc n)
  then have lt: "i < 16" "i < j" by linarith+
  have zero: "emit (write_u32 0) = replicate 4 0" by (simp add: write_u32_def emit_put numeral_eq_Suc)
  have fours: "4 * (j - i) = 4 + 4 * (j - Suc i)" using lt by linarith
  have "fold (\<lambda>i m. put_word m i 0) [i..<j] m = fold (\<lambda>i m. put_word m i 0) [Suc i..<j] (put_word m i 0)"
    using lt(2) by (simp add: upt_conv_Cons)
  also have "\<dots> = take (4 * Suc i) (put_word m i 0) @ replicate (4 * (j - Suc i)) 0 @ drop (4 * j) (put_word m i 0)"
    using Suc.hyps(2) Suc.prems lt put_word_at(2) [OF Suc.prems(1) lt(1)] by (intro Suc.hyps(1)) auto
  also have "take (4 * Suc i) (put_word m i 0) = take (4 * i) m @ replicate 4 0"
    using Suc.prems lt zero by (simp add: put_word_at)
  also have "drop (4 * j) (put_word m i 0) = drop (4 * j) m"
    using Suc.prems lt by (simp add: put_word_at)
  also have "(take (4 * i) m @ replicate 4 0) @ replicate (4 * (j - Suc i)) 0 @ drop (4 * j) m =
      take (4 * i) m @ replicate (4 * (j - i)) 0 @ drop (4 * j) m"
    using fours by (metis append.assoc replicate_add)
  finally show ?case .
qed (auto simp: append_assoc [symmetric])

lemma bswap_bits:
  fixes M N :: u32
  assumes M: "\<And>n. bit M n \<longleftrightarrow> 8 \<le> n \<and> n < 16 \<or> 24 \<le> n \<and> n < 32" and N: "\<And>n. bit N n \<longleftrightarrow> n < 8 \<or> 16 \<le> n \<and> n < 24"
  shows "emit (write_u32 (let x = (push_bit 8 x AND M) OR (drop_bit 8 x AND N) in drop_bit 16 x OR push_bit 16 x)) = emit (write_u32be x)"
  unfolding write_u32_def write_u32be_def emit_put Let_def
  by (auto intro!: bit_word_eqI simp: bit_simps M N)

lemma emit_bswap: "emit (write_u32 (bswap_32 w)) = emit (write_u32be w)"
  unfolding bswap_32_def
proof (rule bswap_bits)
  have "(0xFF00FF00 :: u32) = push_bit 8 (mask 8) OR push_bit 24 (mask 8)" "(0x00FF00FF :: u32) = mask 8 OR push_bit 16 (mask 8)"
    by (simp_all add: mask_eq_exp_minus_1)
  then show "bit (0xFF00FF00 :: u32) n \<longleftrightarrow> 8 \<le> n \<and> n < 16 \<or> 24 \<le> n \<and> n < 32" "bit (0x00FF00FF :: u32) n \<longleftrightarrow> n < 8 \<or> 16 \<le> n \<and> n < 24" for n
    by (simp_all only: bit_or_iff bit_push_bit_iff bit_mask_iff) auto
qed

lemma length_words: "emit (write_u32be (ucast (drop_bit 29 w))) @ emit (write_u32be (ucast (push_bit 3 w))) = emit (write_u64be (push_bit 3 w))"
  unfolding write_u32be_def write_u64be_def emit_put
  by (auto intro!: bit_word_eqI simp: bit_simps)

lemma last_block:
  assumes "length m = 64" and "j \<le> 14" and "take (4 * j) m = d"
  shows "put_word (put_word (fold (\<lambda>i m. put_word m i 0) [j..<14] m) 14 (bswap_32 (ucast (drop_bit 29 w)))) 15 (bswap_32 (ucast (push_bit 3 w))) =
    d @ replicate (56 - 4 * j) 0 @ emit (write_u64be (push_bit 3 w))"
proof -
  let ?z = "fold (\<lambda>i m. put_word m i 0) [j..<14] m"
  have z: "?z = d @ replicate (56 - 4 * j) 0 @ drop 56 m"
    using put_zeros [of m j 14] assms by (simp add: diff_mult_distrib2)
  have len: "length (d @ replicate (56 - 4 * j) 0) = 56" "length ?z = 64"
    using assms z by auto
  then show ?thesis
    using put_word_at [of ?z 14] put_word_at [of "put_word ?z 14 (bswap_32 (ucast (drop_bit 29 w)))" 15] z
    by (simp add: emit_bswap length_words [symmetric])
qed

lemma get_emit: "get_u32 (emit (write_u32 w) @ x) = w"
  by (simp add: get_u32_def write_u32_def emit_put word_join)

lemma mark_block:
  assumes "length m = 64" and "i < 64"
  defines "k \<equiv> i div 4" and "j \<equiv> i mod 4"
  defines "m0 \<equiv> put_word m k (get_u32 (drop (4 * k) m) AND NOT (push_bit (j * 8) 0xFFFFFFFF))"
  shows "put_word m0 k (get_u32 (drop (4 * k) m0) XOR push_bit (j * 8) 0x80) =
    take i m @ [0x80] @ replicate (3 - j) 0 @ drop (4 * k + 4) m"
proof -
  let ?q = "take 4 (drop (4 * k) m)"
  let ?w = "get_u32 ?q AND NOT (push_bit (j * 8) 0xFFFFFFFF)"
  have k: "k < 16" "j < 4" "4 * k + j = i" using assms(2) by (simp_all add: k_def j_def)
  have q: "length ?q = 4" using assms(1) k(1) by simp
  have "get_u32 ?q = get_u32 (drop (4 * k) m)" using q by (simp add: get_u32_def)
  then have m0: "m0 = take (4 * k) m @ emit (write_u32 ?w) @ drop (4 * k + 4) m" "length m0 = 64"
    unfolding m0_def using put_word_at [OF assms(1) k(1)] by simp_all
  then have "get_u32 (drop (4 * k) m0) = ?w" using assms(1) k(1) by (simp add: get_emit)
  then have "put_word m0 k (get_u32 (drop (4 * k) m0) XOR push_bit (j * 8) 0x80) =
      take (4 * k) m @ take j ?q @ [0x80] @ replicate (3 - j) 0 @ drop (4 * k + 4) m"
    using put_word_at(1) [OF m0(2) k(1)] m0(1) assms(1) k(1) mark_word [OF q k(2)] by simp
  also have "take (4 * k) m @ take j ?q @ x = take i m @ x" for x
    using k(2,3) by (metis append.assoc min.absorb2 less_imp_le take_add take_take min.commute)
  finally show ?thesis .
qed

lemma word_end:
  fixes k j i :: nat
  shows "4 * k + j = i \<Longrightarrow> j < 4 \<Longrightarrow> i + (0 + Suc 0 + (3 - j)) = 4 * Suc k"
  by presburger

lemma pad_zeros:
  fixes i k j :: nat
  assumes "4 * k + j = i" and "j < 4" and "i < 64"
  shows "14 < Suc k \<Longrightarrow> (119 - i) mod 64 = 63 - i + 56"
    and "\<not> 14 < Suc k \<Longrightarrow> (119 - i) mod 64 = 3 - j + (56 - 4 * Suc k)"
proof -
  assume "14 < Suc k"
  then have i: "56 \<le> i" using assms by linarith
  then have "119 - i < 64" by linarith
  then have "(119 - i) mod 64 = 119 - i" by (rule mod_less)
  also have "\<dots> = 63 - i + 56" using assms(3) by simp
  finally show "(119 - i) mod 64 = 63 - i + 56" .
next
  assume "\<not> 14 < Suc k"
  then have i: "i < 56" "Suc k \<le> 14" using assms(1,2) by simp_all
  then have "119 - i = 64 + (55 - i)" by simp
  then have "(119 - i) mod 64 = (55 - i) mod 64" by (simp only: mod_add_self1)
  also have "\<dots> = 55 - i" by (rule mod_less) simp
  also have "\<dots> = 3 - j + (56 - 4 * Suc k)" using assms i by simp
  finally show "(119 - i) mod 64 = 3 - j + (56 - 4 * Suc k)" .
qed

lemma final_sha:
  assumes "sha_ok c" and "sha_abs c = absorb 64 hsk_sha256_process_block (sha_hash hsk_sha256_init) msg"
    and "sha_length c = of_nat (length msg)"
  shows "hsk_sha256_final c = sha256 msg"
proof -
  let ?P = "hsk_sha256_process_block" and ?i = "length msg mod 64" and ?m = "sha_message c" and ?w = "sha_length c"
  let ?k = "?i div 4" and ?j = "?i mod 4" and ?be = "emit (write_u64be (of_nat (8 * length msg)))"
  obtain h r where hr: "absorb 64 ?P (sha_hash hsk_sha256_init) msg = (h, r)" by fastforce
  have i: "unat (?w AND 63) = ?i" "unat (?w AND 3) = ?j"
    using take_bit_eq_mask [of 2 ?w] unat_take_bit [of 2 ?w] assms(3)
    by (simp_all add: index_mod unsigned_of_nat take_bit_eq_mod mod_mod_cancel mask_eq_exp_minus_1 and.commute)
  have m: "length ?m = 64" "h = sha_hash c" "r = take ?i ?m" "?i < 64" "?k < 16"
    using assms(1,2) hr i by (auto simp: sha_ok_def sha_abs_def)
  have be: "push_bit 3 ?w = of_nat (8 * length msg)" by (simp add: assms(3) push_bit_eq_mult)
  have ij: "4 * ?k + ?j = ?i" "?j < 4" by simp_all
  define m1 where "m1 = r @ [0x80] @ replicate (3 - ?j) 0 @ drop (4 * ?k + 4) ?m"
  have lr: "length r = ?i" using m(1,3,4) by simp
  have len: "length (r @ [0x80] @ replicate (3 - ?j) (0 :: u8)) = 4 * Suc ?k"
  proof -
    show ?thesis unfolding lr length_append length_replicate list.size by (simp only: word_end [OF ij])
  qed
  define q where "q = r @ [0x80] @ replicate (3 - ?j) (0 :: u8)"
  have "m1 = q @ drop (4 * ?k + 4) ?m" "length q = 4 * Suc ?k" using len by (simp_all only: m1_def q_def append_assoc)
  then have m1: "length m1 = 64" "take (4 * Suc ?k) m1 = r @ [0x80] @ replicate (3 - ?j) 0"
    using m(1,5) unfolding q_def [symmetric] by simp_all
  have pad: "absorb 64 ?P (sha_hash hsk_sha256_init) (sha256_pad msg) = absorb 64 ?P h (r @ [0x80] @ replicate ((119 - ?i) mod 64) 0 @ ?be)"
    unfolding sha256_pad_def absorb_append [of 64 ?P _ msg, simplified] hr by simp
  have fin: "hsk_sha256_final c =
      (let (hash, m, index) = (if Suc ?k > 14
             then (?P h (fold (\<lambda>i m. put_word m i 0) [Suc ?k..<16] m1), fold (\<lambda>i m. put_word m i 0) [Suc ?k..<16] m1, 0)
             else (h, m1, Suc ?k))
       in concat (map (\<lambda>w. emit (write_u32be w)) (?P hash (put_word (put_word (fold (\<lambda>i m. put_word m i 0) [index..<14] m)
            14 (bswap_32 (ucast (drop_bit 29 ?w)))) 15 (bswap_32 (ucast (push_bit 3 ?w)))))))"
    using mark_block [OF m(1,4)] by (simp add: hsk_sha256_final_def Let_def i m(2,3) m1_def emit_bswap)
  have dig: "hsk_sha256_final c = concat (map (\<lambda>w. emit (write_u32be w)) (fst (absorb 64 ?P h (r @ [0x80] @ replicate ((119 - ?i) mod 64) 0 @ ?be))))"
  proof (cases "Suc ?k > 14")
    case True
    let ?b = "r @ [0x80] @ replicate (63 - ?i) 0"
    have "fold (\<lambda>i m. put_word m i 0) [Suc ?k..<16] m1 = (r @ [0x80] @ replicate (3 - ?j) 0) @ replicate (4 * (16 - Suc ?k)) 0"
      using put_zeros [OF m1(1), of "Suc ?k" 16] m1 m(5) by simp
    also have "\<dots> = r @ [0x80] @ replicate (3 - ?j + 4 * (16 - Suc ?k)) 0" by (simp only: replicate_add append_assoc)
    also have "3 - ?j + 4 * (16 - Suc ?k) = 63 - ?i" using ij m(5) by linarith
    finally have b: "fold (\<lambda>i m. put_word m i 0) [Suc ?k..<16] m1 = ?b" .
    have lb: "length ?b = 64" using m(1,3,4) by simp
    have "(119 - ?i) mod 64 = 63 - ?i + 56" by (rule pad_zeros(1) [OF ij m(4) True])
    then have eq: "r @ [0x80] @ replicate ((119 - ?i) mod 64) 0 @ ?be = ?b @ replicate 56 0 @ ?be"
      by (simp only: replicate_add append_assoc)
    have ab: "fst (absorb 64 ?P h (?b @ replicate 56 0 @ ?be)) = ?P (?P h ?b) (replicate 56 0 @ ?be)"
      unfolding absorb_block [OF lb zero_less_numeral] by simp
    show ?thesis
      unfolding fin eq ab using last_block [OF lb, of 0 "[]" ?w] True by (simp add: b be)
  next
    case False
    then have "4 * Suc ?k \<le> 56" by simp
    let ?b = "r @ [0x80] @ replicate ((119 - ?i) mod 64) 0 @ ?be"
    have "(119 - ?i) mod 64 = 3 - ?j + (56 - 4 * Suc ?k)" by (rule pad_zeros(2) [OF ij m(4) False])
    then have b: "(r @ [0x80] @ replicate (3 - ?j) 0) @ replicate (56 - 4 * Suc ?k) 0 @ ?be = ?b"
      by (simp only: replicate_add append_assoc)
    have "length ?b = 64" unfolding b [symmetric] length_append [of "r @ [0x80] @ replicate (3 - ?j) 0"] len
      using \<open>4 * Suc ?k \<le> 56\<close> by simp
    then have "fst (absorb 64 ?P h ?b) = ?P h ?b" by simp
    moreover have "Suc ?k \<le> 14" using False by simp
    note put = last_block [OF m1(1) this m1(2), of ?w, unfolded be b]
    ultimately show ?thesis unfolding fin using False by (simp add: be put [simplified])
  qed
  then show ?thesis by (simp add: sha256_def pad)
qed

lemma sha_length_updates:
  "sha_ok c \<Longrightarrow> sha_length (fold (\<lambda>(al, x) c. hsk_sha256_update al c x) xs c) = sha_length c + of_nat (length (concat (map snd xs)))"
proof (induction xs arbitrary: c)
  case (Cons x xs)
  obtain al y where "x = (al, y)" by fastforce
  then show ?case using Cons update_sha [of c al y] by simp
qed simp

text \<open>The digest after any sequence of updates.\<close>

lemma sha256_updates:
  "hsk_sha256_final (fold (\<lambda>(al, x) ctx. hsk_sha256_update al ctx x) xs hsk_sha256_init) = sha256 (concat (map snd xs))"
proof (rule final_sha)
  have i: "sha_ok hsk_sha256_init" "sha_abs hsk_sha256_init = absorb 64 hsk_sha256_process_block (sha_hash hsk_sha256_init) []"
    by (simp_all add: sha_ok_def sha_abs_def hsk_sha256_init_def)
  show "sha_ok (fold (\<lambda>(al, x) ctx. hsk_sha256_update al ctx x) xs hsk_sha256_init)"
    "sha_abs (fold (\<lambda>(al, x) ctx. hsk_sha256_update al ctx x) xs hsk_sha256_init) =
      absorb 64 hsk_sha256_process_block (sha_hash hsk_sha256_init) (concat (map snd xs))"
    using sha.update_all [OF i, of xs] by simp_all
  show "sha_length (fold (\<lambda>(al, x) ctx. hsk_sha256_update al ctx x) xs hsk_sha256_init) = of_nat (length (concat (map snd xs)))"
    using sha_length_updates [OF i(1), of xs] by (simp add: hsk_sha256_init_def)
qed


end
