(* ===== verification/Chacha20.thy ===== *)
theory Chacha20
  imports Sha256
begin

text \<open>
  \<^verbatim>\<open>chacha20/chacha20.c\<close>. The key stream is kept as the 64 octets of its memory, and \<open>cc_available\<close>
  counts those not used yet.
\<close>

record hsk_chacha20_ctx =
  cc_schedule :: "u32 list"
  cc_keystream :: bytes
  cc_available :: nat
  cc_nonce_size :: u8

definition READLE :: "bytes \<Rightarrow> u32" where
  "READLE p = ucast (p ! 0) OR push_bit 8 (ucast (p ! 1)) OR push_bit 16 (ucast (p ! 2)) OR push_bit 24 (ucast (p ! 3))"

definition WRITELE :: "u32 \<Rightarrow> bytes" where
  "WRITELE i = [ucast (i AND 0xFF), ucast (drop_bit 8 i AND 0xFF), ucast (drop_bit 16 i AND 0xFF), ucast (drop_bit 24 i AND 0xFF)]"

definition ROTL32 :: "u32 \<Rightarrow> nat \<Rightarrow> u32" where
  "ROTL32 v n = push_bit n v OR drop_bit (32 - n) v"

definition QUARTERROUND :: "nat \<Rightarrow> nat \<Rightarrow> nat \<Rightarrow> nat \<Rightarrow> u32 list \<Rightarrow> u32 list" where
  "QUARTERROUND a b c d x =
     (let x = x[a := x ! a + x ! b]; x = x[d := ROTL32 (x ! d XOR x ! a) 16];
          x = x[c := x ! c + x ! d]; x = x[b := ROTL32 (x ! b XOR x ! c) 12];
          x = x[a := x ! a + x ! b]; x = x[d := ROTL32 (x ! d XOR x ! a) 8];
          x = x[c := x ! c + x ! d]; x = x[b := ROTL32 (x ! b XOR x ! c) 7]
      in x)"

text \<open>The strings \<^verbatim>\<open>expand 32-byte k\<close> and \<^verbatim>\<open>expand 16-byte k\<close>.\<close>

definition chacha_constants :: "nat \<Rightarrow> bytes" where
  "chacha_constants len =
     (if len = 32 then [0x65, 0x78, 0x70, 0x61, 0x6e, 0x64, 0x20, 0x33, 0x32, 0x2d, 0x62, 0x79, 0x74, 0x65, 0x20, 0x6b]
      else [0x65, 0x78, 0x70, 0x61, 0x6e, 0x64, 0x20, 0x31, 0x36, 0x2d, 0x62, 0x79, 0x74, 0x65, 0x20, 0x6b])"

definition hsk_chacha20_keysetup :: "hsk_chacha20_ctx \<Rightarrow> bytes \<Rightarrow> nat \<Rightarrow> hsk_chacha20_ctx" where
  "hsk_chacha20_keysetup ctx key len =
     (let k = chacha_constants len; s = cc_schedule ctx
      in ctx\<lparr>cc_schedule := s[0 := READLE k, 1 := READLE (drop 4 k), 2 := READLE (drop 8 k), 3 := READLE (drop 12 k),
            4 := READLE key, 5 := READLE (drop 4 key), 6 := READLE (drop 8 key), 7 := READLE (drop 12 key),
            8 := READLE (drop (16 mod len) key), 9 := READLE (drop (20 mod len) key),
            10 := READLE (drop (24 mod len) key), 11 := READLE (drop (28 mod len) key), 12 := 0],
          cc_available := 0, cc_nonce_size := 8\<rparr>)"

definition hsk_chacha20_ivsetup :: "hsk_chacha20_ctx \<Rightarrow> bytes \<Rightarrow> u8 \<Rightarrow> hsk_chacha20_ctx" where
  "hsk_chacha20_ivsetup ctx nonce nonce_size =
     (let s = (cc_schedule ctx)[12 := 0];
          s = (if nonce_size = 8 then s[13 := 0, 14 := READLE nonce, 15 := READLE (drop 4 nonce)]
               else s[13 := READLE nonce, 14 := READLE (drop 4 nonce), 15 := READLE (drop 8 nonce)])
      in ctx\<lparr>cc_schedule := s, cc_nonce_size := nonce_size\<rparr>)"

definition hsk_chacha20_setup :: "hsk_chacha20_ctx \<Rightarrow> bytes \<Rightarrow> nat \<Rightarrow> bytes \<Rightarrow> u8 \<Rightarrow> hsk_chacha20_ctx" where
  "hsk_chacha20_setup ctx key len nonce nonce_size =
     hsk_chacha20_ivsetup (hsk_chacha20_keysetup ctx key len) nonce nonce_size"

definition hsk_chacha20_counter_set :: "hsk_chacha20_ctx \<Rightarrow> u64 \<Rightarrow> hsk_chacha20_ctx" where
  "hsk_chacha20_counter_set ctx counter =
     (if cc_nonce_size ctx = 8
      then ctx\<lparr>cc_schedule := (cc_schedule ctx)[12 := ucast (counter AND 0xFFFFFFFF), 13 := ucast (drop_bit 32 counter)], cc_available := 0\<rparr>
      else ctx\<lparr>cc_schedule := (cc_schedule ctx)[12 := ucast counter], cc_available := 0\<rparr>)"

definition hsk_chacha20_counter_get :: "hsk_chacha20_ctx \<Rightarrow> u64" where
  "hsk_chacha20_counter_get ctx =
     (if cc_nonce_size ctx = 8 then push_bit 32 (ucast (cc_schedule ctx ! 13)) OR ucast (cc_schedule ctx ! 12)
      else ucast (cc_schedule ctx ! 12))"

definition double_round :: "u32 list \<Rightarrow> u32 list" where
  "double_round x =
     (let x = QUARTERROUND 0 4 8 12 x; x = QUARTERROUND 1 5 9 13 x; x = QUARTERROUND 2 6 10 14 x; x = QUARTERROUND 3 7 11 15 x;
          x = QUARTERROUND 0 5 10 15 x; x = QUARTERROUND 1 6 11 12 x; x = QUARTERROUND 2 7 8 13 x; x = QUARTERROUND 3 4 9 14 x
      in x)"

definition hsk_chacha20_block :: "hsk_chacha20_ctx \<Rightarrow> hsk_chacha20_ctx \<times> bytes" where
  "hsk_chacha20_block ctx =
     (let s = cc_schedule ctx;
          output = (double_round ^^ 10) s;
          output = concat (map (\<lambda>i. WRITELE (output ! i + s ! i)) [0..<16]);
          s = s[12 := s ! 12 + 1];
          s = (if s ! 12 = 0 then if cc_nonce_size ctx = 8 then s[13 := s ! 13 + 1] else s else s)
      in (ctx\<lparr>cc_schedule := s\<rparr>, output))"

definition hsk_chacha20_xor :: "bytes \<Rightarrow> bytes \<Rightarrow> bytes" where
  "hsk_chacha20_xor k d = map2 (\<lambda>a b. a XOR b) d k"

function chacha_loop :: "hsk_chacha20_ctx \<Rightarrow> bytes \<Rightarrow> hsk_chacha20_ctx \<times> bytes" where
  "chacha_loop ctx d =
     (if d = [] then (ctx, [])
      else let amount = min (length d) 64;
               (ctx, k) = hsk_chacha20_block ctx;
               out = hsk_chacha20_xor (take amount k) (take amount d);
               (ctx, rest) = chacha_loop (ctx\<lparr>cc_keystream := k, cc_available := 64 - amount\<rparr>) (drop amount d)
           in (ctx, out @ rest))"
  by pat_completeness auto
termination by (relation "measure (\<lambda>(_, d). length d)") auto

definition hsk_chacha20_encrypt :: "hsk_chacha20_ctx \<Rightarrow> bytes \<Rightarrow> hsk_chacha20_ctx \<times> bytes" where
  "hsk_chacha20_encrypt ctx d =
     (if d = [] then (ctx, [])
      else if cc_available ctx \<noteq> 0 then
        let amount = min (length d) (cc_available ctx);
            sz = 64 - cc_available ctx;
            out = hsk_chacha20_xor (take amount (drop sz (cc_keystream ctx))) (take amount d);
            (ctx, rest) = chacha_loop (ctx\<lparr>cc_available := cc_available ctx - amount\<rparr>) (drop amount d)
        in (ctx, out @ rest)
      else chacha_loop ctx d)"

definition hsk_chacha20_decrypt :: "hsk_chacha20_ctx \<Rightarrow> bytes \<Rightarrow> hsk_chacha20_ctx \<times> bytes" where
  "hsk_chacha20_decrypt ctx d = hsk_chacha20_encrypt ctx d"

section \<open>Encryption is its own inverse\<close>

declare chacha_loop.simps [simp del]

definition chacha_ok :: "hsk_chacha20_ctx \<Rightarrow> bool" where
  "chacha_ok ctx \<longleftrightarrow> length (cc_keystream ctx) = 64 \<and> cc_available ctx \<le> 64"

lemma xor_xor: "length d \<le> length k \<Longrightarrow> hsk_chacha20_xor k (hsk_chacha20_xor k d) = d"
  by (rule nth_equalityI) (auto simp: hsk_chacha20_xor_def xor.assoc)

lemma length_xor [simp]: "length (hsk_chacha20_xor k d) = min (length d) (length k)"
  by (simp add: hsk_chacha20_xor_def)

lemma length_block: "length (snd (hsk_chacha20_block ctx)) = 64"
  by (simp add: hsk_chacha20_block_def Let_def WRITELE_def length_concat comp_def sum_list_triv)

lemma chacha_loop_invol:
  "length (snd (chacha_loop ctx d)) = length d \<and>
   chacha_loop ctx (snd (chacha_loop ctx d)) = (fst (chacha_loop ctx d), d)"
proof (induction ctx d rule: chacha_loop.induct)
  case (1 ctx d)
  show ?case
  proof (cases "d = []")
    case False
    obtain c k where b: "hsk_chacha20_block ctx = (c, k)" by fastforce
    have k: "length k = 64" using length_block [of ctx] b by simp
    let ?n = "min (length d) 64"
    let ?c = "c\<lparr>cc_keystream := k, cc_available := 64 - ?n\<rparr>"
    define x where "x = hsk_chacha20_xor (take ?n k) (take ?n d)"
    obtain e r where l: "chacha_loop ?c (drop ?n d) = (e, r)" by fastforce
    have IH: "length r = length (drop ?n d)" "chacha_loop ?c r = (e, drop ?n d)"
      using 1 [OF False refl b [symmetric] refl refl] l by simp_all
    have d: "chacha_loop ctx d = (e, x @ r)"
      using False by (subst chacha_loop.simps) (simp add: b l Let_def x_def)
    have lx: "length x = ?n" using k by (simp add: x_def)
    have nx: "x \<noteq> []" using False unfolding length_0_conv [symmetric] lx by simp
    then have ne: "x @ r \<noteq> []" "min (length (x @ r)) 64 = ?n" using IH(1) lx by auto
    have "hsk_chacha20_xor (take ?n k) x = take ?n d" unfolding x_def using k by (intro xor_xor) simp
    then have "chacha_loop ctx (x @ r) = (e, d)"
      unfolding chacha_loop.simps [of ctx "x @ r"] Let_def ne(2) using nx lx by (simp add: b IH(2))
    then show ?thesis using d lx IH(1) by simp
  qed (simp add: chacha_loop.simps)
qed

lemma chacha_encrypt_invol:
  assumes "chacha_ok ctx"
  shows "length (snd (hsk_chacha20_encrypt ctx d)) = length d"
    and "hsk_chacha20_encrypt ctx (snd (hsk_chacha20_encrypt ctx d)) = (fst (hsk_chacha20_encrypt ctx d), d)"
proof -
  have "length (snd (hsk_chacha20_encrypt ctx d)) = length d \<and>
    hsk_chacha20_encrypt ctx (snd (hsk_chacha20_encrypt ctx d)) = (fst (hsk_chacha20_encrypt ctx d), d)"
  proof (cases "d = [] \<or> cc_available ctx = 0")
    case True
    then show ?thesis using chacha_loop_invol [of ctx d] by (auto simp: hsk_chacha20_encrypt_def)
  next
    case False
    let ?n = "min (length d) (cc_available ctx)"
    let ?k = "take ?n (drop (64 - cc_available ctx) (cc_keystream ctx))"
    let ?c = "ctx\<lparr>cc_available := cc_available ctx - ?n\<rparr>"
    define x where "x = hsk_chacha20_xor ?k (take ?n d)"
    obtain e r where l: "chacha_loop ?c (drop ?n d) = (e, r)" by fastforce
    have r: "length r = length (drop ?n d)" "chacha_loop ?c r = (e, drop ?n d)"
      using chacha_loop_invol [of ?c "drop ?n d"] l by simp_all
    have k: "length ?k = ?n" using assms by (simp add: chacha_ok_def)
    have d: "hsk_chacha20_encrypt ctx d = (e, x @ r)" using False by (simp add: hsk_chacha20_encrypt_def l Let_def x_def)
    have lx: "length x = ?n" using k by (simp add: x_def)
    have nx: "x \<noteq> []" using False unfolding length_0_conv [symmetric] lx by simp
    then have ne: "x @ r \<noteq> []" "min (length (x @ r)) (cc_available ctx) = ?n" using r(1) lx by auto
    have "hsk_chacha20_xor ?k x = take ?n d" unfolding x_def using k by (intro xor_xor) simp
    then have "hsk_chacha20_encrypt ctx (x @ r) = (e, d)"
      unfolding hsk_chacha20_encrypt_def Let_def ne(2) using False nx lx r(2) by simp
    then show ?thesis using d lx r(1) by simp
  qed
  then show "length (snd (hsk_chacha20_encrypt ctx d)) = length d"
    "hsk_chacha20_encrypt ctx (snd (hsk_chacha20_encrypt ctx d)) = (fst (hsk_chacha20_encrypt ctx d), d)" by simp_all
qed

end
