(* ===== verification/Poly1305.thy ===== *)
theory Poly1305
  imports Blocks
begin

text \<open>
  \<^verbatim>\<open>poly1305/poly1305.c\<close> with the 64-bit arithmetic of \<^verbatim>\<open>poly1305-64.h\<close>: the accumulator is three limbs
  of 44, 44 and 42 bits, the products are 128 bits wide.
\<close>

type_synonym u128 = "128 word"

record hsk_poly1305_ctx =
  po_r :: "u64 \<times> u64 \<times> u64"
  po_h :: "u64 \<times> u64 \<times> u64"
  po_pad :: "u64 \<times> u64"
  po_leftover :: nat
  po_buffer :: bytes
  po_final :: bool

definition U8TO64 :: "bytes \<Rightarrow> u64" where
  "U8TO64 p = ucast (p ! 0) OR push_bit 8 (ucast (p ! 1)) OR push_bit 16 (ucast (p ! 2)) OR push_bit 24 (ucast (p ! 3)) OR
     push_bit 32 (ucast (p ! 4)) OR push_bit 40 (ucast (p ! 5)) OR push_bit 48 (ucast (p ! 6)) OR push_bit 56 (ucast (p ! 7))"

definition U64TO8 :: "u64 \<Rightarrow> bytes" where
  "U64TO8 v = [ucast (v AND 0xff), ucast (drop_bit 8 v AND 0xff), ucast (drop_bit 16 v AND 0xff), ucast (drop_bit 24 v AND 0xff),
     ucast (drop_bit 32 v AND 0xff), ucast (drop_bit 40 v AND 0xff), ucast (drop_bit 48 v AND 0xff), ucast (drop_bit 56 v AND 0xff)]"

definition hsk_poly1305_init :: "bytes \<Rightarrow> hsk_poly1305_ctx" where
  "hsk_poly1305_init key =
     (let t0 = U8TO64 key; t1 = U8TO64 (drop 8 key)
      in \<lparr>po_r = (t0 AND 0xffc0fffffff, (drop_bit 44 t0 OR push_bit 20 t1) AND 0xfffffc0ffff, drop_bit 24 t1 AND 0x00ffffffc0f),
          po_h = (0, 0, 0), po_pad = (U8TO64 (drop 16 key), U8TO64 (drop 24 key)),
          po_leftover = 0, po_buffer = replicate 16 0, po_final = False\<rparr>)"

definition MUL :: "u64 \<Rightarrow> u64 \<Rightarrow> u128" where
  "MUL x y = ucast x * ucast y"

definition SHR :: "u128 \<Rightarrow> nat \<Rightarrow> u64" where
  "SHR d n = ucast (drop_bit n d)"

definition LO :: "u128 \<Rightarrow> u64" where
  "LO d = ucast d"

text \<open>One turn of the loop of \<^verbatim>\<open>hsk_poly1305_blocks\<close>.\<close>

definition poly_block :: "u64 \<times> u64 \<times> u64 \<Rightarrow> u64 \<Rightarrow> u64 \<times> u64 \<times> u64 \<Rightarrow> bytes \<Rightarrow> u64 \<times> u64 \<times> u64" where
  "poly_block r hibit h m =
     (case (r, h) of ((r0, r1, r2), (h0, h1, h2)) \<Rightarrow>
      let s1 = r1 * push_bit 2 5; s2 = r2 * push_bit 2 5;
          t0 = U8TO64 m; t1 = U8TO64 (drop 8 m);
          h0 = h0 + (t0 AND 0xfffffffffff);
          h1 = h1 + ((drop_bit 44 t0 OR push_bit 20 t1) AND 0xfffffffffff);
          h2 = h2 + ((drop_bit 24 t1 AND 0x3ffffffffff) OR hibit);
          d0 = MUL h0 r0 + MUL h1 s2 + MUL h2 s1;
          d1 = MUL h0 r1 + MUL h1 r0 + MUL h2 s2;
          d2 = MUL h0 r2 + MUL h1 r1 + MUL h2 r0;
          c = SHR d0 44; h0 = LO d0 AND 0xfffffffffff;
          d1 = d1 + ucast c; c = SHR d1 44; h1 = LO d1 AND 0xfffffffffff;
          d2 = d2 + ucast c; c = SHR d2 42; h2 = LO d2 AND 0x3ffffffffff;
          h0 = h0 + c * 5; c = drop_bit 44 h0; h0 = h0 AND 0xfffffffffff;
          h1 = h1 + c
      in (h0, h1, h2))"

definition hsk_poly1305_blocks :: "hsk_poly1305_ctx \<Rightarrow> bytes \<Rightarrow> hsk_poly1305_ctx" where
  "hsk_poly1305_blocks st m =
     (let hibit = (if po_final st then 0 else push_bit 40 1)
      in st\<lparr>po_h := fst (absorb 16 (poly_block (po_r st) hibit) (po_h st) m)\<rparr>)"

text \<open>Completes the block in the buffer; \<open>None\<close> when the input does not suffice, with the new context.\<close>

definition poly_fill :: "hsk_poly1305_ctx \<Rightarrow> bytes \<Rightarrow> hsk_poly1305_ctx \<times> bytes option" where
  "poly_fill st m =
     (let want = min (16 - po_leftover st) (length m);
          st = st\<lparr>po_buffer := take (po_leftover st) (po_buffer st) @ take want m @ drop (po_leftover st + want) (po_buffer st),
                  po_leftover := po_leftover st + want\<rparr>
      in if po_leftover st < 16 then (st, None)
         else ((hsk_poly1305_blocks st (po_buffer st))\<lparr>po_leftover := 0\<rparr>, Some (drop want m)))"

text \<open>The whole blocks of the input, and what is left to the buffer.\<close>

definition poly_whole :: "hsk_poly1305_ctx \<Rightarrow> bytes \<Rightarrow> hsk_poly1305_ctx" where
  "poly_whole st m =
     (let want = length m - length m mod 16;
          (st, m) = (if length m \<ge> 16 then (hsk_poly1305_blocks st (take want m), drop want m) else (st, m))
      in if m = [] then st
         else st\<lparr>po_buffer := take (po_leftover st) (po_buffer st) @ m @ drop (po_leftover st + length m) (po_buffer st),
                 po_leftover := po_leftover st + length m\<rparr>)"

definition hsk_poly1305_update :: "hsk_poly1305_ctx \<Rightarrow> bytes \<Rightarrow> hsk_poly1305_ctx" where
  "hsk_poly1305_update st m =
     (if po_leftover st \<noteq> 0
      then case poly_fill st m of (st, None) \<Rightarrow> st | (st, Some m) \<Rightarrow> poly_whole st m
      else poly_whole st m)"

text \<open>The tag. The code clears the key material of the context afterwards.\<close>

definition poly_carry :: "u64 \<times> u64 \<times> u64 \<Rightarrow> u64 \<times> u64 \<times> u64" where
  "poly_carry h =
     (case h of (h0, h1, h2) \<Rightarrow>
      let c = drop_bit 44 h1; h1 = h1 AND 0xfffffffffff;
          h2 = h2 + c; c = drop_bit 42 h2; h2 = h2 AND 0x3ffffffffff;
          h0 = h0 + c * 5; c = drop_bit 44 h0; h0 = h0 AND 0xfffffffffff;
          h1 = h1 + c; c = drop_bit 44 h1; h1 = h1 AND 0xfffffffffff;
          h2 = h2 + c; c = drop_bit 42 h2; h2 = h2 AND 0x3ffffffffff;
          h0 = h0 + c * 5; c = drop_bit 44 h0; h0 = h0 AND 0xfffffffffff;
          h1 = h1 + c
      in (h0, h1, h2))"

definition poly_select :: "u64 \<times> u64 \<times> u64 \<Rightarrow> u64 \<times> u64 \<times> u64" where
  "poly_select h =
     (case h of (h0, h1, h2) \<Rightarrow>
      let g0 = h0 + 5; c = drop_bit 44 g0; g0 = g0 AND 0xfffffffffff;
          g1 = h1 + c; c = drop_bit 44 g1; g1 = g1 AND 0xfffffffffff;
          g2 = h2 + c - push_bit 42 1;
          c = drop_bit 63 g2 - 1;
          g0 = g0 AND c; g1 = g1 AND c; g2 = g2 AND c;
          c = NOT c
      in ((h0 AND c) OR g0, (h1 AND c) OR g1, (h2 AND c) OR g2))"

definition poly_mac :: "u64 \<times> u64 \<times> u64 \<Rightarrow> u64 \<times> u64 \<Rightarrow> bytes" where
  "poly_mac h pad =
     (case (h, pad) of ((h0, h1, h2), (t0, t1)) \<Rightarrow>
      let h0 = h0 + (t0 AND 0xfffffffffff); c = drop_bit 44 h0; h0 = h0 AND 0xfffffffffff;
          h1 = h1 + (((drop_bit 44 t0 OR push_bit 20 t1) AND 0xfffffffffff) + c); c = drop_bit 44 h1; h1 = h1 AND 0xfffffffffff;
          h2 = h2 + ((drop_bit 24 t1 AND 0x3ffffffffff) + c); h2 = h2 AND 0x3ffffffffff;
          h0 = h0 OR push_bit 44 h1;
          h1 = drop_bit 20 h1 OR push_bit 24 h2
      in U64TO8 h0 @ U64TO8 h1)"

definition hsk_poly1305_finish :: "hsk_poly1305_ctx \<Rightarrow> hsk_poly1305_ctx \<times> bytes" where
  "hsk_poly1305_finish st =
     (let st = (if po_leftover st \<noteq> 0 then
                  let i = po_leftover st;
                      b = take i (po_buffer st) @ [1] @ replicate (16 - (i + 1)) 0
                  in hsk_poly1305_blocks (st\<lparr>po_buffer := b, po_final := True\<rparr>) b
                else st);
          mac = poly_mac (poly_select (poly_carry (po_h st))) (po_pad st)
      in (st\<lparr>po_h := (0, 0, 0), po_r := (0, 0, 0), po_pad := (0, 0)\<rparr>, mac))"

definition hsk_poly1305_auth :: "bytes \<Rightarrow> bytes \<Rightarrow> bytes" where
  "hsk_poly1305_auth m key = snd (hsk_poly1305_finish (hsk_poly1305_update (hsk_poly1305_init key) m))"

text \<open>The comparison without branches: 1 when the tags are equal.\<close>

definition hsk_poly1305_verify :: "bytes \<Rightarrow> bytes \<Rightarrow> u32" where
  "hsk_poly1305_verify mac1 mac2 =
     (let dif = fold (\<lambda>i dif. dif OR ucast (mac1 ! i XOR mac2 ! i)) [0..<16] (0 :: u32);
          dif = drop_bit 31 (dif - 1)
      in dif AND 1)"

end
