(* ===== verification/Poly1305_Ok.thy ===== *)
theory Poly1305_Ok
  imports Poly1305
begin

text \<open>
  The limb arithmetic of \<open>Poly1305\<close> computes the polynomial of the standard modulo \<open>2 ^ 130 - 5\<close>: no
  sum or product overflows, the partial reductions keep the residue and the last selection is the
  remainder.
\<close>

section \<open>The authenticator of the standard\<close>

fun le_val :: "bytes \<Rightarrow> nat" where
  "le_val [] = 0"
| "le_val (b # bs) = unat b + 256 * le_val bs"

abbreviation poly_p :: nat where
  "poly_p \<equiv> 2 ^ 130 - 5"

text \<open>Blocks of sixteen octets, the last one possibly shorter; an octet 1 is added to each.\<close>

function poly_eval :: "nat \<Rightarrow> nat \<Rightarrow> bytes \<Rightarrow> nat" where
  "poly_eval r a m =
     (if m = [] then a
      else poly_eval r ((a + le_val (take 16 m) + 256 ^ length (take 16 m)) * r mod poly_p) (drop 16 m))"
  by pat_completeness auto
termination by (relation "measure (\<lambda>(r, a, m). length m)") auto

declare poly_eval.simps [simp del]

lemma eval_Nil: "poly_eval r a [] = a"
  by (simp add: poly_eval.simps)

lemma eval_step:
  "m \<noteq> [] \<Longrightarrow> poly_eval r a m = poly_eval r ((a + le_val (take 16 m) + 256 ^ length (take 16 m)) * r mod poly_p) (drop 16 m)"
  by (subst poly_eval.simps) (simp only: if_False)

definition poly_clamp :: "bytes \<Rightarrow> nat" where
  "poly_clamp k = unat ((of_nat (le_val k) :: u128) AND 0x0ffffffc0ffffffc0ffffffc0fffffff)"

definition poly1305 :: "bytes \<Rightarrow> bytes \<Rightarrow> nat" where
  "poly1305 m key = (poly_eval (poly_clamp (take 16 key)) 0 m + le_val (take 16 (drop 16 key))) mod 2 ^ 128"

section \<open>Words that do not overflow\<close>

lemma unat_add: "unat x + unat y < 2 ^ LENGTH('a) \<Longrightarrow> unat (x + y :: 'a::len word) = unat x + unat y"
  by (simp add: unat_word_ariths)

lemma unat_mul: "unat x * unat y < 2 ^ LENGTH('a) \<Longrightarrow> unat (x * y :: 'a::len word) = unat x * unat y"
  by (simp add: unat_word_ariths)

lemma unat_and_mask: "unat (x AND mask n :: 'a::len word) = unat x mod 2 ^ n"
  using unat_take_bit [of n x] by (simp add: take_bit_eq_mask)

lemma limb_masks: "(0xfffffffffff :: u64) = mask 44" "(0x3ffffffffff :: u64) = mask 42"
  by (simp_all add: mask_eq_exp_minus_1)

lemmas unat_limbs = unat_and_mask [of _ 44, where ?'a = 64, folded limb_masks] unat_and_mask [of _ 42, where ?'a = 64, folded limb_masks]

lemma unat_MUL: "unat (MUL x y) = unat x * unat y"
proof -
  have "unat x * unat y < 2 ^ 64 * 2 ^ 64" using unat_u64_lt [of x] unat_u64_lt [of y] by (intro mult_strict_mono) auto
  then show ?thesis unfolding MUL_def by (subst unat_mul) (simp_all add: unat_ucast_up)
qed

lemma unat_SHR: "unat d < 2 ^ (64 + n) \<Longrightarrow> unat (SHR d n) = unat d div 2 ^ n"
  unfolding SHR_def
  by (subst unat_ucast_small) (simp_all add: unat_drop_bit less_mult_imp_div_less power_add mult.commute)

lemma unat_LO: "unat (LO d AND mask n) = unat d mod 2 ^ n" if "n \<le> 64"
proof -
  have "(2 :: nat) ^ n dvd 2 ^ LENGTH(64)" using that by (simp add: le_imp_power_dvd del: power_numeral)
  then show ?thesis unfolding LO_def unat_and_mask unat_ucast_mod by (rule mod_mod_cancel)
qed

section \<open>One block\<close>

fun limbs :: "u64 \<times> u64 \<times> u64 \<Rightarrow> nat" where
  "limbs (a, b, c) = unat a + 2 ^ 44 * unat b + 2 ^ 88 * unat c"

text \<open>What holds of the accumulator between blocks, and of the clamped key.\<close>

fun acc_ok :: "u64 \<times> u64 \<times> u64 \<Rightarrow> bool" where
  "acc_ok (a, b, c) \<longleftrightarrow> unat a < 2 ^ 44 \<and> unat b < 2 ^ 44 + 2 ^ 10 \<and> unat c < 2 ^ 42"

fun key_ok :: "u64 \<times> u64 \<times> u64 \<Rightarrow> bool" where
  "key_ok (a, b, c) \<longleftrightarrow> unat a < 2 ^ 44 \<and> unat b < 2 ^ 44 \<and> unat c < 2 ^ 40"

lemma poly_nat:
  fixes h0 h1 h2 r0 r1 r2 d0 d1 d2 c0 c1 c2 x0 x1 x2 :: nat
  assumes d0: "h0 * r0 + h1 * (r2 * 20) + h2 * (r1 * 20) = x0 + 2 ^ 44 * c0"
    and d1: "h0 * r1 + h1 * r0 + h2 * (r2 * 20) + c0 = x1 + 2 ^ 44 * c1"
    and d2: "h0 * r2 + h1 * r1 + h2 * r0 + c1 = x2 + 2 ^ 42 * c2"
  shows "(x0 + c2 * 5 + 2 ^ 44 * x1 + 2 ^ 88 * x2) mod poly_p =
    (h0 + 2 ^ 44 * h1 + 2 ^ 88 * h2) * (r0 + 2 ^ 44 * r1 + 2 ^ 88 * r2) mod poly_p"
proof -
  have "(h0 + 2 ^ 44 * h1 + 2 ^ 88 * h2) * (r0 + 2 ^ 44 * r1 + 2 ^ 88 * r2) =
      (h0 * r0 + h1 * (r2 * 20) + h2 * (r1 * 20)) + 2 ^ 44 * (h0 * r1 + h1 * r0 + h2 * (r2 * 20)) +
      2 ^ 88 * (h0 * r2 + h1 * r1 + h2 * r0) + poly_p * (4 * (h1 * r2 + h2 * r1) + 2 ^ 46 * (h2 * r2))"
    by (simp add: algebra_simps)
  moreover have "x0 + c2 * 5 + 2 ^ 44 * x1 + 2 ^ 88 * x2 + poly_p * c2 =
      (h0 * r0 + h1 * (r2 * 20) + h2 * (r1 * 20)) + 2 ^ 44 * (h0 * r1 + h1 * r0 + h2 * (r2 * 20)) + 2 ^ 88 * (h0 * r2 + h1 * r1 + h2 * r0)"
    using d1 d2 unfolding d0 by simp
  ultimately have "x0 + c2 * 5 + 2 ^ 44 * x1 + 2 ^ 88 * x2 + poly_p * (c2 + (4 * (h1 * r2 + h2 * r1) + 2 ^ 46 * (h2 * r2))) =
      (h0 + 2 ^ 44 * h1 + 2 ^ 88 * h2) * (r0 + 2 ^ 44 * r1 + 2 ^ 88 * r2)"
    by (simp only: distrib_left)
  then show ?thesis by (metis mod_mult_self2)
qed

lemma regroup: "a + 2 ^ 44 * (b + 2 ^ 20 * c) + 2 ^ 88 * d = (a + 2 ^ 44 * b) + 2 ^ 64 * (c + 2 ^ 24 * d)" for a b c d :: nat
  by (simp add: algebra_simps)

lemma message_limbs:
  fixes t0 t1 :: u64
  shows "unat (t0 AND 0xfffffffffff) + 2 ^ 44 * unat ((drop_bit 44 t0 OR push_bit 20 t1) AND 0xfffffffffff) + 2 ^ 88 * unat (drop_bit 24 t1 AND 0x3ffffffffff) =
    unat t0 + 2 ^ 64 * unat t1"
    and "unat (drop_bit 24 t1 AND 0x3ffffffffff) < 2 ^ 40"
proof -
  have "(drop_bit 44 t0 OR push_bit 20 t1) AND 0xfffffffffff = drop_bit 44 t0 OR push_bit 20 (take_bit 24 t1)"
    unfolding limb_masks by (rule bit_word_eqI) (auto simp: bit_simps dest: bit_imp_le_length)
  moreover have "unat (drop_bit 44 t0 OR push_bit 20 (take_bit 24 t1)) = unat (drop_bit 44 t0 + push_bit 20 (take_bit 24 t1))"
    by (subst disjunctive_add) (auto simp: bit_simps dest: bit_imp_le_length)
  moreover have "unat t0 div 2 ^ 44 < 2 ^ 20" using unat_u64_lt [of t0] by simp
  moreover have "unat (push_bit 20 (take_bit 24 t1)) = 2 ^ 20 * (unat t1 mod 2 ^ 24)"
    unfolding push_bit_eq_mult by (subst unat_mul) (simp_all add: unat_take_bit mult.commute)
  moreover have "unat t1 mod 2 ^ 24 < 2 ^ 24" by simp
  ultimately have b: "unat ((drop_bit 44 t0 OR push_bit 20 t1) AND 0xfffffffffff) = unat t0 div 2 ^ 44 + 2 ^ 20 * (unat t1 mod 2 ^ 24)"
    by (simp only: unat_drop_bit) (subst unat_add; simp add: unat_drop_bit)
  have d: "unat t1 div 2 ^ 24 < 2 ^ 40" using unat_u64_lt [of t1] by simp
  then have c: "unat (drop_bit 24 t1 AND 0x3ffffffffff) = unat t1 div 2 ^ 24"
    by (simp add: unat_limbs unat_drop_bit)
  have "unat t0 mod 2 ^ 44 + 2 ^ 44 * (unat t0 div 2 ^ 44 + 2 ^ 20 * (unat t1 mod 2 ^ 24)) + 2 ^ 88 * (unat t1 div 2 ^ 24) =
      (unat t0 mod 2 ^ 44 + 2 ^ 44 * (unat t0 div 2 ^ 44)) + 2 ^ 64 * (unat t1 mod 2 ^ 24 + 2 ^ 24 * (unat t1 div 2 ^ 24))"
    by (rule regroup)
  also have "\<dots> = unat t0 + 2 ^ 64 * unat t1" by (simp only: mod_mult_div_eq)
  finally show "unat (t0 AND 0xfffffffffff) + 2 ^ 44 * unat ((drop_bit 44 t0 OR push_bit 20 t1) AND 0xfffffffffff) + 2 ^ 88 * unat (drop_bit 24 t1 AND 0x3ffffffffff) =
      unat t0 + 2 ^ 64 * unat t1"
    unfolding b c by (simp only: unat_limbs)
  show "unat (drop_bit 24 t1 AND 0x3ffffffffff) < 2 ^ 40" using c d by simp
qed

lemma unat_MUL3:
  assumes "unat a * unat x \<le> 2 ^ 100" and "unat b * unat y \<le> 2 ^ 100" and "unat c * unat z \<le> 2 ^ 100"
  shows "unat (MUL a x + MUL b y + MUL c z) = unat a * unat x + unat b * unat y + unat c * unat z"
proof -
  have "unat (MUL a x + MUL b y) = unat a * unat x + unat b * unat y"
    using assms by (subst unat_add) (simp_all add: unat_MUL)
  then show ?thesis using assms by (subst unat_add) (simp_all add: unat_MUL)
qed

lemma unat_carry:
  assumes "unat d < 2 ^ 100" and "unat d div 2 ^ n < 2 ^ 64"
  shows "unat (d + ucast (SHR e k) :: u128) = unat d + unat (SHR e k)"
  using assms unat_u64_lt [of "SHR e k"] by (subst unat_add) (simp_all add: unat_ucast_up)

lemma message_added:
  fixes h0 h1 h2 m0 m1 m2 t u b :: nat
  assumes "m0 + 2 ^ 44 * m1 + 2 ^ 88 * m2 = t + u"
  shows "h0 + 2 ^ 44 * h1 + 2 ^ 88 * h2 + t + u + 2 ^ 88 * b = (h0 + m0) + 2 ^ 44 * (h1 + m1) + 2 ^ 88 * (h2 + (m2 + b))"
  using assms by (simp add: algebra_simps)

lemma carry_back: "y mod m + m * (e + y div m) + z = y + m * e + z" for y m e z :: nat
proof -
  have "y mod m + m * (e + y div m) + z = (y mod m + m * (y div m)) + m * e + z" by (simp only: distrib_left ac_simps)
  then show ?thesis by (simp only: mod_mult_div_eq)
qed

lemma block_step:
  assumes h: "acc_ok (h0, h1, h2)" and r: "key_ok (r0, r1, r2)" and hi: "hibit = push_bit 40 1 \<or> hibit = 0"
    and x: "poly_block (r0, r1, r2) hibit (h0, h1, h2) m = (x0, x1, x2)"
  shows "acc_ok (x0, x1, x2)"
    and "limbs (x0, x1, x2) mod poly_p = (limbs (h0, h1, h2) + unat (U8TO64 m) + 2 ^ 64 * unat (U8TO64 (drop 8 m)) + 2 ^ 88 * unat hibit) * limbs (r0, r1, r2) mod poly_p"
proof -
  let ?t0 = "U8TO64 m" and ?t1 = "U8TO64 (drop 8 m)"
  let ?m0 = "?t0 AND 0xfffffffffff" and ?m1 = "(drop_bit 44 ?t0 OR push_bit 20 ?t1) AND 0xfffffffffff" and ?m2 = "drop_bit 24 ?t1 AND 0x3ffffffffff"
  have hb: "unat h0 < 2 ^ 44" "unat h1 < 2 ^ 44 + 2 ^ 10" "unat h2 < 2 ^ 42" using h by simp_all
  have rb: "unat r0 \<le> 2 ^ 44" "unat r1 \<le> 2 ^ 44" "unat r2 \<le> 2 ^ 40" using r by simp_all
  have mb: "unat ?m0 < 2 ^ 44" "unat ?m1 < 2 ^ 44" "unat ?m2 < 2 ^ 40"
    using message_limbs(2) by (simp_all add: unat_limbs)
  have hib: "unat hibit \<le> 2 ^ 40" using hi by auto
  have "n = 40" if "bit hibit n" for n
    using hi that by (elim disjE) (simp_all only: bit_push_bit_iff bit_1_iff bit_0_eq bot_apply, auto)
  moreover have "\<not> bit ?m2 40"
    unfolding limb_masks by (auto simp: bit_simps dest: bit_imp_le_length)
  ultimately have "?m2 OR hibit = ?m2 + hibit"
    by (subst disjunctive_add) auto
  then have m2: "unat (?m2 OR hibit) = unat ?m2 + unat hibit"
    using mb(3) hib by (subst unat_add [symmetric]) simp_all
  define a0 a1 a2 where a: "a0 = h0 + ?m0" "a1 = h1 + ?m1" "a2 = h2 + (?m2 OR hibit)"
  have ua: "unat a0 = unat h0 + unat ?m0" "unat a1 = unat h1 + unat ?m1" "unat a2 = unat h2 + (unat ?m2 + unat hibit)"
    unfolding a using hb mb m2 hib by (subst unat_add; simp)+
  have ab: "unat a0 \<le> 2 ^ 45" "unat a1 \<le> 2 ^ 46" "unat a2 \<le> 2 ^ 43" using ua hb mb hib by simp_all
  define s1 s2 where s: "s1 = r1 * push_bit 2 5" "s2 = r2 * push_bit 2 5"
  have us: "unat s1 = unat r1 * 20" "unat s2 = unat r2 * 20" unfolding s using rb by (subst unat_mul; simp)+
  then have sb: "unat s1 \<le> 2 ^ 49" "unat s2 \<le> 2 ^ 45" using rb by simp_all
  note pb = mult_le_mono [OF ab(1) rb(1)] mult_le_mono [OF ab(1) rb(2)] mult_le_mono [OF ab(1) rb(3)]
    mult_le_mono [OF ab(2) rb(1)] mult_le_mono [OF ab(2) rb(2)] mult_le_mono [OF ab(3) rb(1)]
    mult_le_mono [OF ab(2) sb(2)] mult_le_mono [OF ab(3) sb(1)] mult_le_mono [OF ab(3) sb(2)]
  define d0 d1 d2 where d: "d0 = MUL a0 r0 + MUL a1 s2 + MUL a2 s1" "d1 = MUL a0 r1 + MUL a1 r0 + MUL a2 s2" "d2 = MUL a0 r2 + MUL a1 r1 + MUL a2 r0"
  have ud: "unat d0 = unat a0 * unat r0 + unat a1 * unat s2 + unat a2 * unat s1"
    "unat d1 = unat a0 * unat r1 + unat a1 * unat r0 + unat a2 * unat s2"
    "unat d2 = unat a0 * unat r2 + unat a1 * unat r1 + unat a2 * unat r0"
    unfolding d using pb by (subst unat_MUL3; simp)+
  have db: "unat d0 < 2 ^ 94" "unat d1 < 2 ^ 94" "unat d2 < 2 ^ 91" unfolding ud using pb by simp_all
  define c0 where "c0 = SHR d0 44"
  define e1 where "e1 = d1 + ucast c0"
  define c1 where "c1 = SHR e1 44"
  define e2 where "e2 = d2 + ucast c1"
  define c2 where "c2 = SHR e2 42"
  have uc0: "unat c0 = unat d0 div 2 ^ 44" unfolding c0_def using db by (intro unat_SHR) simp
  have ue1: "unat e1 = unat d1 + unat c0" unfolding e1_def using db uc0 by (subst unat_add) (simp_all add: unat_ucast_up)
  have uc1: "unat c1 = unat e1 div 2 ^ 44" unfolding c1_def using db uc0 ue1 by (intro unat_SHR) simp
  have ue2: "unat e2 = unat d2 + unat c1" unfolding e2_def using db uc0 ue1 uc1 by (subst unat_add) (simp_all add: unat_ucast_up)
  have uc2: "unat c2 = unat e2 div 2 ^ 42" unfolding c2_def using db uc0 ue1 uc1 ue2 by (intro unat_SHR) simp
  define y0 where "y0 = (LO d0 AND 0xfffffffffff) + c2 * 5"
  have xs: "x0 = y0 AND 0xfffffffffff" "x1 = (LO e1 AND 0xfffffffffff) + drop_bit 44 y0" "x2 = LO e2 AND 0x3ffffffffff"
    using x by (simp_all add: poly_block_def Let_def a d s c0_def e1_def c1_def e2_def c2_def y0_def)
  have "unat c0 < 2 ^ 50" unfolding uc0 using db(1) by simp
  then have "unat e1 < 2 ^ 95" unfolding ue1 using db(2) by simp
  then have "unat c1 < 2 ^ 51" unfolding uc1 by simp
  then have "unat e2 < 2 ^ 92" unfolding ue2 using db(3) by simp
  then have cb: "unat c2 < 2 ^ 50" unfolding uc2 by simp
  have uy: "unat y0 = unat d0 mod 2 ^ 44 + unat c2 * 5"
    unfolding y0_def limb_masks using cb by (subst unat_add; simp add: unat_LO unat_mul)
  have ux: "unat x0 = unat y0 mod 2 ^ 44" "unat x1 = unat e1 mod 2 ^ 44 + unat y0 div 2 ^ 44" "unat x2 = unat e2 mod 2 ^ 42"
  proof -
    show "unat x0 = unat y0 mod 2 ^ 44" unfolding xs(1) by (simp only: unat_limbs)
    show "unat x2 = unat e2 mod 2 ^ 42" unfolding xs(3) limb_masks by (rule unat_LO) simp
    have "unat e1 mod 2 ^ 44 < 2 ^ 44" "unat y0 div 2 ^ 44 < 2 ^ 20" using unat_u64_lt [of y0] by simp_all
    then show "unat x1 = unat e1 mod 2 ^ 44 + unat y0 div 2 ^ 44"
      unfolding xs(2) limb_masks by (subst unat_add; simp add: unat_LO unat_drop_bit)
  qed
  have "unat c2 * 5 < 2 ^ 54" using cb by simp
  then have "unat y0 < 2 ^ 44 + 2 ^ 54" unfolding uy by (intro add_strict_mono) auto
  then have "unat y0 div 2 ^ 44 < 2 ^ 10 + 1" by simp
  then show "acc_ok (x0, x1, x2)" by (simp add: ux)
  let ?h = "limbs (h0, h1, h2) + unat (U8TO64 m) + 2 ^ 64 * unat (U8TO64 (drop 8 m)) + 2 ^ 88 * unat hibit"
  have ha: "?h = unat a0 + 2 ^ 44 * unat a1 + 2 ^ 88 * unat a2"
    unfolding ua limbs.simps by (rule message_added [OF message_limbs(1)])
  have new: "limbs (x0, x1, x2) = unat d0 mod 2 ^ 44 + unat c2 * 5 + 2 ^ 44 * (unat e1 mod 2 ^ 44) + 2 ^ 88 * (unat e2 mod 2 ^ 42)"
    unfolding limbs.simps ux by (simp only: carry_back uy)
  have "(unat d0 mod 2 ^ 44 + unat c2 * 5 + 2 ^ 44 * (unat e1 mod 2 ^ 44) + 2 ^ 88 * (unat e2 mod 2 ^ 42)) mod poly_p =
      (unat a0 + 2 ^ 44 * unat a1 + 2 ^ 88 * unat a2) * (unat r0 + 2 ^ 44 * unat r1 + 2 ^ 88 * unat r2) mod poly_p"
    by (rule poly_nat [where ?c0.0 = "unat c0" and ?c1.0 = "unat c1" and ?c2.0 = "unat c2"])
      (simp_all only: ud [folded us] us [symmetric] uc0 uc1 uc2 ue1 ue2 mod_mult_div_eq)
  then show "limbs (x0, x1, x2) mod poly_p = ?h * limbs (r0, r1, r2) mod poly_p"
    by (simp only: new ha limbs.simps [of r0])
qed

section \<open>Octets of words\<close>

lemma unat_or_octet:
  fixes x :: u64 and b :: u8
  assumes "unat x < 2 ^ n" and "n \<le> 56"
  shows "unat (x OR push_bit n (ucast b)) = unat x + 2 ^ n * unat b" and "unat (x OR push_bit n (ucast b)) < 2 ^ (n + 8)"
proof -
  have "\<not> bit x k" if "n \<le> k" for k
  proof -
    have "take_bit n x = x" using assms(1) by (simp add: word_unat_eq_iff unat_take_bit)
    then show ?thesis using that by (metis bit_take_bit_iff not_less)
  qed
  then have or: "x OR push_bit n (ucast b) = x + push_bit n (ucast b)"
    by (subst disjunctive_add) (auto simp: bit_simps not_le [symmetric])
  have p: "unat (push_bit n (ucast b :: u64)) = 2 ^ n * unat b"
  proof -
    have "2 ^ n * unat b < 2 ^ n * 2 ^ 8" using unat_u8_lt [of b] by simp
    also have "\<dots> \<le> 2 ^ 56 * 2 ^ 8" using assms(2) by (intro mult_le_mono power_increasing) auto
    finally have "take_bit 64 (push_bit n (unat b)) = 2 ^ n * unat b"
      by (simp add: take_bit_nat_eq_self push_bit_eq_mult mult.commute)
    then show ?thesis by (simp only: unsigned_push_bit_eq) (simp add: unat_ucast_up)
  qed
  have b: "unat x + 2 ^ n * unat b < 2 ^ (n + 8)"
  proof -
    have "unat x + 2 ^ n * unat b < 2 ^ n * Suc (unat b)" using assms(1) by simp
    also have "\<dots> \<le> 2 ^ n * 2 ^ 8" using unat_u8_lt [of b] by (intro mult_le_mono2) simp
    finally show ?thesis by (simp add: power_add)
  qed
  moreover have "(2 :: nat) ^ (n + 8) \<le> 2 ^ LENGTH(64)" using assms(2) by (intro power_increasing) auto
  ultimately show "unat (x OR push_bit n (ucast b)) = unat x + 2 ^ n * unat b"
    unfolding or p [symmetric] by (intro unat_add) (simp only: p order_less_le_trans)
  then show "unat (x OR push_bit n (ucast b)) < 2 ^ (n + 8)" using b by simp
qed

lemma le_val_append: "le_val (a @ b) = le_val a + 256 ^ length a * le_val b"
  by (induction a) (simp_all add: algebra_simps)

lemma le_val_replicate [simp]: "le_val (replicate n 0) = 0"
  by (induction n) simp_all

lemma le_val_lt: "le_val d < 256 ^ length d"
proof (induction d)
  case (Cons b d)
  have "unat b + 256 * le_val d < 256 * Suc (le_val d)" using unat_u8_lt [of b] by simp
  also have "\<dots> \<le> 256 * 256 ^ length d" using Cons by (intro mult_le_mono2) simp
  finally show ?case by simp
qed simp

lemma U8TO64_val: "8 \<le> length p \<Longrightarrow> unat (U8TO64 p) = le_val (take 8 p)"
proof -
  assume "8 \<le> length p"
  then obtain a b c d e f g h q where p: "p = a # b # c # d # e # f # g # h # q"
    by (auto simp: numeral_eq_Suc Suc_le_length_iff)
  have "unat (ucast a :: u64) < 2 ^ 8" using unat_u8_lt [of a] by (simp add: unat_ucast_up)
  note s1 = unat_or_octet [of _ 8, simplified, OF this [simplified], of b]
  note s2 = unat_or_octet [of _ 16, simplified, OF s1(2), of c]
  note s3 = unat_or_octet [of _ 24, simplified, OF s2(2), of d]
  note s4 = unat_or_octet [of _ 32, simplified, OF s3(2), of e]
  note s5 = unat_or_octet [of _ 40, simplified, OF s4(2), of f]
  note s6 = unat_or_octet [of _ 48, simplified, OF s5(2), of g]
  note s7 = unat_or_octet [of _ 56, simplified, OF s6(2), of h]
  show ?thesis
    using s1(1) s2(1) s3(1) s4(1) s5(1) s6(1) s7(1) by (simp add: p U8TO64_def unat_ucast_up or.assoc)
qed

lemma block_val:
  "length m = 16 \<Longrightarrow> unat (U8TO64 m) + 2 ^ 64 * unat (U8TO64 (drop 8 m)) = le_val m"
  using le_val_append [of "take 8 m" "drop 8 m"] by (simp add: U8TO64_val)

section \<open>Whole blocks\<close>

lemma add_four: "t + u = w \<Longrightarrow> l + t + u + b = l + (w + b)" for t u w l b :: nat
  by simp

lemma blocks_val:
  assumes r: "key_ok r" and hi: "hibit = push_bit 40 1"
  shows "acc_ok h \<Longrightarrow> length m mod 16 = 0 \<Longrightarrow> limbs h mod poly_p = a mod poly_p \<Longrightarrow>
    acc_ok (fst (absorb 16 (poly_block r hibit) h m)) \<and>
    limbs (fst (absorb 16 (poly_block r hibit) h m)) mod poly_p = poly_eval (limbs r) a m mod poly_p"
proof (induction "limbs r" a m arbitrary: h rule: poly_eval.induct)
  case (1 a m)
  show ?case
  proof (cases "m = []")
    case False
    then have m: "16 \<le> length m" using "1.prems"(2) by (metis length_0_conv mod_less not_le)
    obtain r0 r1 r2 h0 h1 h2 x0 x1 x2 where
      rh: "r = (r0, r1, r2)" "h = (h0, h1, h2)" "poly_block r hibit h (take 16 m) = (x0, x1, x2)"
      by (metis prod_cases3)
    note step = block_step [OF "1.prems"(1) [unfolded rh] r [unfolded rh] disjI1 [OF hi] rh(3) [unfolded rh]]
    let ?v = "le_val (take 16 m) + 256 ^ 16"
    have lt: "length (take 16 m) = 16" using m by simp
    have v: "unat (U8TO64 (take 16 m)) + 2 ^ 64 * unat (U8TO64 (drop 8 (take 16 m))) = le_val (take 16 m)"
      using m by (intro block_val) simp
    have "2 ^ 88 * unat hibit = 256 ^ 16" using hi by simp
    then have "limbs (x0, x1, x2) mod poly_p = (limbs h + ?v) * limbs r mod poly_p"
      using step(2) unfolding add_four [OF v] rh(1,2) by (simp only:)
    also have "\<dots> = (a + ?v) * limbs r mod poly_p"
      by (intro mod_mult_cong mod_add_cong refl) (rule "1.prems"(3))
    finally have l: "limbs (x0, x1, x2) mod poly_p = ((a + le_val (take 16 m) + 256 ^ length (take 16 m)) * limbs r mod poly_p) mod poly_p"
      unfolding lt by (simp only: mod_mod_trivial add.assoc)
    have "length (drop 16 m) mod 16 = 0" using m "1.prems"(2) by (simp add: le_mod_geq)
    from "1.hyps" [OF False step(1) this l] show ?thesis
      using False m rh(3) by (simp add: absorb_step [of 16 m] poly_eval.simps [of _ a m])
  qed (use "1.prems" in \<open>simp add: poly_eval.simps\<close>)
qed

section \<open>The final reduction\<close>

lemma carry_nat:
  fixes h0 h1 h2 :: nat
  assumes "h1 = a1 + 2 ^ 44 * q1" and "k2 = h2 + q1" and "k2 = b2 + 2 ^ 42 * p2" and "k0 = h0 + p2 * 5"
    and "k0 = b0 + 2 ^ 44 * p0" and "k1 = a1 + p0" and "k1 = b1 + 2 ^ 44 * p1" and "l2 = b2 + p1"
    and "l2 = c2 + 2 ^ 42 * s2" and "l0 = b0 + s2 * 5" and "l0 = c0 + 2 ^ 44 * s0" and "l1 = b1 + s0"
  shows "c0 + 2 ^ 44 * l1 + 2 ^ 88 * c2 + poly_p * (p2 + s2) = h0 + 2 ^ 44 * h1 + 2 ^ 88 * h2"
  using assms by simp

lemma limb_split:
  "unat x = unat (x AND 0xfffffffffff) + 2 ^ 44 * unat (drop_bit 44 x)"
  "unat x = unat (x AND 0x3ffffffffff) + 2 ^ 42 * unat (drop_bit 42 x)"
  for x :: u64
  by (simp_all only: unat_limbs unat_drop_bit mod_mult_div_eq)

lemma limb_bounds [simp]:
  "unat (x AND 0xfffffffffff :: u64) < 2 ^ 44" "unat (x AND 0x3ffffffffff :: u64) < 2 ^ 42"
  by (simp_all only: unat_limbs) simp_all

lemma carry_le:
  "unat x < 2 ^ 44 * k \<Longrightarrow> unat (drop_bit 44 x) < k" "unat x < 2 ^ 42 * k \<Longrightarrow> unat (drop_bit 42 x) < k"
  for x :: u64
  by (simp_all add: unat_drop_bit less_mult_imp_div_less mult.commute)

lemma carry_ok:
  assumes "acc_ok (h0, h1, h2)" and "poly_carry (h0, h1, h2) = (x0, x1, x2)"
  shows "unat x0 < 2 ^ 44" and "unat x1 \<le> 2 ^ 44" and "unat x2 < 2 ^ 42"
    and "limbs (x0, x1, x2) mod poly_p = limbs (h0, h1, h2) mod poly_p"
proof -
  have h: "unat h0 < 2 ^ 44" "unat h1 < 2 ^ 44 + 2 ^ 10" "unat h2 < 2 ^ 42" using assms(1) by simp_all
  define q1 where "q1 = drop_bit 44 h1"
  define k2 where "k2 = h2 + q1"
  define p2 where "p2 = drop_bit 42 k2"
  define k0 where "k0 = h0 + p2 * 5"
  define p0 where "p0 = drop_bit 44 k0"
  define k1 where "k1 = (h1 AND 0xfffffffffff) + p0"
  define p1 where "p1 = drop_bit 44 k1"
  define l2 where "l2 = (k2 AND 0x3ffffffffff) + p1"
  define s2 where "s2 = drop_bit 42 l2"
  define l0 where "l0 = (k0 AND 0xfffffffffff) + s2 * 5"
  define s0 where "s0 = drop_bit 44 l0"
  have x: "x0 = l0 AND 0xfffffffffff" "x1 = (k1 AND 0xfffffffffff) + s0" "x2 = l2 AND 0x3ffffffffff"
    using assms(2) by (simp_all add: poly_carry_def Let_def q1_def k2_def p2_def k0_def p0_def k1_def p1_def l2_def s2_def l0_def s0_def)
  have "unat q1 < 2" unfolding q1_def using h(2) by (intro carry_le) simp
  then have k2: "unat k2 = unat h2 + unat q1" unfolding k2_def using h by (intro unat_add) simp
  then have "unat p2 < 2" unfolding p2_def using h(3) \<open>unat q1 < 2\<close> by (intro carry_le) simp
  then have k0: "unat k0 = unat h0 + unat p2 * 5" unfolding k0_def using h by (subst unat_add; simp add: unat_mul)
  then have "unat p0 < 2" unfolding p0_def using h(1) \<open>unat p2 < 2\<close> by (intro carry_le) simp
  then have k1: "unat k1 = unat (h1 AND 0xfffffffffff) + unat p0" unfolding k1_def using limb_bounds(1) [of h1] by (intro unat_add) simp
  then have "unat p1 < 2" unfolding p1_def using limb_bounds(1) [of h1] \<open>unat p0 < 2\<close> by (intro carry_le) simp
  then have l2: "unat l2 = unat (k2 AND 0x3ffffffffff) + unat p1" unfolding l2_def using limb_bounds(2) [of k2] by (intro unat_add) simp
  then have "unat s2 < 2" unfolding s2_def using limb_bounds(2) [of k2] \<open>unat p1 < 2\<close> by (intro carry_le) simp
  then have l0: "unat l0 = unat (k0 AND 0xfffffffffff) + unat s2 * 5" unfolding l0_def using limb_bounds(1) [of k0] by (subst unat_add; simp add: unat_mul)
  then have "unat s0 < 2" unfolding s0_def using limb_bounds(1) [of k0] \<open>unat s2 < 2\<close> by (intro carry_le) simp
  then have x1: "unat x1 = unat (k1 AND 0xfffffffffff) + unat s0" unfolding x using limb_bounds(1) [of k1] by (intro unat_add) simp
  show "unat x0 < 2 ^ 44" "unat x2 < 2 ^ 42" unfolding x by (rule limb_bounds)+
  show "unat x1 \<le> 2 ^ 44" unfolding x1 using limb_bounds(1) [of k1] \<open>unat s0 < 2\<close> by linarith
  have "limbs (x0, x1, x2) + poly_p * (unat p2 + unat s2) = limbs (h0, h1, h2)"
    unfolding limbs.simps x(1,3) by (rule carry_nat [OF limb_split(1) [of h1, folded q1_def] k2 limb_split(2) [of k2, folded p2_def] k0
      limb_split(1) [of k0, folded p0_def] k1 limb_split(1) [of k1, folded p1_def] l2 limb_split(2) [of l2, folded s2_def] l0 limb_split(1) [of l0, folded s0_def] x1])
  then show "limbs (x0, x1, x2) mod poly_p = limbs (h0, h1, h2) mod poly_p" by (metis mod_mult_self2)
qed

lemma unat_sub_wrap: "unat x < unat y \<Longrightarrow> unat (x - y) = unat x + 2 ^ 64 - unat y" "unat y \<le> unat x \<Longrightarrow> unat (x - y) = unat x - unat y" for x y :: u64
proof -
  assume xy: "unat x < unat y"
  have u: "uint x < uint y" "uint y < 2 ^ 64" "0 \<le> uint x" using xy uint_bounded [of y] by (simp_all add: word_less_nat_alt [symmetric] word_less_def)
  have "uint (x - y) = (uint x - uint y) mod 2 ^ 64" by (simp add: uint_word_ariths)
  also have "\<dots> = (uint x - uint y + 2 ^ 64) mod 2 ^ 64" by simp
  also have "\<dots> = uint x - uint y + 2 ^ 64" by (rule mod_pos_pos_trivial; use u in linarith)
  finally have "int (unat (x - y)) = int (unat x) + 2 ^ 64 - int (unat y)" by simp
  also have "\<dots> = int (unat x + 2 ^ 64 - unat y)" using unat_u64_lt [of y] by (simp add: of_nat_diff del: of_nat_unat)
  finally show "unat (x - y) = unat x + 2 ^ 64 - unat y" by (simp only: of_nat_eq_iff)
next
  assume "unat y \<le> unat x"
  then show "unat (x - y) = unat x - unat y" by (simp add: Word.unat_sub word_le_nat_alt)
qed

lemma select_ok:
  assumes h: "unat h0 < 2 ^ 44" "unat h1 \<le> 2 ^ 44" "unat h2 < 2 ^ 42" and x: "poly_select (h0, h1, h2) = (x0, x1, x2)"
  shows "unat x0 < 2 ^ 44" and "unat x1 \<le> 2 ^ 44" and "unat x2 < 2 ^ 42" and "limbs (x0, x1, x2) = limbs (h0, h1, h2) mod poly_p"
proof -
  define e0 where "e0 = h0 + 5"
  define q0 where "q0 = drop_bit 44 e0"
  define e1 where "e1 = h1 + q0"
  define q1 where "q1 = drop_bit 44 e1"
  define g2 where "g2 = h2 + q1 - push_bit 42 1"
  define c where "c = drop_bit 63 g2 - 1"
  have xs: "x0 = (h0 AND NOT c) OR (e0 AND 0xfffffffffff AND c)" "x1 = (h1 AND NOT c) OR (e1 AND 0xfffffffffff AND c)" "x2 = (h2 AND NOT c) OR (g2 AND c)"
    using x by (simp_all add: poly_select_def Let_def e0_def q0_def e1_def q1_def g2_def c_def and.assoc)
  have e0: "unat e0 = unat h0 + 5" unfolding e0_def using h by (subst unat_add) simp_all
  then have "unat q0 < 2" unfolding q0_def using h by (intro carry_le) simp
  then have e1: "unat e1 = unat h1 + unat q0" unfolding e1_def using h by (intro unat_add) simp
  then have "unat q1 < 2" unfolding q1_def using h \<open>unat q0 < 2\<close> by (intro carry_le) simp
  then have e2: "unat (h2 + q1) = unat h2 + unat q1" using h by (intro unat_add) simp
  have g: "unat (e0 AND 0xfffffffffff) + 2 ^ 44 * unat (e1 AND 0xfffffffffff) + 2 ^ 88 * (unat h2 + unat q1) = limbs (h0, h1, h2) + 5"
    using limb_split(1) [of e0, folded q0_def] limb_split(1) [of e1, folded q1_def] e0 e1 by simp
  have sum: "unat x0 < 2 ^ 44 \<and> unat x1 \<le> 2 ^ 44 \<and> unat x2 < 2 ^ 42 \<and> limbs (x0, x1, x2) = limbs (h0, h1, h2) mod poly_p"
  proof (cases "unat h2 + unat q1 < 2 ^ 42")
    case True
    have "unat g2 = unat h2 + unat q1 + 2 ^ 64 - 2 ^ 42" unfolding g2_def using True e2 by (subst unat_sub_wrap) simp_all
    then have "unat (drop_bit 63 g2) = 1" unfolding unat_drop_bit using True by (intro div_nat_eqI) simp_all
    then have "drop_bit 63 g2 = 1" by (simp add: word_unat_eq_iff)
    then have "c = 0" by (simp add: c_def)
    then have "x0 = h0" "x1 = h1" "x2 = h2" using xs by simp_all
    moreover have "limbs (h0, h1, h2) < poly_p"
      using g True limb_bounds(1) [of e0] limb_bounds(1) [of e1] by simp
    ultimately show ?thesis using h by simp
  next
    case False
    then have g2: "unat g2 = unat h2 + unat q1 - 2 ^ 42" unfolding g2_def using e2 by (subst unat_sub_wrap) simp_all
    then have "unat g2 < 2" using h(3) \<open>unat q1 < 2\<close> by linarith
    then have "unat (drop_bit 63 g2) = 0" unfolding unat_drop_bit by simp
    then have "drop_bit 63 g2 = 0" by (simp add: word_unat_eq_iff)
    then have "c = - 1" by (simp add: c_def)
    then have "x0 = e0 AND 0xfffffffffff" "x1 = e1 AND 0xfffffffffff" "x2 = g2" using xs by simp_all
    moreover have eq: "limbs (e0 AND 0xfffffffffff, e1 AND 0xfffffffffff, g2) + poly_p = limbs (h0, h1, h2)"
      using g g2 False by simp
    moreover have "limbs (h0, h1, h2) < poly_p + poly_p" using h by simp
    then have "limbs (e0 AND 0xfffffffffff, e1 AND 0xfffffffffff, g2) < poly_p" unfolding eq [symmetric] by (rule add_less_imp_less_right)
    then have "limbs (e0 AND 0xfffffffffff, e1 AND 0xfffffffffff, g2) = limbs (h0, h1, h2) mod poly_p"
      unfolding eq [symmetric] mod_add_self2 by (rule mod_less [symmetric])
    moreover have "unat g2 < 2 ^ 42" using \<open>unat g2 < 2\<close> by simp
    ultimately show ?thesis by (simp only: limb_bounds less_imp_le simp_thms)
  qed
  then show "unat x0 < 2 ^ 44" "unat x1 \<le> 2 ^ 44" "unat x2 < 2 ^ 42" "limbs (x0, x1, x2) = limbs (h0, h1, h2) mod poly_p" by blast+
qed

section \<open>The tag\<close>

lemma ucast_and_ff: "ucast (x AND 0xff :: u64) = (ucast x :: u8)"
proof -
  have m: "(0xff :: u64) = mask 8" by (simp add: mask_eq_exp_minus_1)
  show ?thesis unfolding m by (rule bit_word_eqI) (auto simp: bit_simps)
qed

lemma le_val_U64TO8: "le_val (U64TO8 v) = unat v" "length (U64TO8 v) = 8"
proof -
  have "U8TO64 (U64TO8 v) = v"
    using word_join(3) [of v] by (simp add: U8TO64_def U64TO8_def ucast_and_ff or.commute or.left_commute)
  then show "le_val (U64TO8 v) = unat v" using U8TO64_val [of "U64TO8 v"] by (simp add: U64TO8_def)
qed (simp add: U64TO8_def)

lemma or_shift:
  fixes x y :: u64
  assumes "unat x < 2 ^ n" and "n \<le> 64"
  shows "unat (x OR push_bit n y) = unat x + 2 ^ n * (unat y mod 2 ^ (64 - n))"
proof -
  have "\<not> bit x k" if "n \<le> k" for k
  proof -
    have "take_bit n x = x" using assms(1) by (simp add: word_unat_eq_iff unat_take_bit)
    then show ?thesis using that by (metis bit_take_bit_iff not_less)
  qed
  then have or: "x OR push_bit n y = x + push_bit n y"
    by (subst disjunctive_add) (auto simp: bit_simps not_le [symmetric])
  have n: "(2 :: nat) ^ 64 = 2 ^ n * 2 ^ (64 - n)" using assms(2) by (simp only: power_add [symmetric]) simp
  have "unat (push_bit n y) = (unat y * 2 ^ n) mod 2 ^ 64"
    by (simp only: unsigned_push_bit_eq) (simp add: take_bit_eq_mod push_bit_eq_mult)
  then have p: "unat (push_bit n y) = 2 ^ n * (unat y mod 2 ^ (64 - n))"
    unfolding n by (simp only: mult.commute [of "unat y"] mult_mod_right)
  have "unat x + 2 ^ n * (unat y mod 2 ^ (64 - n)) < 2 ^ n * Suc (unat y mod 2 ^ (64 - n))" using assms(1) by simp
  also have "\<dots> \<le> 2 ^ n * 2 ^ (64 - n)" by (intro mult_le_mono2) (simp add: Suc_le_eq)
  finally have "unat x + unat (push_bit n y) < 2 ^ 64" unfolding p n .
  then have "unat (x + push_bit n y) = unat x + unat (push_bit n y)" by (intro unat_add) simp
  then show ?thesis unfolding or p .
qed

lemma regroup_mac:
  fixes a b c d :: nat
  assumes "b = b' + 2 ^ 20 * b''" and "c = c' + 2 ^ 40 * c''"
  shows "a + 2 ^ 44 * b + 2 ^ 88 * c = (a + 2 ^ 44 * b') + 2 ^ 64 * (b'' + 2 ^ 24 * c') + 2 ^ 128 * c''"
  using assms by (simp add: algebra_simps)

lemma pack_words:
  fixes b0 b1 b2 :: u64
  assumes "unat b0 < 2 ^ 44" and "unat b1 < 2 ^ 44" and "unat b2 < 2 ^ 42"
  shows "unat (b0 OR push_bit 44 b1) + 2 ^ 64 * unat (drop_bit 20 b1 OR push_bit 24 b2) = limbs (b0, b1, b2) mod 2 ^ 128"
proof -
  have h0: "unat (b0 OR push_bit 44 b1) = unat b0 + 2 ^ 44 * (unat b1 mod 2 ^ 20)"
    using or_shift [OF assms(1), of b1] by simp
  have "unat (drop_bit 20 b1) < 2 ^ 24" unfolding unat_drop_bit using assms(2) by simp
  then have h1: "unat (drop_bit 20 b1 OR push_bit 24 b2) = unat b1 div 2 ^ 20 + 2 ^ 24 * (unat b2 mod 2 ^ 40)"
    using or_shift [of "drop_bit 20 b1" 24 b2] by (simp add: unat_drop_bit)
  have "limbs (b0, b1, b2) = (unat b0 + 2 ^ 44 * (unat b1 mod 2 ^ 20)) + 2 ^ 64 * (unat b1 div 2 ^ 20 + 2 ^ 24 * (unat b2 mod 2 ^ 40)) + 2 ^ 128 * (unat b2 div 2 ^ 40)"
    unfolding limbs.simps by (rule regroup_mac; simp only: mod_mult_div_eq)
  moreover have "unat (b0 OR push_bit 44 b1) + 2 ^ 64 * unat (drop_bit 20 b1 OR push_bit 24 b2) < 2 ^ 64 * Suc (unat (drop_bit 20 b1 OR push_bit 24 b2))"
    using unat_u64_lt [of "b0 OR push_bit 44 b1"] by simp
  then have "unat (b0 OR push_bit 44 b1) + 2 ^ 64 * unat (drop_bit 20 b1 OR push_bit 24 b2) < 2 ^ 64 * 2 ^ 64"
    using unat_u64_lt [of "drop_bit 20 b1 OR push_bit 24 b2"] by simp
  then have "unat (b0 OR push_bit 44 b1) + 2 ^ 64 * unat (drop_bit 20 b1 OR push_bit 24 b2) < 2 ^ 128" by simp
  ultimately show ?thesis unfolding h0 h1 by (simp only: mod_mult_self2 mod_less)
qed

lemma mac_ok:
  assumes x: "unat x0 < 2 ^ 44" "unat x1 \<le> 2 ^ 44" "unat x2 < 2 ^ 42"
  shows "le_val (poly_mac (x0, x1, x2) (t0, t1)) = (limbs (x0, x1, x2) + (unat t0 + 2 ^ 64 * unat t1)) mod 2 ^ 128"
    and "length (poly_mac (x0, x1, x2) (t0, t1)) = 16"
proof -
  let ?m0 = "t0 AND 0xfffffffffff" and ?m1 = "(drop_bit 44 t0 OR push_bit 20 t1) AND 0xfffffffffff" and ?m2 = "drop_bit 24 t1 AND 0x3ffffffffff"
  define a0 where "a0 = x0 + ?m0"
  define c0 where "c0 = drop_bit 44 a0"
  define a1 where "a1 = x1 + (?m1 + c0)"
  define c1 where "c1 = drop_bit 44 a1"
  define a2 where "a2 = x2 + (?m2 + c1)"
  let ?b0 = "a0 AND 0xfffffffffff" and ?b1 = "a1 AND 0xfffffffffff" and ?b2 = "a2 AND 0x3ffffffffff"
  have mac: "poly_mac (x0, x1, x2) (t0, t1) = U64TO8 (?b0 OR push_bit 44 ?b1) @ U64TO8 (drop_bit 20 ?b1 OR push_bit 24 ?b2)"
    by (simp add: poly_mac_def Let_def a0_def c0_def a1_def c1_def a2_def)
  then show "length (poly_mac (x0, x1, x2) (t0, t1)) = 16" by (simp add: le_val_U64TO8)
  have a0: "unat a0 = unat x0 + unat ?m0" unfolding a0_def using x limb_bounds(1) [of t0] by (intro unat_add) simp
  then have "unat c0 < 2" unfolding c0_def using x(1) limb_bounds(1) [of t0] by (intro carry_le) simp
  then have a1: "unat a1 = unat x1 + (unat ?m1 + unat c0)"
    unfolding a1_def using x limb_bounds(1) [of "drop_bit 44 t0 OR push_bit 20 t1"] by (subst unat_add; subst unat_add; simp)
  then have "unat c1 < 3" unfolding c1_def using x(2) limb_bounds(1) [of "drop_bit 44 t0 OR push_bit 20 t1"] \<open>unat c0 < 2\<close> by (intro carry_le) simp
  then have a2: "unat a2 = unat x2 + (unat ?m2 + unat c1)"
    unfolding a2_def using x message_limbs(2) [of t1] by (subst unat_add; subst unat_add; simp)
  have "limbs (?b0, ?b1, ?b2) + 2 ^ 130 * unat (drop_bit 42 a2) = limbs (x0, x1, x2) + (unat ?m0 + 2 ^ 44 * unat ?m1 + 2 ^ 88 * unat ?m2)"
    using limb_split(1) [of a0, folded c0_def] limb_split(1) [of a1, folded c1_def] limb_split(2) [of a2] a0 a1 a2 by simp
  then have "limbs (?b0, ?b1, ?b2) + 2 ^ 128 * (4 * unat (drop_bit 42 a2)) = limbs (x0, x1, x2) + (unat t0 + 2 ^ 64 * unat t1)"
    unfolding message_limbs(1) by simp
  then have "limbs (?b0, ?b1, ?b2) mod 2 ^ 128 = (limbs (x0, x1, x2) + (unat t0 + 2 ^ 64 * unat t1)) mod 2 ^ 128" by (metis mod_mult_self2)
  then show "le_val (poly_mac (x0, x1, x2) (t0, t1)) = (limbs (x0, x1, x2) + (unat t0 + 2 ^ 64 * unat t1)) mod 2 ^ 128"
    using pack_words [OF limb_bounds(1) limb_bounds(1) limb_bounds(2), of a0 a1 a2]
    by (simp add: mac le_val_append le_val_U64TO8)
qed

section \<open>The key\<close>

lemma bit_below: "unat w < 2 ^ n \<Longrightarrow> bit w k \<Longrightarrow> k < n" for w :: "'a::len word"
proof -
  assume "unat w < 2 ^ n" "bit w k"
  then have "take_bit n w = w" by (simp add: word_unat_eq_iff unat_take_bit)
  then show "k < n" using \<open>bit w k\<close> by (metis bit_take_bit_iff)
qed

lemma join_limbs:
  fixes a b c :: u64
  assumes "unat a < 2 ^ 44" and "unat b < 2 ^ 44" and "unat c < 2 ^ 40"
  shows "unat (ucast a OR push_bit 44 (ucast b) OR push_bit 88 (ucast c) :: u128) = limbs (a, b, c)"
proof -
  have p: "unat (push_bit 44 (ucast b) :: u128) = 2 ^ 44 * unat b" "unat (push_bit 88 (ucast c) :: u128) = 2 ^ 88 * unat c"
    unfolding push_bit_eq_mult using assms by (subst unat_mul; simp add: unat_ucast_up)+
  have o1: "push_bit 44 (ucast b) OR push_bit 88 (ucast c) = (push_bit 44 (ucast b) + push_bit 88 (ucast c) :: u128)"
    by (rule disjunctive_add [symmetric]) (use bit_below [OF assms(2)] in \<open>force simp: bit_simps\<close>)
  have o2: "ucast a OR (push_bit 44 (ucast b) OR push_bit 88 (ucast c)) = (ucast a + (push_bit 44 (ucast b) OR push_bit 88 (ucast c)) :: u128)"
    by (rule disjunctive_add [symmetric]) (use bit_below [OF assms(1)] in \<open>force simp: bit_simps\<close>)
  have "unat (push_bit 44 (ucast b) + push_bit 88 (ucast c) :: u128) = 2 ^ 44 * unat b + 2 ^ 88 * unat c"
    using assms p by (subst unat_add) simp_all
  then show ?thesis unfolding o2 unfolding o1 using assms by (subst unat_add) (simp_all add: unat_ucast_up)
qed

lemma clamp_bits:
  fixes t0 t1 m0 m1 m2 :: u64
  assumes "unat m0 < 2 ^ 44" and "unat m1 < 2 ^ 44" and "unat m2 < 2 ^ 40"
  shows "(ucast t0 OR push_bit 64 (ucast t1) :: u128) AND (ucast m0 OR push_bit 44 (ucast m1) OR push_bit 88 (ucast m2)) =
    ucast (t0 AND m0) OR push_bit 44 (ucast ((drop_bit 44 t0 OR push_bit 20 t1) AND m1)) OR push_bit 88 (ucast (drop_bit 24 t1 AND m2))"
proof (rule bit_word_eqI)
  fix n
  show "bit ((ucast t0 OR push_bit 64 (ucast t1) :: u128) AND (ucast m0 OR push_bit 44 (ucast m1) OR push_bit 88 (ucast m2))) n =
    bit (ucast (t0 AND m0) OR push_bit 44 (ucast ((drop_bit 44 t0 OR push_bit 20 t1) AND m1)) OR push_bit 88 (ucast (drop_bit 24 t1 AND m2)) :: u128) n"
    using bit_below [OF assms(1), of n] bit_below [OF assms(2), of "n - 44"] bit_below [OF assms(3), of "n - 88"]
      bit_imp_le_length [of t0 n]
    by (cases "n < 44"; cases "n < 64"; cases "n < 88") (auto simp: bit_simps)
qed

lemma init_key:
  assumes "length key = 32"
  shows "limbs (po_r (hsk_poly1305_init key)) = poly_clamp (take 16 key)" and "key_ok (po_r (hsk_poly1305_init key))"
    and "po_pad (hsk_poly1305_init key) = (t0, t1) \<Longrightarrow> unat t0 + 2 ^ 64 * unat t1 = le_val (take 16 (drop 16 key))"
proof -
  let ?t0 = "U8TO64 key" and ?t1 = "U8TO64 (drop 8 key)"
  let ?m0 = "0xffc0fffffff :: u64" and ?m1 = "0xfffffc0ffff :: u64" and ?m2 = "0x00ffffffc0f :: u64"
  have and_le: "unat (x AND m) < k" if "unat m < k" for x m :: u64 and k
    using that word_and_le1 [of x m] by (auto simp: word_le_nat_alt and.commute)
  have r: "po_r (hsk_poly1305_init key) = (?t0 AND ?m0, (drop_bit 44 ?t0 OR push_bit 20 ?t1) AND ?m1, drop_bit 24 ?t1 AND ?m2)"
    by (simp add: hsk_poly1305_init_def Let_def)
  have b: "unat (?t0 AND ?m0) < 2 ^ 44" "unat ((drop_bit 44 ?t0 OR push_bit 20 ?t1) AND ?m1) < 2 ^ 44" "unat (drop_bit 24 ?t1 AND ?m2) < 2 ^ 40"
    by (rule and_le; simp)+
  then show "key_ok (po_r (hsk_poly1305_init key))" by (simp only: r key_ok.simps simp_thms)
  have "unat (U8TO64 (take 16 key)) + 2 ^ 64 * unat (U8TO64 (drop 8 (take 16 key))) = le_val (take 16 key)"
    using assms by (intro block_val) simp
  then have v: "unat ?t0 + 2 ^ 64 * unat ?t1 = le_val (take 16 key)"
    using assms by (simp add: U8TO64_val drop_take)
  have "(of_nat (le_val (take 16 key)) :: u128) = ucast ?t0 + push_bit 64 (ucast ?t1)"
    unfolding v [symmetric] by (simp add: push_bit_eq_mult mult.commute)
  also have "\<dots> = ucast ?t0 OR push_bit 64 (ucast ?t1)"
    by (rule disjunctive_add) (auto simp: bit_simps dest: bit_imp_le_length)
  finally have w: "(of_nat (le_val (take 16 key)) :: u128) = ucast ?t0 OR push_bit 64 (ucast ?t1)" .
  have m: "(0x0ffffffc0ffffffc0ffffffc0fffffff :: u128) = ucast ?m0 OR push_bit 44 (ucast ?m1) OR push_bit 88 (ucast ?m2)"
    by simp
  show "limbs (po_r (hsk_poly1305_init key)) = poly_clamp (take 16 key)"
    unfolding r poly_clamp_def w m by (subst clamp_bits) (simp_all only: join_limbs [OF b], simp_all)
  show "unat t0 + 2 ^ 64 * unat t1 = le_val (take 16 (drop 16 key))" if "po_pad (hsk_poly1305_init key) = (t0, t1)"
    using block_val [of "drop 16 key"] that assms by (simp add: hsk_poly1305_init_def Let_def)
qed

section \<open>Messages in pieces\<close>

definition poly_ok :: "u64 \<times> u64 \<times> u64 \<Rightarrow> u64 \<times> u64 \<Rightarrow> hsk_poly1305_ctx \<Rightarrow> bool" where
  "poly_ok r pad st \<longleftrightarrow> po_r st = r \<and> po_pad st = pad \<and> \<not> po_final st \<and> length (po_buffer st) = 16 \<and> po_leftover st < 16"

definition poly_abs :: "hsk_poly1305_ctx \<Rightarrow> (u64 \<times> u64 \<times> u64) \<times> bytes" where
  "poly_abs st = (po_h st, take (po_leftover st) (po_buffer st))"

lemma absorb_whole:
  assumes "0 < B"
  shows "absorb B f h d = (fst (absorb B f h (take (length d - length d mod B) d)), drop (length d - length d mod B) d)"
proof -
  let ?n = "length d - length d mod B"
  have "length (take ?n d) = ?n" by simp
  then have "length (take ?n d) mod B = 0" unfolding minus_mod_eq_mult_div by simp
  then have "snd (absorb B f h (take ?n d)) = []" using length_absorb [OF assms, of f h "take ?n d"] by simp
  then obtain h' where h': "absorb B f h (take ?n d) = (h', [])" by (metis prod.collapse)
  have "length (drop ?n d) < B" using assms by simp
  then show ?thesis using absorb_append [OF assms, of f h "take ?n d" "drop ?n d"] h' by simp
qed

lemma blocks_poly [simp]:
  "po_r (hsk_poly1305_blocks st m) = po_r st" "po_pad (hsk_poly1305_blocks st m) = po_pad st"
  "po_final (hsk_poly1305_blocks st m) = po_final st" "po_buffer (hsk_poly1305_blocks st m) = po_buffer st"
  "po_leftover (hsk_poly1305_blocks st m) = po_leftover st"
  "po_h (hsk_poly1305_blocks st m) = fst (absorb 16 (poly_block (po_r st) (if po_final st then 0 else push_bit 40 1)) (po_h st) m)"
  by (simp_all add: hsk_poly1305_blocks_def Let_def)

lemma whole_poly:
  assumes st: "poly_ok r pad st" "po_leftover st = 0"
  shows "poly_ok r pad (poly_whole st m) \<and> poly_abs (poly_whole st m) = absorb 16 (poly_block r (push_bit 40 1)) (po_h st) m"
proof (cases "16 \<le> length m")
  case True
  let ?n = "length m - length m mod 16" and ?f = "poly_block r (push_bit 40 1)"
  let ?b = "hsk_poly1305_blocks st (take ?n m)"
  define q where "q = drop ?n m"
  have q: "length q < 16" by (simp add: q_def)
  have ab: "absorb 16 ?f (po_h st) m = (fst (absorb 16 ?f (po_h st) (take ?n m)), q)"
    unfolding q_def by (rule absorb_whole) simp
  have w: "poly_whole st m = (if q = [] then ?b else ?b\<lparr>po_buffer := q @ drop (length q) (po_buffer st), po_leftover := length q\<rparr>)"
    unfolding poly_whole_def Let_def q_def using True st(2) by simp
  have b: "po_r ?b = r" "po_pad ?b = pad" "\<not> po_final ?b" "length (po_buffer ?b) = 16" "po_leftover ?b = 0"
    "po_h ?b = fst (absorb 16 ?f (po_h st) (take ?n m))"
    using st by (simp_all add: poly_ok_def)
  show ?thesis
  proof (cases "q = []")
    case True
    then show ?thesis unfolding w ab poly_ok_def poly_abs_def using b by (simp only: if_True take_0 simp_thms)
  next
    case False
    then show ?thesis unfolding w ab poly_ok_def poly_abs_def using b q by (simp only: if_False) simp
  qed
next
  case False
  then show ?thesis using st by (auto simp: poly_whole_def Let_def poly_ok_def poly_abs_def)
qed

lemma update_poly:
  assumes "poly_ok r pad st"
  shows "poly_ok r pad (hsk_poly1305_update st d) \<and>
    poly_abs (hsk_poly1305_update st d) = (case poly_abs st of (h, q) \<Rightarrow> absorb 16 (poly_block r (push_bit 40 1)) h (q @ d))"
proof (cases "po_leftover st = 0")
  case True
  then show ?thesis using whole_poly [OF assms True, of d] by (simp add: hsk_poly1305_update_def poly_abs_def)
next
  case l: False
  let ?l = "po_leftover st" and ?b = "po_buffer st"
  have st: "po_r st = r" "po_pad st = pad" "\<not> po_final st" "length ?b = 16" "?l < 16" using assms by (simp_all add: poly_ok_def)
  show ?thesis
  proof (cases "?l + length d < 16")
    case True
    then have "min (16 - ?l) (length d) = length d" by simp
    then show ?thesis using l st True
      by (simp add: hsk_poly1305_update_def poly_fill_def Let_def poly_ok_def poly_abs_def)
  next
    case False
    let ?w = "16 - ?l"
    have w: "min ?w (length d) = ?w" using False by simp
    define q where "q = take ?l ?b @ take ?w d"
    have q: "length q = 16" "take ?l ?b @ take ?w d @ drop 16 ?b = q" "q @ drop ?w d = take ?l ?b @ d"
      using st False by (simp_all add: q_def)
    let ?s = "(hsk_poly1305_blocks (st\<lparr>po_buffer := q, po_leftover := 16\<rparr>) q)\<lparr>po_leftover := 0\<rparr>"
    have fill: "poly_fill st d = (?s, Some (drop ?w d))"
      unfolding poly_fill_def w using st q by (simp add: Let_def)
    have "poly_ok r pad ?s" "po_leftover ?s = 0" using st q by (simp_all add: poly_ok_def)
    note whole = whole_poly [OF this, of "drop ?w d"]
    have "po_h ?s = poly_block r (push_bit 40 1) (po_h st) q" using st q(1) by simp
    moreover have "absorb 16 (poly_block r (push_bit 40 1)) (po_h st) (q @ drop ?w d) =
        absorb 16 (poly_block r (push_bit 40 1)) (poly_block r (push_bit 40 1) (po_h st) q) (drop ?w d)"
      using q(1) by (intro absorb_block) simp_all
    ultimately show ?thesis using whole l q(3) by (simp add: hsk_poly1305_update_def fill poly_abs_def)
  qed
qed

interpretation poly: buffered 16 "poly_block r (push_bit 40 1)" "poly_ok r pad" poly_abs "\<lambda>_ :: unit. hsk_poly1305_update" for r pad
  by unfold_locales (simp_all add: update_poly)

lemma eval_append: "length a mod 16 = 0 \<Longrightarrow> poly_eval r x (a @ b) = poly_eval r (poly_eval r x a) b"
proof (induction r x a rule: poly_eval.induct)
  case (1 r x a)
  show ?case
  proof (cases "a = []")
    case False
    then have a: "16 \<le> length a" using 1(2) by (metis length_0_conv mod_less not_le)
    then have "length (drop 16 a) mod 16 = 0" using 1(2) by (simp add: le_mod_geq)
    with 1(1) [OF False] False a show ?thesis
      by (simp add: poly_eval.simps [of r x "a @ b"] poly_eval.simps [of r x a])
  qed (simp add: poly_eval.simps [of r x "[]"])
qed

lemma eval_less: "x < poly_p \<or> z \<noteq> [] \<Longrightarrow> poly_eval r x z < poly_p"
proof (induction r x z rule: poly_eval.induct)
  case (1 r x z)
  have "y mod poly_p < poly_p" for y :: nat by (rule mod_less_divisor) simp
  then show ?case using 1 by (cases "z = []") (simp_all only: eval_Nil eval_step simp_thms)
qed

lemma final_tag:
  assumes "acc_ok h" and "limbs h mod poly_p = v mod poly_p"
  shows "le_val (poly_mac (poly_select (poly_carry h)) (t0, t1)) = (v mod poly_p + (unat t0 + 2 ^ 64 * unat t1)) mod 2 ^ 128"
    and "length (poly_mac (poly_select (poly_carry h)) (t0, t1)) = 16"
proof -
  obtain h0 h1 h2 x0 x1 x2 y0 y1 y2 where
    e: "h = (h0, h1, h2)" "poly_carry (h0, h1, h2) = (x0, x1, x2)" "poly_select (x0, x1, x2) = (y0, y1, y2)"
    by (metis prod_cases3)
  note c = carry_ok [OF assms(1) [unfolded e(1)] e(2)]
  note s = select_ok [OF c(1-3) e(3)]
  note m = mac_ok [OF s(1-3), of t0 t1]
  have "limbs (y0, y1, y2) = v mod poly_p" unfolding s(4) c(4) using assms(2) unfolding e(1) .
  then show "le_val (poly_mac (poly_select (poly_carry h)) (t0, t1)) = (v mod poly_p + (unat t0 + 2 ^ 64 * unat t1)) mod 2 ^ 128"
    using m(1) unfolding e by (simp only:)
  show "length (poly_mac (poly_select (poly_carry h)) (t0, t1)) = 16" unfolding e by (rule m(2))
qed

lemma finish_poly:
  assumes st: "poly_ok r (t0, t1) st" and r: "key_ok r" and abs: "poly_abs st = absorb 16 (poly_block r (push_bit 40 1)) (0, 0, 0) m"
  shows "le_val (snd (hsk_poly1305_finish st)) = (poly_eval (limbs r) 0 m + (unat t0 + 2 ^ 64 * unat t1)) mod 2 ^ 128"
    and "length (snd (hsk_poly1305_finish st)) = 16"
proof -
  let ?n = "length m - length m mod 16" and ?l = "po_leftover st"
  have s: "po_r st = r" "po_pad st = (t0, t1)" "length (po_buffer st) = 16" "?l < 16" using st by (simp_all add: poly_ok_def)
  have h: "po_h st = fst (absorb 16 (poly_block r (push_bit 40 1)) (0, 0, 0) (take ?n m))" and q: "take ?l (po_buffer st) = drop ?n m"
    using abs absorb_whole [of 16 "poly_block r (push_bit 40 1)" "(0, 0, 0)" m] by (simp_all add: poly_abs_def)
  have n: "length (take ?n m) mod 16 = 0"
  proof -
    have "length (take ?n m) = ?n" by simp
    then show ?thesis unfolding minus_mod_eq_mult_div by simp
  qed
  have ev: "poly_eval (limbs r) 0 m = poly_eval (limbs r) (poly_eval (limbs r) 0 (take ?n m)) (drop ?n m)"
    using eval_append [OF n, of "limbs r" 0 "drop ?n m"] by simp
  note b = blocks_val [OF r refl _ n, of "(0, 0, 0)" 0, folded h]
  have b: "acc_ok (po_h st)" "limbs (po_h st) mod poly_p = poly_eval (limbs r) 0 (take ?n m) mod poly_p" using b by simp_all
  have red: "poly_eval (limbs r) 0 z mod poly_p = poly_eval (limbs r) 0 z" for z
    by (rule mod_less, rule eval_less) simp
  have "le_val (snd (hsk_poly1305_finish st)) = (poly_eval (limbs r) 0 m + (unat t0 + 2 ^ 64 * unat t1)) mod 2 ^ 128 \<and>
    length (snd (hsk_poly1305_finish st)) = 16"
  proof (cases "?l = 0")
    case True
    then have "drop ?n m = []" using q by simp
    then have e: "poly_eval (limbs r) 0 m = poly_eval (limbs r) 0 (take ?n m)" unfolding ev by (simp only: eval_Nil)
    have "snd (hsk_poly1305_finish st) = poly_mac (poly_select (poly_carry (po_h st))) (t0, t1)"
      using True s(2) by (simp only: hsk_poly1305_finish_def Let_def if_False simp_thms snd_conv)
    then show ?thesis using final_tag [OF b, of t0 t1] unfolding e red by (simp only: simp_thms)
  next
    case False
    define d where "d = drop ?n m"
    have dt: "d = take ?l (po_buffer st)" unfolding d_def q ..
    have d: "length d = ?l" "take ?l (po_buffer st) = d" "0 < length d" "length d < 16" using s(3,4) False by (simp_all add: dt)
    let ?b = "d @ [1] @ replicate (16 - (?l + 1)) 0"
    let ?s = "hsk_poly1305_blocks (st\<lparr>po_buffer := ?b, po_final := True\<rparr>) ?b"
    have lb: "length ?b = 16" using d by simp
    obtain r0 r1 r2 h0 h1 h2 x0 x1 x2 where
      e: "r = (r0, r1, r2)" "po_h st = (h0, h1, h2)" "poly_block r 0 (po_h st) ?b = (x0, x1, x2)"
      by (metis prod_cases3)
    note step = block_step [OF b(1) [unfolded e(2)] r [unfolded e(1)] disjI2 [OF refl] e(3) [unfolded e(1,2)]]
    have vb: "le_val ?b = le_val d + 256 ^ length d"
      using d(1) by (simp add: le_val_append le_val_replicate)
    let ?v = "poly_eval (limbs r) 0 (take ?n m)"
    have v0: "unat (U8TO64 ?b) + 2 ^ 64 * unat (U8TO64 (drop 8 ?b)) = le_val ?b" by (rule block_val [OF lb])
    have z: "2 ^ 88 * unat (0 :: u64) = 0" by simp
    have "limbs (x0, x1, x2) mod poly_p = (limbs (po_h st) + (le_val ?b + 0)) * limbs r mod poly_p"
      using step(2) unfolding z add_four [OF v0] e(1,2) .
    also have "\<dots> = (?v + (le_val ?b + 0)) * limbs r mod poly_p"
      by (intro mod_mult_cong mod_add_cong refl) (rule b(2))
    also have "\<dots> = (?v + le_val d + 256 ^ length d) * limbs r mod poly_p" unfolding vb by (simp only: add.assoc add_0_right)
    also have "\<dots> = poly_eval (limbs r) ?v d"
    proof -
      have "take 16 d = d" "drop 16 d = []" "d \<noteq> []" using d by auto
      then show ?thesis by (simp only: eval_step eval_Nil simp_thms)
    qed
    also have "\<dots> = poly_eval (limbs r) 0 m mod poly_p" unfolding red [of m] unfolding ev d_def ..
    finally have l: "limbs (x0, x1, x2) mod poly_p = poly_eval (limbs r) 0 m mod poly_p" .
    have "po_h ?s = (x0, x1, x2)" using e(3) s(1) lb by simp
    moreover have "po_pad ?s = (t0, t1)" using s(2) by simp
    ultimately have "snd (hsk_poly1305_finish st) = poly_mac (poly_select (poly_carry (x0, x1, x2))) (t0, t1)"
      using False d(2) by (simp only: hsk_poly1305_finish_def Let_def if_True not_False_eq_True snd_conv)
    then show ?thesis using final_tag [OF step(1) l, of t0 t1] unfolding red by (simp only: simp_thms)
  qed
  then show "le_val (snd (hsk_poly1305_finish st)) = (poly_eval (limbs r) 0 m + (unat t0 + 2 ^ 64 * unat t1)) mod 2 ^ 128"
    "length (snd (hsk_poly1305_finish st)) = 16" by simp_all
qed

text \<open>The tag after any sequence of updates.\<close>

lemma poly1305_updates:
  assumes "length key = 32"
  shows "le_val (snd (hsk_poly1305_finish (fold (\<lambda>x st. hsk_poly1305_update st x) xs (hsk_poly1305_init key)))) = poly1305 (concat xs) key \<and>
    length (snd (hsk_poly1305_finish (fold (\<lambda>x st. hsk_poly1305_update st x) xs (hsk_poly1305_init key)))) = 16"
proof -
  let ?s = "hsk_poly1305_init key"
  obtain t0 t1 where pad: "po_pad ?s = (t0, t1)" by fastforce
  have ok: "poly_ok (po_r ?s) (t0, t1) ?s" "poly_abs ?s = absorb 16 (poly_block (po_r ?s) (push_bit 40 1)) (0, 0, 0) []"
    using pad by (simp_all add: poly_ok_def poly_abs_def hsk_poly1305_init_def Let_def)
  have f: "fold (\<lambda>x st. hsk_poly1305_update st x) xs ?s = fold (\<lambda>(a, x) st. hsk_poly1305_update st x) (map (Pair ()) xs) ?s"
    by (simp add: fold_map comp_def)
  have m: "concat (map snd (map (Pair ()) xs)) = concat xs" by (simp add: comp_def)
  note all = poly.update_all [OF ok, of "map (Pair ()) xs"]
  note fin = finish_poly [OF conjunct1 [OF all] init_key(2) [OF assms] conjunct2 [OF all, unfolded append_Nil m]]
  show ?thesis
    unfolding f fin(1) init_key(1) [OF assms] init_key(3) [OF assms pad] poly1305_def using fin(2) by simp
qed

text \<open>
  C40. However a message is cut into pieces, the tag is that of Poly1305: the polynomial of the padded
  blocks at the clamped key modulo \<open>2 ^ 130 - 5\<close>, plus the second half of the key, modulo \<open>2 ^ 128\<close>.
\<close>

theorem poly1305_pieces:
  assumes "length key = 32"
  shows "le_val (snd (hsk_poly1305_finish (fold (\<lambda>x st. hsk_poly1305_update st x) xs (hsk_poly1305_init key)))) = poly1305 (concat xs) key \<and>
    length (snd (hsk_poly1305_finish (fold (\<lambda>x st. hsk_poly1305_update st x) xs (hsk_poly1305_init key)))) = 16"
  using assms by (rule poly1305_updates)

theorem poly1305_pieces_witness:
  "le_val (snd (hsk_poly1305_finish (hsk_poly1305_update (hsk_poly1305_update (hsk_poly1305_init (replicate 32 7)) [1]) [2, 3]))) =
    poly1305 [1, 2, 3] (replicate 32 7)"
  using poly1305_pieces [of "replicate 32 7" "[[1], [2, 3]]"] by simp

end
