(* ===== verification/Aead.thy ===== *)
theory Aead
  imports Chacha20 Poly1305_Ok
begin

text \<open>
  \<^verbatim>\<open>aead.c\<close>: ChaCha20 and Poly1305 combined. A context is started with a key and a nonce, takes
  additional data, then a text to encrypt or decrypt, and ends with a tag over both. \<open>None\<close> is a
  failed assertion.
\<close>

record hsk_aead =
  ae_chacha :: hsk_chacha20_ctx
  ae_poly :: hsk_poly1305_ctx
  ae_aad_len :: u64
  ae_cipher_len :: u64
  ae_has_cipher :: bool
  ae_poly_key :: bytes

definition hsk_aead_init :: hsk_aead where
  "hsk_aead_init =
     \<lparr>ae_chacha = \<lparr>cc_schedule = replicate 16 0, cc_keystream = replicate 64 0, cc_available = 0, cc_nonce_size = 8\<rparr>,
      ae_poly = \<lparr>po_r = (0, 0, 0), po_h = (0, 0, 0), po_pad = (0, 0), po_leftover = 0, po_buffer = replicate 16 0, po_final = False\<rparr>,
      ae_aad_len = 0, ae_cipher_len = 0, ae_has_cipher = False, ae_poly_key = replicate 32 0\<rparr>"

definition hsk_aead_setup :: "hsk_aead \<Rightarrow> bytes \<Rightarrow> bytes \<Rightarrow> hsk_aead option" where
  "hsk_aead_setup aead key iv =
     (let chacha = hsk_chacha20_keysetup (ae_chacha aead) key 32;
          chacha = hsk_chacha20_ivsetup chacha iv 12;
          chacha = hsk_chacha20_counter_set chacha 0;
          (chacha, poly_key) = hsk_chacha20_encrypt chacha (replicate 32 0);
          poly = hsk_poly1305_init poly_key;
          (chacha, half_block) = hsk_chacha20_encrypt chacha (replicate 32 0)
      in if hsk_chacha20_counter_get chacha \<noteq> 1 then None
         else Some \<lparr>ae_chacha = chacha, ae_poly = poly, ae_aad_len = 0, ae_cipher_len = 0, ae_has_cipher = False, ae_poly_key = poly_key\<rparr>)"

definition hsk_aead_pad16 :: "hsk_aead \<Rightarrow> u64 \<Rightarrow> hsk_aead" where
  "hsk_aead_pad16 aead sz =
     (let sz = sz mod 16
      in if sz = 0 then aead
         else aead\<lparr>ae_poly := hsk_poly1305_update (ae_poly aead) (replicate (unat (16 - sz)) 0)\<rparr>)"

definition hsk_aead_aad :: "hsk_aead \<Rightarrow> bytes \<Rightarrow> hsk_aead option" where
  "hsk_aead_aad aead aad =
     (if ae_has_cipher aead then None
      else Some (aead\<lparr>ae_poly := hsk_poly1305_update (ae_poly aead) aad, ae_aad_len := ae_aad_len aead + of_nat (length aad)\<rparr>))"

definition hsk_aead_encrypt :: "hsk_aead \<Rightarrow> bytes \<Rightarrow> hsk_aead \<times> bytes" where
  "hsk_aead_encrypt aead d =
     (let aead = (if \<not> ae_has_cipher aead then hsk_aead_pad16 aead (ae_aad_len aead) else aead);
          (chacha, out) = hsk_chacha20_encrypt (ae_chacha aead) d
      in (aead\<lparr>ae_chacha := chacha, ae_poly := hsk_poly1305_update (ae_poly aead) out,
            ae_cipher_len := ae_cipher_len aead + of_nat (length d), ae_has_cipher := True\<rparr>, out))"

definition hsk_aead_decrypt :: "hsk_aead \<Rightarrow> bytes \<Rightarrow> hsk_aead \<times> bytes" where
  "hsk_aead_decrypt aead d =
     (let aead = (if \<not> ae_has_cipher aead then hsk_aead_pad16 aead (ae_aad_len aead) else aead);
          aead = aead\<lparr>ae_cipher_len := ae_cipher_len aead + of_nat (length d), ae_has_cipher := True\<rparr>;
          aead = aead\<lparr>ae_poly := hsk_poly1305_update (ae_poly aead) d\<rparr>;
          (chacha, out) = hsk_chacha20_encrypt (ae_chacha aead) d
      in (aead\<lparr>ae_chacha := chacha\<rparr>, out))"

definition hsk_aead_auth :: "hsk_aead \<Rightarrow> bytes \<Rightarrow> hsk_aead" where
  "hsk_aead_auth aead d =
     (let aead = (if \<not> ae_has_cipher aead then hsk_aead_pad16 aead (ae_aad_len aead) else aead)
      in aead\<lparr>ae_cipher_len := ae_cipher_len aead + of_nat (length d), ae_has_cipher := True,
           ae_poly := hsk_poly1305_update (ae_poly aead) d\<rparr>)"

definition hsk_aead_final :: "hsk_aead \<Rightarrow> hsk_aead \<times> bytes" where
  "hsk_aead_final aead =
     (let len = emit (write_u64 (ae_aad_len aead)) @ emit (write_u64 (ae_cipher_len aead));
          aead = (if \<not> ae_has_cipher aead then hsk_aead_pad16 aead (ae_aad_len aead) else aead);
          aead = hsk_aead_pad16 aead (ae_cipher_len aead);
          (poly, tag) = hsk_poly1305_finish (hsk_poly1305_update (ae_poly aead) len)
      in (aead\<lparr>ae_poly := poly\<rparr>, tag))"

definition hsk_aead_verify :: "bytes \<Rightarrow> bytes \<Rightarrow> bool" where
  "hsk_aead_verify mac1 mac2 \<longleftrightarrow> hsk_poly1305_verify mac1 mac2 \<noteq> 0"

section \<open>A context depends on the key and the nonce only\<close>

lemma block_keystream:
  "hsk_chacha20_block (c\<lparr>cc_keystream := x, cc_available := n\<rparr>) =
     (case hsk_chacha20_block c of (c', k) \<Rightarrow> (c'\<lparr>cc_keystream := x, cc_available := n\<rparr>, k))"
  by (simp add: hsk_chacha20_block_def Let_def)

text \<open>The schedule after the key and the nonce are written.\<close>

definition chacha_start :: "bytes \<Rightarrow> bytes \<Rightarrow> u32 list" where
  "chacha_start key iv =
     (let k = chacha_constants 32
      in [READLE k, READLE (drop 4 k), READLE (drop 8 k), READLE (drop 12 k),
          READLE key, READLE (drop 4 key), READLE (drop 8 key), READLE (drop 12 key),
          READLE (drop 16 key), READLE (drop 20 key), READLE (drop 24 key), READLE (drop 28 key),
          0, READLE iv, READLE (drop 4 iv), READLE (drop 8 iv)])"

lemma update_16:
  "length s = 16 \<Longrightarrow>
   s[0 := x0, 1 := x1, 2 := x2, 3 := x3, 4 := x4, 5 := x5, 6 := x6, 7 := x7, 8 := x8, 9 := x9, 10 := x10, 11 := x11,
     12 := y, 12 := z, 13 := x13, 14 := x14, 15 := x15, 12 := x12] =
   [x0, x1, x2, x3, x4, x5, x6, x7, x8, x9, x10, x11, x12, x13, x14, x15]"
  by (auto simp: numeral_eq_Suc length_Suc_conv)

lemma schedule_start:
  assumes "length (cc_schedule c) = 16"
  shows "hsk_chacha20_counter_set (hsk_chacha20_ivsetup (hsk_chacha20_keysetup c key 32) iv 12) 0 =
    \<lparr>cc_schedule = chacha_start key iv, cc_keystream = cc_keystream c, cc_available = 0, cc_nonce_size = 12\<rparr>"
  using assms
  by (cases c) (simp add: hsk_chacha20_counter_set_def hsk_chacha20_ivsetup_def hsk_chacha20_keysetup_def chacha_start_def Let_def
      update_16 [simplified])

lemma chacha_loop_Nil [simp]: "chacha_loop c [] = (c, [])"
  by (simp add: chacha_loop.simps)

lemma chacha_loop_one:
  assumes "d \<noteq> []" and "length d \<le> 64" and "hsk_chacha20_block c = (c', k)"
  shows "chacha_loop c d = (c'\<lparr>cc_keystream := k, cc_available := 64 - length d\<rparr>, hsk_chacha20_xor (take (length d) k) d)"
  using assms by (subst chacha_loop.simps) (simp add: min_absorb1 Let_def)

text \<open>The key stream of the first block gives the key of the authenticator; its second half is dropped.\<close>

definition chacha_first :: "u32 list \<Rightarrow> bytes" where
  "chacha_first s = snd (hsk_chacha20_block \<lparr>cc_schedule = s, cc_keystream = [], cc_available = 0, cc_nonce_size = 12\<rparr>)"

lemma length_first [simp]: "length (chacha_first s) = 64"
  by (simp add: chacha_first_def length_block)

lemma chacha_halves:
  assumes s: "length s = 16" "s ! 12 = 0" and z: "length z = 32"
  shows "hsk_chacha20_encrypt \<lparr>cc_schedule = s, cc_keystream = k, cc_available = 0, cc_nonce_size = 12\<rparr> z =
      (\<lparr>cc_schedule = s[12 := 1], cc_keystream = chacha_first s, cc_available = 32, cc_nonce_size = 12\<rparr>, hsk_chacha20_xor (take 32 (chacha_first s)) z)"
    and "hsk_chacha20_encrypt \<lparr>cc_schedule = s', cc_keystream = chacha_first s, cc_available = 32, cc_nonce_size = 12\<rparr> z =
      (\<lparr>cc_schedule = s', cc_keystream = chacha_first s, cc_available = 0, cc_nonce_size = 12\<rparr>, hsk_chacha20_xor (drop 32 (chacha_first s)) z)"
proof -
  let ?c = "\<lparr>cc_schedule = s, cc_keystream = k, cc_available = 0, cc_nonce_size = 12\<rparr>"
  have b: "hsk_chacha20_block ?c = (?c\<lparr>cc_schedule := s[12 := 1]\<rparr>, chacha_first s)"
    using s by (simp add: hsk_chacha20_block_def chacha_first_def Let_def)
  have n: "z \<noteq> []" using z by auto
  show "hsk_chacha20_encrypt ?c z =
      (\<lparr>cc_schedule = s[12 := 1], cc_keystream = chacha_first s, cc_available = 32, cc_nonce_size = 12\<rparr>, hsk_chacha20_xor (take 32 (chacha_first s)) z)"
    using chacha_loop_one [OF n _ b] n z by (simp add: hsk_chacha20_encrypt_def)
  show "hsk_chacha20_encrypt \<lparr>cc_schedule = s', cc_keystream = chacha_first s, cc_available = 32, cc_nonce_size = 12\<rparr> z =
      (\<lparr>cc_schedule = s', cc_keystream = chacha_first s, cc_available = 0, cc_nonce_size = 12\<rparr>, hsk_chacha20_xor (drop 32 (chacha_first s)) z)"
    using n z by (simp add: hsk_chacha20_encrypt_def Let_def)
qed

text \<open>The context that \<^verbatim>\<open>hsk_aead_setup\<close> leaves behind: the assertion holds and nothing of the old one remains.\<close>

definition aead_start :: "bytes \<Rightarrow> bytes \<Rightarrow> hsk_aead" where
  "aead_start key iv =
     (let s = chacha_start key iv; k = chacha_first s; poly_key = hsk_chacha20_xor (take 32 k) (replicate 32 0)
      in \<lparr>ae_chacha = \<lparr>cc_schedule = s[12 := 1], cc_keystream = k, cc_available = 0, cc_nonce_size = 12\<rparr>,
          ae_poly = hsk_poly1305_init poly_key, ae_aad_len = 0, ae_cipher_len = 0, ae_has_cipher = False, ae_poly_key = poly_key\<rparr>)"

lemma start_nth: "length (chacha_start key iv) = 16" "chacha_start key iv ! 12 = 0"
  by (simp_all add: chacha_start_def Let_def)

lemma aead_setup:
  assumes "length (cc_schedule (ae_chacha a)) = 16"
  shows "hsk_aead_setup a key iv = Some (aead_start key iv)"
proof -
  have z: "length (replicate 32 (0 :: u8)) = 32" by simp
  note h = chacha_halves [OF start_nth z]
  show ?thesis
    unfolding hsk_aead_setup_def schedule_start [OF assms] Let_def h prod.case
    using start_nth by (simp add: aead_start_def hsk_chacha20_counter_get_def Let_def)
qed

lemma start_ok: "chacha_ok (ae_chacha (aead_start key iv))"
  by (simp add: aead_start_def chacha_ok_def Let_def)

section \<open>The construction of RFC 8439\<close>

text \<open>The key stream from a block counter on, and the text under it.\<close>

definition chacha_stream :: "u32 list \<Rightarrow> nat \<Rightarrow> bytes" where
  "chacha_stream s n = concat (map (\<lambda>i. chacha_first (s[12 := s ! 12 + of_nat i])) [0..<n])"

definition chacha20 :: "u32 list \<Rightarrow> bytes \<Rightarrow> bytes" where
  "chacha20 s d = map2 (\<lambda>a b. a XOR b) d (chacha_stream s ((length d + 63) div 64))"

lemma length_stream [simp]: "length (chacha_stream s n) = 64 * n"
  by (simp add: chacha_stream_def length_concat comp_def sum_list_triv)

lemma stream_0 [simp]: "chacha_stream s 0 = []"
  by (simp add: chacha_stream_def)

lemma stream_Suc:
  "12 < length s \<Longrightarrow> chacha_stream s (Suc n) = chacha_first s @ chacha_stream (s[12 := s ! 12 + 1]) n"
  by (simp add: chacha_stream_def upt_conv_Cons map_Suc_upt [symmetric] comp_def add.assoc del: upt_Suc)

lemma block_first:
  assumes "cc_nonce_size c = 12" and "length (cc_schedule c) = 16"
  shows "hsk_chacha20_block c = (c\<lparr>cc_schedule := (cc_schedule c)[12 := cc_schedule c ! 12 + 1]\<rparr>, chacha_first (cc_schedule c))"
  using assms by (simp add: hsk_chacha20_block_def chacha_first_def Let_def)

lemma blocks_Suc: "0 < n \<Longrightarrow> (n + 63) div 64 = Suc ((n - 64 + 63) div 64)" for n :: nat
  by (cases "n \<le> 64") (simp_all add: le_div_geq)

lemma chacha20_step:
  assumes "d \<noteq> []" and "length s = 16"
  shows "chacha20 s d = hsk_chacha20_xor (take (min (length d) 64) (chacha_first s)) (take (min (length d) 64) d) @
    chacha20 (s[12 := s ! 12 + 1]) (drop (min (length d) 64) d)"
proof -
  let ?s = "s[12 := s ! 12 + 1]"
  have "(length d + 63) div 64 = Suc ((length (drop 64 d) + 63) div 64)"
    using blocks_Suc [of "length d"] assms(1) by simp
  then have "chacha20 s d = map2 (\<lambda>a b. a XOR b) (take 64 d @ drop 64 d) (chacha_first s @ chacha_stream ?s ((length (drop 64 d) + 63) div 64))"
    using assms(2) by (simp add: chacha20_def stream_Suc)
  also have "\<dots> = map2 (\<lambda>a b. a XOR b) (take 64 d) (chacha_first s) @ chacha20 ?s (drop 64 d)"
  proof (cases "length d < 64")
    case True
    then show ?thesis by (simp add: chacha20_def zip_append1)
  next
    case False
    then show ?thesis by (subst zip_append) (simp_all add: chacha20_def)
  qed
  also have "map2 (\<lambda>a b. a XOR b) (take 64 d) (chacha_first s) =
      hsk_chacha20_xor (take (min (length d) 64) (chacha_first s)) (take (min (length d) 64) d)"
    by (rule nth_equalityI) (auto simp: hsk_chacha20_xor_def)
  finally show ?thesis by (simp add: min_def)
qed

lemma chacha_loop_stream:
  "cc_nonce_size c = 12 \<Longrightarrow> length (cc_schedule c) = 16 \<Longrightarrow> snd (chacha_loop c d) = chacha20 (cc_schedule c) d"
proof (induction c d rule: chacha_loop.induct)
  case (1 c d)
  show ?case
  proof (cases "d = []")
    case False
    note b = block_first [OF 1(2,3)]
    let ?n = "min (length d) 64"
    let ?c = "c\<lparr>cc_schedule := (cc_schedule c)[12 := cc_schedule c ! 12 + 1], cc_keystream := chacha_first (cc_schedule c), cc_available := 64 - ?n\<rparr>"
    have "snd (chacha_loop ?c (drop ?n d)) = chacha20 (cc_schedule ?c) (drop ?n d)"
      using 1(1) [OF False refl b [symmetric] refl refl] 1(2,3) by simp
    moreover have "snd (chacha_loop c d) =
        hsk_chacha20_xor (take ?n (chacha_first (cc_schedule c))) (take ?n d) @ snd (chacha_loop ?c (drop ?n d))"
      using False by (subst chacha_loop.simps) (simp add: b Let_def split_beta)
    ultimately show ?thesis unfolding chacha20_step [OF False 1(3)] by simp
  qed (simp add: chacha20_def)
qed

text \<open>Additional data, cipher text and their lengths, each padded to a multiple of sixteen octets.\<close>

definition pad16 :: "bytes \<Rightarrow> bytes" where
  "pad16 d = (if length d mod 16 = 0 then [] else replicate (16 - length d mod 16) 0)"

definition aead_data :: "bytes \<Rightarrow> bytes \<Rightarrow> bytes" where
  "aead_data ad c = ad @ pad16 ad @ c @ pad16 c @ emit (write_u64 (of_nat (length ad))) @ emit (write_u64 (of_nat (length c)))"

definition aead_key :: "bytes \<Rightarrow> bytes \<Rightarrow> bytes" where
  "aead_key key iv = take 32 (chacha_first (chacha_start key iv))"

definition aead_cipher :: "bytes \<Rightarrow> bytes \<Rightarrow> bytes \<Rightarrow> bytes" where
  "aead_cipher key iv d = chacha20 ((chacha_start key iv)[12 := 1]) d"

text \<open>The tag: the octets of the value of Poly1305.\<close>

definition aead_tag :: "bytes \<Rightarrow> bytes \<Rightarrow> bytes \<Rightarrow> bytes \<Rightarrow> bytes" where
  "aead_tag key iv ad c =
     (let v = poly1305 (aead_data ad c) (aead_key key iv) in map (\<lambda>i. of_nat (v div 256 ^ i)) [0..<16])"

lemma le_val_octets: "map (\<lambda>i. of_nat (le_val d div 256 ^ i)) [0..<length d] = (d :: bytes)"
proof (induction d)
  case (Cons b d)
  have "(unat b + 256 * le_val d) div 256 ^ Suc i = le_val d div 256 ^ i" for i
    using unat_u8_lt [of b] by (simp add: div_mult2_eq)
  moreover have "(of_nat (unat b + 256 * le_val d) :: u8) = b"
  proof -
    have "(of_nat (256 * le_val d) :: u8) = of_nat 256 * of_nat (le_val d)" by (rule of_nat_mult)
    moreover have "(of_nat 256 :: u8) = 0" by simp
    ultimately have "(of_nat (256 * le_val d) :: u8) = 0" by (simp only: mult_zero_left)
    then show ?thesis by (simp only: of_nat_add of_nat_unat ucast_id add_0_right)
  qed
  ultimately show ?case
    using Cons by (simp add: upt_conv_Cons map_Suc_upt [symmetric] comp_def del: upt_Suc power_Suc)
qed simp

lemma pad16_updates:
  "ae_poly (hsk_aead_pad16 a (of_nat (length d))) = fold (\<lambda>x st. hsk_poly1305_update st x) (if pad16 d = [] then [] else [pad16 d]) (ae_poly a)"
proof -
  have m: "unat ((of_nat (length d) :: u64) mod 16) = length d mod 16"
  proof -
    have "length d mod 18446744073709551616 mod 16 = length d mod 16" by (rule mod_mod_cancel) simp
    then show ?thesis by (simp add: unat_mod unat_of_nat)
  qed
  then have "(of_nat (length d) :: u64) mod 16 = 0 \<longleftrightarrow> length d mod 16 = 0"
    by (metis unat_0 unat_eq_zero)
  moreover have "unat (16 - (of_nat (length d) :: u64) mod 16) = 16 - length d mod 16"
  proof -
    have "(of_nat (length d) :: u64) mod 16 \<le> 16" unfolding word_le_nat_alt m by simp
    then show ?thesis by (simp only: unat_sub m) simp
  qed
  ultimately show ?thesis by (simp add: hsk_aead_pad16_def pad16_def Let_def)
qed

lemma pad16_fields [simp]:
  "ae_chacha (hsk_aead_pad16 a n) = ae_chacha a" "ae_aad_len (hsk_aead_pad16 a n) = ae_aad_len a"
  "ae_cipher_len (hsk_aead_pad16 a n) = ae_cipher_len a" "ae_has_cipher (hsk_aead_pad16 a n) = ae_has_cipher a"
  by (simp_all add: hsk_aead_pad16_def Let_def)

lemma concat_pad: "concat (if pad16 d = [] then [] else [pad16 d]) = pad16 d"
  by simp

text \<open>The state of the authenticator once both texts are in, and the tag of it.\<close>

lemma aead_final:
  assumes a: "ae_poly a = fold (\<lambda>x st. hsk_poly1305_update st x) xs (hsk_poly1305_init k)"
    and k: "length k = 32" and l: "ae_aad_len a = of_nat (length ad)" "ae_cipher_len a = of_nat (length c)" "ae_has_cipher a"
    and xs: "concat xs = ad @ pad16 ad @ c"
  shows "le_val (snd (hsk_aead_final a)) = poly1305 (aead_data ad c) k \<and> length (snd (hsk_aead_final a)) = 16"
proof -
  let ?p = "if pad16 c = [] then [] else [pad16 c]"
  let ?n = "emit (write_u64 (of_nat (length ad))) @ emit (write_u64 (of_nat (length c)))"
  have "snd (hsk_aead_final a) =
      snd (hsk_poly1305_finish (fold (\<lambda>x st. hsk_poly1305_update st x) (xs @ ?p @ [?n]) (hsk_poly1305_init k)))"
    by (simp add: hsk_aead_final_def Let_def split_beta l pad16_updates a)
  moreover have "concat (xs @ ?p @ [?n]) = aead_data ad c"
    by (simp only: concat_append concat_pad xs aead_data_def) simp
  ultimately show ?thesis using poly1305_updates [OF k, of "xs @ ?p @ [?n]"] by (simp only:)
qed

text \<open>What a context is before it takes a text: \<open>ad\<close> went in and nothing else.\<close>

definition aead_ready :: "bytes \<Rightarrow> bytes \<Rightarrow> bytes \<Rightarrow> hsk_aead" where
  "aead_ready key iv ad =
     (let a = aead_start key iv
      in if ad = [] then a else a\<lparr>ae_poly := hsk_poly1305_update (ae_poly a) ad, ae_aad_len := of_nat (length ad)\<rparr>)"

lemma update_Nil [simp]: "hsk_poly1305_update (hsk_poly1305_init k) [] = hsk_poly1305_init k"
  by (simp add: hsk_poly1305_update_def hsk_poly1305_init_def poly_whole_def Let_def)

lemma aead_aad: "hsk_aead_aad (aead_start key iv) ad = Some (aead_ready key iv ad)"
  by (simp add: hsk_aead_aad_def aead_ready_def aead_start_def Let_def)

lemma xor_zero: "length k = n \<Longrightarrow> hsk_chacha20_xor k (replicate n 0) = k"
  by (rule nth_equalityI) (auto simp: hsk_chacha20_xor_def)

lemma ready_fields [simp]:
  "ae_poly (aead_ready key iv ad) = fold (\<lambda>x st. hsk_poly1305_update st x) (if ad = [] then [] else [ad]) (hsk_poly1305_init (aead_key key iv))"
  "ae_chacha (aead_ready key iv ad) = ae_chacha (aead_start key iv)"
  "ae_aad_len (aead_ready key iv ad) = of_nat (length ad)" "ae_cipher_len (aead_ready key iv ad) = 0"
  "ae_has_cipher (aead_ready key iv ad) = False"
  by (simp_all add: aead_ready_def aead_start_def aead_key_def Let_def xor_zero)

lemma length_aead_key [simp]: "length (aead_key key iv) = 32"
  by (simp add: aead_key_def)

lemma encrypt_start: "hsk_chacha20_encrypt (ae_chacha (aead_start key iv)) d =
    (fst (chacha_loop (ae_chacha (aead_start key iv)) d), aead_cipher key iv d)"
proof -
  let ?c = "ae_chacha (aead_start key iv)"
  have c: "cc_nonce_size ?c = 12" "cc_schedule ?c = (chacha_start key iv)[12 := 1]" "cc_available ?c = 0" "length (cc_schedule ?c) = 16"
    by (simp_all add: aead_start_def Let_def start_nth)
  have "hsk_chacha20_encrypt ?c d = chacha_loop ?c d" using c(3) by (simp add: hsk_chacha20_encrypt_def)
  then show ?thesis using chacha_loop_stream [OF c(1,4), of d] c(2) by (simp add: aead_cipher_def prod_eq_iff)
qed

lemma aead_tag_eq:
  assumes "le_val t = poly1305 (aead_data ad c) (aead_key key iv) \<and> length t = 16"
  shows "t = aead_tag key iv ad c"
  using le_val_octets [of t] assms by (simp add: aead_tag_def Let_def)

lemma one_piece: "concat (if d = [] then [] else [d]) = d"
  by simp

lemma aead_encrypt_ready:
  "case hsk_aead_encrypt (aead_ready key iv ad) d of (a, c) \<Rightarrow>
     c = aead_cipher key iv d \<and> snd (hsk_aead_final a) = aead_tag key iv ad c \<and> ae_has_cipher a"
proof -
  define a where "a = fst (hsk_aead_encrypt (aead_ready key iv ad) d)"
  let ?c = "aead_cipher key iv d"
  let ?x = "if ad = [] then [] else [ad]" and ?p = "if pad16 ad = [] then [] else [pad16 ad]"
  have l: "length ?c = length d"
    using chacha_encrypt_invol(1) [OF start_ok, of key iv d] by (simp add: encrypt_start)
  have e: "hsk_aead_encrypt (aead_ready key iv ad) d = (a, ?c)"
    by (simp add: a_def hsk_aead_encrypt_def Let_def split_beta encrypt_start)
  have p: "ae_poly a = fold (\<lambda>x st. hsk_poly1305_update st x) (?x @ ?p @ [?c]) (hsk_poly1305_init (aead_key key iv))"
    by (simp add: a_def hsk_aead_encrypt_def Let_def split_beta encrypt_start pad16_updates)
  have x: "concat (?x @ ?p @ [?c]) = ad @ pad16 ad @ ?c"
    by (simp only: concat_append concat_pad one_piece) simp
  have f: "ae_aad_len a = of_nat (length ad)" "ae_cipher_len a = of_nat (length ?c)" "ae_has_cipher a"
    by (simp_all add: a_def hsk_aead_encrypt_def Let_def split_beta l)
  have "snd (hsk_aead_final a) = aead_tag key iv ad ?c"
    by (rule aead_tag_eq [OF aead_final [OF p length_aead_key f x]])
  then show ?thesis unfolding e using f(3) by simp
qed

lemma aead_decrypt_ready:
  "case hsk_aead_decrypt (aead_ready key iv ad) c of (a, d) \<Rightarrow>
     d = aead_cipher key iv c \<and> snd (hsk_aead_final a) = aead_tag key iv ad c \<and> ae_has_cipher a"
proof -
  define a where "a = fst (hsk_aead_decrypt (aead_ready key iv ad) c)"
  let ?d = "aead_cipher key iv c"
  let ?x = "if ad = [] then [] else [ad]" and ?p = "if pad16 ad = [] then [] else [pad16 ad]"
  have e: "hsk_aead_decrypt (aead_ready key iv ad) c = (a, ?d)"
    by (simp add: a_def hsk_aead_decrypt_def Let_def split_beta encrypt_start)
  have p: "ae_poly a = fold (\<lambda>x st. hsk_poly1305_update st x) (?x @ ?p @ [c]) (hsk_poly1305_init (aead_key key iv))"
    by (simp add: a_def hsk_aead_decrypt_def Let_def split_beta pad16_updates)
  have x: "concat (?x @ ?p @ [c]) = ad @ pad16 ad @ c"
    by (simp only: concat_append concat_pad one_piece) simp
  have f: "ae_aad_len a = of_nat (length ad)" "ae_cipher_len a = of_nat (length c)" "ae_has_cipher a"
    by (simp_all add: a_def hsk_aead_decrypt_def Let_def split_beta)
  have "snd (hsk_aead_final a) = aead_tag key iv ad c"
    by (rule aead_tag_eq [OF aead_final [OF p length_aead_key f x]])
  then show ?thesis unfolding e using f(3) by simp
qed

lemma cipher_invol: "aead_cipher key iv (aead_cipher key iv d) = d" and length_cipher [simp]: "length (aead_cipher key iv d) = length d"
  using chacha_encrypt_invol [OF start_ok, of key iv d] by (simp_all add: encrypt_start)

lemma length_tag [simp]: "length (aead_tag key iv ad c) = 16"
  by (simp add: aead_tag_def Let_def)

section \<open>Comparing tags\<close>

lemma bit_fold_or:
  "bit (fold (\<lambda>i dif. dif OR ucast (f i :: u8)) js (x :: u32)) k \<longleftrightarrow> bit x k \<or> k < 8 \<and> (\<exists>i\<in>set js. bit (f i) k)"
proof (induction js arbitrary: x)
  case (Cons j js)
  have "bit (x OR ucast (f j) :: u32) k \<longleftrightarrow> bit x k \<or> k < 8 \<and> bit (f j) k"
    by (auto simp: bit_simps dest: bit_imp_le_length)
  then show ?case unfolding fold_simps Cons.IH by auto
qed simp

lemma verify_octets: "hsk_poly1305_verify m n = 1 \<longleftrightarrow> (\<forall>i<16. m ! i = n ! i)"
proof -
  define D where "D = fold (\<lambda>i dif. dif OR ucast (m ! i XOR n ! i)) [0..<16] (0 :: u32)"
  have D: "bit D k \<longleftrightarrow> k < 8 \<and> (\<exists>i<16. bit (m ! i XOR n ! i) k)" for k
    unfolding D_def by (subst bit_fold_or) auto
  have small: "k < 8" if "bit D k" for k using that by (simp add: D)
  then have "take_bit 8 D = D" by (intro bit_word_eqI) (auto simp: bit_simps)
  then have "unat D < 2 ^ 8" by (metis unat_take_bit mod_less_divisor zero_less_numeral zero_less_power)
  have z: "D = 0 \<longleftrightarrow> (\<forall>i<16. m ! i = n ! i)"
  proof
    assume "D = 0"
    show "\<forall>i<16. m ! i = n ! i"
    proof (intro allI impI)
      fix i :: nat
      assume i: "i < 16"
      show "m ! i = n ! i"
      proof (rule bit_word_eqI)
        fix k
        assume "k < LENGTH(8)"
        moreover have "\<not> bit D k" using \<open>D = 0\<close> by simp
        ultimately have "\<not> bit (m ! i XOR n ! i) k" using i by (auto simp: D)
        then show "bit (m ! i) k = bit (n ! i) k" by (simp add: bit_xor_iff)
      qed
    qed
  next
    assume *: "\<forall>i<16. m ! i = n ! i"
    show "D = 0" by (rule bit_word_eqI) (use * in \<open>auto simp: D\<close>)
  qed
  have v: "hsk_poly1305_verify m n = drop_bit 31 (D - 1) AND 1" by (simp add: hsk_poly1305_verify_def D_def)
  show ?thesis
  proof (cases "D = 0")
    case True
    then show ?thesis using z unfolding v by simp
  next
    case False
    then have "0 < unat D" by (metis gr0I unat_eq_zero)
    then have "unat (D - 1) < 2 ^ 8" using \<open>unat D < 2 ^ 8\<close> by (simp add: unat_minus_one False)
    then have "unat (drop_bit 31 (D - 1)) = 0" by (simp add: unat_drop_bit)
    then have "drop_bit 31 (D - 1) = 0" by (simp only: unat_eq_zero)
    then show ?thesis using z False unfolding v by simp
  qed
qed

lemma verify_bit: "hsk_poly1305_verify m n = 0 \<or> hsk_poly1305_verify m n = 1"
  by (simp add: hsk_poly1305_verify_def Let_def and_one_eq mod_2_eq_odd)

lemma aead_verify: "length m = 16 \<Longrightarrow> length n = 16 \<Longrightarrow> hsk_aead_verify m n \<longleftrightarrow> m = n"
  using verify_octets [of m n] verify_bit [of m n] by (auto simp: hsk_aead_verify_def list_eq_iff_nth_eq)



end
