(* ===== verification/Hash.thy ===== *)
theory Hash
  imports Sha256
begin

text \<open>
  The part of \<^verbatim>\<open>hash.c\<close> that rests on SHA-256: the digest of an array, HMAC and the key derivation
  that the encrypted transport uses. The addresses of the arrays do not matter for the digest
  (lemma \<open>sha256_updates\<close>), so the model takes all of them for aligned.
\<close>

definition hsk_hash_sha256 :: "bytes \<Rightarrow> bytes" where
  "hsk_hash_sha256 data = hsk_sha256_final (hsk_sha256_update True hsk_sha256_init data)"

definition hsk_hash_hash256 :: "bytes \<Rightarrow> bytes" where
  "hsk_hash_hash256 data =
     (let hash = hsk_sha256_final (hsk_sha256_update True hsk_sha256_init data)
      in hsk_sha256_final (hsk_sha256_update True hsk_sha256_init (take 32 hash)))"

definition hsk_hash_sha256_hmac :: "bytes \<Rightarrow> bytes \<Rightarrow> bytes" where
  "hsk_hash_sha256_hmac data key =
     (let key = (if length key > 64 then hsk_hash_sha256 key else key);
          pad = map (\<lambda>b. b XOR 0x36) key @ replicate (64 - length key) 0x36;
          inner = hsk_sha256_update True hsk_sha256_init pad;
          pad = map (\<lambda>b. b XOR 0x5c) key @ replicate (64 - length key) 0x5c;
          outer = hsk_sha256_update True hsk_sha256_init pad;
          inner = hsk_sha256_update True inner data;
          mac = hsk_sha256_final inner;
          outer = hsk_sha256_update True outer (take 32 mac)
      in hsk_sha256_final outer)"

text \<open>\<open>None\<close> is the failed assertion on the length of \<open>info\<close>.\<close>

definition hsk_hash_hkdf :: "bytes \<Rightarrow> bytes \<Rightarrow> bytes \<Rightarrow> (bytes \<times> bytes) option" where
  "hsk_hash_hkdf secret salt info =
     (if \<not> length info \<le> 512 then None
      else let prk = hsk_hash_sha256_hmac secret salt;
               out = hsk_hash_sha256_hmac (info @ [1]) prk;
               okm = take 32 out;
               out = hsk_hash_sha256_hmac (take 32 out @ info @ [1 + 1]) prk;
               okm = okm @ take 32 out
           in Some (take 32 okm, take 32 (drop 32 okm)))"

section \<open>The constructions of the standards\<close>

lemma length_sha256 [simp]: "length (sha256 d) = 32"
proof -
  have "length (fst (absorb 64 hsk_sha256_process_block h x)) = 8" if "length h = 8" for h x
    using that
  proof (induction "64 :: nat" hsk_sha256_process_block h x rule: absorb.induct)
    case (1 h x)
    have "length (hsk_sha256_process_block h' b) = 8" for h' b
      by (simp add: hsk_sha256_process_block_def split: prod.splits)
    then show ?case using 1 by (cases "length x < 64") (simp_all add: absorb_step [of 64 x])
  qed
  moreover have "length (sha_hash hsk_sha256_init) = 8" by (simp add: hsk_sha256_init_def)
  moreover have "length (concat (map (\<lambda>w. emit (write_u32be w)) ws)) = 4 * length ws" for ws
    by (induction ws) simp_all
  ultimately show ?thesis by (simp add: sha256_def)
qed

lemma hash_sha256 [simp]: "hsk_hash_sha256 d = sha256 d"
  using sha256_updates [of "[(True, d)]"] by (simp add: hsk_hash_sha256_def)

lemma hash_hash256 [simp]: "hsk_hash_hash256 d = sha256 (sha256 d)"
  using sha256_updates [of "[(True, d)]"] sha256_updates [of "[(True, sha256 d)]"] by (simp add: hsk_hash_hash256_def)

text \<open>HMAC (RFC 2104) and HKDF with an output of two blocks (RFC 5869).\<close>

definition hmac :: "bytes \<Rightarrow> bytes \<Rightarrow> bytes" where
  "hmac key data =
     (let k = (if length key > 64 then sha256 key else key); k = k @ replicate (64 - length k) 0
      in sha256 (map (\<lambda>b. b XOR 0x5c) k @ sha256 (map (\<lambda>b. b XOR 0x36) k @ data)))"

definition hkdf :: "bytes \<Rightarrow> bytes \<Rightarrow> bytes \<Rightarrow> bytes \<times> bytes" where
  "hkdf secret salt info =
     (let prk = hmac salt secret; t1 = hmac prk (info @ [1]); t2 = hmac prk (t1 @ info @ [2]) in (t1, t2))"

lemma hmac_hash: "hsk_hash_sha256_hmac data key = hmac key data"
proof -
  have two: "hsk_sha256_final (hsk_sha256_update True (hsk_sha256_update True hsk_sha256_init a) b) = sha256 (a @ b)" for a b
    using sha256_updates [of "[(True, a), (True, b)]"] by simp
  show ?thesis by (simp add: hsk_hash_sha256_hmac_def hmac_def Let_def two)
qed

lemma length_hmac [simp]: "length (hmac k d) = 32"
  by (simp add: hmac_def Let_def)

lemma hkdf_hash: "length info \<le> 512 \<Longrightarrow> hsk_hash_hkdf secret salt info = Some (hkdf secret salt info)"
  by (simp add: hsk_hash_hkdf_def hkdf_def hmac_hash Let_def)

lemma length_hkdf: "hkdf secret salt info = (a, b) \<Longrightarrow> length a = 32 \<and> length b = 32"
  by (auto simp: hkdf_def Let_def)

end
