(* ===== verification/Ec.thy ===== *)
theory Ec
  imports Bio
begin

text \<open>
  \<^verbatim>\<open>ec.c\<close>: keys, signatures and shared secrets. The curve itself is a library; the record \<open>secp\<close> stands
  for the functions of it that the code calls, each with the value it returns in place of its output
  arguments. The random octets come from a source that gives the blocks of a list one after the other
  and fails when the list is empty.
\<close>

record 'k secp =
  secp_seckey_verify :: "bytes \<Rightarrow> bool"
  secp_pubkey_create :: "bytes \<Rightarrow> 'k option"
  secp_pubkey_parse :: "bytes \<Rightarrow> 'k option"
  secp_pubkey_serialize :: "'k \<Rightarrow> bytes option"
  secp_ecdh :: "'k \<Rightarrow> bytes \<Rightarrow> bytes option"
  secp_pubkey_to_hash :: "'k \<Rightarrow> bytes \<Rightarrow> bytes option"
  secp_pubkey_from_hash :: "bytes \<Rightarrow> 'k option"
  secp_sign_recoverable :: "bytes \<Rightarrow> bytes \<Rightarrow> (bytes \<times> int) option"
  secp_verify_compact :: "bytes \<Rightarrow> bytes \<Rightarrow> 'k \<Rightarrow> bool"
  secp_signature_parse :: "bytes \<Rightarrow> bool"
  secp_recoverable_parse :: "bytes \<Rightarrow> int \<Rightarrow> bool"
  secp_recover :: "bytes \<Rightarrow> int \<Rightarrow> bytes \<Rightarrow> 'k option"

type_synonym entropy = "bytes list"

definition hsk_randombytes :: "nat \<Rightarrow> entropy \<Rightarrow> bytes option \<times> entropy" where
  "hsk_randombytes n e = (case e of [] \<Rightarrow> (None, []) | r # e \<Rightarrow> (Some (take n r), e))"

definition hsk_ec_verify_privkey :: "'k secp \<Rightarrow> bytes \<Rightarrow> bool" where
  "hsk_ec_verify_privkey ec key = secp_seckey_verify ec key"

definition hsk_ec_verify_pubkey :: "'k secp \<Rightarrow> bytes \<Rightarrow> bool" where
  "hsk_ec_verify_pubkey ec key = (secp_pubkey_parse ec key \<noteq> None)"

text \<open>The loop of \<^verbatim>\<open>hsk_ec_create_privkey\<close>: every turn draws a new key.\<close>

function privkey_loop :: "'k secp \<Rightarrow> nat \<Rightarrow> bytes \<Rightarrow> entropy \<Rightarrow> bytes option \<times> entropy" where
  "privkey_loop ec i key e =
     (if hsk_ec_verify_privkey ec key then (Some key, e)
      else if i > 1000 then (None, e)
      else case hsk_randombytes 32 e of
        (None, e) \<Rightarrow> (None, e)
      | (Some key, e) \<Rightarrow> privkey_loop ec (i + 1) key e)"
  by pat_completeness auto
termination by (relation "measure (\<lambda>(ec, i, key, e). 1001 - i)") auto

definition hsk_ec_create_privkey :: "'k secp \<Rightarrow> entropy \<Rightarrow> bytes option \<times> entropy" where
  "hsk_ec_create_privkey ec e = privkey_loop ec 0 (replicate 32 0) e"

text \<open>
  In the functions that write a key, \<open>None\<close> also stands for the failed assertion that a compressed key
  has 33 octets.
\<close>

definition serialize_key :: "'k secp \<Rightarrow> 'k \<Rightarrow> bytes option" where
  "serialize_key ec pub =
     do { pubkey \<leftarrow> secp_pubkey_serialize ec pub; if length pubkey = 33 then Some pubkey else None }"

definition hsk_ec_create_pubkey :: "'k secp \<Rightarrow> bytes \<Rightarrow> bytes option" where
  "hsk_ec_create_pubkey ec key = do { pub \<leftarrow> secp_pubkey_create ec key; serialize_key ec pub }"

definition hsk_ec_sign_msg :: "'k secp \<Rightarrow> bytes \<Rightarrow> bytes \<Rightarrow> (bytes \<times> int) option" where
  "hsk_ec_sign_msg ec key msg = secp_sign_recoverable ec msg key"

definition hsk_ec_verify_msg :: "'k secp \<Rightarrow> bytes \<Rightarrow> bytes \<Rightarrow> bytes \<Rightarrow> bool" where
  "hsk_ec_verify_msg ec pubkey msg sig =
     (if \<not> secp_signature_parse ec sig then False
      else case secp_pubkey_parse ec pubkey of
        None \<Rightarrow> False
      | Some pub \<Rightarrow> secp_verify_compact ec sig msg pub)"

definition hsk_ec_recover :: "'k secp \<Rightarrow> bytes \<Rightarrow> bytes \<Rightarrow> int \<Rightarrow> bytes option" where
  "hsk_ec_recover ec msg sig rec =
     (if \<not> secp_recoverable_parse ec sig rec then None
      else do { pub \<leftarrow> secp_recover ec sig rec msg; serialize_key ec pub })"

definition hsk_ec_verify_hash :: "'k secp \<Rightarrow> (bytes \<Rightarrow> bytes) \<Rightarrow> bytes \<Rightarrow> bytes \<Rightarrow> int \<Rightarrow> bytes \<Rightarrow> bool" where
  "hsk_ec_verify_hash ec blake2b msg sig rec keyhash =
     (case hsk_ec_recover ec msg sig rec of
        None \<Rightarrow> False
      | Some key \<Rightarrow> memcmp (take 32 (blake2b key)) (take 32 keyhash) = 0)"

definition hsk_ec_ecdh :: "'k secp \<Rightarrow> bytes \<Rightarrow> bytes \<Rightarrow> bytes option" where
  "hsk_ec_ecdh ec pubkey key = do { pub \<leftarrow> secp_pubkey_parse ec pubkey; secp_ecdh ec pub key }"

definition hsk_ec_pubkey_to_hash :: "'k secp \<Rightarrow> bytes \<Rightarrow> entropy \<Rightarrow> bytes option \<times> entropy" where
  "hsk_ec_pubkey_to_hash ec pubkey e =
     (case secp_pubkey_parse ec pubkey of
        None \<Rightarrow> (None, e)
      | Some pub \<Rightarrow>
          case hsk_randombytes 32 e of
            (None, e) \<Rightarrow> (None, e)
          | (Some entropy, e) \<Rightarrow> (secp_pubkey_to_hash ec pub entropy, e))"

definition hsk_ec_pubkey_from_hash :: "'k secp \<Rightarrow> bytes \<Rightarrow> bytes option" where
  "hsk_ec_pubkey_from_hash ec hash = do { pub \<leftarrow> secp_pubkey_from_hash ec hash; serialize_key ec pub }"

declare privkey_loop.simps [simp del]

section \<open>The contract of the curve\<close>

text \<open>
  What the library documents: a valid secret has a public key, keys are written in 33 octets and read
  back, the shared secret is the same from both sides and has 32 octets, and a key survives its hash.
\<close>

definition curve_keys :: "'k secp \<Rightarrow> bool" where
  "curve_keys ec \<longleftrightarrow> (\<forall>k. secp_seckey_verify ec k \<longrightarrow> secp_pubkey_create ec k \<noteq> None) \<and>
     (\<forall>p. \<exists>b. secp_pubkey_serialize ec p = Some b \<and> length b = 33 \<and> secp_pubkey_parse ec b = Some p)"

definition curve_ecdh :: "'k secp \<Rightarrow> bool" where
  "curve_ecdh ec \<longleftrightarrow>
     (\<forall>a b p q. secp_seckey_verify ec a \<longrightarrow> secp_seckey_verify ec b \<longrightarrow>
        secp_pubkey_create ec a = Some p \<longrightarrow> secp_pubkey_create ec b = Some q \<longrightarrow>
        (\<exists>s. secp_ecdh ec q a = Some s \<and> secp_ecdh ec p b = Some s \<and> length s = 32))"

definition curve_hash :: "'k secp \<Rightarrow> bool" where
  "curve_hash ec \<longleftrightarrow>
     (\<forall>p r h. secp_pubkey_to_hash ec p r = Some h \<longrightarrow> secp_pubkey_from_hash ec h = Some p \<and> length h = 64)"

definition pub_of :: "'k secp \<Rightarrow> bytes \<Rightarrow> bytes" where
  "pub_of ec k = the (hsk_ec_create_pubkey ec k)"

lemma create_pubkey:
  assumes "curve_keys ec" and "hsk_ec_verify_privkey ec k"
  obtains p where "secp_pubkey_create ec k = Some p" "hsk_ec_create_pubkey ec k = Some (pub_of ec k)"
    "length (pub_of ec k) = 33" "secp_pubkey_parse ec (pub_of ec k) = Some p" "serialize_key ec p = Some (pub_of ec k)"
proof -
  obtain p where p: "secp_pubkey_create ec k = Some p" using assms by (auto simp: hsk_ec_verify_privkey_def curve_keys_def)
  obtain b where "secp_pubkey_serialize ec p = Some b" "length b = 33" "secp_pubkey_parse ec b = Some p"
    using assms(1) by (meson curve_keys_def)
  then show ?thesis using p that by (simp add: pub_of_def hsk_ec_create_pubkey_def serialize_key_def)
qed

lemma ecdh_same:
  assumes c: "curve_keys ec" "curve_ecdh ec" and v: "hsk_ec_verify_privkey ec a" "hsk_ec_verify_privkey ec b"
  obtains s where "hsk_ec_ecdh ec (pub_of ec b) a = Some s" "hsk_ec_ecdh ec (pub_of ec a) b = Some s" "length s = 32"
proof -
  obtain p where p: "secp_pubkey_create ec a = Some p" "secp_pubkey_parse ec (pub_of ec a) = Some p" by (rule create_pubkey [OF c(1) v(1)])
  obtain q where q: "secp_pubkey_create ec b = Some q" "secp_pubkey_parse ec (pub_of ec b) = Some q" by (rule create_pubkey [OF c(1) v(2)])
  obtain s where "secp_ecdh ec q a = Some s" "secp_ecdh ec p b = Some s" "length s = 32"
    using c(2) v p(1) q(1) unfolding curve_ecdh_def hsk_ec_verify_privkey_def by blast
  then show ?thesis using p q that by (simp add: hsk_ec_ecdh_def)
qed

lemma hash_key:
  assumes c: "curve_keys ec" "curve_hash ec" and v: "hsk_ec_verify_privkey ec k"
    and h: "hsk_ec_pubkey_to_hash ec (pub_of ec k) e = (Some h, e')"
  shows "hsk_ec_pubkey_from_hash ec h = Some (pub_of ec k)" and "length h = 64" and "hsk_ec_verify_pubkey ec (pub_of ec k)"
proof -
  obtain p where p: "secp_pubkey_parse ec (pub_of ec k) = Some p" "serialize_key ec p = Some (pub_of ec k)"
    by (rule create_pubkey [OF c(1) v])
  have "secp_pubkey_from_hash ec h = Some p \<and> length h = 64"
    using h c(2) p by (auto simp: hsk_ec_pubkey_to_hash_def curve_hash_def split: prod.splits option.splits)
  then show "hsk_ec_pubkey_from_hash ec h = Some (pub_of ec k)" "length h = 64" "hsk_ec_verify_pubkey ec (pub_of ec k)"
    using p by (simp_all add: hsk_ec_pubkey_from_hash_def hsk_ec_verify_pubkey_def)
qed

lemma privkey_loop_valid: "privkey_loop ec i key e = (Some k, e') \<Longrightarrow> hsk_ec_verify_privkey ec k"
  by (induction ec i key e rule: privkey_loop.induct)
    (subst (asm) (2) privkey_loop.simps, auto split: if_splits prod.splits option.splits)

lemma create_privkey_valid: "hsk_ec_create_privkey ec e = (Some k, e') \<Longrightarrow> hsk_ec_verify_privkey ec k"
  unfolding hsk_ec_create_privkey_def by (rule privkey_loop_valid)

end
