(* ===== verification/Msg.thy ===== *)
theory Msg
  imports Addr Proof_Radix
begin

text \<open>
  The messages of the peer-to-peer protocol, \<^verbatim>\<open>msg.c\<close>. A message is a datatype with one constructor
  per command, whose number is its tag; an array with its count (addresses, locator hashes) and the
  linked list of headers are lists. Memory for a message is there when it is asked for.
\<close>

section \<open>Messages\<close>

definition HSK_MSG_VERSION :: u8 where "HSK_MSG_VERSION = 0"

definition HSK_MSG_VERACK :: u8 where "HSK_MSG_VERACK = 1"

definition HSK_MSG_PING :: u8 where "HSK_MSG_PING = 2"

definition HSK_MSG_PONG :: u8 where "HSK_MSG_PONG = 3"

definition HSK_MSG_GETADDR :: u8 where "HSK_MSG_GETADDR = 4"

definition HSK_MSG_ADDR :: u8 where "HSK_MSG_ADDR = 5"

definition HSK_MSG_GETHEADERS :: u8 where "HSK_MSG_GETHEADERS = 10"

definition HSK_MSG_HEADERS :: u8 where "HSK_MSG_HEADERS = 11"

definition HSK_MSG_SENDHEADERS :: u8 where "HSK_MSG_SENDHEADERS = 12"

definition HSK_MSG_GETPROOF :: u8 where "HSK_MSG_GETPROOF = 26"

definition HSK_MSG_PROOF :: u8 where "HSK_MSG_PROOF = 27"

definition HSK_MSG_UNKNOWN :: u8 where "HSK_MSG_UNKNOWN = 255"

lemmas msg_cmd_defs = HSK_MSG_VERSION_def HSK_MSG_VERACK_def HSK_MSG_PING_def HSK_MSG_PONG_def
  HSK_MSG_GETADDR_def HSK_MSG_ADDR_def HSK_MSG_GETHEADERS_def HSK_MSG_HEADERS_def
  HSK_MSG_SENDHEADERS_def HSK_MSG_GETPROOF_def HSK_MSG_PROOF_def HSK_MSG_UNKNOWN_def

text \<open>The agent is the string without its terminator.\<close>

record hsk_version_msg =
  vm_version :: u32
  vm_services :: u64
  vm_time :: u64
  vm_remote :: hsk_netaddr
  vm_nonce :: u64
  vm_agent :: bytes
  vm_height :: u32
  vm_no_relay :: u8

datatype hsk_msg =
    Version_msg hsk_version_msg
  | Verack_msg
  | Ping_msg u64
  | Pong_msg u64
  | Getaddr_msg
  | Addr_msg "hsk_netaddr list"
  | Getheaders_msg "bytes list" bytes
  | Headers_msg "hsk_header list"
  | Sendheaders_msg
  | Getproof_msg bytes bytes
  | Proof_msg bytes bytes hsk_proof

fun msg_cmd :: "hsk_msg \<Rightarrow> u8" where
  "msg_cmd (Version_msg m) = HSK_MSG_VERSION"
| "msg_cmd Verack_msg = HSK_MSG_VERACK"
| "msg_cmd (Ping_msg nonce) = HSK_MSG_PING"
| "msg_cmd (Pong_msg nonce) = HSK_MSG_PONG"
| "msg_cmd Getaddr_msg = HSK_MSG_GETADDR"
| "msg_cmd (Addr_msg addrs) = HSK_MSG_ADDR"
| "msg_cmd (Getheaders_msg hashes stop) = HSK_MSG_GETHEADERS"
| "msg_cmd (Headers_msg headers) = HSK_MSG_HEADERS"
| "msg_cmd Sendheaders_msg = HSK_MSG_SENDHEADERS"
| "msg_cmd (Getproof_msg root key) = HSK_MSG_GETPROOF"
| "msg_cmd (Proof_msg root key pf) = HSK_MSG_PROOF"

definition hsk_msg_cmd :: "string \<Rightarrow> u8" where
  "hsk_msg_cmd cmd =
     (if cmd = ''version'' then HSK_MSG_VERSION
      else if cmd = ''verack'' then HSK_MSG_VERACK
      else if cmd = ''ping'' then HSK_MSG_PING
      else if cmd = ''pong'' then HSK_MSG_PONG
      else if cmd = ''getaddr'' then HSK_MSG_GETADDR
      else if cmd = ''addr'' then HSK_MSG_ADDR
      else if cmd = ''getheaders'' then HSK_MSG_GETHEADERS
      else if cmd = ''headers'' then HSK_MSG_HEADERS
      else if cmd = ''sendheaders'' then HSK_MSG_SENDHEADERS
      else if cmd = ''getproof'' then HSK_MSG_GETPROOF
      else if cmd = ''proof'' then HSK_MSG_PROOF
      else HSK_MSG_UNKNOWN)"

definition hsk_msg_str :: "u8 \<Rightarrow> string" where
  "hsk_msg_str cmd =
     (if cmd = HSK_MSG_VERSION then ''version''
      else if cmd = HSK_MSG_VERACK then ''verack''
      else if cmd = HSK_MSG_PING then ''ping''
      else if cmd = HSK_MSG_PONG then ''pong''
      else if cmd = HSK_MSG_GETADDR then ''getaddr''
      else if cmd = HSK_MSG_ADDR then ''addr''
      else if cmd = HSK_MSG_GETHEADERS then ''getheaders''
      else if cmd = HSK_MSG_HEADERS then ''headers''
      else if cmd = HSK_MSG_SENDHEADERS then ''sendheaders''
      else if cmd = HSK_MSG_GETPROOF then ''getproof''
      else if cmd = HSK_MSG_PROOF then ''proof''
      else ''unknown'')"

text \<open>
  A fresh message of a command, with the initial values of \<^verbatim>\<open>hsk_msg_init\<close>; no message for any
  other command.
\<close>

definition hsk_version_init :: hsk_version_msg where
  "hsk_version_init = \<lparr>
     vm_version = 0, vm_services = 0, vm_time = 0, vm_remote = hsk_netaddr_init, vm_nonce = 0,
     vm_agent = [], vm_height = 0, vm_no_relay = 1\<rparr>"

definition hsk_msg_alloc :: "u8 \<Rightarrow> hsk_msg option" where
  "hsk_msg_alloc cmd =
     (if cmd = HSK_MSG_VERSION then Some (Version_msg hsk_version_init)
      else if cmd = HSK_MSG_VERACK then Some Verack_msg
      else if cmd = HSK_MSG_PING then Some (Ping_msg 0)
      else if cmd = HSK_MSG_PONG then Some (Pong_msg 0)
      else if cmd = HSK_MSG_GETADDR then Some Getaddr_msg
      else if cmd = HSK_MSG_ADDR then Some (Addr_msg [])
      else if cmd = HSK_MSG_GETHEADERS then Some (Getheaders_msg [] (replicate 32 0))
      else if cmd = HSK_MSG_HEADERS then Some (Headers_msg [])
      else if cmd = HSK_MSG_SENDHEADERS then Some Sendheaders_msg
      else if cmd = HSK_MSG_GETPROOF then Some (Getproof_msg (replicate 32 0) (replicate 32 0))
      else if cmd = HSK_MSG_PROOF then Some (Proof_msg (replicate 32 0) (replicate 32 0) hsk_proof_init)
      else None)"

section \<open>Reading\<close>

text \<open>
  \<open>Inl Short\<close> is the result false, \<open>Inl Overread\<close> the access of \<^verbatim>\<open>read_varint\<close> beyond an empty buffer,
  \<open>None\<close> a loop that does not end or a failed assertion. The reader of a message with a count gets
  the rest of the input in the same way. When false is returned, the caller frees the message.
\<close>

type_synonym 'a msg_result = "(bio_error + 'a \<times> bytes) option"

definition hsk_version_msg_read :: "bytes \<Rightarrow> hsk_version_msg msg_result" where
  "hsk_version_msg_read d =
     (case do {
        (version, d) \<leftarrow> read_u32 d;
        (services, d) \<leftarrow> read_u64 d;
        (time, d) \<leftarrow> read_u64 d;
        (remote, d) \<leftarrow> hsk_netaddr_read d;
        (nonce, d) \<leftarrow> read_u64 d;
        (sz, d) \<leftarrow> read_u8 d;
        Some (version, services, time, remote, nonce, sz, d)
      } of
        None \<Rightarrow> Some (Inl Short)
      | Some (version, services, time, remote, nonce, sz, d) \<Rightarrow>
          (case read_ascii (unat sz) d of
             None \<Rightarrow> None
           | Some None \<Rightarrow> Some (Inl Short)
           | Some (Some (agent, d)) \<Rightarrow> Some (of_read (do {
               (height, d) \<leftarrow> read_u32 d;
               (no_relay, d) \<leftarrow> read_u8 d;
               Some (\<lparr>vm_version = version, vm_services = services, vm_time = time, vm_remote = remote,
                 vm_nonce = nonce, vm_agent = agent, vm_height = height,
                 vm_no_relay = (if no_relay = 1 then 1 else 0)\<rparr>, d)
             }))))"

definition hsk_ping_msg_read :: "bytes \<Rightarrow> u64 msg_result" where
  "hsk_ping_msg_read d = Some (of_read (read_u64 d))"

definition hsk_pong_msg_read :: "bytes \<Rightarrow> u64 msg_result" where
  "hsk_pong_msg_read d = Some (of_read (read_u64 d))"

definition hsk_addr_msg_read :: "bytes \<Rightarrow> hsk_netaddr list msg_result" where
  "hsk_addr_msg_read d =
     (case read_varsize d of
        Inl e \<Rightarrow> Some (Inl e)
      | Inr (count, d) \<Rightarrow>
          if count > 1000 then Some (Inl Short) else Some (of_read (read_n hsk_netaddr_read (unat count) d)))"

definition hsk_getheaders_msg_read :: "bytes \<Rightarrow> (bytes list \<times> bytes) msg_result" where
  "hsk_getheaders_msg_read d =
     (case read_varsize d of
        Inl e \<Rightarrow> Some (Inl e)
      | Inr (count, d) \<Rightarrow>
          if count > 64 then Some (Inl Short)
          else Some (of_read (do {
            (hashes, d) \<leftarrow> read_n (read_bytes 32) (unat count) d;
            (stop, d) \<leftarrow> read_bytes 32 d;
            Some ((hashes, stop), d)
          })))"

definition hsk_headers_msg_read :: "bytes \<Rightarrow> hsk_header list msg_result" where
  "hsk_headers_msg_read d =
     (case read_varsize d of
        Inl e \<Rightarrow> Some (Inl e)
      | Inr (count, d) \<Rightarrow>
          if count > 2000 then Some (Inl Short)
          else Some (of_read (read_n (hsk_header_read hsk_header_init) (unat count) d)))"

definition hsk_getproof_msg_read :: "bytes \<Rightarrow> (bytes \<times> bytes) msg_result" where
  "hsk_getproof_msg_read d = Some (of_read (do {
     (root, d) \<leftarrow> read_bytes 32 d;
     (key, d) \<leftarrow> read_bytes 32 d;
     Some ((root, key), d)
   }))"

definition hsk_proof_msg_read :: "hsk_proof \<Rightarrow> bytes \<Rightarrow> (bytes \<times> bytes \<times> hsk_proof) msg_result" where
  "hsk_proof_msg_read pf d =
     (case do {
        (root, d) \<leftarrow> read_bytes 32 d;
        (key, d) \<leftarrow> read_bytes 32 d;
        Some (root, key, d)
      } of
        None \<Rightarrow> Some (Inl Short)
      | Some (root, key, d) \<Rightarrow>
          (case hsk_proof_read d pf of
             None \<Rightarrow> None
           | Some None \<Rightarrow> Some (Inl Short)
           | Some (Some (pf, d)) \<Rightarrow> Some (Inr ((root, key, pf), d))))"

definition wrap_msg :: "('a \<Rightarrow> hsk_msg) \<Rightarrow> 'a msg_result \<Rightarrow> hsk_msg msg_result" where
  "wrap_msg f r = map_option (\<lambda>r. case r of Inl e \<Rightarrow> Inl e | Inr (x, d) \<Rightarrow> Inr (f x, d)) r"

fun hsk_msg_read :: "bytes \<Rightarrow> hsk_msg \<Rightarrow> hsk_msg msg_result" where
  "hsk_msg_read d (Version_msg m) = wrap_msg Version_msg (hsk_version_msg_read d)"
| "hsk_msg_read d Verack_msg = Some (Inr (Verack_msg, d))"
| "hsk_msg_read d (Ping_msg nonce) = wrap_msg Ping_msg (hsk_ping_msg_read d)"
| "hsk_msg_read d (Pong_msg nonce) = wrap_msg Pong_msg (hsk_pong_msg_read d)"
| "hsk_msg_read d Getaddr_msg = Some (Inr (Getaddr_msg, d))"
| "hsk_msg_read d (Addr_msg addrs) = wrap_msg Addr_msg (hsk_addr_msg_read d)"
| "hsk_msg_read d (Getheaders_msg hashes stop) = wrap_msg (\<lambda>(hashes, stop). Getheaders_msg hashes stop) (hsk_getheaders_msg_read d)"
| "hsk_msg_read d (Headers_msg headers) = wrap_msg Headers_msg (hsk_headers_msg_read d)"
| "hsk_msg_read d Sendheaders_msg = Some (Inr (Sendheaders_msg, d))"
| "hsk_msg_read d (Getproof_msg root key) = wrap_msg (\<lambda>(root, key). Getproof_msg root key) (hsk_getproof_msg_read d)"
| "hsk_msg_read d (Proof_msg root key pf) = wrap_msg (\<lambda>(root, key, pf). Proof_msg root key pf) (hsk_proof_msg_read pf d)"

definition hsk_msg_decode :: "bytes \<Rightarrow> hsk_msg \<Rightarrow> (bio_error + hsk_msg) option" where
  "hsk_msg_decode d m = map_option (\<lambda>r. case r of Inl e \<Rightarrow> Inl e | Inr (m, d) \<Rightarrow> Inr m) (hsk_msg_read d m)"

section \<open>Writing\<close>

definition hsk_version_msg_write :: "hsk_version_msg \<Rightarrow> writer" where
  "hsk_version_msg_write m =
     (let sz = length (vm_agent m) in write_seq [
        write_u32 (vm_version m), write_u64 (vm_services m), write_u64 (vm_time m),
        hsk_netaddr_write (vm_remote m), write_u64 (vm_nonce m), write_u8 (of_nat sz),
        write_bytes (vm_agent m) sz, write_u32 (vm_height m),
        write_u8 (if vm_no_relay m \<noteq> 0 then 1 else 0)])"

definition hsk_ping_msg_write :: "u64 \<Rightarrow> writer" where
  "hsk_ping_msg_write nonce = write_seq [write_u64 nonce]"

definition hsk_pong_msg_write :: "u64 \<Rightarrow> writer" where
  "hsk_pong_msg_write nonce = write_seq [write_u64 nonce]"

definition hsk_addr_msg_write :: "hsk_netaddr list \<Rightarrow> writer" where
  "hsk_addr_msg_write addrs = write_seq (write_varsize (of_nat (length addrs)) # map hsk_netaddr_write addrs)"

definition hsk_getheaders_msg_write :: "bytes list \<Rightarrow> bytes \<Rightarrow> writer" where
  "hsk_getheaders_msg_write hashes stop =
     write_seq (write_varsize (of_nat (length hashes)) # map (\<lambda>h. write_bytes h 32) hashes @ [write_bytes stop 32])"

definition hsk_headers_msg_write :: "hsk_header list \<Rightarrow> writer" where
  "hsk_headers_msg_write headers = write_seq (write_varsize (of_nat (length headers)) # map hsk_header_write headers)"

definition hsk_getproof_msg_write :: "bytes \<Rightarrow> bytes \<Rightarrow> writer" where
  "hsk_getproof_msg_write root key = write_seq [write_bytes root 32, write_bytes key 32]"

text \<open>The proof itself is not written.\<close>

definition hsk_proof_msg_write :: "bytes \<Rightarrow> bytes \<Rightarrow> writer" where
  "hsk_proof_msg_write root key = write_seq [write_bytes root 32, write_bytes key 32]"

fun hsk_msg_write :: "hsk_msg \<Rightarrow> writer" where
  "hsk_msg_write (Version_msg m) = hsk_version_msg_write m"
| "hsk_msg_write Verack_msg = write_seq []"
| "hsk_msg_write (Ping_msg nonce) = hsk_ping_msg_write nonce"
| "hsk_msg_write (Pong_msg nonce) = hsk_pong_msg_write nonce"
| "hsk_msg_write Getaddr_msg = write_seq []"
| "hsk_msg_write (Addr_msg addrs) = hsk_addr_msg_write addrs"
| "hsk_msg_write (Getheaders_msg hashes stop) = hsk_getheaders_msg_write hashes stop"
| "hsk_msg_write (Headers_msg headers) = hsk_headers_msg_write headers"
| "hsk_msg_write Sendheaders_msg = write_seq []"
| "hsk_msg_write (Getproof_msg root key) = hsk_getproof_msg_write root key"
| "hsk_msg_write (Proof_msg root key pf) = hsk_proof_msg_write root key"

definition hsk_msg_encode :: "hsk_msg \<Rightarrow> bytes" where
  "hsk_msg_encode m = emit (hsk_msg_write m)"

definition hsk_msg_size :: "hsk_msg \<Rightarrow> nat" where
  "hsk_msg_size m = snd (hsk_msg_write m None)"

end
