(* ===== verification/Msg_Wire.thy ===== *)
theory Msg_Wire
  imports Msg
begin

text \<open>
  Messages survive their encoding, and the buffer \<^verbatim>\<open>hsk_peer_send\<close> allocates from the announced size
  is large enough only while the count of the message is below 253.
\<close>

section \<open>Well-formed messages\<close>

definition agent_ok :: "bytes \<Rightarrow> bool" where
  "agent_ok a \<longleftrightarrow> length a \<le> 255 \<and> (\<forall>ch\<in>set a. \<not> ascii_bad ch)"

definition fresh_header :: "hsk_header \<Rightarrow> bool" where
  "fresh_header h \<longleftrightarrow> header_ok h \<and> wire_part h = h"

text \<open>What the receiver accepts; a proof message is never written completely.\<close>

fun msg_ok :: "hsk_msg \<Rightarrow> bool" where
  "msg_ok (Version_msg m) \<longleftrightarrow> addr_ok (na_addr (vm_remote m)) \<and> agent_ok (vm_agent m) \<and> (vm_no_relay m = 0 \<or> vm_no_relay m = 1)"
| "msg_ok (Addr_msg addrs) \<longleftrightarrow> length addrs \<le> 1000 \<and> (\<forall>a\<in>set addrs. addr_ok (na_addr a))"
| "msg_ok (Getheaders_msg hashes stop) \<longleftrightarrow> length hashes \<le> 64 \<and> (\<forall>h\<in>set hashes. length h = 32) \<and> length stop = 32"
| "msg_ok (Headers_msg headers) \<longleftrightarrow> length headers \<le> 2000 \<and> (\<forall>h\<in>set headers. fresh_header h)"
| "msg_ok (Getproof_msg root key) \<longleftrightarrow> length root = 32 \<and> length key = 32"
| "msg_ok (Proof_msg root key pf) \<longleftrightarrow> False"
| "msg_ok m \<longleftrightarrow> True"

fun msg_count :: "hsk_msg \<Rightarrow> nat" where
  "msg_count (Addr_msg addrs) = length addrs"
| "msg_count (Getheaders_msg hashes stop) = length hashes"
| "msg_count (Headers_msg headers) = length headers"
| "msg_count m = 0"

section \<open>Writing\<close>

text \<open>\<open>short w bs k\<close>: the writer puts \<open>bs\<close> in the buffer and announces \<open>k\<close> octets fewer.\<close>

definition short :: "writer \<Rightarrow> bytes \<Rightarrow> nat \<Rightarrow> bool" where
  "short w bs k \<longleftrightarrow> (\<forall>out. fst (w (Some out)) = Some (out @ bs)) \<and> fst (w None) = None \<and> snd (w None) + k = length bs"

lemma short_writes: "writes w bs \<Longrightarrow> short w bs 0"
  by (simp add: short_def writes_def)

lemma short_seq: "short w bs k \<Longrightarrow> writes (write_seq ws) bs' \<Longrightarrow> short (write_seq (w # ws)) (bs @ bs') k"
  by (auto simp: short_def writes_def split_beta)

lemma short_emit: "short w bs k \<Longrightarrow> emit w = bs \<and> snd (w None) + k = length bs"
  by (simp add: short_def emit_def)

lemma short_varsize:
  assumes "n < 2 ^ 16"
  shows "short (write_varsize (of_nat n)) (emit (write_varint (of_nat n))) (if n < 253 then 0 else 2)"
proof -
  have u: "unat (of_nat n :: u64) = n" using assms by (simp add: unat_of_nat)
  then have lt: "(of_nat n :: u64) < 0xfd \<longleftrightarrow> n < 253" "(of_nat n :: u64) \<le> 0xffff" using assms by (simp_all add: word_nat)
  have "write_varint (of_nat n) (Some out) = (Some (out @ emit (write_varint (of_nat n))),
      if n < 253 then 1 else 3)" for out
    using lt by (simp add: write_varint_def emit_write_varint emit_put write_defs put_def)
  moreover have "length (emit (write_varint (of_nat n))) = (if n < 253 then 1 else 3)"
    using lt by (simp add: emit_write_varint)
  ultimately show ?thesis using lt
    by (simp add: short_def write_varsize_def) (simp add: write_varint_def size_varsize_def size_varint_def c_bool_def)
qed

lemma writes_each: "\<forall>x\<in>set xs. writes (w x) (f x) \<Longrightarrow> writes (write_seq (map w xs)) (concat (map f xs))"
  by (induction xs) auto

lemma writes_each_then:
  "\<forall>x\<in>set xs. writes (w x) (f x) \<Longrightarrow> writes v b \<Longrightarrow> writes (write_seq (map w xs @ [v])) (concat (map f xs) @ b)"
  by (induction xs) auto

definition version_bytes :: "hsk_version_msg \<Rightarrow> bytes" where
  "version_bytes m = emit (write_u32 (vm_version m)) @ emit (write_u64 (vm_services m)) @ emit (write_u64 (vm_time m)) @
     netaddr_bytes (vm_remote m) @ emit (write_u64 (vm_nonce m)) @ [of_nat (length (vm_agent m))] @ vm_agent m @
     emit (write_u32 (vm_height m)) @ [if vm_no_relay m \<noteq> 0 then 1 else 0]"

lemma writes_version:
  assumes "addr_ok (na_addr (vm_remote m))"
  shows "writes (hsk_version_msg_write m) (version_bytes m)"
  unfolding hsk_version_msg_write_def version_bytes_def Let_def
  by (intro writes_seq_Cons writes_seq_single writes_prims writes_netaddr assms refl)

fun msg_bytes :: "hsk_msg \<Rightarrow> bytes" where
  "msg_bytes (Version_msg m) = version_bytes m"
| "msg_bytes (Ping_msg nonce) = emit (write_u64 nonce)"
| "msg_bytes (Pong_msg nonce) = emit (write_u64 nonce)"
| "msg_bytes (Addr_msg addrs) = emit (write_varint (of_nat (length addrs))) @ concat (map netaddr_bytes addrs)"
| "msg_bytes (Getheaders_msg hashes stop) = emit (write_varint (of_nat (length hashes))) @ concat (map (\<lambda>h. h) hashes) @ stop"
| "msg_bytes (Headers_msg headers) = emit (write_varint (of_nat (length headers))) @ concat (map header_bytes headers)"
| "msg_bytes (Getproof_msg root key) = root @ key"
| "msg_bytes m = []"

lemma msg_written:
  assumes "msg_ok m"
  shows "short (hsk_msg_write m) (msg_bytes m) (if msg_count m < 253 then 0 else 2)"
proof (cases m)
  case (Version_msg v)
  then show ?thesis using assms by (simp add: short_writes writes_version)
next
  case (Addr_msg addrs)
  then have "writes (write_seq (map hsk_netaddr_write addrs)) (concat (map netaddr_bytes addrs))"
    using assms by (intro writes_each) (simp add: writes_netaddr)
  then show ?thesis using short_seq [OF short_varsize] assms Addr_msg by (simp add: hsk_addr_msg_write_def)
next
  case (Getheaders_msg hashes stop)
  then have "writes (write_seq (map (\<lambda>h. write_bytes h 32) hashes @ [write_bytes stop 32])) (concat (map (\<lambda>h. h) hashes) @ stop)"
    using assms by (intro writes_each_then) (auto intro: writes_prims)
  then show ?thesis
    using short_seq [OF short_varsize [of "length hashes"]] assms Getheaders_msg by (auto simp: hsk_getheaders_msg_write_def)
next
  case (Headers_msg headers)
  then have "writes (write_seq (map hsk_header_write headers)) (concat (map header_bytes headers))"
    using assms by (intro writes_each) (simp add: writes_header fresh_header_def)
  then show ?thesis using short_seq [OF short_varsize] assms Headers_msg by (simp add: hsk_headers_msg_write_def)
next
  case (Getproof_msg root key)
  then have "writes (hsk_getproof_msg_write root key) (root @ key)"
    unfolding hsk_getproof_msg_write_def using assms by (intro writes_seq_Cons writes_seq_single writes_prims) simp_all
  then show ?thesis using Getproof_msg by (simp add: short_writes)
qed (use assms in \<open>auto simp: hsk_ping_msg_write_def hsk_pong_msg_write_def intro!: short_writes writes_seq_single writes_prims writes_seq_Nil\<close>)

section \<open>Reading\<close>

lemma read_varsize_written:
  assumes "n < 2 ^ 16"
  shows "read_varsize (emit (write_varint (of_nat n)) @ r) = Inr (of_nat n, r)"
proof -
  have "unat (of_nat n :: u64) = n" using assms by (simp add: unat_of_nat)
  then have "(ucast (of_nat n :: u64) :: u32) = of_nat n" by (simp add: word_unat_eq_iff unat_ucast_mod unat_of_nat take_bit_eq_mod)
  moreover have "0 \<le> sint (of_nat n :: u32)"
  proof -
    have u: "unat (of_nat n :: u32) = n" using assms by (simp add: unat_of_nat)
    have "uint (of_nat n :: u32) < 2 ^ 31" unfolding uint_nat u using assms by simp
    then have "signed_take_bit 31 (uint (of_nat n :: u32)) = uint (of_nat n :: u32)"
      by (intro signed_take_bit_int_eq_self) (use uint_ge_0 [of "of_nat n :: u32"] in linarith, simp)
    then show ?thesis by (simp add: sint_uint)
  qed
  ultimately show ?thesis by (simp add: read_varsize_def read_varint_write)
qed

lemma agent_read:
  assumes "agent_ok a"
  shows "read_ascii (length a) (a @ r) = Some (Some (a, r))"
proof -
  have "(\<forall>j\<in>{unat (0 :: u8)..<length a}. \<not> ascii_bad (a ! j))" using assms by (simp add: agent_ok_def)
  then have "ascii_scan a (length a) 0 = Some True"
    using ascii_scan_result [of "length a" 0 a] assms by (simp add: agent_ok_def)
  then show ?thesis by (simp add: read_ascii_def slice_ascii_def slice_bytes_def)
qed

lemma version_read:
  assumes "addr_ok (na_addr (vm_remote m))" and "agent_ok (vm_agent m)" and "vm_no_relay m = 0 \<or> vm_no_relay m = 1"
  shows "hsk_version_msg_read (version_bytes m @ r) = Some (Inr (m, r))"
proof -
  have r: "read_u32 (emit (write_u32 w) @ s) = Some (w, s)" "read_u64 (emit (write_u64 v) @ s) = Some (v, s)" for w v s
    by (rule u32.dec_enc u64.dec_enc; simp)+
  have u8: "read_u8 (x # ys) = Some (x, ys)" for x ys by (simp add: read_u8_def)
  have "unat (of_nat (length (vm_agent m)) :: u8) = length (vm_agent m)"
    using assms(2) by (simp add: agent_ok_def unat_of_nat)
  then show ?thesis
    using assms(3) netaddr_write_read [OF assms(1)] agent_read [OF assms(2)]
    by (cases m) (auto simp: hsk_version_msg_read_def version_bytes_def r u8 of_read_def)
qed

lemma netaddrs_read:
  "\<forall>a\<in>set addrs. addr_ok (na_addr a) \<Longrightarrow>
     read_n hsk_netaddr_read (length addrs) (concat (map netaddr_bytes addrs) @ r) = Some (addrs, r)"
  by (induction addrs) (simp_all add: netaddr_write_read)

lemma hashes_read:
  "\<forall>h\<in>set hashes. length h = 32 \<Longrightarrow> read_n (read_bytes 32) (length hashes) (concat hashes @ r) = Some (hashes, r)"
  using bytes.read_n_enc [of hashes 32 r] by simp

lemma headers_read:
  "\<forall>h\<in>set headers. fresh_header h \<Longrightarrow>
     read_n (hsk_header_read hsk_header_init) (length headers) (concat (map header_bytes headers) @ r) = Some (headers, r)"
  using header.read_n_enc [of headers r] by (simp add: fresh_header_def)

lemma msg_read:
  assumes "msg_ok m"
  shows "\<exists>m0. hsk_msg_alloc (msg_cmd m) = Some m0 \<and> hsk_msg_read (msg_bytes m @ r) m0 = Some (Inr (m, r))"
proof (cases m)
  case (Version_msg v)
  then show ?thesis using assms by (simp add: hsk_msg_alloc_def msg_cmd_defs wrap_msg_def version_read)
next
  case (Addr_msg addrs)
  have len: "length addrs < 2 ^ 16" "\<not> (of_nat (length addrs) :: u64) > 1000" "unat (of_nat (length addrs) :: u64) = length addrs"
    using assms Addr_msg by (simp_all add: word_nat unat_of_nat)
  show ?thesis using Addr_msg assms len(2,3) read_varsize_written [OF len(1)] netaddrs_read
    by (simp add: hsk_msg_alloc_def msg_cmd_defs wrap_msg_def hsk_addr_msg_read_def of_read_def)
next
  case (Getheaders_msg hashes stop)
  have len: "length hashes < 2 ^ 16" "\<not> (of_nat (length hashes) :: u64) > 64" "unat (of_nat (length hashes) :: u64) = length hashes"
    using assms Getheaders_msg by (simp_all add: word_nat unat_of_nat)
  have "read_bytes 32 (stop @ r) = Some (stop, r)" using assms Getheaders_msg by (intro bytes.dec_enc) simp
  then show ?thesis using Getheaders_msg assms len(2,3) read_varsize_written [OF len(1)] hashes_read
    by (simp add: hsk_msg_alloc_def msg_cmd_defs wrap_msg_def hsk_getheaders_msg_read_def of_read_def)
next
  case (Headers_msg headers)
  have len: "length headers < 2 ^ 16" "\<not> (of_nat (length headers) :: u64) > 2000" "unat (of_nat (length headers) :: u64) = length headers"
    using assms Headers_msg by (simp_all add: word_nat unat_of_nat)
  show ?thesis using Headers_msg assms len(2,3) read_varsize_written [OF len(1)] headers_read
    by (simp add: hsk_msg_alloc_def msg_cmd_defs wrap_msg_def hsk_headers_msg_read_def of_read_def)
next
  case (Getproof_msg root key)
  have "read_bytes 32 (root @ s) = Some (root, s)" "read_bytes 32 (key @ s) = Some (key, s)" for s
    using assms Getproof_msg by (intro bytes.dec_enc; simp)+
  then show ?thesis using Getproof_msg
    by (simp add: hsk_msg_alloc_def msg_cmd_defs wrap_msg_def hsk_getproof_msg_read_def of_read_def)
next
  case (Ping_msg nonce)
  have "read_u64 (emit (write_u64 nonce) @ r) = Some (nonce, r)" by (rule u64.dec_enc) simp
  then show ?thesis using Ping_msg by (simp add: hsk_msg_alloc_def msg_cmd_defs wrap_msg_def hsk_ping_msg_read_def of_read_def)
next
  case (Pong_msg nonce)
  have "read_u64 (emit (write_u64 nonce) @ r) = Some (nonce, r)" by (rule u64.dec_enc) simp
  then show ?thesis using Pong_msg by (simp add: hsk_msg_alloc_def msg_cmd_defs wrap_msg_def hsk_pong_msg_read_def of_read_def)
qed (use assms in \<open>simp_all add: hsk_msg_alloc_def msg_cmd_defs\<close>)

text \<open>
  C36. Every message but a proof survives its encoding: the octets \<^verbatim>\<open>hsk_msg_encode\<close> writes are
  decoded by a fresh message of its command to the message itself. The size the sender allocates
  is their number only while the count of addresses, hashes or headers is below 253; from there on
  it is two octets short.
\<close>

theorem msg_wire:
  assumes "msg_ok m"
  shows "(\<exists>m0. hsk_msg_alloc (msg_cmd m) = Some m0 \<and> hsk_msg_decode (hsk_msg_encode m) m0 = Some (Inr m)) \<and>
    hsk_msg_size m + (if msg_count m < 253 then 0 else 2) = length (hsk_msg_encode m)"
proof -
  have "emit (hsk_msg_write m) = msg_bytes m \<and> snd (hsk_msg_write m None) + (if msg_count m < 253 then 0 else 2) = length (msg_bytes m)"
    by (rule short_emit [OF msg_written [OF assms]])
  then show ?thesis
    using msg_read [OF assms, of "[]"] by (auto simp: hsk_msg_encode_def hsk_msg_size_def hsk_msg_decode_def)
qed

theorem msg_wire_witness:
  "\<exists>m0. hsk_msg_alloc HSK_MSG_GETHEADERS = Some m0 \<and>
     hsk_msg_decode (hsk_msg_encode (Getheaders_msg [replicate 32 7] (replicate 32 0))) m0 =
       Some (Inr (Getheaders_msg [replicate 32 7] (replicate 32 0)))"
  using msg_wire [of "Getheaders_msg [replicate 32 7] (replicate 32 0)"] by simp

end
