(* ===== verification/Peer_Stream.thy ===== *)
theory Peer_Stream
  imports Msg_Wire Network
begin

text \<open>
  How a peer of \<^verbatim>\<open>pool.c\<close> cuts the octets of its connection into messages, and the frame a message is
  sent in. What handling a message does to the rest of the program is an argument, a function on a
  state of its own.
\<close>

section \<open>The receive buffer\<close>

text \<open>
  The fields \<^verbatim>\<open>msg_hdr\<close>, \<^verbatim>\<open>msg\<close>, \<^verbatim>\<open>msg_pos\<close>, \<^verbatim>\<open>msg_len\<close> and \<^verbatim>\<open>msg_cmd\<close> of a peer: \<open>sm_msg\<close> holds the
  octets received so far, so \<^verbatim>\<open>msg_pos\<close> is its length. Memory for the buffer is there.
\<close>

record hsk_stream =
  sm_hdr :: bool
  sm_msg :: bytes
  sm_len :: nat
  sm_cmd :: u8

definition stream_init :: hsk_stream where
  "stream_init = \<lparr>sm_hdr = False, sm_msg = [], sm_len = 9, sm_cmd = 0\<rparr>"

definition HSK_MAX_MESSAGE :: nat where
  "HSK_MAX_MESSAGE = 8 * 1000 * 1000"

definition hsk_peer_parse_hdr :: "hsk_network \<Rightarrow> hsk_stream \<Rightarrow> hsk_error \<times> hsk_stream" where
  "hsk_peer_parse_hdr N st =
     (case read_u32 (sm_msg st) of
        None \<Rightarrow> (HSK_EENCODING, st)
      | Some (magic, d) \<Rightarrow>
          if magic \<noteq> net_magic N then (HSK_EENCODING, st)
          else case read_u8 d of
            None \<Rightarrow> (HSK_EENCODING, st)
          | Some (cmd, d) \<Rightarrow>
              (case read_u32 d of
                 None \<Rightarrow> (HSK_EENCODING, st)
               | Some (sz, d) \<Rightarrow>
                   if unat sz > HSK_MAX_MESSAGE then (HSK_EENCODING, st)
                   else (HSK_SUCCESS, \<lparr>sm_hdr = True, sm_msg = [], sm_len = unat sz, sm_cmd = cmd\<rparr>)))"

text \<open>
  \<open>None\<close> is an access beyond the buffer, a loop that does not end or a failed assertion. A message
  that cannot be decoded is dropped with the error \<open>HSK_EENCODING\<close>.
\<close>

definition hsk_peer_parse ::
  "hsk_network \<Rightarrow> ('s \<Rightarrow> hsk_msg \<Rightarrow> (hsk_error \<times> 's) option) \<Rightarrow> hsk_stream \<Rightarrow> 's \<Rightarrow> (hsk_error \<times> hsk_stream \<times> 's) option" where
  "hsk_peer_parse N handle st s =
     (if \<not> sm_hdr st then let (rc, st) = hsk_peer_parse_hdr N st in Some (rc, st, s)
      else do {
        (rc, s) \<leftarrow> (if hsk_msg_str (sm_cmd st) = ''unknown'' then Some (HSK_SUCCESS, s)
          else case hsk_msg_alloc (sm_cmd st) of
            None \<Rightarrow> Some (HSK_ENOMEM, s)
          | Some m \<Rightarrow> (case hsk_msg_decode (sm_msg st) m of
              None \<Rightarrow> None
            | Some (Inl Overread) \<Rightarrow> None
            | Some (Inl Short) \<Rightarrow> Some (HSK_EENCODING, s)
            | Some (Inr m) \<Rightarrow> handle s m));
        Some (rc, stream_init, s)
      })"

text \<open>The loop of \<^verbatim>\<open>hsk_peer_on_read\<close>. The boolean is false when the peer is to be destroyed.\<close>

partial_function (option) read_loop ::
  "hsk_network \<Rightarrow> ('s \<Rightarrow> hsk_msg \<Rightarrow> (hsk_error \<times> 's) option) \<Rightarrow> hsk_stream \<Rightarrow> bytes \<Rightarrow> 's \<Rightarrow>
   (bool \<times> hsk_stream \<times> 's) option" where
  "read_loop N handle st d s =
     (if length (sm_msg st) + length d \<ge> sm_len st then
        if \<not> length (sm_msg st) \<le> sm_len st then None
        else do {
          let need = sm_len st - length (sm_msg st);
          (rc, st, s) \<leftarrow> hsk_peer_parse N handle (st\<lparr>sm_msg := sm_msg st @ take need d\<rparr>) s;
          if rc \<noteq> HSK_SUCCESS then Some (False, st, s)
          else read_loop N handle st (drop need d) s
        }
      else Some (True, st\<lparr>sm_msg := sm_msg st @ d\<rparr>, s))"

section \<open>Sending\<close>

text \<open>
  The buffer \<^verbatim>\<open>hsk_peer_send\<close> fills: \<open>None\<close> when the message does not fit the size that was allocated
  for it.
\<close>

definition peer_frame :: "hsk_network \<Rightarrow> hsk_msg \<Rightarrow> bytes option" where
  "peer_frame N m =
     (let msg_size = hsk_msg_size m;
          buf = emit (write_seq [write_u32 (net_magic N), write_u8 (msg_cmd m), write_u32 (of_nat msg_size), hsk_msg_write m])
      in if length buf > 9 + msg_size then None else Some buf)"

section \<open>Splitting the stream does not matter\<close>

definition stream_ok :: "hsk_stream \<Rightarrow> bool" where
  "stream_ok st \<longleftrightarrow> length (sm_msg st) \<le> sm_len st \<and> (\<not> sm_hdr st \<longrightarrow> sm_len st = 9 \<and> length (sm_msg st) < 9)"

lemma stream_ok_init [simp]: "stream_ok stream_init"
  by (simp add: stream_ok_def stream_init_def)

lemma parse_stream:
  assumes "hsk_peer_parse N handle st s = Some (HSK_SUCCESS, st', s')"
  shows "stream_ok st' \<and> sm_hdr st' = (\<not> sm_hdr st)"
proof (cases "sm_hdr st")
  case True
  then have "st' = stream_init" using assms by (auto simp: hsk_peer_parse_def bind_eq_Some_conv)
  then show ?thesis using True by (simp add: stream_init_def stream_ok_def)
next
  case False
  then have "hsk_peer_parse_hdr N st = (HSK_SUCCESS, st')" using assms by (auto simp: hsk_peer_parse_def split: prod.splits)
  then show ?thesis using False
    by (auto simp: hsk_peer_parse_hdr_def stream_ok_def split: option.splits if_splits prod.splits)
qed

definition loop_measure :: "hsk_stream \<Rightarrow> bytes \<Rightarrow> nat" where
  "loop_measure st d = 2 * length d + (if sm_hdr st then 1 else 0)"

lemma read_loop_append:
  assumes "stream_ok st"
  shows "read_loop N handle st (a @ b) s =
    read_loop N handle st a s \<bind> (\<lambda>(ok, st, s). if ok then read_loop N handle st b s else Some (False, st, s))"
  using assms
proof (induction "loop_measure st a" arbitrary: st a s rule: less_induct)
  case less
  let ?need = "sm_len st - length (sm_msg st)"
  have le: "length (sm_msg st) \<le> sm_len st" using less.prems by (simp add: stream_ok_def)
  show ?case
  proof (cases "length (sm_msg st) + length a \<ge> sm_len st")
    case True
    let ?st = "st\<lparr>sm_msg := sm_msg st @ take ?need a\<rparr>"
    have t: "take ?need (a @ b) = take ?need a" "drop ?need (a @ b) = drop ?need a @ b" using True by simp_all
    show ?thesis
    proof (cases "hsk_peer_parse N handle ?st s")
      case None
      then show ?thesis using True le t by (subst (1 2) read_loop.simps) simp
    next
      case (Some r)
      obtain rc st' s' where r: "r = (rc, st', s')" by (cases r)
      show ?thesis
      proof (cases "rc = HSK_SUCCESS")
        case False
        then show ?thesis using True le t Some r by (subst (1 2) read_loop.simps) simp
      next
        case ok: True
        have st': "stream_ok st'" "sm_hdr st' = (\<not> sm_hdr st)"
          using parse_stream [of N handle ?st s st' s'] Some r ok by simp_all
        have "loop_measure st' (drop ?need a) < loop_measure st a"
          using st'(2) less.prems True by (auto simp: loop_measure_def stream_ok_def)
        then have "read_loop N handle st' (drop ?need a @ b) s' =
            read_loop N handle st' (drop ?need a) s' \<bind> (\<lambda>(ok, st, s). if ok then read_loop N handle st b s else Some (False, st, s))"
          using less.hyps st'(1) by blast
        then show ?thesis using True le t Some r ok
          by (subst (1 2) read_loop.simps) simp
      qed
    qed
  next
    case False
    let ?st = "st\<lparr>sm_msg := sm_msg st @ a\<rparr>"
    have a: "read_loop N handle st a s = Some (True, ?st, s)" using False by (subst read_loop.simps) simp
    have e: "sm_msg st @ take ?need (a @ b) = (sm_msg st @ a) @ take (sm_len st - (length (sm_msg st) + length a)) b"
      "drop ?need (a @ b) = drop (sm_len st - (length (sm_msg st) + length a)) b" using False le by simp_all
    have "read_loop N handle st (a @ b) s = read_loop N handle ?st b s"
      using False le e by (subst (1 2) read_loop.simps) (simp add: add.assoc Let_def cong: if_cong)
    then show ?thesis using a by simp
  qed
qed

section \<open>Frames are received as the messages they were made from\<close>

lemma short_single: "short w bs k \<Longrightarrow> short (write_seq [w]) bs k"
  by (auto simp: short_def split_beta)

lemma short_after: "writes w bs \<Longrightarrow> short (write_seq ws) bs' k \<Longrightarrow> short (write_seq (w # ws)) (bs @ bs') k"
  by (auto simp: short_def writes_def split_beta)

definition frame_bytes :: "hsk_network \<Rightarrow> hsk_msg \<Rightarrow> bytes" where
  "frame_bytes N m = emit (write_u32 (net_magic N)) @ [msg_cmd m] @ emit (write_u32 (of_nat (length (msg_bytes m)))) @ msg_bytes m"

lemma frame_sent:
  assumes "msg_ok m"
  shows "peer_frame N m = (if msg_count m < 253 then Some (frame_bytes N m) else None)"
proof -
  let ?k = "if msg_count m < 253 then 0 else 2"
  have w: "short (hsk_msg_write m) (msg_bytes m) ?k" by (rule msg_written [OF assms])
  have sz: "hsk_msg_size m + ?k = length (msg_bytes m)" using short_emit [OF w] by (simp add: hsk_msg_size_def)
  let ?hd = "emit (write_u32 (net_magic N)) @ [msg_cmd m] @ emit (write_u32 (of_nat (hsk_msg_size m)))"
  have "short (write_seq [write_u32 (net_magic N), write_u8 (msg_cmd m), write_u32 (of_nat (hsk_msg_size m)), hsk_msg_write m])
      (emit (write_u32 (net_magic N)) @ [msg_cmd m] @ emit (write_u32 (of_nat (hsk_msg_size m))) @ msg_bytes m) ?k"
    by (intro short_after writes_prims short_single w)
  then have "emit (write_seq [write_u32 (net_magic N), write_u8 (msg_cmd m), write_u32 (of_nat (hsk_msg_size m)), hsk_msg_write m]) =
      ?hd @ msg_bytes m" by (simp add: short_emit)
  moreover have "length (?hd @ msg_bytes m) = 9 + length (msg_bytes m)" by simp
  ultimately show ?thesis using sz
    by (cases "msg_count m < 253") (auto simp: peer_frame_def Let_def frame_bytes_def)
qed

text \<open>A whole frame at the start of the input is one turn for its header and one for its message.\<close>

lemma parse_frame:
  assumes "msg_ok m" and "length (msg_bytes m) \<le> HSK_MAX_MESSAGE"
  shows "read_loop N handle stream_init (frame_bytes N m @ d) s =
    handle s m \<bind> (\<lambda>(rc, s). if rc \<noteq> HSK_SUCCESS then Some (False, stream_init, s) else read_loop N handle stream_init d s)"
proof -
  let ?n = "length (msg_bytes m)"
  let ?hd = "emit (write_u32 (net_magic N)) @ [msg_cmd m] @ emit (write_u32 (of_nat ?n))"
  have len: "length ?hd = 9" by simp
  have r32: "read_u32 (emit (write_u32 w) @ x) = Some (w, x)" for w x by (rule u32.dec_enc) simp
  have un: "unat (of_nat ?n :: u32) = ?n" using assms(2) by (simp add: unat_of_nat HSK_MAX_MESSAGE_def)
  have hdr: "hsk_peer_parse_hdr N (stream_init\<lparr>sm_msg := ?hd\<rparr>) =
      (HSK_SUCCESS, \<lparr>sm_hdr = True, sm_msg = [], sm_len = ?n, sm_cmd = msg_cmd m\<rparr>)"
    using r32 [of "of_nat ?n" "[]"] un assms(2) by (simp add: hsk_peer_parse_hdr_def r32 read_u8_def)
  let ?st = "\<lparr>sm_hdr = True, sm_msg = [], sm_len = ?n, sm_cmd = msg_cmd m\<rparr>"
  have "read_loop N handle stream_init (frame_bytes N m @ d) s = read_loop N handle stream_init (?hd @ (msg_bytes m @ d)) s"
    by (simp add: frame_bytes_def)
  also have "\<dots> = read_loop N handle ?st (msg_bytes m @ d) s"
  proof -
    have "take 9 (?hd @ (msg_bytes m @ d)) = ?hd" "drop 9 (?hd @ (msg_bytes m @ d)) = msg_bytes m @ d"
      using len by (simp_all only: take_append_exact drop_append_exact)
    then show ?thesis using len hdr
      by (subst read_loop.simps) (simp add: stream_init_def hsk_peer_parse_def Let_def del: append_assoc)
  qed
  also have "\<dots> = handle s m \<bind> (\<lambda>(rc, s). if rc \<noteq> HSK_SUCCESS then Some (False, stream_init, s) else read_loop N handle stream_init d s)"
  proof -
    obtain m0 where m0: "hsk_msg_alloc (msg_cmd m) = Some m0" "hsk_msg_decode (msg_bytes m) m0 = Some (Inr m)"
      using msg_read [OF assms(1), of "[]"] by (auto simp: hsk_msg_decode_def)
    have "hsk_msg_str (msg_cmd m) \<noteq> ''unknown''" by (cases m) (simp_all add: hsk_msg_str_def msg_cmd_defs)
    then have "hsk_peer_parse N handle (?st\<lparr>sm_msg := msg_bytes m\<rparr>) s = handle s m \<bind> (\<lambda>(rc, s). Some (rc, stream_init, s))"
      using m0 by (simp add: hsk_peer_parse_def)
    then show ?thesis by (subst read_loop.simps) (cases "handle s m", auto)
  qed
  finally show ?thesis .
qed

fun handle_all :: "('s \<Rightarrow> hsk_msg \<Rightarrow> (hsk_error \<times> 's) option) \<Rightarrow> hsk_msg list \<Rightarrow> 's \<Rightarrow> (bool \<times> 's) option" where
  "handle_all handle [] s = Some (True, s)"
| "handle_all handle (m # ms) s = do {
     (rc, s) \<leftarrow> handle s m;
     if rc \<noteq> HSK_SUCCESS then Some (False, s) else handle_all handle ms s
   }"

text \<open>The receiver's view of a sequence of reads, whatever its handler does.\<close>

fun read_chunks ::
  "hsk_network \<Rightarrow> ('s \<Rightarrow> hsk_msg \<Rightarrow> (hsk_error \<times> 's) option) \<Rightarrow> hsk_stream \<Rightarrow> bytes list \<Rightarrow> 's \<Rightarrow>
   (bool \<times> hsk_stream \<times> 's) option" where
  "read_chunks N handle st [] s = Some (True, st, s)"
| "read_chunks N handle st (d # ds) s = do {
     (ok, st, s) \<leftarrow> read_loop N handle st d s;
     if ok then read_chunks N handle st ds s else Some (False, st, s)
   }"

lemma read_loop_live:
  "stream_ok st \<Longrightarrow> read_loop N handle st d s = Some (True, st', s') \<Longrightarrow> stream_ok st' \<and> length (sm_msg st') < sm_len st'"
proof (induction "loop_measure st d" arbitrary: st d s rule: less_induct)
  case less
  let ?need = "sm_len st - length (sm_msg st)"
  show ?case
  proof (cases "length (sm_msg st) + length d \<ge> sm_len st")
    case True
    then obtain rc st1 s1 where p: "hsk_peer_parse N handle (st\<lparr>sm_msg := sm_msg st @ take ?need d\<rparr>) s = Some (rc, st1, s1)"
      "rc = HSK_SUCCESS" "read_loop N handle st1 (drop ?need d) s1 = Some (True, st', s')"
      using less.prems by (subst (asm) read_loop.simps) (auto simp: bind_eq_Some_conv Let_def split: if_splits)
    have st1: "stream_ok st1" "sm_hdr st1 = (\<not> sm_hdr st)" using parse_stream p(1,2) by fastforce+
    have "loop_measure st1 (drop ?need d) < loop_measure st d"
      using st1(2) less.prems(1) True by (auto simp: loop_measure_def stream_ok_def)
    then show ?thesis using less.hyps st1(1) p(3) by blast
  next
    case False
    then show ?thesis using less.prems
      by (subst (asm) read_loop.simps) (auto simp: stream_ok_def)
  qed
qed

lemma read_chunks_concat:
  "stream_ok st \<Longrightarrow> length (sm_msg st) < sm_len st \<Longrightarrow> read_chunks N handle st ds s = read_loop N handle st (concat ds) s"
proof (induction ds arbitrary: st s)
  case Nil
  then show ?case by (subst read_loop.simps) simp
next
  case (Cons d ds)
  have "read_chunks N handle st' ds s' = read_loop N handle st' (concat ds) s'"
    if "read_loop N handle st d s = Some (True, st', s')" for st' s'
    using Cons.IH read_loop_live [OF Cons.prems(1) that] by blast
  then show ?case
    by (cases "read_loop N handle st d s") (auto simp: read_loop_append [OF Cons.prems(1)])
qed

lemma read_frames:
  assumes "\<forall>m\<in>set ms. msg_ok m \<and> length (msg_bytes m) \<le> HSK_MAX_MESSAGE"
  shows "read_loop N handle stream_init (concat (map (frame_bytes N) ms)) s =
    map_option (\<lambda>(ok, s). (ok, stream_init, s)) (handle_all handle ms s)"
  using assms
proof (induction ms arbitrary: s)
  case Nil
  then show ?case by (subst read_loop.simps) (simp add: stream_init_def)
next
  case (Cons m ms)
  then show ?case by (cases "handle s m") (auto simp: parse_frame)
qed

lemma length_netaddr_bytes: "addr_ok (na_addr a) \<Longrightarrow> length (netaddr_bytes a) = 88"
  by (simp add: netaddr_bytes_def addr_ok_def)

lemma length_concat_le: "\<forall>x\<in>set xs. length (f x) \<le> k \<Longrightarrow> length (concat (map f xs)) \<le> k * length xs"
  by (induction xs) auto

lemma msg_bytes_bound:
  assumes "msg_ok m"
  shows "length (msg_bytes m) \<le> HSK_MAX_MESSAGE"
proof -
  have v: "length (emit (write_varint v)) \<le> 9" for v by (simp add: emit_write_varint)
  show ?thesis
  proof (cases m)
    case (Version_msg x)
    then show ?thesis using assms
      by (simp add: version_bytes_def length_netaddr_bytes agent_ok_def HSK_MAX_MESSAGE_def)
  next
    case (Addr_msg addrs)
    have "length (concat (map netaddr_bytes addrs)) \<le> 88 * length addrs"
      using assms Addr_msg by (intro length_concat_le) (simp add: length_netaddr_bytes)
    then show ?thesis using assms Addr_msg v [of "of_nat (length addrs)"] by (simp add: HSK_MAX_MESSAGE_def)
  next
    case (Getheaders_msg hashes stop)
    have "length (concat (map (\<lambda>h. h) hashes)) \<le> 32 * length hashes"
      using assms Getheaders_msg by (intro length_concat_le) simp
    then show ?thesis using assms Getheaders_msg v [of "of_nat (length hashes)"] by (simp add: HSK_MAX_MESSAGE_def)
  next
    case (Headers_msg headers)
    have "length (concat (map header_bytes headers)) \<le> 236 * length headers"
      using assms Headers_msg by (intro length_concat_le) (simp add: fresh_header_def header_bytes_def header_ok_def)
    then show ?thesis using assms Headers_msg v [of "of_nat (length headers)"] by (simp add: HSK_MAX_MESSAGE_def)
  qed (use assms in \<open>simp_all add: HSK_MAX_MESSAGE_def\<close>)
qed

text \<open>
  C37. The network may cut the stream as it likes: when the frames of any messages the sender can
  frame arrive in any chunks, the handler gets exactly these messages, in order and each once, up to
  the first one it answers with an error, and the buffer is then ready for the next frame.
\<close>

theorem frames_received:
  assumes "\<forall>m\<in>set ms. msg_ok m" and "map (peer_frame N) ms = map Some frames" and "concat chunks = concat frames"
  shows "read_chunks N handle stream_init chunks s =
    map_option (\<lambda>(ok, s). (ok, stream_init, s)) (handle_all handle ms s)"
proof -
  have "frames = map (frame_bytes N) ms"
    using assms(1,2) by (induction ms arbitrary: frames) (auto simp: frame_sent split: if_splits)
  moreover have "stream_ok stream_init" "length (sm_msg stream_init) < sm_len stream_init"
    by (simp_all add: stream_init_def stream_ok_def)
  ultimately show ?thesis
    using read_chunks_concat assms(1,3) read_frames [of ms] msg_bytes_bound by metis
qed

theorem frames_received_witness:
  "read_chunks HSK_MAIN (\<lambda>s m. Some (HSK_SUCCESS, s @ [m])) stream_init
     [take 4 (frame_bytes HSK_MAIN (Ping_msg 5)), drop 4 (frame_bytes HSK_MAIN (Ping_msg 5)) @ frame_bytes HSK_MAIN Verack_msg] [] =
   Some (True, stream_init, [Ping_msg 5, Verack_msg])"
proof -
  let ?h = "\<lambda>s m. Some (HSK_SUCCESS, s @ [m])"
  let ?p = "frame_bytes HSK_MAIN (Ping_msg 5)" and ?v = "frame_bytes HSK_MAIN Verack_msg"
  have ok: "\<forall>m\<in>set [Ping_msg 5, Verack_msg]. msg_ok m" by simp
  have sent: "map (peer_frame HSK_MAIN) [Ping_msg 5, Verack_msg] = map Some [?p, ?v]"
    by (simp add: frame_sent)
  have cut: "concat [take 4 ?p, drop 4 ?p @ ?v] = concat [?p, ?v]" by simp
  have "handle_all ?h [Ping_msg 5, Verack_msg] [] = Some (True, [Ping_msg 5, Verack_msg])" by simp
  then show ?thesis
    using frames_received [OF ok sent cut, of ?h "[]"] by (simp only: option.map prod.case)
qed

text \<open>
  C38. A frame without a payload whose command needs a count makes the receiver read beyond its
  buffer: nine octets from a peer are enough.
\<close>

theorem empty_count_overread:
  assumes "cmd = HSK_MSG_ADDR \<or> cmd = HSK_MSG_GETHEADERS \<or> cmd = HSK_MSG_HEADERS"
  shows "read_loop N handle stream_init (emit (write_u32 (net_magic N)) @ [cmd] @ emit (write_u32 0)) s = None"
proof -
  let ?hd = "emit (write_u32 (net_magic N)) @ [cmd] @ emit (write_u32 0)"
  let ?st = "\<lparr>sm_hdr = True, sm_msg = [], sm_len = 0, sm_cmd = cmd\<rparr>"
  have r32: "read_u32 (emit (write_u32 w) @ x) = Some (w, x)" for w x by (rule u32.dec_enc) simp
  have "length ?hd = 9" by simp
  then have "read_loop N handle stream_init ?hd s = read_loop N handle ?st [] s"
    using r32 [of 0 "[]"]
    by (subst read_loop.simps) (simp add: stream_init_def hsk_peer_parse_def hsk_peer_parse_hdr_def r32 read_u8_def Let_def)
  moreover have "hsk_peer_parse N handle ?st s = None"
    using assms by (auto simp: hsk_peer_parse_def hsk_msg_str_def hsk_msg_alloc_def msg_cmd_defs hsk_msg_decode_def
        wrap_msg_def hsk_addr_msg_read_def hsk_getheaders_msg_read_def hsk_headers_msg_read_def read_varsize_def read_varint_def)
  ultimately show ?thesis by (subst (asm) (2) read_loop.simps) simp
qed

theorem empty_count_overread_witness:
  "read_loop HSK_MAIN (\<lambda>s m. Some (HSK_SUCCESS, s)) stream_init [0xd3, 0xf2, 0x6e, 0x5b, 5, 0, 0, 0, 0] () = None"
proof -
  have "emit (write_u32 (net_magic HSK_MAIN)) @ [HSK_MSG_ADDR] @ emit (write_u32 0) = [0xd3, 0xf2, 0x6e, 0x5b, 5, 0, 0, 0, 0]"
    by code_simp
  then show ?thesis using empty_count_overread [of HSK_MSG_ADDR HSK_MAIN] by simp
qed

end
