(* ===== verification/Brontide.thy ===== *)
theory Brontide
  imports Aead Hash Ec Peer_Stream
begin

text \<open>
  \<^verbatim>\<open>brontide.c\<close>: the encrypted transport. A handshake of three messages gives both sides two cipher
  states; then every message is sent as an encrypted length and an encrypted body, each with its tag.

  \<open>None\<close> is a failed assertion or the use of octets that were never written (an output array of a
  function that failed). Memory for the buffer is there. The callbacks are functions on the connection
  and a state of their owner.
\<close>

section \<open>Cipher states\<close>

record hsk_cs =
  cs_nonce :: u32
  cs_iv :: bytes
  cs_secret_key :: bytes
  cs_salt :: bytes
  cs_tag :: bytes
  cs_cipher :: hsk_aead

definition BRONTIDE_ROTATION_INTERVAL :: u32 where "BRONTIDE_ROTATION_INTERVAL = 1000"

definition hsk_cs_init :: hsk_cs where
  "hsk_cs_init = \<lparr>cs_nonce = 0, cs_iv = replicate 12 0, cs_secret_key = replicate 32 0, cs_salt = replicate 32 0,
     cs_tag = replicate 16 0, cs_cipher = hsk_aead_init\<rparr>"

definition hsk_cs_update :: "hsk_cs \<Rightarrow> hsk_cs" where
  "hsk_cs_update cs = cs\<lparr>cs_iv := take 4 (cs_iv cs) @ emit (write_u32 (cs_nonce cs)) @ drop 8 (cs_iv cs)\<rparr>"

definition hsk_cs_init_key :: "hsk_cs \<Rightarrow> bytes \<Rightarrow> hsk_cs" where
  "hsk_cs_init_key cs key = hsk_cs_update (cs\<lparr>cs_secret_key := take 32 key, cs_nonce := 0\<rparr>)"

definition hsk_cs_init_saltkey :: "hsk_cs \<Rightarrow> bytes \<Rightarrow> bytes \<Rightarrow> hsk_cs" where
  "hsk_cs_init_saltkey cs salt key = hsk_cs_init_key (cs\<lparr>cs_salt := take 32 salt\<rparr>) key"

definition hsk_cs_rotate_key :: "hsk_cs \<Rightarrow> hsk_cs option" where
  "hsk_cs_rotate_key cs =
     do { (h1, h2) \<leftarrow> hsk_hash_hkdf (cs_secret_key cs) (cs_salt cs) [];
          Some (hsk_cs_init_key (cs\<lparr>cs_salt := h1\<rparr>) h2) }"

text \<open>The end of both operations: the tag, the next nonce and the rotation of the key.\<close>

definition cs_finish :: "hsk_cs \<Rightarrow> hsk_aead \<Rightarrow> hsk_cs option" where
  "cs_finish cs aead =
     (let (aead, tag) = hsk_aead_final aead;
          cs = cs\<lparr>cs_cipher := aead, cs_tag := tag\<rparr>;
          cs = hsk_cs_update (cs\<lparr>cs_nonce := cs_nonce cs + 1\<rparr>)
      in if cs_nonce cs = BRONTIDE_ROTATION_INTERVAL then hsk_cs_rotate_key cs else Some cs)"

definition cs_start :: "hsk_cs \<Rightarrow> bytes option \<Rightarrow> hsk_aead option" where
  "cs_start cs ad =
     do { aead \<leftarrow> hsk_aead_setup (cs_cipher cs) (cs_secret_key cs) (cs_iv cs);
          case ad of None \<Rightarrow> Some aead | Some ad \<Rightarrow> hsk_aead_aad aead (take 32 ad) }"

definition hsk_cs_encrypt :: "hsk_cs \<Rightarrow> bytes option \<Rightarrow> bytes \<Rightarrow> (hsk_cs \<times> bytes) option" where
  "hsk_cs_encrypt cs ad d =
     do { aead \<leftarrow> cs_start cs ad;
          let (aead, out) = hsk_aead_encrypt aead d;
          cs \<leftarrow> cs_finish cs aead;
          Some (cs, out) }"

definition hsk_cs_decrypt :: "hsk_cs \<Rightarrow> bytes option \<Rightarrow> bytes \<Rightarrow> (hsk_cs \<times> bytes) option" where
  "hsk_cs_decrypt cs ad d =
     do { aead \<leftarrow> cs_start cs ad;
          let (aead, out) = hsk_aead_decrypt aead d;
          cs \<leftarrow> cs_finish cs aead;
          Some (cs, out) }"

definition hsk_cs_verify :: "hsk_cs \<Rightarrow> bytes \<Rightarrow> bool" where
  "hsk_cs_verify cs tag = hsk_aead_verify (cs_tag cs) tag"

section \<open>The connection\<close>

datatype act = BRONTIDE_ACT_NONE | BRONTIDE_ACT_ONE | BRONTIDE_ACT_TWO | BRONTIDE_ACT_THREE | BRONTIDE_ACT_DONE

text \<open>\<open>br_msg\<close> holds the octets in the receive buffer, so \<^verbatim>\<open>msg_pos\<close> is its length.\<close>

record hsk_brontide =
  br_cs :: hsk_cs
  br_chaining_key :: bytes
  br_temp_key :: bytes
  br_handshake_digest :: bytes
  br_initiator :: bool
  br_local_static :: bytes
  br_local_ephemeral :: bytes
  br_remote_static :: bytes
  br_remote_ephemeral :: bytes
  br_send_cipher :: hsk_cs
  br_recv_cipher :: hsk_cs
  br_state :: act
  br_has_size :: bool
  br_msg :: "bytes option"
  br_msg_len :: nat

record 's brontide_cb =
  connect_cb :: "hsk_brontide \<times> 's \<Rightarrow> (hsk_brontide \<times> 's) option"
  write_cb :: "bytes \<Rightarrow> bool \<Rightarrow> 's \<Rightarrow> hsk_error \<times> 's"
  read_cb :: "bytes \<Rightarrow> hsk_brontide \<times> 's \<Rightarrow> (hsk_brontide \<times> 's) option"

definition BRONTIDE_HEADER_SIZE :: nat where "BRONTIDE_HEADER_SIZE = 20"
definition BRONTIDE_ACT_ONE_SIZE :: nat where "BRONTIDE_ACT_ONE_SIZE = 80"
definition BRONTIDE_ACT_TWO_SIZE :: nat where "BRONTIDE_ACT_TWO_SIZE = 80"
definition BRONTIDE_ACT_THREE_SIZE :: nat where "BRONTIDE_ACT_THREE_SIZE = 65"
definition BRONTIDE_MAX_MESSAGE :: int where "BRONTIDE_MAX_MESSAGE = int (HSK_MAX_MESSAGE + 9)"

definition brontide_protocol_name :: bytes where
  "brontide_protocol_name = map of_char ''Noise_XK_secp256k1_ChaChaPoly_SHA256+SVDW_Squared''"

definition brontide_prologue :: bytes where
  "brontide_prologue = map of_char ''hns''"

definition hsk_brontide_init :: hsk_brontide where
  "hsk_brontide_init =
     \<lparr>br_cs = hsk_cs_init, br_chaining_key = replicate 32 0, br_temp_key = replicate 32 0, br_handshake_digest = replicate 32 0,
      br_initiator = False, br_local_static = replicate 32 0, br_local_ephemeral = replicate 32 0,
      br_remote_static = replicate 33 0, br_remote_ephemeral = replicate 33 0,
      br_send_cipher = hsk_cs_init, br_recv_cipher = hsk_cs_init,
      br_state = BRONTIDE_ACT_NONE, br_has_size = False, br_msg = None, br_msg_len = 0\<rparr>"

definition hsk_brontide_destroy :: "hsk_brontide \<Rightarrow> hsk_brontide" where
  "hsk_brontide_destroy b = b\<lparr>br_state := BRONTIDE_ACT_NONE\<rparr>"

definition hsk_brontide_uninit :: "hsk_brontide \<Rightarrow> hsk_brontide" where
  "hsk_brontide_uninit b = (hsk_brontide_destroy b)\<lparr>br_msg := None\<rparr>"

section \<open>Symmetric state\<close>

definition hsk_brontide_init_sym :: "hsk_brontide \<Rightarrow> bytes \<Rightarrow> hsk_brontide" where
  "hsk_brontide_init_sym b proto_name =
     (let h = hsk_hash_sha256 proto_name
      in b\<lparr>br_handshake_digest := h, br_chaining_key := h, br_cs := hsk_cs_init_key (br_cs b) (replicate 32 0)\<rparr>)"

definition hsk_brontide_mix_key :: "hsk_brontide \<Rightarrow> bytes \<Rightarrow> hsk_brontide option" where
  "hsk_brontide_mix_key b secret =
     do { (ck, temp) \<leftarrow> hsk_hash_hkdf (take 32 secret) (br_chaining_key b) [];
          Some (b\<lparr>br_chaining_key := ck, br_temp_key := temp, br_cs := hsk_cs_init_key (br_cs b) temp\<rparr>) }"

definition hash_with_tag :: "hsk_brontide \<Rightarrow> bytes \<Rightarrow> bytes option \<Rightarrow> bytes" where
  "hash_with_tag b data tag =
     (let ctx = hsk_sha256_update True hsk_sha256_init (br_handshake_digest b);
          ctx = hsk_sha256_update True ctx data;
          ctx = (case tag of None \<Rightarrow> ctx | Some tag \<Rightarrow> hsk_sha256_update True ctx (take 16 tag))
      in hsk_sha256_final ctx)"

definition hsk_brontide_mix_hash :: "hsk_brontide \<Rightarrow> bytes \<Rightarrow> hsk_brontide" where
  "hsk_brontide_mix_hash b data = b\<lparr>br_handshake_digest := hash_with_tag b data None\<rparr>"

definition hsk_brontide_encrypt :: "hsk_brontide \<Rightarrow> bytes \<Rightarrow> (hsk_brontide \<times> bytes) option" where
  "hsk_brontide_encrypt b d =
     do { (cs, out) \<leftarrow> hsk_cs_encrypt (br_cs b) (Some (br_handshake_digest b)) d;
          let b = b\<lparr>br_cs := cs\<rparr>;
          Some (b\<lparr>br_handshake_digest := hash_with_tag b out (Some (cs_tag cs))\<rparr>, out) }"

definition hsk_brontide_decrypt :: "hsk_brontide \<Rightarrow> bytes \<Rightarrow> bytes \<Rightarrow> (hsk_brontide \<times> bytes) option" where
  "hsk_brontide_decrypt b d tag =
     do { let h = hash_with_tag b d (Some tag);
          (cs, out) \<leftarrow> hsk_cs_decrypt (br_cs b) (Some (br_handshake_digest b)) d;
          Some (b\<lparr>br_cs := cs, br_handshake_digest := h\<rparr>, out) }"

section \<open>The handshake\<close>

definition hsk_brontide_init_state ::
  "'k secp \<Rightarrow> hsk_brontide \<Rightarrow> bool \<Rightarrow> bytes \<Rightarrow> bytes \<Rightarrow> bytes option \<Rightarrow> hsk_brontide option" where
  "hsk_brontide_init_state ec b initiator prologue local_pub remote_pub =
     do { let b = b\<lparr>br_initiator := initiator, br_local_static := take 32 local_pub,
                br_remote_static := (case remote_pub of None \<Rightarrow> replicate 33 0 | Some k \<Rightarrow> take 33 k)\<rparr>;
          let b = hsk_brontide_init_sym b brontide_protocol_name;
          let b = hsk_brontide_mix_hash b prologue;
          if initiator then do { k \<leftarrow> remote_pub; Some (hsk_brontide_mix_hash b (take 33 k)) }
          else do { pub \<leftarrow> hsk_ec_create_pubkey ec local_pub; Some (hsk_brontide_mix_hash b pub) } }"

definition hsk_brontide_init_brontide :: "'k secp \<Rightarrow> hsk_brontide \<Rightarrow> bool \<Rightarrow> bytes \<Rightarrow> bytes option \<Rightarrow> hsk_brontide option" where
  "hsk_brontide_init_brontide ec b initiator local_pub remote_pub =
     hsk_brontide_init_state ec b initiator brontide_prologue local_pub remote_pub"

text \<open>A new ephemeral key, and the form of it that is sent.\<close>

definition gen_ephemeral :: "'k secp \<Rightarrow> hsk_brontide \<Rightarrow> entropy \<Rightarrow> (hsk_brontide \<times> bytes \<times> entropy) option" where
  "gen_ephemeral ec b e =
     (case hsk_ec_create_privkey ec e of
        (None, _) \<Rightarrow> None
      | (Some key, e) \<Rightarrow> do {
          ephemeral \<leftarrow> hsk_ec_create_pubkey ec key;
          case hsk_ec_pubkey_to_hash ec ephemeral e of
            (None, _) \<Rightarrow> None
          | (Some uniform, e) \<Rightarrow> Some (hsk_brontide_mix_hash (b\<lparr>br_local_ephemeral := key\<rparr>) ephemeral, uniform, e) })"

definition hsk_brontide_gen_act_one :: "'k secp \<Rightarrow> hsk_brontide \<Rightarrow> entropy \<Rightarrow> (hsk_brontide \<times> bytes \<times> entropy) option" where
  "hsk_brontide_gen_act_one ec b e =
     do { (b, uniform, e) \<leftarrow> gen_ephemeral ec b e;
          s \<leftarrow> hsk_ec_ecdh ec (br_remote_static b) (br_local_ephemeral b);
          b \<leftarrow> hsk_brontide_mix_key b s;
          (b, _) \<leftarrow> hsk_brontide_encrypt b [];
          Some (b, take 64 uniform @ cs_tag (br_cs b), e) }"

definition hsk_brontide_recv_act_one :: "'k secp \<Rightarrow> hsk_brontide \<Rightarrow> bytes \<Rightarrow> (bool \<times> hsk_brontide) option" where
  "hsk_brontide_recv_act_one ec b act1 =
     do { let u = take 64 act1;
          let p = drop 64 act1;
          e \<leftarrow> hsk_ec_pubkey_from_hash ec u;
          let b = hsk_brontide_mix_hash (b\<lparr>br_remote_ephemeral := e\<rparr>) e;
          s \<leftarrow> hsk_ec_ecdh ec (br_remote_ephemeral b) (br_local_static b);
          b \<leftarrow> hsk_brontide_mix_key b s;
          (b, _) \<leftarrow> hsk_brontide_decrypt b [] p;
          Some (hsk_cs_verify (br_cs b) p, b) }"

definition hsk_brontide_gen_act_two :: "'k secp \<Rightarrow> hsk_brontide \<Rightarrow> entropy \<Rightarrow> (hsk_brontide \<times> bytes \<times> entropy) option" where
  "hsk_brontide_gen_act_two ec b e =
     do { (b, uniform, e) \<leftarrow> gen_ephemeral ec b e;
          s \<leftarrow> hsk_ec_ecdh ec (br_remote_ephemeral b) (br_local_ephemeral b);
          b \<leftarrow> hsk_brontide_mix_key b s;
          (b, _) \<leftarrow> hsk_brontide_encrypt b [];
          Some (b, take 64 uniform @ cs_tag (br_cs b), e) }"

definition hsk_brontide_recv_act_two :: "'k secp \<Rightarrow> hsk_brontide \<Rightarrow> bytes \<Rightarrow> (bool \<times> hsk_brontide) option" where
  "hsk_brontide_recv_act_two ec b act2 =
     do { let u = take 64 act2;
          let p = drop 64 act2;
          e \<leftarrow> hsk_ec_pubkey_from_hash ec u;
          if \<not> hsk_ec_verify_pubkey ec e then Some (False, b)
          else do {
            let b = hsk_brontide_mix_hash (b\<lparr>br_remote_ephemeral := e\<rparr>) e;
            s \<leftarrow> hsk_ec_ecdh ec (br_remote_ephemeral b) (br_local_ephemeral b);
            b \<leftarrow> hsk_brontide_mix_key b s;
            (b, _) \<leftarrow> hsk_brontide_decrypt b [] p;
            Some (hsk_cs_verify (br_cs b) p, b) } }"

definition hsk_brontide_split :: "hsk_brontide \<Rightarrow> hsk_brontide option" where
  "hsk_brontide_split b =
     do { (h1, h2) \<leftarrow> hsk_hash_hkdf [] (br_chaining_key b) [];
          Some (if br_initiator b
            then b\<lparr>br_send_cipher := hsk_cs_init_saltkey (br_send_cipher b) (br_chaining_key b) h1,
                   br_recv_cipher := hsk_cs_init_saltkey (br_recv_cipher b) (br_chaining_key b) h2\<rparr>
            else b\<lparr>br_recv_cipher := hsk_cs_init_saltkey (br_recv_cipher b) (br_chaining_key b) h1,
                   br_send_cipher := hsk_cs_init_saltkey (br_send_cipher b) (br_chaining_key b) h2\<rparr>) }"

definition hsk_brontide_gen_act_three :: "'k secp \<Rightarrow> hsk_brontide \<Rightarrow> (hsk_brontide \<times> bytes) option" where
  "hsk_brontide_gen_act_three ec b =
     do { our_pubkey \<leftarrow> hsk_ec_create_pubkey ec (br_local_static b);
          (b, our_pubkey) \<leftarrow> hsk_brontide_encrypt b our_pubkey;
          let tag1 = cs_tag (br_cs b);
          s \<leftarrow> hsk_ec_ecdh ec (br_remote_ephemeral b) (br_local_static b);
          b \<leftarrow> hsk_brontide_mix_key b s;
          (b, _) \<leftarrow> hsk_brontide_encrypt b [];
          let tag2 = cs_tag (br_cs b);
          b \<leftarrow> hsk_brontide_split b;
          Some (b, our_pubkey @ tag1 @ tag2) }"

definition hsk_brontide_recv_act_three :: "'k secp \<Rightarrow> hsk_brontide \<Rightarrow> bytes \<Rightarrow> (bool \<times> hsk_brontide) option" where
  "hsk_brontide_recv_act_three ec b act3 =
     do { let s1 = take 33 act3;
          let p1 = take 16 (drop 33 act3);
          let p2 = drop 49 act3;
          (b, remote_pub) \<leftarrow> hsk_brontide_decrypt b s1 p1;
          if \<not> hsk_cs_verify (br_cs b) p1 then Some (False, b)
          else do {
            let b = b\<lparr>br_remote_static := remote_pub\<rparr>;
            se \<leftarrow> hsk_ec_ecdh ec (br_remote_static b) (br_local_ephemeral b);
            b \<leftarrow> hsk_brontide_mix_key b se;
            (b, _) \<leftarrow> hsk_brontide_decrypt b [] p2;
            if \<not> hsk_cs_verify (br_cs b) p2 then Some (False, b)
            else do { b \<leftarrow> hsk_brontide_split b; Some (True, b) } } }"

section \<open>Connecting, writing, reading\<close>

definition hsk_brontide_on_connect ::
  "'k secp \<Rightarrow> 's brontide_cb \<Rightarrow> hsk_brontide \<Rightarrow> entropy \<Rightarrow> 's \<Rightarrow> (hsk_error \<times> hsk_brontide \<times> entropy \<times> 's) option" where
  "hsk_brontide_on_connect ec cb b e s =
     (if br_initiator b then do {
        let b = b\<lparr>br_state := BRONTIDE_ACT_TWO\<rparr>;
        (b, act1, e) \<leftarrow> hsk_brontide_gen_act_one ec b e;
        let (r, s) = write_cb cb act1 False s;
        if r \<noteq> HSK_SUCCESS then Some (r, hsk_brontide_destroy b, e, s)
        else Some (HSK_SUCCESS, b\<lparr>br_msg := Some [], br_msg_len := BRONTIDE_ACT_TWO_SIZE\<rparr>, e, s)
      } else Some (HSK_SUCCESS, b\<lparr>br_state := BRONTIDE_ACT_ONE, br_msg := Some [], br_msg_len := BRONTIDE_ACT_ONE_SIZE\<rparr>, e, s))"

definition hsk_brontide_accept ::
  "'k secp \<Rightarrow> 's brontide_cb \<Rightarrow> hsk_brontide \<Rightarrow> bytes \<Rightarrow> entropy \<Rightarrow> 's \<Rightarrow> (hsk_error \<times> hsk_brontide \<times> entropy \<times> 's) option" where
  "hsk_brontide_accept ec cb b our_key e s =
     do { b \<leftarrow> hsk_brontide_init_brontide ec b False our_key None;
          hsk_brontide_on_connect ec cb b e s }"

definition hsk_brontide_connect :: "'k secp \<Rightarrow> hsk_brontide \<Rightarrow> bytes \<Rightarrow> bytes \<Rightarrow> (hsk_error \<times> hsk_brontide) option" where
  "hsk_brontide_connect ec b our_key their_key =
     do { b \<leftarrow> hsk_brontide_init_brontide ec b True our_key (Some their_key);
          Some (HSK_SUCCESS, b) }"

text \<open>The label \<^verbatim>\<open>done\<close> of \<^verbatim>\<open>hsk_brontide_write\<close>.\<close>

definition write_done :: "hsk_error \<Rightarrow> hsk_brontide \<Rightarrow> 's \<Rightarrow> hsk_error \<times> hsk_brontide \<times> 's" where
  "write_done r b s = (r, if r \<noteq> HSK_SUCCESS then hsk_brontide_destroy b else b, s)"

definition hsk_brontide_write :: "'s brontide_cb \<Rightarrow> bytes \<Rightarrow> hsk_brontide \<Rightarrow> 's \<Rightarrow> (hsk_error \<times> hsk_brontide \<times> 's) option" where
  "hsk_brontide_write cb data b s =
     (if br_state b \<noteq> BRONTIDE_ACT_DONE then Some (write_done HSK_SUCCESS b s)
      else do {
        let len = set_u32 (of_nat (length data)) (replicate 4 0);
        (c, len) \<leftarrow> hsk_cs_encrypt (br_send_cipher b) None len;
        let b = b\<lparr>br_send_cipher := c\<rparr>;
        let (r, s) = write_cb cb len False s;
        if r \<noteq> HSK_SUCCESS then Some (write_done r b s)
        else do {
          let (r, s) = write_cb cb (cs_tag (br_send_cipher b)) False s;
          if r \<noteq> HSK_SUCCESS then Some (write_done r b s)
          else do {
            (c, data) \<leftarrow> hsk_cs_encrypt (br_send_cipher b) None data;
            let b = b\<lparr>br_send_cipher := c\<rparr>;
            let (r, s) = write_cb cb data True s;
            if r \<noteq> HSK_SUCCESS then Some (write_done r b s)
            else do {
              let (r, s) = write_cb cb (cs_tag (br_send_cipher b)) False s;
              Some (write_done r b s) } } } })"

text \<open>
  The buffer has been filled. The result is the error code, the size of the next message (read only
  after a success) and the new state.
\<close>

definition parse_transport ::
  "'s brontide_cb \<Rightarrow> hsk_brontide \<Rightarrow> bytes \<Rightarrow> 's \<Rightarrow> (hsk_error \<times> nat \<times> hsk_brontide \<times> 's) option" where
  "parse_transport cb b data s =
     (if \<not> br_has_size b then
        if br_msg_len b \<noteq> BRONTIDE_HEADER_SIZE \<or> length data \<noteq> BRONTIDE_HEADER_SIZE then None
        else do {
          (c, len) \<leftarrow> hsk_cs_decrypt (br_recv_cipher b) None (take 4 data);
          let b = b\<lparr>br_recv_cipher := c\<rparr>;
          if \<not> hsk_cs_verify c (drop 4 data) then Some (HSK_EBADTAG, 0, b, s)
          else let sz = get_i32 len
               in if sz < 0 \<or> sz > BRONTIDE_MAX_MESSAGE then Some (HSK_EBADSIZE, 0, b, s)
                  else Some (HSK_SUCCESS, nat (sz + 16), b\<lparr>br_has_size := True\<rparr>, s) }
      else do {
        let payload_len = length data - 16;
        (c, payload) \<leftarrow> hsk_cs_decrypt (br_recv_cipher b) None (take payload_len data);
        let b = b\<lparr>br_recv_cipher := c\<rparr>;
        if \<not> hsk_cs_verify c (drop payload_len data) then Some (HSK_EBADTAG, 0, b, s)
        else do {
          (b, s) \<leftarrow> read_cb cb payload (b\<lparr>br_has_size := False\<rparr>, s);
          Some (HSK_SUCCESS, BRONTIDE_HEADER_SIZE, b, s) } })"

definition hsk_brontide_parse ::
  "'k secp \<Rightarrow> 's brontide_cb \<Rightarrow> hsk_brontide \<Rightarrow> bytes \<Rightarrow> entropy \<Rightarrow> 's \<Rightarrow>
   (hsk_error \<times> nat \<times> hsk_brontide \<times> entropy \<times> 's) option" where
  "hsk_brontide_parse ec cb b data e s =
     (if br_state b = BRONTIDE_ACT_DONE then do {
        (r, len, b, s) \<leftarrow> parse_transport cb b data s;
        Some (r, len, b, e, s)
      } else if br_initiator b then
        (if br_state b \<noteq> BRONTIDE_ACT_TWO \<or> length data \<noteq> BRONTIDE_ACT_TWO_SIZE then None
         else do {
           (ok, b) \<leftarrow> hsk_brontide_recv_act_two ec b data;
           if \<not> ok then Some (HSK_EACTTWO, 0, b, e, s)
           else do {
             (b, act3) \<leftarrow> hsk_brontide_gen_act_three ec b;
             let (r, s) = write_cb cb act3 False s;
             if r \<noteq> HSK_SUCCESS then Some (r, 0, b, e, s)
             else do {
               (b, s) \<leftarrow> connect_cb cb (b\<lparr>br_state := BRONTIDE_ACT_DONE\<rparr>, s);
               Some (HSK_SUCCESS, BRONTIDE_HEADER_SIZE, b, e, s) } } })
      else case br_state b of
        BRONTIDE_ACT_ONE \<Rightarrow>
          if length data \<noteq> BRONTIDE_ACT_ONE_SIZE then None
          else do {
            (ok, b) \<leftarrow> hsk_brontide_recv_act_one ec b data;
            if \<not> ok then Some (HSK_EACTONE, 0, b, e, s)
            else do {
              (b, act2, e) \<leftarrow> hsk_brontide_gen_act_two ec b e;
              let (r, s) = write_cb cb act2 False s;
              if r \<noteq> HSK_SUCCESS then Some (r, 0, b, e, s)
              else Some (HSK_SUCCESS, BRONTIDE_ACT_THREE_SIZE, b\<lparr>br_state := BRONTIDE_ACT_THREE\<rparr>, e, s) } }
      | BRONTIDE_ACT_THREE \<Rightarrow>
          if length data \<noteq> BRONTIDE_ACT_THREE_SIZE then None
          else do {
            (ok, b) \<leftarrow> hsk_brontide_recv_act_three ec b data;
            if \<not> ok then Some (HSK_EACTTHREE, 0, b, e, s)
            else do {
              (b, s) \<leftarrow> connect_cb cb (b\<lparr>br_state := BRONTIDE_ACT_DONE\<rparr>, s);
              Some (HSK_SUCCESS, BRONTIDE_HEADER_SIZE, b, e, s) } }
      | _ \<Rightarrow> None)"

text \<open>The loop of \<^verbatim>\<open>hsk_brontide_on_read\<close>; the buffer exists when it starts.\<close>

function on_read_loop ::
  "'k secp \<Rightarrow> 's brontide_cb \<Rightarrow> hsk_brontide \<Rightarrow> bytes \<Rightarrow> bytes \<Rightarrow> entropy \<Rightarrow> 's \<Rightarrow>
   (hsk_error \<times> hsk_brontide \<times> entropy \<times> 's) option" where
  "on_read_loop ec cb b msg d e s =
     (if length msg + length d \<ge> br_msg_len b then
        if \<not> length msg < br_msg_len b then None
        else
          let need = br_msg_len b - length msg;
              msg = msg @ take need d;
              b = b\<lparr>br_msg := Some msg\<rparr>
          in case hsk_brontide_parse ec cb b msg e s of
               None \<Rightarrow> None
             | Some (r, msg_len, b, e, s) \<Rightarrow>
                 if r \<noteq> HSK_SUCCESS then Some (r, hsk_brontide_destroy b, e, s)
                 else if br_state b = BRONTIDE_ACT_NONE then Some (HSK_SUCCESS, b, e, s)
                 else if msg_len = 0 then None
                 else on_read_loop ec cb (b\<lparr>br_msg := Some [], br_msg_len := msg_len\<rparr>) [] (drop need d) e s
      else Some (HSK_SUCCESS, b\<lparr>br_msg := Some (msg @ d)\<rparr>, e, s))"
  by pat_completeness auto
termination by (relation "measure (\<lambda>(ec, cb, b, msg, d, e, s). length d)") auto

definition hsk_brontide_on_read ::
  "'k secp \<Rightarrow> 's brontide_cb \<Rightarrow> hsk_brontide \<Rightarrow> bytes \<Rightarrow> entropy \<Rightarrow> 's \<Rightarrow> (hsk_error \<times> hsk_brontide \<times> entropy \<times> 's) option" where
  "hsk_brontide_on_read ec cb b d e s =
     (if br_state b = BRONTIDE_ACT_NONE then Some (HSK_SUCCESS, b, e, s)
      else do { msg \<leftarrow> br_msg b; on_read_loop ec cb b msg d e s })"

declare on_read_loop.simps [simp del]

end
