(* ===== verification/Brontide_Cs.thy ===== *)
theory Brontide_Cs
  imports Brontide
begin

text \<open>
  Cipher states: what encryption and decryption do depends only on the nonce, the key and the salt, so
  two states that agree on them stay together over any number of messages and key rotations.
\<close>

section \<open>One step of a cipher state\<close>

type_synonym cs_view = "u32 \<times> bytes \<times> bytes \<times> bytes"

definition cs_view :: "hsk_cs \<Rightarrow> cs_view" where
  "cs_view cs = (cs_nonce cs, cs_iv cs, cs_secret_key cs, cs_salt cs)"

definition cs_ok :: "hsk_cs \<Rightarrow> bool" where
  "cs_ok cs \<longleftrightarrow> length (cc_schedule (ae_chacha (cs_cipher cs))) = 16"

definition iv_at :: "bytes \<Rightarrow> u32 \<Rightarrow> bytes" where
  "iv_at iv n = take 4 iv @ emit (write_u32 n) @ drop 8 iv"

definition cs_next :: "cs_view \<Rightarrow> cs_view" where
  "cs_next = (\<lambda>(n, iv, k, s).
     let n' = n + 1; iv = iv_at iv n'
     in if n' = BRONTIDE_ROTATION_INTERVAL then let (h1, h2) = hkdf k s [] in (0, iv_at iv 0, h2, h1)
        else (n', iv, k, s))"

definition ad_octets :: "bytes option \<Rightarrow> bytes" where
  "ad_octets ad = (case ad of None \<Rightarrow> [] | Some x \<Rightarrow> take 32 x)"

definition view_cipher :: "cs_view \<Rightarrow> bytes \<Rightarrow> bytes" where
  "view_cipher = (\<lambda>(n, iv, k, s). aead_cipher k iv)"

definition view_tag :: "cs_view \<Rightarrow> bytes \<Rightarrow> bytes \<Rightarrow> bytes" where
  "view_tag = (\<lambda>(n, iv, k, s). aead_tag k iv)"

lemma view_cipher_invol [simp]: "view_cipher v (view_cipher v d) = d"
  and length_view_cipher [simp]: "length (view_cipher v d) = length d"
  and length_view_tag [simp]: "length (view_tag v ad c) = 16"
  by (cases v, simp add: view_cipher_def view_tag_def cipher_invol)+

lemma cs_start_ready: "cs_ok cs \<Longrightarrow> cs_start cs ad = Some (aead_ready (cs_secret_key cs) (cs_iv cs) (ad_octets ad))"
  unfolding cs_start_def cs_ok_def
  by (simp add: aead_setup aead_aad ad_octets_def split: option.split) (simp add: aead_ready_def Let_def)

lemma block_length [simp]: "length (cc_schedule (fst (hsk_chacha20_block c))) = length (cc_schedule c)"
  by (simp add: hsk_chacha20_block_def Let_def)

lemma chacha_loop_length: "length (cc_schedule (fst (chacha_loop c d))) = length (cc_schedule c)"
proof (induction c d rule: chacha_loop.induct)
  case (1 c d)
  show ?case
  proof (cases "d = []")
    case False
    obtain c' k where b: "hsk_chacha20_block c = (c', k)" by fastforce
    have "length (cc_schedule c') = length (cc_schedule c)" using block_length [of c] by (simp add: b)
    with 1 [OF False refl b [symmetric] refl refl] False show ?thesis
      by (subst chacha_loop.simps) (simp add: b Let_def split_beta)
  qed simp
qed

lemma length_chacha_encrypt: "length (cc_schedule (fst (hsk_chacha20_encrypt c d))) = length (cc_schedule c)"
  by (simp add: hsk_chacha20_encrypt_def chacha_loop_length Let_def split_beta)

lemma ready_length: "length (cc_schedule (ae_chacha (aead_ready key iv ad))) = 16"
  by (simp add: aead_start_def start_nth Let_def)

lemma aead_lengths:
  "length (cc_schedule (ae_chacha (fst (hsk_aead_encrypt (aead_ready key iv ad) d)))) = 16"
  "length (cc_schedule (ae_chacha (fst (hsk_aead_decrypt (aead_ready key iv ad) d)))) = 16"
  by (simp_all add: hsk_aead_encrypt_def hsk_aead_decrypt_def Let_def split_beta length_chacha_encrypt start_nth aead_start_def)

lemma final_chacha [simp]: "ae_chacha (fst (hsk_aead_final a)) = ae_chacha a"
  by (simp add: hsk_aead_final_def Let_def split_beta)

lemma cs_finish_ok:
  assumes "length (cc_schedule (ae_chacha a)) = 16"
  obtains cs' where "cs_finish cs a = Some cs'" "cs_ok cs'" "cs_view cs' = cs_next (cs_view cs)" "cs_tag cs' = snd (hsk_aead_final a)"
proof -
  obtain a' t where f: "hsk_aead_final a = (a', t)" by fastforce
  then have a': "length (cc_schedule (ae_chacha a')) = 16" using final_chacha [of a] assms by simp
  obtain h1 h2 where h: "hkdf (cs_secret_key cs) (cs_salt cs) [] = (h1, h2)" by fastforce
  have l: "length h2 = 32" using length_hkdf [OF h] by simp
  let ?c = "hsk_cs_update (cs\<lparr>cs_cipher := a', cs_tag := t, cs_nonce := cs_nonce cs + 1\<rparr>)"
  show ?thesis
  proof (cases "cs_nonce cs + 1 = BRONTIDE_ROTATION_INTERVAL")
    case True
    have "cs_finish cs a = hsk_cs_rotate_key ?c"
      using True by (simp add: cs_finish_def f hsk_cs_update_def)
    also have "\<dots> = Some (hsk_cs_init_key (?c\<lparr>cs_salt := h1\<rparr>) h2)"
      by (simp add: hsk_cs_rotate_key_def hkdf_hash hsk_cs_update_def h)
    finally show ?thesis
      by (rule that) (use True a' l f h in \<open>simp_all add: cs_ok_def hsk_cs_init_key_def hsk_cs_update_def cs_view_def cs_next_def iv_at_def Let_def\<close>)
  next
    case False
    have "cs_finish cs a = Some ?c"
      using False by (simp add: cs_finish_def f hsk_cs_update_def)
    then show ?thesis
      by (rule that) (use False a' f in \<open>simp_all add: cs_ok_def hsk_cs_update_def cs_view_def cs_next_def iv_at_def Let_def\<close>)
  qed
qed

lemma cs_encrypt:
  assumes "cs_ok cs"
  obtains cs' where "hsk_cs_encrypt cs ad d = Some (cs', view_cipher (cs_view cs) d)" "cs_ok cs'"
    "cs_view cs' = cs_next (cs_view cs)" "cs_tag cs' = view_tag (cs_view cs) (ad_octets ad) (view_cipher (cs_view cs) d)"
proof -
  let ?r = "aead_ready (cs_secret_key cs) (cs_iv cs) (ad_octets ad)"
  obtain a c where e: "hsk_aead_encrypt ?r d = (a, c)" by fastforce
  have r: "c = view_cipher (cs_view cs) d" "snd (hsk_aead_final a) = view_tag (cs_view cs) (ad_octets ad) c"
    using aead_encrypt_ready [where key = "cs_secret_key cs" and iv = "cs_iv cs" and ad = "ad_octets ad" and d = d] e
    by (simp_all add: view_cipher_def view_tag_def cs_view_def)
  have "length (cc_schedule (ae_chacha a)) = 16"
    using aead_lengths(1) [where key = "cs_secret_key cs" and iv = "cs_iv cs" and ad = "ad_octets ad" and d = d] by (simp only: e fst_conv)
  then obtain cs' where cs': "cs_finish cs a = Some cs'" "cs_ok cs'" "cs_view cs' = cs_next (cs_view cs)" "cs_tag cs' = snd (hsk_aead_final a)"
    by (rule cs_finish_ok)
  have "hsk_cs_encrypt cs ad d = Some (cs', c)"
    by (simp add: hsk_cs_encrypt_def cs_start_ready [OF assms] e cs')
  then show ?thesis using that cs' r by simp
qed

lemma cs_decrypt:
  assumes "cs_ok cs"
  obtains cs' where "hsk_cs_decrypt cs ad c = Some (cs', view_cipher (cs_view cs) c)" "cs_ok cs'"
    "cs_view cs' = cs_next (cs_view cs)" "cs_tag cs' = view_tag (cs_view cs) (ad_octets ad) c"
proof -
  let ?r = "aead_ready (cs_secret_key cs) (cs_iv cs) (ad_octets ad)"
  obtain a d where e: "hsk_aead_decrypt ?r c = (a, d)" by fastforce
  have r: "d = view_cipher (cs_view cs) c" "snd (hsk_aead_final a) = view_tag (cs_view cs) (ad_octets ad) c"
    using aead_decrypt_ready [where key = "cs_secret_key cs" and iv = "cs_iv cs" and ad = "ad_octets ad" and c = c] e
    by (simp_all add: view_cipher_def view_tag_def cs_view_def)
  have "length (cc_schedule (ae_chacha a)) = 16"
    using aead_lengths(2) [where key = "cs_secret_key cs" and iv = "cs_iv cs" and ad = "ad_octets ad" and d = c] by (simp only: e fst_conv)
  then obtain cs' where cs': "cs_finish cs a = Some cs'" "cs_ok cs'" "cs_view cs' = cs_next (cs_view cs)" "cs_tag cs' = snd (hsk_aead_final a)"
    by (rule cs_finish_ok)
  have "hsk_cs_decrypt cs ad c = Some (cs', d)"
    by (simp add: hsk_cs_decrypt_def cs_start_ready [OF assms] e cs')
  then show ?thesis using that cs' r by simp
qed

lemma cs_verify: "length (cs_tag cs) = 16 \<Longrightarrow> length t = 16 \<Longrightarrow> hsk_cs_verify cs t \<longleftrightarrow> t = cs_tag cs"
  by (auto simp: hsk_cs_verify_def aead_verify)

lemma cs_init_ok [simp]: "cs_ok hsk_cs_init" "cs_ok (hsk_cs_init_key cs k) = cs_ok cs" "cs_ok (hsk_cs_init_saltkey cs s k) = cs_ok cs"
  by (simp_all add: cs_ok_def hsk_cs_init_def hsk_aead_init_def hsk_cs_init_key_def hsk_cs_init_saltkey_def hsk_cs_update_def)

end
