(* ===== verification/Brontide_Ok.thy ===== *)
theory Brontide_Ok
  imports Brontide_Cs "HOL-Library.Sublist"
begin

text \<open>
  The record layer of \<open>Brontide\<close>: what a connected endpoint hands to its owner is exactly the sequence
  of messages whose frames the stream begins with, however the stream is cut.
\<close>

section \<open>Chunks of the stream\<close>

fun on_reads ::
  "'k secp \<Rightarrow> 's brontide_cb \<Rightarrow> hsk_brontide \<Rightarrow> bytes list \<Rightarrow> entropy \<Rightarrow> 's \<Rightarrow> (hsk_error \<times> hsk_brontide \<times> entropy \<times> 's) option" where
  "on_reads ec cb b [] e s = Some (HSK_SUCCESS, b, e, s)"
| "on_reads ec cb b (d # ds) e s =
     do { (r, b, e, s) \<leftarrow> hsk_brontide_on_read ec cb b d e s;
          if r \<noteq> HSK_SUCCESS then Some (r, b, e, s) else on_reads ec cb b ds e s }"

definition buffer_ok :: "hsk_brontide \<Rightarrow> bool" where
  "buffer_ok b \<longleftrightarrow> br_state b \<noteq> BRONTIDE_ACT_NONE \<longrightarrow> (\<exists>m. br_msg b = Some m \<and> length m < br_msg_len b)"

lemma loop_short: "length m + length d < br_msg_len b \<Longrightarrow> on_read_loop ec cb b m d e s = Some (HSK_SUCCESS, b\<lparr>br_msg := Some (m @ d)\<rparr>, e, s)"
  by (simp add: on_read_loop.simps)

text \<open>One turn of the loop, when the buffer fills up.\<close>

definition loop_turn ::
  "'k secp \<Rightarrow> 's brontide_cb \<Rightarrow> hsk_brontide \<Rightarrow> bytes \<Rightarrow> bytes \<Rightarrow> entropy \<Rightarrow> 's \<Rightarrow> (hsk_error \<times> hsk_brontide \<times> entropy \<times> 's) option" where
  "loop_turn ec cb b msg d e s =
     (case hsk_brontide_parse ec cb (b\<lparr>br_msg := Some msg\<rparr>) msg e s of
        None \<Rightarrow> None
      | Some (r, msg_len, b, e, s) \<Rightarrow>
          if r \<noteq> HSK_SUCCESS then Some (r, hsk_brontide_destroy b, e, s)
          else if br_state b = BRONTIDE_ACT_NONE then Some (HSK_SUCCESS, b, e, s)
          else if msg_len = 0 then None
          else on_read_loop ec cb (b\<lparr>br_msg := Some [], br_msg_len := msg_len\<rparr>) [] d e s)"

lemma loop_full:
  "length m < br_msg_len b \<Longrightarrow> br_msg_len b \<le> length m + length d \<Longrightarrow>
   on_read_loop ec cb b m d e s = loop_turn ec cb b (m @ take (br_msg_len b - length m) d) (drop (br_msg_len b - length m) d) e s"
  by (subst on_read_loop.simps) (simp add: loop_turn_def Let_def)

lemma turn_msg: "loop_turn ec cb (b\<lparr>br_msg := x\<rparr>) m d e s = loop_turn ec cb b m d e s"
  by (simp add: loop_turn_def)

lemma loop_msg: "length m < br_msg_len b \<Longrightarrow> on_read_loop ec cb (b\<lparr>br_msg := x\<rparr>) m d e s = on_read_loop ec cb b m d e s"
  by (cases "length m + length d < br_msg_len b") (simp_all add: loop_short loop_full turn_msg)

text \<open>What follows a successful read.\<close>

definition and_read ::
  "'k secp \<Rightarrow> 's brontide_cb \<Rightarrow> bytes \<Rightarrow> (hsk_error \<times> hsk_brontide \<times> entropy \<times> 's) option \<Rightarrow> (hsk_error \<times> hsk_brontide \<times> entropy \<times> 's) option" where
  "and_read ec cb d x = do { (r, b, e, s) \<leftarrow> x; if r \<noteq> HSK_SUCCESS then Some (r, b, e, s) else hsk_brontide_on_read ec cb b d e s }"

lemma loop_append:
  assumes "br_state b \<noteq> BRONTIDE_ACT_NONE" and "length m < br_msg_len b"
  shows "on_read_loop ec cb b m (a @ d) e s = and_read ec cb d (on_read_loop ec cb b m a e s)"
  using assms
proof (induction "length a" arbitrary: b m a e s rule: less_induct)
  case less
  show ?case
  proof (cases "length m + length a < br_msg_len b")
    case True
    have "on_read_loop ec cb b m (a @ d) e s = on_read_loop ec cb b (m @ a) d e s"
    proof (cases "length m + length a + length d < br_msg_len b")
      case False
      let ?k = "br_msg_len b - length m" and ?j = "br_msg_len b - length (m @ a)"
      have "take ?k (a @ d) = a @ take ?j d" "drop ?k (a @ d) = drop ?j d" using True by simp_all
      moreover have "on_read_loop ec cb b m (a @ d) e s = loop_turn ec cb b (m @ take ?k (a @ d)) (drop ?k (a @ d)) e s"
        using False less.prems by (intro loop_full) simp_all
      moreover have "on_read_loop ec cb b (m @ a) d e s = loop_turn ec cb b ((m @ a) @ take ?j d) (drop ?j d) e s"
        using False True by (intro loop_full) simp_all
      ultimately show ?thesis by simp
    qed (simp add: loop_short)
    then show ?thesis using True less.prems
      by (simp add: loop_short and_read_def hsk_brontide_on_read_def loop_msg)
  next
    case False
    let ?n = "br_msg_len b - length m"
    have t: "take ?n (a @ d) = take ?n a" "drop ?n (a @ d) = drop ?n a @ d" using False by simp_all
    have l: "on_read_loop ec cb b m (a @ d) e s = loop_turn ec cb b (m @ take ?n a) (drop ?n a @ d) e s"
      "on_read_loop ec cb b m a e s = loop_turn ec cb b (m @ take ?n a) (drop ?n a) e s"
      using False less.prems by (simp_all add: loop_full t)
    have shorter: "length (drop ?n a) < length a" using False less.prems by auto
    show ?thesis
    proof (cases "hsk_brontide_parse ec cb (b\<lparr>br_msg := Some (m @ take ?n a)\<rparr>) (m @ take ?n a) e s")
      case None
      then show ?thesis unfolding l by (simp add: loop_turn_def and_read_def)
    next
      case (Some x)
      obtain r k b' e' s' where x: "x = (r, k, b', e', s')" by (cases x)
      have IH: "on_read_loop ec cb (b'\<lparr>br_msg := Some [], br_msg_len := k\<rparr>) [] (drop ?n a @ d) e' s' =
          and_read ec cb d (on_read_loop ec cb (b'\<lparr>br_msg := Some [], br_msg_len := k\<rparr>) [] (drop ?n a) e' s')"
        if "br_state b' \<noteq> BRONTIDE_ACT_NONE" "k \<noteq> 0"
        using that by (intro less.hyps [OF shorter]) simp_all
      show ?thesis unfolding l using Some x IH
        by (auto simp: loop_turn_def and_read_def hsk_brontide_destroy_def hsk_brontide_on_read_def)
    qed
  qed
qed

lemma loop_buffer:
  assumes "length m < br_msg_len b" and "on_read_loop ec cb b m d e s = Some (HSK_SUCCESS, b', e', s')"
  shows "buffer_ok b'"
  using assms
proof (induction "length d" arbitrary: b m d e s rule: less_induct)
  case less
  show ?case
  proof (cases "length m + length d < br_msg_len b")
    case True
    then show ?thesis using less.prems by (auto simp: loop_short buffer_ok_def)
  next
    case False
    let ?n = "br_msg_len b - length m"
    have shorter: "length (drop ?n d) < length d" using False less.prems by auto
    have "loop_turn ec cb b (m @ take ?n d) (drop ?n d) e s = Some (HSK_SUCCESS, b', e', s')"
      using False less.prems by (simp add: loop_full)
    then obtain r k c e1 s1 where "hsk_brontide_parse ec cb (b\<lparr>br_msg := Some (m @ take ?n d)\<rparr>) (m @ take ?n d) e s = Some (r, k, c, e1, s1)"
      and *: "r = HSK_SUCCESS" "br_state c = BRONTIDE_ACT_NONE \<and> b' = c \<or>
        k \<noteq> 0 \<and> on_read_loop ec cb (c\<lparr>br_msg := Some [], br_msg_len := k\<rparr>) [] (drop ?n d) e1 s1 = Some (HSK_SUCCESS, b', e', s')"
      by (auto simp: loop_turn_def split: option.splits if_splits)
    from *(2) show ?thesis
    proof
      assume "br_state c = BRONTIDE_ACT_NONE \<and> b' = c"
      then show ?thesis by (simp add: buffer_ok_def)
    next
      assume "k \<noteq> 0 \<and> on_read_loop ec cb (c\<lparr>br_msg := Some [], br_msg_len := k\<rparr>) [] (drop ?n d) e1 s1 = Some (HSK_SUCCESS, b', e', s')"
      then show ?thesis using less.hyps [OF shorter] by force
    qed
  qed
qed

lemma on_read_append:
  assumes "buffer_ok b"
  shows "hsk_brontide_on_read ec cb b (a @ d) e s = and_read ec cb d (hsk_brontide_on_read ec cb b a e s)"
  using assms by (auto simp: hsk_brontide_on_read_def buffer_ok_def and_read_def loop_append)

lemma on_read_buffer:
  "buffer_ok b \<Longrightarrow> hsk_brontide_on_read ec cb b d e s = Some (HSK_SUCCESS, b', e', s') \<Longrightarrow> buffer_ok b'"
  using loop_buffer by (fastforce simp: hsk_brontide_on_read_def buffer_ok_def split: if_splits)

text \<open>The cuts do not matter.\<close>

lemma on_reads_concat:
  "buffer_ok b \<Longrightarrow> on_reads ec cb b ds e s = hsk_brontide_on_read ec cb b (concat ds) e s"
proof (induction ds arbitrary: b e s)
  case Nil
  then show ?case by (auto simp: hsk_brontide_on_read_def buffer_ok_def loop_short)
next
  case (Cons d ds)
  show ?case
  proof (cases "hsk_brontide_on_read ec cb b d e s")
    case None
    then show ?thesis using Cons.prems by (simp add: on_read_append and_read_def)
  next
    case (Some x)
    obtain r b' e' s' where "x = (r, b', e', s')" by (cases x)
    then show ?thesis using Cons Some by (auto simp: on_read_append and_read_def on_read_buffer)
  qed
qed

section \<open>Frames\<close>

definition len_octets :: "nat \<Rightarrow> bytes" where
  "len_octets n = set_u32 (of_nat n) (replicate 4 0)"

definition brontide_frame :: "cs_view \<Rightarrow> bytes \<Rightarrow> bytes" where
  "brontide_frame v m =
     (let c1 = view_cipher v (len_octets (length m)); v' = cs_next v; c2 = view_cipher v' m
      in c1 @ view_tag v [] c1 @ c2 @ view_tag v' [] c2)"

text \<open>The view after a message, and the frames of a sequence of messages.\<close>

definition after_message :: "cs_view \<Rightarrow> cs_view" where
  "after_message v = cs_next (cs_next v)"

fun brontide_frames :: "cs_view \<Rightarrow> bytes list \<Rightarrow> bytes" where
  "brontide_frames v [] = []"
| "brontide_frames v (m # ms) = brontide_frame v m @ brontide_frames (after_message v) ms"

definition max_message :: nat where
  "max_message = HSK_MAX_MESSAGE + 9"

lemma length_len_octets [simp]: "length (len_octets n) = 4"
  by (simp add: len_octets_def set_u32_def)

lemma set_u32_emit: "set_u32 w (replicate 4 0) = emit (write_u32 w)"
  by (simp add: set_u32_def write_u32_def emit_put numeral_eq_Suc)

lemma len_octets_size:
  assumes "n \<le> max_message"
  shows "get_i32 (len_octets n) = int n"
proof -
  have n: "n < 2 ^ 31" using assms by (simp add: max_message_def HSK_MAX_MESSAGE_def)
  then have "sint (of_nat n :: u32) = int n"
    by (simp add: signed_of_nat signed_take_bit_int_eq_self)
  then show ?thesis using get_emit [of "of_nat n" "[]"] by (simp add: get_i32_def len_octets_def set_u32_emit)
qed

lemma size_len_octets:
  assumes "length d = 4" and "0 \<le> get_i32 d"
  shows "len_octets (nat (get_i32 d)) = d"
proof -
  have "(of_nat (nat (get_i32 d)) :: u32) = word_of_int (sint (get_u32 d))"
    using assms(2) unfolding get_i32_def by (rule of_nat_nat)
  then show ?thesis using emit_get [OF assms(1)] by (simp add: len_octets_def set_u32_emit)
qed

section \<open>The two states of the receiver\<close>

definition at_header :: "hsk_brontide \<Rightarrow> cs_view \<Rightarrow> bool" where
  "at_header b v \<longleftrightarrow> br_state b = BRONTIDE_ACT_DONE \<and> \<not> br_has_size b \<and> br_msg_len b = 20 \<and>
     cs_ok (br_recv_cipher b) \<and> cs_view (br_recv_cipher b) = v"

definition at_body :: "hsk_brontide \<Rightarrow> cs_view \<Rightarrow> nat \<Rightarrow> bool" where
  "at_body b v n \<longleftrightarrow> br_state b = BRONTIDE_ACT_DONE \<and> br_has_size b \<and> br_msg_len b = n + 16 \<and>
     cs_ok (br_recv_cipher b) \<and> cs_view (br_recv_cipher b) = v"

definition failed :: "hsk_error \<Rightarrow> hsk_brontide \<Rightarrow> bool" where
  "failed r b \<longleftrightarrow> r \<in> {HSK_EBADTAG, HSK_EBADSIZE} \<and> br_state b = BRONTIDE_ACT_NONE"

lemma max_message_int: "BRONTIDE_MAX_MESSAGE = int max_message"
  by (simp add: BRONTIDE_MAX_MESSAGE_def max_message_def)

lemma header_turn:
  fixes d v
  defines "c \<equiv> take 4 d" and "t \<equiv> take 16 (drop 4 d)"
  defines "w \<equiv> get_i32 (view_cipher v c)"
  assumes b: "at_header b v" and d: "20 \<le> length d"
  obtains (bad) r b' where "on_read_loop ec cb b [] d e s = Some (r, b', e, s)" "failed r b'" "br_send_cipher b' = br_send_cipher b"
      "\<not> (t = view_tag v [] c \<and> 0 \<le> w \<and> w \<le> int max_message)"
    | (body) b' where "on_read_loop ec cb b [] d e s = on_read_loop ec cb b' [] (drop 20 d) e s" "at_body b' (cs_next v) (nat w)"
      "br_send_cipher b' = br_send_cipher b" "t = view_tag v [] c" "0 \<le> w" "w \<le> int max_message"
proof -
  have bs: "br_state b = BRONTIDE_ACT_DONE" "\<not> br_has_size b" "br_msg_len b = 20" "cs_ok (br_recv_cipher b)" "cs_view (br_recv_cipher b) = v"
    using b by (simp_all add: at_header_def)
  obtain cs where cs: "hsk_cs_decrypt (br_recv_cipher b) None c = Some (cs, view_cipher v c)" "cs_ok cs" "cs_view cs = cs_next v" "cs_tag cs = view_tag v [] c"
    using cs_decrypt [OF bs(4), of None c] bs(5) by (auto simp: ad_octets_def)
  have l: "on_read_loop ec cb b [] d e s = loop_turn ec cb b (take 20 d) (drop 20 d) e s" using d bs by (simp add: loop_full)
  have tt: "take 4 (take 20 d) = c" "drop 4 (take 20 d) = t" "length (take 20 d) = 20" "length t = 16"
    using d by (simp_all add: c_def t_def drop_take)
  have v: "hsk_cs_verify cs t \<longleftrightarrow> t = view_tag v [] c" using cs tt by (simp add: cs_verify)
  have p: "hsk_brontide_parse ec cb (b\<lparr>br_msg := Some (take 20 d)\<rparr>) (take 20 d) e s =
      (let b1 = b\<lparr>br_msg := Some (take 20 d), br_recv_cipher := cs\<rparr>
       in if t \<noteq> view_tag v [] c then Some (HSK_EBADTAG, 0, b1, e, s)
          else if w < 0 \<or> w > BRONTIDE_MAX_MESSAGE then Some (HSK_EBADSIZE, 0, b1, e, s)
          else Some (HSK_SUCCESS, nat (w + 16), b1\<lparr>br_has_size := True\<rparr>, e, s))"
    using bs cs tt v by (simp add: hsk_brontide_parse_def parse_transport_def BRONTIDE_HEADER_SIZE_def Let_def w_def)
  show ?thesis
  proof (cases "t = view_tag v [] c \<and> 0 \<le> w \<and> w \<le> int max_message")
    case True
    show ?thesis
    proof (rule body)
      let ?b = "b\<lparr>br_recv_cipher := cs, br_has_size := True, br_msg := Some [], br_msg_len := nat (w + 16)\<rparr>"
      show "on_read_loop ec cb b [] d e s = on_read_loop ec cb ?b [] (drop 20 d) e s"
        unfolding l using True bs by (simp add: loop_turn_def p Let_def max_message_int)
      show "at_body ?b (cs_next v) (nat w)" using True cs bs by (simp add: at_body_def nat_add_distrib)
    qed (use True in simp_all)
  next
    case False
    then have r: "on_read_loop ec cb b [] d e s =
        Some (if t \<noteq> view_tag v [] c then HSK_EBADTAG else HSK_EBADSIZE, hsk_brontide_destroy (b\<lparr>br_msg := Some (take 20 d), br_recv_cipher := cs\<rparr>), e, s)"
      unfolding l by (auto simp: loop_turn_def p Let_def max_message_int)
    show ?thesis by (rule bad [OF r]) (use False in \<open>auto simp: failed_def hsk_brontide_destroy_def\<close>)
  qed
qed

lemma body_turn:
  fixes d v n
  defines "c \<equiv> take n d" and "t \<equiv> take 16 (drop n d)"
  assumes b: "at_body b v n" and d: "n + 16 \<le> length d" and cb: "\<And>p b s. read_cb cb p (b, s) = Some (b, f p s)"
  obtains (bad) r b' where "on_read_loop ec cb b [] d e s = Some (r, b', e, s)" "failed r b'" "br_send_cipher b' = br_send_cipher b" "t \<noteq> view_tag v [] c"
    | (msg) b' where "on_read_loop ec cb b [] d e s = on_read_loop ec cb b' [] (drop (n + 16) d) e (f (view_cipher v c) s)" "at_header b' (cs_next v)"
      "br_send_cipher b' = br_send_cipher b" "t = view_tag v [] c"
proof -
  have bs: "br_state b = BRONTIDE_ACT_DONE" "br_has_size b" "br_msg_len b = n + 16" "cs_ok (br_recv_cipher b)" "cs_view (br_recv_cipher b) = v"
    using b by (simp_all add: at_body_def)
  obtain cs where cs: "hsk_cs_decrypt (br_recv_cipher b) None c = Some (cs, view_cipher v c)" "cs_ok cs" "cs_view cs = cs_next v" "cs_tag cs = view_tag v [] c"
    using cs_decrypt [OF bs(4), of None c] bs(5) by (auto simp: ad_octets_def)
  have l: "on_read_loop ec cb b [] d e s = loop_turn ec cb b (take (n + 16) d) (drop (n + 16) d) e s" using d bs by (simp add: loop_full)
  have tt: "take n (take (n + 16) d) = c" "drop n (take (n + 16) d) = t" "length (take (n + 16) d) = n + 16" "length t = 16"
    using d by (simp_all add: c_def t_def drop_take)
  have v: "hsk_cs_verify cs t \<longleftrightarrow> t = view_tag v [] c" using cs tt by (simp add: cs_verify)
  have p: "hsk_brontide_parse ec cb (b\<lparr>br_msg := Some (take (n + 16) d)\<rparr>) (take (n + 16) d) e s =
      (let b1 = b\<lparr>br_msg := Some (take (n + 16) d), br_recv_cipher := cs\<rparr>
       in if t \<noteq> view_tag v [] c then Some (HSK_EBADTAG, 0, b1, e, s)
          else Some (HSK_SUCCESS, 20, b1\<lparr>br_has_size := False\<rparr>, e, f (view_cipher v c) s))"
    using bs cs tt v cb by (simp add: hsk_brontide_parse_def parse_transport_def BRONTIDE_HEADER_SIZE_def Let_def)
  show ?thesis
  proof (cases "t = view_tag v [] c")
    case True
    show ?thesis
    proof (rule msg)
      let ?b = "b\<lparr>br_recv_cipher := cs, br_has_size := False, br_msg := Some [], br_msg_len := 20\<rparr>"
      show "on_read_loop ec cb b [] d e s = on_read_loop ec cb ?b [] (drop (n + 16) d) e (f (view_cipher v c) s)"
        unfolding l using True bs by (simp add: loop_turn_def p Let_def)
      show "at_header ?b (cs_next v)" using cs bs by (simp add: at_header_def)
    qed (use True in simp_all)
  next
    case False
    then have r: "on_read_loop ec cb b [] d e s =
        Some (HSK_EBADTAG, hsk_brontide_destroy (b\<lparr>br_msg := Some (take (n + 16) d), br_recv_cipher := cs\<rparr>), e, s)"
      unfolding l by (simp add: loop_turn_def p Let_def)
    show ?thesis by (rule bad [OF r]) (use False in \<open>simp_all add: failed_def hsk_brontide_destroy_def\<close>)
  qed
qed

section \<open>Exactly the frames of the stream\<close>

lemma frame_prefix:
  assumes "prefix (brontide_frame v m) d"
  shows "take 16 (drop 4 d) = view_tag v [] (take 4 d)" and "view_cipher v (take 4 d) = len_octets (length m)"
    and "36 + length m \<le> length d"
    and "take 16 (drop (length m) (drop 20 d)) = view_tag (cs_next v) [] (take (length m) (drop 20 d))"
proof -
  obtain r where d: "d = brontide_frame v m @ r" using assms by (auto simp: prefix_def)
  show "take 16 (drop 4 d) = view_tag v [] (take 4 d)" "view_cipher v (take 4 d) = len_octets (length m)" "36 + length m \<le> length d"
    "take 16 (drop (length m) (drop 20 d)) = view_tag (cs_next v) [] (take (length m) (drop 20 d))"
    unfolding d by (simp_all add: brontide_frame_def Let_def)
qed

lemma frame_join:
  assumes "take 16 (drop 4 d) = view_tag v [] (take 4 d)" and "view_cipher v (take 4 d) = len_octets n" and "36 + n \<le> length d"
    and "take 16 (drop n (drop 20 d)) = view_tag (cs_next v) [] (take n (drop 20 d))"
  defines "m \<equiv> view_cipher (cs_next v) (take n (drop 20 d))"
  shows "d = brontide_frame v m @ drop (36 + n) d" and "length m = n"
proof -
  show l: "length m = n" using assms(3) by (simp add: m_def)
  have c: "view_cipher v (len_octets n) = take 4 d" using assms(2) view_cipher_invol [of v "take 4 d"] by simp
  have e: "drop 16 (drop 4 d) = drop 20 d" "drop 16 (drop n (drop 20 d)) = drop (36 + n) d" by (simp_all add: add.commute)
  have "d = take 4 d @ take 16 (drop 4 d) @ take n (drop 20 d) @ take 16 (drop n (drop 20 d)) @ drop (36 + n) d"
    unfolding e(2) [symmetric] append_take_drop_id e(1) [symmetric] ..
  then show "d = brontide_frame v m @ drop (36 + n) d"
    by (simp only: brontide_frame_def Let_def l c assms(1,4) append_assoc) (simp add: m_def)
qed

abbreviation after_messages :: "bytes list \<Rightarrow> cs_view \<Rightarrow> cs_view" where
  "after_messages ps \<equiv> fold (\<lambda>_. after_message) ps"

text \<open>What the octets \<open>d\<close> lead to, read from a view: the messages, the octets after them and how it ends.\<close>

definition delivered ::
  "(bytes \<Rightarrow> 's \<Rightarrow> 's) \<Rightarrow> cs_view \<Rightarrow> hsk_brontide \<Rightarrow> bytes \<Rightarrow> 's \<Rightarrow> bytes list \<Rightarrow> bytes \<Rightarrow> hsk_error \<Rightarrow> hsk_brontide \<Rightarrow> 's \<Rightarrow> bool" where
  "delivered f v b d s ps rest r b' s' \<longleftrightarrow>
     d = brontide_frames v ps @ rest \<and> s' = fold f ps s \<and> (\<forall>p\<in>set ps. length p \<le> max_message) \<and>
     (\<forall>m. length m \<le> max_message \<longrightarrow> \<not> prefix (brontide_frame (after_messages ps v) m) rest) \<and>
     (r = HSK_SUCCESS \<or> failed r b') \<and> br_send_cipher b' = br_send_cipher b \<and>
     (rest = [] \<longrightarrow> r = HSK_SUCCESS \<and> at_header b' (after_messages ps v) \<and> br_msg b' = Some [])"

lemma delivered_stop:
  assumes "\<And>m. length m \<le> max_message \<Longrightarrow> \<not> prefix (brontide_frame v m) d" and "r = HSK_SUCCESS \<or> failed r b'"
    and "br_send_cipher b' = br_send_cipher b" and "d = [] \<Longrightarrow> r = HSK_SUCCESS \<and> at_header b' v \<and> br_msg b' = Some []"
  shows "delivered f v b d s [] d r b' s"
  using assms by (auto simp: delivered_def)

lemma delivered_more:
  assumes "delivered f (after_message v) b2 (drop (36 + length m) d) (f m s) ps rest r b' s'" and "d = brontide_frame v m @ drop (36 + length m) d"
    and "length m \<le> max_message" and "br_send_cipher b2 = br_send_cipher b"
  shows "delivered f v b d s (m # ps) rest r b' s'"
  using assms by (simp add: delivered_def)

lemma transport_exact:
  assumes cb: "\<And>p b s. read_cb cb p (b, s) = Some (b, f p s)" and "at_header b v"
  shows "\<exists>ps rest r b' s'. on_read_loop ec cb b [] d e s = Some (r, b', e, s') \<and> delivered f v b d s ps rest r b' s'"
  using assms(2)
proof (induction "length d" arbitrary: d b v s rule: less_induct)
  case less
  have no: False if "length d < 20" "length m \<le> max_message" "prefix (brontide_frame v m) d" for m
    using that by (auto simp: brontide_frame_def Let_def prefix_def)
  show ?case
  proof (cases "length d < 20")
    case True
    have "on_read_loop ec cb b [] d e s = Some (HSK_SUCCESS, b\<lparr>br_msg := Some d\<rparr>, e, s)"
      using True less.prems by (simp add: loop_short at_header_def)
    moreover have "delivered f v b d s [] d HSK_SUCCESS (b\<lparr>br_msg := Some d\<rparr>) s"
      using True less.prems no by (intro delivered_stop) (auto simp: at_header_def)
    ultimately show ?thesis by blast
  next
    case False
    then have d: "20 \<le> length d" by simp
    let ?w = "get_i32 (view_cipher v (take 4 d))"
    from less.prems d show ?thesis
    proof (cases rule: header_turn [where ec = ec and cb = cb and e = e and s = s])
      case (bad r b')
      have "\<not> prefix (brontide_frame v m) d" if "length m \<le> max_message" for m
        using bad(4) frame_prefix(1,2) [of v m d] len_octets_size [OF that] that by auto
      then have "delivered f v b d s [] d r b' s" using bad d by (intro delivered_stop) auto
      then show ?thesis using bad(1) by blast
    next
      case (body b1)
      let ?n = "nat ?w" and ?d = "drop 20 d"
      have len: "view_cipher v (take 4 d) = len_octets ?n"
        using size_len_octets [of "view_cipher v (take 4 d)"] d body(5) by simp
      have this_n: "length m = ?n" if "length m \<le> max_message" "prefix (brontide_frame v m) d" for m
        using frame_prefix(2) [OF that(2)] len_octets_size [OF that(1)] by simp
      show ?thesis
      proof (cases "length ?d < ?n + 16")
        case True
        have "on_read_loop ec cb b [] d e s = Some (HSK_SUCCESS, b1\<lparr>br_msg := Some ?d\<rparr>, e, s)"
          using True body(1,2) by (simp add: loop_short at_body_def)
        moreover have "delivered f v b d s [] d HSK_SUCCESS (b1\<lparr>br_msg := Some ?d\<rparr>) s"
        proof (rule delivered_stop)
          show "\<not> prefix (brontide_frame v m) d" if "length m \<le> max_message" for m
            using this_n [OF that] frame_prefix(3) [of v m d] True by auto
        qed (use body(3) d in auto)
        ultimately show ?thesis by blast
      next
        case False
        then have d1: "?n + 16 \<le> length ?d" by simp
        from body(2) d1 cb show ?thesis
        proof (cases rule: body_turn [where ec = ec and e = e and s = s])
          case (bad r b')
          have "\<not> prefix (brontide_frame v m) d" if "length m \<le> max_message" for m
            using this_n [OF that] frame_prefix(4) [of v m d] bad(4) by auto
          then have "delivered f v b d s [] d r b' s" using bad body(3) d by (intro delivered_stop) auto
          then show ?thesis using bad(1) body(1) by auto
        next
          case (msg b2)
          let ?m = "view_cipher (cs_next v) (take ?n ?d)"
          have j: "d = brontide_frame v ?m @ drop (36 + ?n) d" "length ?m = ?n"
            by (rule frame_join; use body(4) len d1 msg(4) in simp)+
          have dd: "drop (?n + 16) ?d = drop (36 + length ?m) d" using j(2) by (simp add: add.commute)
          have "length (drop (36 + length ?m) d) < length d" using d by simp
          from less.hyps [OF this] msg(2)
          obtain ps rest r b' s' where "on_read_loop ec cb b2 [] (drop (36 + length ?m) d) e (f ?m s) = Some (r, b', e, s')"
            "delivered f (after_message v) b2 (drop (36 + length ?m) d) (f ?m s) ps rest r b' s'"
            unfolding after_message_def by blast
          moreover have "length ?m \<le> max_message" using j(2) body(5,6) by simp
          ultimately show ?thesis
            using delivered_more [of f v b2 ?m d s ps rest r b' s' b] j msg(1,3) body(1,3) dd by fastforce
        qed
      qed
    qed
  qed
qed

text \<open>Frames are cut in one way only.\<close>

lemma frames_unique:
  assumes "delivered f v b (brontide_frames v ms) s ps rest r b' s'" and "\<forall>m\<in>set ms. length m \<le> max_message"
  shows "ps = ms \<and> rest = []"
proof -
  have "brontide_frames v ms = brontide_frames v ps @ rest \<Longrightarrow> \<forall>m\<in>set ms. length m \<le> max_message \<Longrightarrow> \<forall>p\<in>set ps. length p \<le> max_message \<Longrightarrow>
    \<forall>m. length m \<le> max_message \<longrightarrow> \<not> prefix (brontide_frame (after_messages ps v) m) rest \<Longrightarrow> ps = ms \<and> rest = []"
  proof (induction ms arbitrary: ps v)
    case Nil
    then show ?case by (cases ps) (auto simp: brontide_frame_def Let_def dest: arg_cong [of _ _ length])
  next
    case (Cons m ms)
    show ?case
    proof (cases ps)
      case Nil
      then show ?thesis using Cons.prems by (auto simp: prefix_def)
    next
      case (Cons p qs)
      let ?d = "brontide_frames v (m # ms)"
      have d: "?d = brontide_frame v p @ (brontide_frames (after_message v) qs @ rest)" using Cons Cons.prems(1) by simp
      have pr: "prefix (brontide_frame v p) ?d" unfolding d by simp
      have pr': "prefix (brontide_frame v m) ?d" by simp
      have l: "length p \<le> max_message" "length m \<le> max_message" using Cons Cons.prems(2,3) by simp_all
      have "len_octets (length p) = len_octets (length m)"
        using frame_prefix(2) [OF pr] frame_prefix(2) [OF pr'] by simp
      then have n: "length p = length m" using len_octets_size l by (metis of_nat_eq_iff)
      have body: "take (length q) (drop 20 (brontide_frame v q @ x)) = view_cipher (cs_next v) q" for q x
        by (simp add: brontide_frame_def Let_def)
      have "view_cipher (cs_next v) p = view_cipher (cs_next v) m"
        using body [of p] body [of m] n d by (metis brontide_frames.simps(2))
      then have "p = m" by (metis view_cipher_invol)
      then show ?thesis using Cons Cons.prems Cons.IH [of "after_message v" qs] by simp
    qed
  qed
  then show ?thesis using assms by (simp add: delivered_def)
qed

section \<open>An endpoint and its owner\<close>

text \<open>An owner that records what it is handed: the octets to send, the end of the handshake, the messages.\<close>

record tape =
  tp_out :: bytes
  tp_up :: bool
  tp_got :: "bytes list"

definition tape_cb :: "tape brontide_cb" where
  "tape_cb = \<lparr>connect_cb = (\<lambda>(b, s). Some (b, s\<lparr>tp_up := True\<rparr>)), write_cb = (\<lambda>d heap s. (HSK_SUCCESS, s\<lparr>tp_out := tp_out s @ d\<rparr>)),
     read_cb = (\<lambda>p (b, s). Some (b, s\<lparr>tp_got := tp_got s @ [p]\<rparr>))\<rparr>"

fun tape_writes :: "bytes list \<Rightarrow> hsk_brontide \<Rightarrow> tape \<Rightarrow> (hsk_error \<times> hsk_brontide \<times> tape) option" where
  "tape_writes [] b s = Some (HSK_SUCCESS, b, s)"
| "tape_writes (m # ms) b s =
     do { (r, b, s) \<leftarrow> hsk_brontide_write tape_cb m b s;
          if r \<noteq> HSK_SUCCESS then Some (r, b, s) else tape_writes ms b s }"

lemma write_frame:
  assumes "br_state b = BRONTIDE_ACT_DONE" and "cs_ok (br_send_cipher b)" and "cs_view (br_send_cipher b) = v"
  shows "\<exists>c. hsk_brontide_write tape_cb m b s = Some (HSK_SUCCESS, b\<lparr>br_send_cipher := c\<rparr>, s\<lparr>tp_out := tp_out s @ brontide_frame v m\<rparr>) \<and>
    cs_ok c \<and> cs_view c = after_message v"
proof -
  obtain c1 where c1: "hsk_cs_encrypt (br_send_cipher b) None (len_octets (length m)) = Some (c1, view_cipher v (len_octets (length m)))" "cs_ok c1"
    "cs_view c1 = cs_next v" "cs_tag c1 = view_tag v [] (view_cipher v (len_octets (length m)))"
    using cs_encrypt [OF assms(2), of None "len_octets (length m)"] assms(3) by (auto simp: ad_octets_def)
  obtain c2 where c2: "hsk_cs_encrypt c1 None m = Some (c2, view_cipher (cs_next v) m)" "cs_ok c2"
    "cs_view c2 = cs_next (cs_next v)" "cs_tag c2 = view_tag (cs_next v) [] (view_cipher (cs_next v) m)"
    using cs_encrypt [OF c1(2), of None m] c1(3) by (auto simp: ad_octets_def)
  show ?thesis
    using assms(1) c1 c2 by (intro exI [of _ c2])
      (simp add: hsk_brontide_write_def len_octets_def [symmetric] tape_cb_def write_done_def brontide_frame_def after_message_def Let_def)
qed

lemma writes_frames:
  assumes "br_state b = BRONTIDE_ACT_DONE" and "cs_ok (br_send_cipher b)" and "cs_view (br_send_cipher b) = v"
  shows "\<exists>c. tape_writes ms b s = Some (HSK_SUCCESS, b\<lparr>br_send_cipher := c\<rparr>, s\<lparr>tp_out := tp_out s @ brontide_frames v ms\<rparr>) \<and>
    cs_ok c \<and> cs_view c = after_messages ms v"
  using assms
proof (induction ms arbitrary: b s v)
  case Nil
  then show ?case by (intro exI [of _ "br_send_cipher b"]) simp
next
  case (Cons m ms)
  obtain c where c: "hsk_brontide_write tape_cb m b s = Some (HSK_SUCCESS, b\<lparr>br_send_cipher := c\<rparr>, s\<lparr>tp_out := tp_out s @ brontide_frame v m\<rparr>)"
    "cs_ok c" "cs_view c = after_message v"
    using write_frame [OF Cons.prems] by blast
  then show ?case using Cons.IH [of "b\<lparr>br_send_cipher := c\<rparr>" "after_message v" "s\<lparr>tp_out := tp_out s @ brontide_frame v m\<rparr>"] Cons.prems(1)
    by simp
qed

lemma tape_reads:
  assumes "at_header b v" and "br_msg b = Some []"
  shows "\<exists>ps rest r b'. on_reads ec tape_cb b ds e s = Some (r, b', e, s\<lparr>tp_got := tp_got s @ ps\<rparr>) \<and>
    delivered (\<lambda>p s. s\<lparr>tp_got := tp_got s @ [p]\<rparr>) v b (concat ds) s ps rest r b' (s\<lparr>tp_got := tp_got s @ ps\<rparr>)"
proof -
  have b: "buffer_ok b" "br_state b \<noteq> BRONTIDE_ACT_NONE" using assms by (simp_all add: at_header_def buffer_ok_def)
  have f: "fold (\<lambda>p s. s\<lparr>tp_got := tp_got s @ [p]\<rparr>) ps s = s\<lparr>tp_got := tp_got s @ ps\<rparr>" for ps and s :: tape
    by (induction ps arbitrary: s) simp_all
  have "read_cb tape_cb p (b, s) = Some (b, s\<lparr>tp_got := tp_got s @ [p]\<rparr>)" for p b s by (simp add: tape_cb_def)
  from transport_exact [OF this assms(1), of ec "concat ds" e s]
  obtain ps rest r b' s' where *: "on_read_loop ec tape_cb b [] (concat ds) e s = Some (r, b', e, s')"
    "delivered (\<lambda>p s. s\<lparr>tp_got := tp_got s @ [p]\<rparr>) v b (concat ds) s ps rest r b' s'" by blast
  have "s' = s\<lparr>tp_got := tp_got s @ ps\<rparr>" using *(2) unfolding delivered_def f by simp
  moreover have "on_reads ec tape_cb b ds e s = Some (r, b', e, s')"
    unfolding on_reads_concat [OF b(1)] using *(1) assms(2) b(2) by (simp add: hsk_brontide_on_read_def)
  ultimately show ?thesis using *(2) by blast
qed

text \<open>
  C13. Whatever octets reach a connected endpoint and however they are cut into chunks, no assertion
  fails and its owner gets exactly the messages whose frames under the shared key the octets begin
  with, in order, up to the first octet that does not continue a frame; a wrong tag or size closes the
  connection.
\<close>

theorem brontide_exact:
  assumes "at_header b v" and "br_msg b = Some []"
  shows "\<exists>ps rest r b'. on_reads ec tape_cb b ds e s = Some (r, b', e, s\<lparr>tp_got := tp_got s @ ps\<rparr>) \<and>
    concat ds = brontide_frames v ps @ rest \<and>
    (\<forall>m. length m \<le> max_message \<longrightarrow> \<not> prefix (brontide_frame (after_messages ps v) m) rest) \<and>
    (r = HSK_SUCCESS \<or> r \<in> {HSK_EBADTAG, HSK_EBADSIZE} \<and> br_state b' = BRONTIDE_ACT_NONE)"
  using tape_reads [OF assms, of ec ds e s] by (fastforce simp: delivered_def failed_def)

text \<open>
  C14. Messages of at most 8000009 octets written by one endpoint and read by the other, which share a
  view of the key, arrive unchanged, in order and once, across any number of key rotations and however
  the octets are cut; afterwards the two still agree.
\<close>

theorem brontide_transport:
  assumes "br_state a = BRONTIDE_ACT_DONE" and "cs_ok (br_send_cipher a)"
    and "at_header b (cs_view (br_send_cipher a))" and "br_msg b = Some []"
    and "\<forall>m\<in>set ms. length m \<le> max_message"
    and "tape_writes ms a t = Some (r, a', t')" and "tp_out t' = tp_out t @ concat ds"
  shows "r = HSK_SUCCESS \<and>
    (\<exists>b'. on_reads ec tape_cb b ds e s = Some (HSK_SUCCESS, b', e, s\<lparr>tp_got := tp_got s @ ms\<rparr>) \<and>
       at_header b' (cs_view (br_send_cipher a')) \<and> br_msg b' = Some [])"
proof -
  let ?v = "cs_view (br_send_cipher a)"
  obtain c where w: "tape_writes ms a t = Some (HSK_SUCCESS, a\<lparr>br_send_cipher := c\<rparr>, t\<lparr>tp_out := tp_out t @ brontide_frames ?v ms\<rparr>)"
    "cs_view c = after_messages ms ?v"
    using writes_frames [OF assms(1,2) refl, of ms t] by blast
  then have r: "r = HSK_SUCCESS" "concat ds = brontide_frames ?v ms" "cs_view (br_send_cipher a') = after_messages ms ?v"
    using assms(6,7) by auto
  obtain ps rest q b' where *: "on_reads ec tape_cb b ds e s = Some (q, b', e, s\<lparr>tp_got := tp_got s @ ps\<rparr>)"
    "delivered (\<lambda>p s. s\<lparr>tp_got := tp_got s @ [p]\<rparr>) ?v b (brontide_frames ?v ms) s ps rest q b' (s\<lparr>tp_got := tp_got s @ ps\<rparr>)"
    using tape_reads [OF assms(3,4), of ec ds e s] unfolding r(2) by blast
  have p: "ps = ms" "rest = []" using frames_unique [OF *(2) assms(5)] by simp_all
  then have "q = HSK_SUCCESS" "at_header b' (after_messages ms ?v)" "br_msg b' = Some []"
    using *(2) by (simp_all add: delivered_def)
  then show ?thesis unfolding r(1,3) using *(1) p(1) by blast
qed

end
