(* ===== verification/Brontide_Hs.thy ===== *)
theory Brontide_Hs
  imports Brontide_Ok
begin

text \<open>
  The handshake of \<open>Brontide\<close>: both sides mix the same keys and octets into their symmetric states, so
  every tag is accepted and the cipher states they end with belong together.
\<close>

section \<open>Two symmetric states in step\<close>

definition in_step :: "hsk_brontide \<Rightarrow> hsk_brontide \<Rightarrow> bool" where
  "in_step a b \<longleftrightarrow> br_chaining_key a = br_chaining_key b \<and> br_handshake_digest a = br_handshake_digest b \<and>
     cs_view (br_cs a) = cs_view (br_cs b) \<and> cs_ok (br_cs a) \<and> cs_ok (br_cs b)"

lemma view_init_key [simp]: "cs_view (hsk_cs_init_key cs k) = (0, iv_at (cs_iv cs) 0, take 32 k, cs_salt cs)"
  and view_init_saltkey [simp]: "cs_view (hsk_cs_init_saltkey cs s k) = (0, iv_at (cs_iv cs) 0, take 32 k, take 32 s)"
  by (simp_all add: cs_view_def hsk_cs_init_key_def hsk_cs_init_saltkey_def hsk_cs_update_def iv_at_def)

lemma mix_hash_step: "in_step a b \<Longrightarrow> in_step (hsk_brontide_mix_hash a x) (hsk_brontide_mix_hash b x)"
  by (simp add: in_step_def hsk_brontide_mix_hash_def hash_with_tag_def)

lemma mix_key_step:
  assumes "in_step a b"
  obtains k t where "hsk_brontide_mix_key a s = Some (a\<lparr>br_chaining_key := k, br_temp_key := t, br_cs := hsk_cs_init_key (br_cs a) t\<rparr>)"
    "hsk_brontide_mix_key b s = Some (b\<lparr>br_chaining_key := k, br_temp_key := t, br_cs := hsk_cs_init_key (br_cs b) t\<rparr>)"
    "in_step (a\<lparr>br_chaining_key := k, br_temp_key := t, br_cs := hsk_cs_init_key (br_cs a) t\<rparr>)
       (b\<lparr>br_chaining_key := k, br_temp_key := t, br_cs := hsk_cs_init_key (br_cs b) t\<rparr>)"
proof -
  obtain k t where k: "hkdf (take 32 s) (br_chaining_key b) [] = (k, t)" by fastforce
  have "cs_iv (br_cs a) = cs_iv (br_cs b)" "cs_salt (br_cs a) = cs_salt (br_cs b)"
    using assms by (simp_all add: in_step_def cs_view_def)
  then show ?thesis using that [where k = k and t = t] assms k by (simp add: hsk_brontide_mix_key_def hkdf_hash in_step_def)
qed

lemma seal_step:
  assumes "in_step a b"
  obtains h ca cb c where "hsk_brontide_encrypt a d = Some (a\<lparr>br_cs := ca, br_handshake_digest := h\<rparr>, c)"
    "hsk_brontide_decrypt b c (cs_tag ca) = Some (b\<lparr>br_cs := cb, br_handshake_digest := h\<rparr>, d)"
    "hsk_cs_verify cb (cs_tag ca)" "length (cs_tag ca) = 16" "length c = length d"
    "in_step (a\<lparr>br_cs := ca, br_handshake_digest := h\<rparr>) (b\<lparr>br_cs := cb, br_handshake_digest := h\<rparr>)"
proof -
  have ab: "cs_ok (br_cs a)" "cs_ok (br_cs b)" "cs_view (br_cs a) = cs_view (br_cs b)" "br_handshake_digest a = br_handshake_digest b"
    using assms by (simp_all add: in_step_def)
  let ?v = "cs_view (br_cs b)" and ?h = "Some (br_handshake_digest b)"
  obtain ca where ca: "hsk_cs_encrypt (br_cs a) ?h d = Some (ca, view_cipher ?v d)" "cs_ok ca" "cs_view ca = cs_next ?v"
    "cs_tag ca = view_tag ?v (ad_octets ?h) (view_cipher ?v d)"
    using cs_encrypt [OF ab(1), of ?h d] ab(3) by auto
  obtain cb where cb: "hsk_cs_decrypt (br_cs b) ?h (view_cipher ?v d) = Some (cb, d)" "cs_ok cb" "cs_view cb = cs_next ?v"
    "cs_tag cb = view_tag ?v (ad_octets ?h) (view_cipher ?v d)"
    using cs_decrypt [OF ab(2), of ?h "view_cipher ?v d"] by auto
  let ?g = "hash_with_tag b (view_cipher ?v d) (Some (cs_tag ca))"
  show ?thesis
  proof (rule that [where ca = ca and cb = cb and h = ?g and c = "view_cipher ?v d"])
    show "hsk_brontide_encrypt a d = Some (a\<lparr>br_cs := ca, br_handshake_digest := ?g\<rparr>, view_cipher ?v d)"
      using ca ab by (simp add: hsk_brontide_encrypt_def hash_with_tag_def)
    show "hsk_brontide_decrypt b (view_cipher ?v d) (cs_tag ca) = Some (b\<lparr>br_cs := cb, br_handshake_digest := ?g\<rparr>, d)"
      using cb by (simp add: hsk_brontide_decrypt_def)
    show "hsk_cs_verify cb (cs_tag ca)" using ca cb by (simp add: cs_verify)
    show "in_step (a\<lparr>br_cs := ca, br_handshake_digest := ?g\<rparr>) (b\<lparr>br_cs := cb, br_handshake_digest := ?g\<rparr>)"
      using assms ca cb by (simp add: in_step_def)
  qed (use ca in simp_all)
qed

text \<open>The end of every act: a shared secret is mixed in and an empty text is sealed.\<close>

lemma key_step:
  assumes "in_step a b"
  obtains k t h ca cb where
    "hsk_brontide_mix_key a s \<bind> (\<lambda>a. hsk_brontide_encrypt a []) =
      Some (a\<lparr>br_chaining_key := k, br_temp_key := t, br_cs := ca, br_handshake_digest := h\<rparr>, [])"
    "hsk_brontide_mix_key b s \<bind> (\<lambda>b. hsk_brontide_decrypt b [] (cs_tag ca)) =
      Some (b\<lparr>br_chaining_key := k, br_temp_key := t, br_cs := cb, br_handshake_digest := h\<rparr>, [])"
    "hsk_cs_verify cb (cs_tag ca)" "length (cs_tag ca) = 16"
    "in_step (a\<lparr>br_chaining_key := k, br_temp_key := t, br_cs := ca, br_handshake_digest := h\<rparr>)
      (b\<lparr>br_chaining_key := k, br_temp_key := t, br_cs := cb, br_handshake_digest := h\<rparr>)"
proof -
  obtain k t where k: "hsk_brontide_mix_key a s = Some (a\<lparr>br_chaining_key := k, br_temp_key := t, br_cs := hsk_cs_init_key (br_cs a) t\<rparr>)"
    "hsk_brontide_mix_key b s = Some (b\<lparr>br_chaining_key := k, br_temp_key := t, br_cs := hsk_cs_init_key (br_cs b) t\<rparr>)"
    "in_step (a\<lparr>br_chaining_key := k, br_temp_key := t, br_cs := hsk_cs_init_key (br_cs a) t\<rparr>)
       (b\<lparr>br_chaining_key := k, br_temp_key := t, br_cs := hsk_cs_init_key (br_cs b) t\<rparr>)"
    by (rule mix_key_step [OF assms])
  show ?thesis
    by (rule seal_step [OF k(3), of "[]"]) (auto intro!: that simp: k(1,2))
qed

section \<open>The acts\<close>

text \<open>A fresh ephemeral key was drawn from \<open>e\<close> and its hashed form from what was left.\<close>

definition draws :: "'k secp \<Rightarrow> entropy \<Rightarrow> bytes \<Rightarrow> bytes \<Rightarrow> entropy \<Rightarrow> bool" where
  "draws ec e x u e' \<longleftrightarrow>
     (\<exists>e1. hsk_ec_create_privkey ec e = (Some x, e1) \<and> hsk_ec_pubkey_to_hash ec (pub_of ec x) e1 = (Some u, e'))"

definition curve_ok :: "'k secp \<Rightarrow> bool" where
  "curve_ok ec \<longleftrightarrow> curve_keys ec \<and> curve_ecdh ec \<and> curve_hash ec"

lemma draws_ephemeral:
  assumes "curve_ok ec" and "draws ec e x u e'"
  shows "gen_ephemeral ec b e = Some (hsk_brontide_mix_hash (b\<lparr>br_local_ephemeral := x\<rparr>) (pub_of ec x), u, e')"
    and "hsk_ec_verify_privkey ec x" and "hsk_ec_pubkey_from_hash ec u = Some (pub_of ec x)" and "length u = 64"
    and "hsk_ec_verify_pubkey ec (pub_of ec x)"
proof -
  obtain e1 where e: "hsk_ec_create_privkey ec e = (Some x, e1)" "hsk_ec_pubkey_to_hash ec (pub_of ec x) e1 = (Some u, e')"
    using assms(2) by (auto simp: draws_def)
  have c: "curve_keys ec" "curve_hash ec" using assms(1) by (simp_all add: curve_ok_def)
  show x: "hsk_ec_verify_privkey ec x" using e(1) by (rule create_privkey_valid)
  show "hsk_ec_pubkey_from_hash ec u = Some (pub_of ec x)" "length u = 64" "hsk_ec_verify_pubkey ec (pub_of ec x)"
    using hash_key [OF c x e(2)] by simp_all
  have "hsk_ec_create_pubkey ec x = Some (pub_of ec x)" by (rule create_pubkey [OF c(1) x])
  then show "gen_ephemeral ec b e = Some (hsk_brontide_mix_hash (b\<lparr>br_local_ephemeral := x\<rparr>) (pub_of ec x), u, e')"
    using e by (simp add: gen_ephemeral_def)
qed

lemma mix_hash_fields [simp]:
  "br_remote_static (hsk_brontide_mix_hash b x) = br_remote_static b" "br_local_static (hsk_brontide_mix_hash b x) = br_local_static b"
  "br_local_ephemeral (hsk_brontide_mix_hash b x) = br_local_ephemeral b" "br_remote_ephemeral (hsk_brontide_mix_hash b x) = br_remote_ephemeral b"
  "br_initiator (hsk_brontide_mix_hash b x) = br_initiator b" "br_state (hsk_brontide_mix_hash b x) = br_state b"
  "br_send_cipher (hsk_brontide_mix_hash b x) = br_send_cipher b" "br_recv_cipher (hsk_brontide_mix_hash b x) = br_recv_cipher b"
  "br_has_size (hsk_brontide_mix_hash b x) = br_has_size b"
  by (simp_all add: hsk_brontide_mix_hash_def)

lemma in_step_update [simp]:
  "in_step (a\<lparr>br_local_ephemeral := x\<rparr>) b = in_step a b" "in_step a (b\<lparr>br_remote_ephemeral := y\<rparr>) = in_step a b"
  "in_step (a\<lparr>br_state := st\<rparr>) b = in_step a b" "in_step a (b\<lparr>br_state := st\<rparr>) = in_step a b"
  "in_step (a\<lparr>br_msg := m\<rparr>) b = in_step a b" "in_step a (b\<lparr>br_msg := m\<rparr>) = in_step a b"
  "in_step (a\<lparr>br_msg_len := n\<rparr>) b = in_step a b" "in_step a (b\<lparr>br_msg_len := n\<rparr>) = in_step a b"
  "in_step a (b\<lparr>br_remote_static := y\<rparr>) = in_step a b"
  by (simp_all add: in_step_def)

text \<open>
  The fields the acts hand on: keys and, untouched until the end, the transport ciphers. An act sent
  by one side is accepted by the other, which has the matching keys.
\<close>

definition kept :: "hsk_brontide \<Rightarrow> hsk_brontide \<Rightarrow> bool" where
  "kept b b' \<longleftrightarrow> br_initiator b' = br_initiator b \<and> br_local_static b' = br_local_static b \<and> br_state b' = br_state b \<and>
     br_has_size b' = br_has_size b \<and> br_send_cipher b' = br_send_cipher b \<and> br_recv_cipher b' = br_recv_cipher b"

lemma act_one:
  assumes c: "curve_ok ec" and d: "draws ec e x u e'" and s: "in_step a b"
    and k: "hsk_ec_verify_privkey ec (br_local_static b)" "br_remote_static a = pub_of ec (br_local_static b)"
  obtains a' b' act where "hsk_brontide_gen_act_one ec a e = Some (a', act, e')" "length act = 80" "kept a a'" "kept b b'"
    "hsk_brontide_recv_act_one ec b act = Some (True, b')" "in_step a' b'"
    "br_local_ephemeral a' = x" "br_remote_ephemeral b' = pub_of ec x" "br_remote_static a' = br_remote_static a"
proof -
  note dr = draws_ephemeral [OF c d]
  have cc: "curve_keys ec" "curve_ecdh ec" using c by (simp_all add: curve_ok_def)
  obtain z where z: "hsk_ec_ecdh ec (pub_of ec (br_local_static b)) x = Some z" "hsk_ec_ecdh ec (pub_of ec x) (br_local_static b) = Some z"
    by (rule ecdh_same [OF cc dr(2) k(1)])
  let ?a = "hsk_brontide_mix_hash (a\<lparr>br_local_ephemeral := x\<rparr>) (pub_of ec x)"
  let ?b = "hsk_brontide_mix_hash (b\<lparr>br_remote_ephemeral := pub_of ec x\<rparr>) (pub_of ec x)"
  have "in_step ?a ?b" using s by (intro mix_hash_step) simp
  then obtain kk t h ca cb where m:
    "hsk_brontide_mix_key ?a z \<bind> (\<lambda>a. hsk_brontide_encrypt a []) =
      Some (?a\<lparr>br_chaining_key := kk, br_temp_key := t, br_cs := ca, br_handshake_digest := h\<rparr>, [])"
    "hsk_brontide_mix_key ?b z \<bind> (\<lambda>b. hsk_brontide_decrypt b [] (cs_tag ca)) =
      Some (?b\<lparr>br_chaining_key := kk, br_temp_key := t, br_cs := cb, br_handshake_digest := h\<rparr>, [])"
    "hsk_cs_verify cb (cs_tag ca)" "length (cs_tag ca) = 16"
    "in_step (?a\<lparr>br_chaining_key := kk, br_temp_key := t, br_cs := ca, br_handshake_digest := h\<rparr>)
      (?b\<lparr>br_chaining_key := kk, br_temp_key := t, br_cs := cb, br_handshake_digest := h\<rparr>)"
    by (rule key_step)
  show ?thesis
  proof (rule that)
    show "hsk_brontide_gen_act_one ec a e =
        Some (?a\<lparr>br_chaining_key := kk, br_temp_key := t, br_cs := ca, br_handshake_digest := h\<rparr>, u @ cs_tag ca, e')"
      using m(1) z(1) k(2) dr by (auto simp: hsk_brontide_gen_act_one_def bind_eq_Some_conv)
    show "hsk_brontide_recv_act_one ec b (u @ cs_tag ca) =
        Some (True, ?b\<lparr>br_chaining_key := kk, br_temp_key := t, br_cs := cb, br_handshake_digest := h\<rparr>)"
      using m(2,3) z(2) dr by (auto simp: hsk_brontide_recv_act_one_def bind_eq_Some_conv)
    show "length (u @ cs_tag ca) = 80" using dr m(4) by simp
  qed (use m(5) in \<open>simp_all add: kept_def\<close>)
qed

lemma in_step_msg: "in_step a b \<Longrightarrow> in_step a (b\<lparr>br_msg := m\<rparr>)" "kept (b\<lparr>br_msg := m\<rparr>) b' = kept b b'"
  by (simp_all add: kept_def)

text \<open>The receiver has the act in its buffer while it parses it.\<close>

lemma act_one_msg:
  assumes c: "curve_ok ec" and d: "draws ec e x u e'" and s: "in_step a b"
    and k: "hsk_ec_verify_privkey ec (br_local_static b)" "br_remote_static a = pub_of ec (br_local_static b)"
  obtains a' b' act where "hsk_brontide_gen_act_one ec a e = Some (a', act, e')" "length act = 80" "kept a a'" "kept b b'"
    "hsk_brontide_recv_act_one ec (b\<lparr>br_msg := Some act\<rparr>) act = Some (True, b')" "in_step a' b'"
    "br_local_ephemeral a' = x" "br_remote_ephemeral b' = pub_of ec x"
proof -
  obtain a' act where a: "hsk_brontide_gen_act_one ec a e = Some (a', act, e')" "length act = 80"
    by (rule act_one [OF c d s k])
  show ?thesis
    by (rule act_one [OF c d in_step_msg(1) [OF s, of "Some act"]]) (use a k in \<open>auto intro!: that simp: in_step_msg(2)\<close>)
qed

lemma act_two:
  assumes c: "curve_ok ec" and d: "draws ec e y u e'" and s: "in_step b a"
    and x: "hsk_ec_verify_privkey ec (br_local_ephemeral a)" "br_remote_ephemeral b = pub_of ec (br_local_ephemeral a)"
  obtains a' b' act where "hsk_brontide_gen_act_two ec b e = Some (b', act, e')" "length act = 80" "kept a a'" "kept b b'"
    "hsk_brontide_recv_act_two ec a act = Some (True, a')" "in_step b' a'"
    "br_local_ephemeral b' = y" "br_remote_ephemeral a' = pub_of ec y"
proof -
  note dr = draws_ephemeral [OF c d]
  have cc: "curve_keys ec" "curve_ecdh ec" using c by (simp_all add: curve_ok_def)
  obtain z where z: "hsk_ec_ecdh ec (pub_of ec (br_local_ephemeral a)) y = Some z" "hsk_ec_ecdh ec (pub_of ec y) (br_local_ephemeral a) = Some z"
    by (rule ecdh_same [OF cc dr(2) x(1)])
  let ?b = "hsk_brontide_mix_hash (b\<lparr>br_local_ephemeral := y\<rparr>) (pub_of ec y)"
  let ?a = "hsk_brontide_mix_hash (a\<lparr>br_remote_ephemeral := pub_of ec y\<rparr>) (pub_of ec y)"
  have "in_step ?b ?a" using s by (intro mix_hash_step) simp
  then obtain kk t h cb ca where m:
    "hsk_brontide_mix_key ?b z \<bind> (\<lambda>b. hsk_brontide_encrypt b []) =
      Some (?b\<lparr>br_chaining_key := kk, br_temp_key := t, br_cs := cb, br_handshake_digest := h\<rparr>, [])"
    "hsk_brontide_mix_key ?a z \<bind> (\<lambda>a. hsk_brontide_decrypt a [] (cs_tag cb)) =
      Some (?a\<lparr>br_chaining_key := kk, br_temp_key := t, br_cs := ca, br_handshake_digest := h\<rparr>, [])"
    "hsk_cs_verify ca (cs_tag cb)" "length (cs_tag cb) = 16"
    "in_step (?b\<lparr>br_chaining_key := kk, br_temp_key := t, br_cs := cb, br_handshake_digest := h\<rparr>)
      (?a\<lparr>br_chaining_key := kk, br_temp_key := t, br_cs := ca, br_handshake_digest := h\<rparr>)"
    by (rule key_step)
  show ?thesis
  proof (rule that)
    show "hsk_brontide_gen_act_two ec b e =
        Some (?b\<lparr>br_chaining_key := kk, br_temp_key := t, br_cs := cb, br_handshake_digest := h\<rparr>, u @ cs_tag cb, e')"
      using m(1) z(1) x(2) dr by (auto simp: hsk_brontide_gen_act_two_def bind_eq_Some_conv)
    show "hsk_brontide_recv_act_two ec a (u @ cs_tag cb) =
        Some (True, ?a\<lparr>br_chaining_key := kk, br_temp_key := t, br_cs := ca, br_handshake_digest := h\<rparr>)"
      using m(2,3) z(2) dr by (auto simp: hsk_brontide_recv_act_two_def bind_eq_Some_conv)
    show "length (u @ cs_tag cb) = 80" using dr m(4) by simp
  qed (use m(5) in \<open>simp_all add: kept_def\<close>)
qed

lemma act_two_msg:
  assumes c: "curve_ok ec" and d: "draws ec e y u e'" and s: "in_step b a"
    and x: "hsk_ec_verify_privkey ec (br_local_ephemeral a)" "br_remote_ephemeral b = pub_of ec (br_local_ephemeral a)"
  obtains a' b' act where "hsk_brontide_gen_act_two ec b e = Some (b', act, e')" "length act = 80" "kept a a'" "kept b b'"
    "hsk_brontide_recv_act_two ec (a\<lparr>br_msg := Some act\<rparr>) act = Some (True, a')" "in_step b' a'"
    "br_local_ephemeral b' = y" "br_remote_ephemeral a' = pub_of ec y"
proof -
  obtain b' act where b: "hsk_brontide_gen_act_two ec b e = Some (b', act, e')" "length act = 80"
    by (rule act_two [OF c d s x])
  show ?thesis
    by (rule act_two [OF c d in_step_msg(1) [OF s, of "Some act"]]) (use b x in \<open>auto intro!: that simp: in_step_msg(2)\<close>)
qed

text \<open>The split gives each side the cipher the other one reads with.\<close>

lemma split_step:
  assumes s: "in_step a b" and i: "br_initiator a" "\<not> br_initiator b"
    and n: "br_send_cipher a = hsk_cs_init" "br_recv_cipher a = hsk_cs_init" "br_send_cipher b = hsk_cs_init" "br_recv_cipher b = hsk_cs_init"
  obtains a1 a2 b1 b2 where
    "hsk_brontide_split a = Some (a\<lparr>br_send_cipher := a1, br_recv_cipher := a2\<rparr>)"
    "hsk_brontide_split b = Some (b\<lparr>br_send_cipher := b1, br_recv_cipher := b2\<rparr>)"
    "cs_ok a1" "cs_ok a2" "cs_ok b1" "cs_ok b2" "cs_view a1 = cs_view b2" "cs_view b1 = cs_view a2"
proof -
  obtain h1 h2 where h: "hkdf [] (br_chaining_key b) [] = (h1, h2)" by fastforce
  let ?k = "br_chaining_key b"
  have k: "br_chaining_key a = ?k" using s by (simp add: in_step_def)
  show ?thesis
  proof (rule that)
    show "hsk_brontide_split a = Some (a\<lparr>br_send_cipher := hsk_cs_init_saltkey hsk_cs_init ?k h1, br_recv_cipher := hsk_cs_init_saltkey hsk_cs_init ?k h2\<rparr>)"
      using h k i n by (simp add: hsk_brontide_split_def hkdf_hash)
    show "hsk_brontide_split b = Some (b\<lparr>br_send_cipher := hsk_cs_init_saltkey hsk_cs_init ?k h2, br_recv_cipher := hsk_cs_init_saltkey hsk_cs_init ?k h1\<rparr>)"
      using h i n by (simp add: hsk_brontide_split_def hkdf_hash)
  qed simp_all
qed

lemma act_three:
  assumes c: "curve_ok ec" and s: "in_step a b"
    and k: "hsk_ec_verify_privkey ec (br_local_static a)" "br_remote_ephemeral a = pub_of ec (br_local_ephemeral b)"
      "hsk_ec_verify_privkey ec (br_local_ephemeral b)"
    and i: "br_initiator a" "\<not> br_initiator b"
    and n: "br_send_cipher a = hsk_cs_init" "br_recv_cipher a = hsk_cs_init" "br_send_cipher b = hsk_cs_init" "br_recv_cipher b = hsk_cs_init"
  obtains a' b' act where "hsk_brontide_gen_act_three ec a = Some (a', act)" "length act = 65"
    "hsk_brontide_recv_act_three ec b act = Some (True, b')" "br_state a' = br_state a" "br_state b' = br_state b"
    "br_has_size a' = br_has_size a" "br_has_size b' = br_has_size b" "br_remote_static b' = pub_of ec (br_local_static a)"
    "cs_ok (br_send_cipher a')" "cs_ok (br_recv_cipher a')" "cs_ok (br_send_cipher b')" "cs_ok (br_recv_cipher b')"
    "cs_view (br_send_cipher a') = cs_view (br_recv_cipher b')" "cs_view (br_send_cipher b') = cs_view (br_recv_cipher a')"
proof -
  have cc: "curve_keys ec" "curve_ecdh ec" using c by (simp_all add: curve_ok_def)
  let ?p = "pub_of ec (br_local_static a)"
  obtain q where p: "hsk_ec_create_pubkey ec (br_local_static a) = Some ?p" "length ?p = 33" by (rule create_pubkey [OF cc(1) k(1)])
  obtain z where z: "hsk_ec_ecdh ec (pub_of ec (br_local_ephemeral b)) (br_local_static a) = Some z" "hsk_ec_ecdh ec ?p (br_local_ephemeral b) = Some z"
    by (rule ecdh_same [OF cc k(1,3)])
  obtain h ca cb x where e: "hsk_brontide_encrypt a ?p = Some (a\<lparr>br_cs := ca, br_handshake_digest := h\<rparr>, x)"
    "hsk_brontide_decrypt b x (cs_tag ca) = Some (b\<lparr>br_cs := cb, br_handshake_digest := h\<rparr>, ?p)"
    "hsk_cs_verify cb (cs_tag ca)" "length (cs_tag ca) = 16" "length x = length ?p"
    "in_step (a\<lparr>br_cs := ca, br_handshake_digest := h\<rparr>) (b\<lparr>br_cs := cb, br_handshake_digest := h\<rparr>)"
    by (rule seal_step [OF s])
  let ?a = "a\<lparr>br_cs := ca, br_handshake_digest := h\<rparr>" and ?b = "b\<lparr>br_cs := cb, br_handshake_digest := h, br_remote_static := ?p\<rparr>"
  have "in_step ?a ?b" using e(6) by simp
  then obtain kk t g da db where m:
    "hsk_brontide_mix_key ?a z \<bind> (\<lambda>a. hsk_brontide_encrypt a []) =
      Some (?a\<lparr>br_chaining_key := kk, br_temp_key := t, br_cs := da, br_handshake_digest := g\<rparr>, [])"
    "hsk_brontide_mix_key ?b z \<bind> (\<lambda>b. hsk_brontide_decrypt b [] (cs_tag da)) =
      Some (?b\<lparr>br_chaining_key := kk, br_temp_key := t, br_cs := db, br_handshake_digest := g\<rparr>, [])"
    "hsk_cs_verify db (cs_tag da)" "length (cs_tag da) = 16"
    "in_step (?a\<lparr>br_chaining_key := kk, br_temp_key := t, br_cs := da, br_handshake_digest := g\<rparr>)
      (?b\<lparr>br_chaining_key := kk, br_temp_key := t, br_cs := db, br_handshake_digest := g\<rparr>)"
    by (rule key_step)
  define fa where "fa = ?a\<lparr>br_chaining_key := kk, br_temp_key := t, br_cs := da, br_handshake_digest := g\<rparr>"
  define fb where "fb = ?b\<lparr>br_chaining_key := kk, br_temp_key := t, br_cs := db, br_handshake_digest := g\<rparr>"
  obtain a1 a2 b1 b2 where sp: "hsk_brontide_split fa = Some (fa\<lparr>br_send_cipher := a1, br_recv_cipher := a2\<rparr>)"
    "hsk_brontide_split fb = Some (fb\<lparr>br_send_cipher := b1, br_recv_cipher := b2\<rparr>)"
    "cs_ok a1" "cs_ok a2" "cs_ok b1" "cs_ok b2" "cs_view a1 = cs_view b2" "cs_view b1 = cs_view a2"
    by (rule split_step [of fa fb]) (use m(5) i n in \<open>simp_all add: fa_def fb_def\<close>)
  note ma = m(1) [folded fa_def] and mb = m(2) [folded fb_def]
  have tags: "br_cs fa = da" "br_cs fb = db" by (simp_all add: fa_def fb_def)
  show ?thesis
  proof (rule that)
    show "hsk_brontide_gen_act_three ec a = Some (fa\<lparr>br_send_cipher := a1, br_recv_cipher := a2\<rparr>, x @ cs_tag ca @ cs_tag da)"
      using ma z(1) p(1) k(2) e(1) sp(1) tags by (auto simp: hsk_brontide_gen_act_three_def bind_eq_Some_conv)
    show "hsk_brontide_recv_act_three ec b (x @ cs_tag ca @ cs_tag da) = Some (True, fb\<lparr>br_send_cipher := b1, br_recv_cipher := b2\<rparr>)"
      using mb z(2) p(2) e(2,3,4,5) sp(2) m(3,4) tags by (auto simp: hsk_brontide_recv_act_three_def bind_eq_Some_conv)
    show "length (x @ cs_tag ca @ cs_tag da) = 65" using e(4,5) m(4) p(2) by simp
  qed (use sp in \<open>simp_all add: fa_def fb_def\<close>)
qed

lemma act_three_msg:
  assumes c: "curve_ok ec" and s: "in_step a b"
    and k: "hsk_ec_verify_privkey ec (br_local_static a)" "br_remote_ephemeral a = pub_of ec (br_local_ephemeral b)"
      "hsk_ec_verify_privkey ec (br_local_ephemeral b)"
    and i: "br_initiator a" "\<not> br_initiator b"
    and n: "br_send_cipher a = hsk_cs_init" "br_recv_cipher a = hsk_cs_init" "br_send_cipher b = hsk_cs_init" "br_recv_cipher b = hsk_cs_init"
  obtains a' b' act where "hsk_brontide_gen_act_three ec a = Some (a', act)" "length act = 65"
    "hsk_brontide_recv_act_three ec (b\<lparr>br_msg := Some act\<rparr>) act = Some (True, b')"
    "br_has_size a' = br_has_size a" "br_has_size b' = br_has_size b" "br_remote_static b' = pub_of ec (br_local_static a)"
    "cs_ok (br_send_cipher a')" "cs_ok (br_recv_cipher a')" "cs_ok (br_send_cipher b')" "cs_ok (br_recv_cipher b')"
    "cs_view (br_send_cipher a') = cs_view (br_recv_cipher b')" "cs_view (br_send_cipher b') = cs_view (br_recv_cipher a')"
proof -
  obtain a' act where a: "hsk_brontide_gen_act_three ec a = Some (a', act)" "length act = 65"
    by (rule act_three [OF c s k i n])
  show ?thesis
    by (rule act_three [OF c in_step_msg(1) [OF s, of "Some act"]]) (use a k i n in \<open>auto intro!: that\<close>)
qed

section \<open>The handshake completes\<close>

text \<open>What one endpoint sends the other can read, from the first message on.\<close>

definition linked :: "hsk_brontide \<Rightarrow> hsk_brontide \<Rightarrow> bool" where
  "linked a b \<longleftrightarrow> br_state a = BRONTIDE_ACT_DONE \<and> cs_ok (br_send_cipher a) \<and>
     at_header b (cs_view (br_send_cipher a)) \<and> br_msg b = Some []"

lemma start_step:
  assumes "curve_ok ec" and "hsk_ec_verify_privkey ec kr" and "length kr = 32"
  obtains a b where "hsk_brontide_connect ec hsk_brontide_init ki (pub_of ec kr) = Some (HSK_SUCCESS, a)"
    "hsk_brontide_init_brontide ec hsk_brontide_init False kr None = Some b" "in_step a b"
    "br_initiator a" "\<not> br_initiator b" "br_local_static a = take 32 ki" "br_local_static b = kr" "br_remote_static a = pub_of ec kr"
    "\<not> br_has_size a" "\<not> br_has_size b" "br_send_cipher a = hsk_cs_init" "br_recv_cipher a = hsk_cs_init"
    "br_send_cipher b = hsk_cs_init" "br_recv_cipher b = hsk_cs_init"
proof -
  have p: "hsk_ec_create_pubkey ec kr = Some (pub_of ec kr)" "length (pub_of ec kr) = 33"
    by (rule create_pubkey [of ec kr]; use assms in \<open>simp add: curve_ok_def\<close>)+
  define A where "A = hsk_brontide_mix_hash (hsk_brontide_init_sym (hsk_brontide_init\<lparr>br_initiator := True, br_local_static := take 32 ki,
      br_remote_static := pub_of ec kr\<rparr>) brontide_protocol_name) brontide_prologue"
  define B where "B = hsk_brontide_mix_hash (hsk_brontide_init_sym (hsk_brontide_init\<lparr>br_initiator := False, br_local_static := kr,
      br_remote_static := replicate 33 0\<rparr>) brontide_protocol_name) brontide_prologue"
  show ?thesis
  proof (rule that)
    show "hsk_brontide_connect ec hsk_brontide_init ki (pub_of ec kr) = Some (HSK_SUCCESS, hsk_brontide_mix_hash A (pub_of ec kr))"
      using p by (simp add: hsk_brontide_connect_def hsk_brontide_init_brontide_def hsk_brontide_init_state_def A_def)
    show "hsk_brontide_init_brontide ec hsk_brontide_init False kr None = Some (hsk_brontide_mix_hash B (pub_of ec kr))"
      using p assms(3) by (simp add: hsk_brontide_init_brontide_def hsk_brontide_init_state_def B_def)
    show "in_step (hsk_brontide_mix_hash A (pub_of ec kr)) (hsk_brontide_mix_hash B (pub_of ec kr))"
      unfolding A_def B_def by (intro mix_hash_step) (simp add: in_step_def hsk_brontide_init_sym_def hsk_brontide_init_def Let_def)
  qed (simp_all add: A_def B_def hsk_brontide_init_sym_def hsk_brontide_init_def Let_def)
qed

lemma on_reads_act:
  assumes "br_state b \<noteq> BRONTIDE_ACT_NONE" and "br_msg b = Some []" and "0 < br_msg_len b" and "concat ds = act" and "length act = br_msg_len b"
    and "hsk_brontide_parse ec cb (b\<lparr>br_msg := Some act\<rparr>) act e s = Some (HSK_SUCCESS, n, b', e', s')"
    and "br_state b' \<noteq> BRONTIDE_ACT_NONE" and "n \<noteq> 0"
  shows "on_reads ec cb b ds e s = Some (HSK_SUCCESS, b'\<lparr>br_msg := Some [], br_msg_len := n\<rparr>, e', s')"
  using assms by (subst on_reads_concat) (auto simp: buffer_ok_def hsk_brontide_on_read_def loop_full loop_turn_def loop_short)

lemma in_step_sym: "in_step a b \<Longrightarrow> in_step b a"
  by (auto simp: in_step_def)

lemma kept_fields: "kept b b' \<Longrightarrow> br_initiator b' = br_initiator b" "kept b b' \<Longrightarrow> br_local_static b' = br_local_static b"
  "kept b b' \<Longrightarrow> br_state b' = br_state b" "kept b b' \<Longrightarrow> br_has_size b' = br_has_size b"
  "kept b b' \<Longrightarrow> br_send_cipher b' = br_send_cipher b" "kept b b' \<Longrightarrow> br_recv_cipher b' = br_recv_cipher b"
  by (simp_all add: kept_def)

text \<open>
  C12. An initiator that knows the responder's key and a responder, both fresh and with randomness left,
  complete the handshake whatever way the three acts are cut into chunks: no assertion fails, both
  owners are told, the responder learns the initiator's key, and each side reads what the other sends.
\<close>

theorem brontide_handshake:
  assumes "curve_ok ec" and "hsk_ec_verify_privkey ec ki" and "length ki = 32" and "hsk_ec_verify_privkey ec kr" and "length kr = 32"
    and "draws ec e x u e'" and "draws ec f y w f'"
  shows "\<exists>a0 a1 act1 b1 act2 b2 act3 a2 b3.
    hsk_brontide_connect ec hsk_brontide_init ki (pub_of ec kr) = Some (HSK_SUCCESS, a0) \<and>
    hsk_brontide_on_connect ec tape_cb a0 e ta = Some (HSK_SUCCESS, a1, e', ta\<lparr>tp_out := tp_out ta @ act1\<rparr>) \<and>
    hsk_brontide_accept ec tape_cb hsk_brontide_init kr f tb = Some (HSK_SUCCESS, b1, f, tb) \<and>
    (\<forall>ds. concat ds = act1 \<longrightarrow> on_reads ec tape_cb b1 ds f tb = Some (HSK_SUCCESS, b2, f', tb\<lparr>tp_out := tp_out tb @ act2\<rparr>)) \<and>
    (\<forall>ds. concat ds = act2 \<longrightarrow> on_reads ec tape_cb a1 ds e' ta = Some (HSK_SUCCESS, a2, e', ta\<lparr>tp_out := tp_out ta @ act3, tp_up := True\<rparr>)) \<and>
    (\<forall>ds. concat ds = act3 \<longrightarrow> on_reads ec tape_cb b2 ds f' tb = Some (HSK_SUCCESS, b3, f', tb\<lparr>tp_up := True\<rparr>)) \<and>
    br_remote_static b3 = pub_of ec ki \<and> linked a2 b3 \<and> linked b3 a2"
proof -
  obtain a0 b0 where i: "hsk_brontide_connect ec hsk_brontide_init ki (pub_of ec kr) = Some (HSK_SUCCESS, a0)"
    "hsk_brontide_init_brontide ec hsk_brontide_init False kr None = Some b0" "in_step a0 b0"
    "br_initiator a0" "\<not> br_initiator b0" "br_local_static a0 = take 32 ki" "br_local_static b0 = kr" "br_remote_static a0 = pub_of ec kr"
    "\<not> br_has_size a0" "\<not> br_has_size b0" "br_send_cipher a0 = hsk_cs_init" "br_recv_cipher a0 = hsk_cs_init"
    "br_send_cipher b0 = hsk_cs_init" "br_recv_cipher b0 = hsk_cs_init"
    by (rule start_step [OF assms(1,4,5)])
  let ?a0 = "a0\<lparr>br_state := BRONTIDE_ACT_TWO\<rparr>"
  define b1 where "b1 = b0\<lparr>br_state := BRONTIDE_ACT_ONE, br_msg := Some [], br_msg_len := 80\<rparr>"
  have b1: "hsk_brontide_accept ec tape_cb hsk_brontide_init kr f tb = Some (HSK_SUCCESS, b1, f, tb)"
    using i(2,5) by (simp add: hsk_brontide_accept_def hsk_brontide_on_connect_def b1_def BRONTIDE_ACT_ONE_SIZE_def)
  obtain a1' b2' act1 where one: "hsk_brontide_gen_act_one ec ?a0 e = Some (a1', act1, e')" "length act1 = 80" "kept ?a0 a1'" "kept b1 b2'"
    "hsk_brontide_recv_act_one ec (b1\<lparr>br_msg := Some act1\<rparr>) act1 = Some (True, b2')" "in_step a1' b2'"
    "br_local_ephemeral a1' = x" "br_remote_ephemeral b2' = pub_of ec x"
    by (rule act_one_msg [OF assms(1,6), of ?a0 b1]) (use i assms(4) in \<open>simp_all add: b1_def\<close>)
  have x: "hsk_ec_verify_privkey ec x" and y: "hsk_ec_verify_privkey ec y"
    using draws_ephemeral(2) [OF assms(1,6)] draws_ephemeral(2) [OF assms(1,7)] by simp_all
  define a1 where "a1 = a1'\<lparr>br_msg := Some [], br_msg_len := 80\<rparr>"
  have a1: "hsk_brontide_on_connect ec tape_cb a0 e ta = Some (HSK_SUCCESS, a1, e', ta\<lparr>tp_out := tp_out ta @ act1\<rparr>)"
    using i(4) one(1) by (simp add: hsk_brontide_on_connect_def tape_cb_def a1_def BRONTIDE_ACT_TWO_SIZE_def)
  obtain a2' b3' act2 where two: "hsk_brontide_gen_act_two ec b2' f = Some (b3', act2, f')" "length act2 = 80" "kept a1 a2'" "kept b2' b3'"
    "hsk_brontide_recv_act_two ec (a1\<lparr>br_msg := Some act2\<rparr>) act2 = Some (True, a2')" "in_step b3' a2'"
    "br_local_ephemeral b3' = y" "br_remote_ephemeral a2' = pub_of ec y"
    by (rule act_two_msg [OF assms(1,7), of b2' a1]) (use one x in \<open>simp_all add: a1_def in_step_sym\<close>)
  note ab = i(4,5,6,7,9-14) kept_fields [OF one(3)] kept_fields [OF one(4)] kept_fields [OF two(3)] kept_fields [OF two(4)]
  define b2 where "b2 = b3'\<lparr>br_state := BRONTIDE_ACT_THREE, br_msg := Some [], br_msg_len := 65\<rparr>"
  obtain a3' b4' act3 where three: "hsk_brontide_gen_act_three ec a2' = Some (a3', act3)" "length act3 = 65"
    "hsk_brontide_recv_act_three ec (b2\<lparr>br_msg := Some act3\<rparr>) act3 = Some (True, b4')" "br_has_size a3' = br_has_size a2'" "br_has_size b4' = br_has_size b2"
    "br_remote_static b4' = pub_of ec (br_local_static a2')"
    "cs_ok (br_send_cipher a3')" "cs_ok (br_recv_cipher a3')" "cs_ok (br_send_cipher b4')" "cs_ok (br_recv_cipher b4')"
    "cs_view (br_send_cipher a3') = cs_view (br_recv_cipher b4')" "cs_view (br_send_cipher b4') = cs_view (br_recv_cipher a3')"
    by (rule act_three_msg [OF assms(1), of a2' b2]) (use two ab y assms(2,3) in \<open>simp_all add: a1_def b1_def b2_def in_step_sym\<close>)
  define a2 where "a2 = a3'\<lparr>br_state := BRONTIDE_ACT_DONE, br_msg := Some [], br_msg_len := 20\<rparr>"
  define b3 where "b3 = b4'\<lparr>br_state := BRONTIDE_ACT_DONE, br_msg := Some [], br_msg_len := 20\<rparr>"
  have "on_reads ec tape_cb b1 ds f tb = Some (HSK_SUCCESS, b2, f', tb\<lparr>tp_out := tp_out tb @ act2\<rparr>)" if "concat ds = act1" for ds
    unfolding b2_def
    by (rule on_reads_act [where act = act1 and b' = "b3'\<lparr>br_state := BRONTIDE_ACT_THREE\<rparr>" and n = 65, simplified])
      (use that one(2,5) two(1) ab in \<open>simp_all add: b1_def hsk_brontide_parse_def BRONTIDE_ACT_ONE_SIZE_def BRONTIDE_ACT_THREE_SIZE_def tape_cb_def\<close>)
  moreover have "on_reads ec tape_cb a1 ds e' ta = Some (HSK_SUCCESS, a2, e', ta\<lparr>tp_out := tp_out ta @ act3, tp_up := True\<rparr>)" if "concat ds = act2" for ds
    unfolding a2_def
    by (rule on_reads_act [where act = act2 and b' = "a3'\<lparr>br_state := BRONTIDE_ACT_DONE\<rparr>" and n = 20, simplified])
      (use that two(2,5) three(1) ab in \<open>simp_all add: a1_def hsk_brontide_parse_def BRONTIDE_ACT_TWO_SIZE_def BRONTIDE_HEADER_SIZE_def tape_cb_def\<close>)
  moreover have "on_reads ec tape_cb b2 ds f' tb = Some (HSK_SUCCESS, b3, f', tb\<lparr>tp_up := True\<rparr>)" if "concat ds = act3" for ds
    unfolding b3_def
    by (rule on_reads_act [where act = act3 and b' = "b4'\<lparr>br_state := BRONTIDE_ACT_DONE\<rparr>" and n = 20, simplified])
      (use that three(2,3) ab in \<open>simp_all add: b2_def b1_def hsk_brontide_parse_def BRONTIDE_ACT_THREE_SIZE_def BRONTIDE_HEADER_SIZE_def tape_cb_def\<close>)
  moreover have "linked a2 b3" "linked b3 a2" "br_remote_static b3 = pub_of ec ki"
    using three ab assms(3) by (simp_all add: linked_def at_header_def a2_def b3_def b2_def a1_def b1_def)
  ultimately show ?thesis using i(1) a1 b1 by blast
qed

text \<open>
  C15. The responder trusts the third act too much: an initiator in step with it that seals octets which
  are no point of the curve in the place of its key makes the assertion on the shared secret fail, and
  the process stops.
\<close>

theorem act_three_abort:
  assumes "in_step a b" and "br_state b = BRONTIDE_ACT_THREE" and "\<not> br_initiator b" and "br_msg b = Some []" and "br_msg_len b = 65"
    and "length x = 33" and "\<not> hsk_ec_verify_pubkey ec x" and "hsk_brontide_encrypt a x = Some (a', c)" and "length t = 16"
  shows "hsk_brontide_on_read ec cb b (c @ cs_tag (br_cs a') @ t) e s = None"
proof -
  let ?act = "c @ cs_tag (br_cs a') @ t"
  have "in_step a (b\<lparr>br_msg := Some ?act\<rparr>)" using assms(1) by simp
  then obtain h ca cb z where z: "hsk_brontide_encrypt a x = Some (a\<lparr>br_cs := ca, br_handshake_digest := h\<rparr>, z)"
    "hsk_brontide_decrypt (b\<lparr>br_msg := Some ?act\<rparr>) z (cs_tag ca) = Some (b\<lparr>br_msg := Some ?act, br_cs := cb, br_handshake_digest := h\<rparr>, x)"
    "hsk_cs_verify cb (cs_tag ca)" "length (cs_tag ca) = 16" "length z = length x"
    by (rule seal_step)
  have "c = z" "br_cs a' = ca" using z(1) assms(8) by auto
  then have d: "hsk_brontide_decrypt (b\<lparr>br_msg := Some ?act\<rparr>) c (cs_tag (br_cs a')) =
      Some (b\<lparr>br_msg := Some ?act, br_cs := cb, br_handshake_digest := h\<rparr>, x)"
    "hsk_cs_verify cb (cs_tag (br_cs a'))" "length c = 33" "length (cs_tag (br_cs a')) = 16"
    using z assms(6) by simp_all
  have "hsk_ec_ecdh ec x k = None" for k
    using assms(7) by (simp add: hsk_ec_ecdh_def hsk_ec_verify_pubkey_def)
  then have "hsk_brontide_recv_act_three ec (b\<lparr>br_msg := Some ?act\<rparr>) ?act = None"
    using d by (simp add: hsk_brontide_recv_act_three_def)
  then show ?thesis using assms d(3,4)
    by (simp add: hsk_brontide_on_read_def loop_full loop_turn_def hsk_brontide_parse_def BRONTIDE_ACT_THREE_SIZE_def)
qed

section \<open>A curve for the examples\<close>

text \<open>Keys are octets other than zero and the shared secret is their product, which does not depend on the order.\<close>

definition small_curve :: "u8 secp" where
  "small_curve =
     \<lparr>secp_seckey_verify = (\<lambda>k. length k = 32 \<and> k ! 0 \<noteq> 0),
      secp_pubkey_create = (\<lambda>k. Some (k ! 0)),
      secp_pubkey_parse = (\<lambda>b. if length b = 33 \<and> b ! 0 = 2 then Some (b ! 1) else None),
      secp_pubkey_serialize = (\<lambda>p. Some (2 # p # replicate 31 0)),
      secp_ecdh = (\<lambda>p k. Some (replicate 32 (p * k ! 0))),
      secp_pubkey_to_hash = (\<lambda>p r. Some (p # replicate 63 0)),
      secp_pubkey_from_hash = (\<lambda>h. Some (h ! 0)),
      secp_sign_recoverable = (\<lambda>m k. None), secp_verify_compact = (\<lambda>s m p. False), secp_signature_parse = (\<lambda>s. False),
      secp_recoverable_parse = (\<lambda>s r. False), secp_recover = (\<lambda>s r m. None)\<rparr>"

lemma small_curve_ok: "curve_ok small_curve"
  by (auto simp: curve_ok_def curve_keys_def curve_ecdh_def curve_hash_def small_curve_def mult.commute)

lemma small_curve_draws: "draws small_curve [replicate 32 5, []] (replicate 32 5) (5 # replicate 63 0) []"
proof -
  have "hsk_ec_create_privkey small_curve [replicate 32 5, []] = (Some (replicate 32 5), [[]])"
    unfolding hsk_ec_create_privkey_def
    by (subst privkey_loop.simps, subst privkey_loop.simps) (simp add: small_curve_def hsk_ec_verify_privkey_def hsk_randombytes_def)
  then show ?thesis
    by (simp add: draws_def pub_of_def hsk_ec_create_pubkey_def serialize_key_def hsk_ec_pubkey_to_hash_def small_curve_def hsk_randombytes_def)
qed

theorem brontide_handshake_witness:
  "\<exists>a0 a1 act1 b1 act2 b2 act3 a2 b3.
    hsk_brontide_connect small_curve hsk_brontide_init (replicate 32 3) (pub_of small_curve (replicate 32 9)) = Some (HSK_SUCCESS, a0) \<and>
    hsk_brontide_on_connect small_curve tape_cb a0 [replicate 32 5, []] \<lparr>tp_out = [], tp_up = False, tp_got = []\<rparr> =
      Some (HSK_SUCCESS, a1, [], \<lparr>tp_out = act1, tp_up = False, tp_got = []\<rparr>) \<and>
    hsk_brontide_accept small_curve tape_cb hsk_brontide_init (replicate 32 9) [replicate 32 5, []] \<lparr>tp_out = [], tp_up = False, tp_got = []\<rparr> =
      Some (HSK_SUCCESS, b1, [replicate 32 5, []], \<lparr>tp_out = [], tp_up = False, tp_got = []\<rparr>) \<and>
    (\<forall>ds. concat ds = act1 \<longrightarrow> on_reads small_curve tape_cb b1 ds [replicate 32 5, []] \<lparr>tp_out = [], tp_up = False, tp_got = []\<rparr> =
      Some (HSK_SUCCESS, b2, [], \<lparr>tp_out = act2, tp_up = False, tp_got = []\<rparr>)) \<and>
    (\<forall>ds. concat ds = act2 \<longrightarrow> on_reads small_curve tape_cb a1 ds [] \<lparr>tp_out = [], tp_up = False, tp_got = []\<rparr> =
      Some (HSK_SUCCESS, a2, [], \<lparr>tp_out = act3, tp_up = True, tp_got = []\<rparr>)) \<and>
    (\<forall>ds. concat ds = act3 \<longrightarrow> on_reads small_curve tape_cb b2 ds [] \<lparr>tp_out = [], tp_up = False, tp_got = []\<rparr> =
      Some (HSK_SUCCESS, b3, [], \<lparr>tp_out = [], tp_up = True, tp_got = []\<rparr>)) \<and>
    br_remote_static b3 = pub_of small_curve (replicate 32 3) \<and> linked a2 b3 \<and> linked b3 a2"
  using brontide_handshake [OF small_curve_ok _ _ _ _ small_curve_draws small_curve_draws, of "replicate 32 3" "replicate 32 9"
      "\<lparr>tp_out = [], tp_up = False, tp_got = []\<rparr>" "\<lparr>tp_out = [], tp_up = False, tp_got = []\<rparr>"]
  by (simp add: small_curve_def hsk_ec_verify_privkey_def)

text \<open>An endpoint as the handshake leaves it.\<close>

definition done_endpoint :: hsk_brontide where
  "done_endpoint = hsk_brontide_init\<lparr>br_state := BRONTIDE_ACT_DONE, br_msg := Some [], br_msg_len := 20\<rparr>"

lemma done_endpoint:
  "br_state done_endpoint = BRONTIDE_ACT_DONE" "cs_ok (br_send_cipher done_endpoint)" "br_msg done_endpoint = Some []"
  "at_header done_endpoint (cs_view hsk_cs_init)" "br_send_cipher done_endpoint = hsk_cs_init"
  by (simp_all add: done_endpoint_def hsk_brontide_init_def at_header_def)

theorem brontide_exact_witness:
  "\<exists>ps rest r b'. on_reads small_curve tape_cb done_endpoint [[1, 2], [3]] [] \<lparr>tp_out = [], tp_up = True, tp_got = []\<rparr> =
      Some (r, b', [], \<lparr>tp_out = [], tp_up = True, tp_got = ps\<rparr>) \<and>
    concat [[1, 2], [3]] = brontide_frames (cs_view hsk_cs_init) ps @ rest"
  using brontide_exact [OF done_endpoint(4,3), of small_curve "[[1, 2], [3]]" "[]" "\<lparr>tp_out = [], tp_up = True, tp_got = []\<rparr>"]
  by simp blast

theorem brontide_transport_witness:
  "\<exists>r a' t'. tape_writes [[1, 2], []] done_endpoint \<lparr>tp_out = [], tp_up = True, tp_got = []\<rparr> = Some (r, a', t') \<and> r = HSK_SUCCESS \<and>
    (\<exists>b'. on_reads small_curve tape_cb done_endpoint [tp_out t'] [] \<lparr>tp_out = [], tp_up = True, tp_got = []\<rparr> =
       Some (HSK_SUCCESS, b', [], \<lparr>tp_out = [], tp_up = True, tp_got = [[1, 2], []]\<rparr>))"
proof -
  let ?t = "\<lparr>tp_out = [], tp_up = True, tp_got = []\<rparr>"
  obtain c where w: "tape_writes [[1, 2], []] done_endpoint ?t =
      Some (HSK_SUCCESS, done_endpoint\<lparr>br_send_cipher := c\<rparr>, ?t\<lparr>tp_out := [] @ brontide_frames (cs_view hsk_cs_init) [[1, 2], []]\<rparr>)"
    using writes_frames [OF done_endpoint(1,2) refl, of "[[1, 2], []]" ?t] by (auto simp: done_endpoint(5))
  show ?thesis
    using brontide_transport [OF done_endpoint(1,2) _ done_endpoint(3) _ w, of "[brontide_frames (cs_view hsk_cs_init) [[1, 2], []]]" small_curve "[]" ?t]
      done_endpoint(4,5) w by (auto simp: max_message_def HSK_MAX_MESSAGE_def)
qed

theorem act_three_abort_witness:
  "\<exists>a' c. hsk_brontide_encrypt hsk_brontide_init (replicate 33 0) = Some (a', c) \<and>
    hsk_brontide_on_read small_curve tape_cb (hsk_brontide_init\<lparr>br_state := BRONTIDE_ACT_THREE, br_msg := Some [], br_msg_len := 65\<rparr>)
      (c @ cs_tag (br_cs a') @ replicate 16 0) [] \<lparr>tp_out = [], tp_up = False, tp_got = []\<rparr> = None"
proof -
  let ?b = "hsk_brontide_init\<lparr>br_state := BRONTIDE_ACT_THREE, br_msg := Some [], br_msg_len := 65\<rparr>"
  have s: "in_step hsk_brontide_init hsk_brontide_init" by (simp add: in_step_def hsk_brontide_init_def)
  obtain a' c where e: "hsk_brontide_encrypt hsk_brontide_init (replicate 33 0) = Some (a', c)" by (rule seal_step [OF s])
  have "in_step hsk_brontide_init ?b" using s by simp
  from act_three_abort [OF this _ _ _ _ _ _ e, of small_curve "replicate 16 0" tape_cb] e
  show ?thesis by (auto simp: hsk_brontide_init_def small_curve_def hsk_ec_verify_pubkey_def)
qed

end
