(* ===== verification/Addrman.thy ===== *)
theory Addrman
  imports Addr Timedata Network "HOL-Library.Stream" Complex_Main
begin

text \<open>
  \<^verbatim>\<open>addrmgr.c\<close>: the addresses of peers the program knows. The array of entries is a list, so its size
  is \<^verbatim>\<open>am->size\<close>; the map from addresses to entries gives their positions. Random numbers are a stream
  of words, \<open>clock\<close> is the system's time and \<open>None\<close> a failed assertion.

  Times of entries are unsigned 64-bit numbers and differences with them are computed as such.
\<close>

section \<open>State\<close>

record hsk_addrentry =
  en_addr :: hsk_addr
  en_time :: u64
  en_services :: u64
  en_attempts :: int
  en_last_success :: int
  en_last_attempt :: int
  en_ref_count :: int
  en_used :: bool
  en_removed :: bool

record hsk_banned =
  ba_addr :: hsk_addr
  ba_time :: int

record hsk_addrman =
  am_td :: hsk_timedata
  am_addrs :: "hsk_addrentry list"
  am_map :: "(addr_id, nat) table"
  am_banned :: "(addr_id, hsk_banned) table"

definition HSK_ADDR_MAX :: nat where "HSK_ADDR_MAX = 2000"
definition HSK_HORIZON_DAYS :: u64 where "HSK_HORIZON_DAYS = 30"
definition HSK_RETRIES :: int where "HSK_RETRIES = 3"
definition HSK_MIN_FAIL_DAYS :: int where "HSK_MIN_FAIL_DAYS = 7"
definition HSK_MAX_FAILURES :: int where "HSK_MAX_FAILURES = 10"
definition HSK_MAX_REFS :: int where "HSK_MAX_REFS = 8"
definition HSK_BAN_TIME :: int where "HSK_BAN_TIME = 24 * 60 * 60"

definition hsk_addrman_is_stale :: "int \<Rightarrow> hsk_addrman \<Rightarrow> hsk_addrentry \<Rightarrow> bool" where
  "hsk_addrman_is_stale clock am entry =
     (let now = hsk_timedata_now clock (am_td am)
      in if en_last_attempt entry \<noteq> 0 \<and> en_last_attempt entry \<ge> now - 60 then False
         else if en_time entry > of_int (now + 10 * 60) then True
         else if en_time entry = 0 then True
         else if of_int now - en_time entry > HSK_HORIZON_DAYS * 24 * 60 * 60 then True
         else if en_last_success entry = 0 \<and> en_attempts entry \<ge> HSK_RETRIES then True
         else now - en_last_success entry > HSK_MIN_FAIL_DAYS * 24 * 60 * 60 \<and> en_attempts entry \<ge> HSK_MAX_FAILURES)"

section \<open>Entries\<close>

text \<open>Up to ten random positions, until one holds a stale entry.\<close>

fun stale_slot :: "nat \<Rightarrow> int \<Rightarrow> hsk_addrman \<Rightarrow> u32 stream \<Rightarrow> nat option \<times> u32 stream" where
  "stale_slot 0 clock am rs = (None, rs)"
| "stale_slot (Suc n) clock am rs =
     (let index = unat (shd rs) mod length (am_addrs am)
      in if hsk_addrman_is_stale clock am (am_addrs am ! index) then (Some index, stl rs)
         else stale_slot n clock am (stl rs))"

definition hsk_addrentry_zero :: hsk_addrentry where
  "hsk_addrentry_zero = \<lparr>en_addr = hsk_addr_init, en_time = 0, en_services = 0, en_attempts = 0, en_last_success = 0, en_last_attempt = 0,
     en_ref_count = 0, en_used = False, en_removed = False\<rparr>"

text \<open>The position of the entry to fill and whether it is a new one.\<close>

definition hsk_addrman_alloc_entry ::
  "int \<Rightarrow> hsk_addrman \<Rightarrow> u32 stream \<Rightarrow> ((nat \<times> bool) option \<times> hsk_addrman \<times> u32 stream) option" where
  "hsk_addrman_alloc_entry clock am rs =
     (if length (am_addrs am) = HSK_ADDR_MAX then
        (case stale_slot (min (length (am_addrs am)) 10) clock am rs of
           (None, rs) \<Rightarrow> Some (None, am, rs)
         | (Some index, rs) \<Rightarrow>
             Some (Some (index, False), am\<lparr>am_map := tbl_del (am_map am) (addr_id (en_addr (am_addrs am ! index)))\<rparr>, rs))
      else if \<not> length (am_addrs am) < HSK_ADDR_MAX then None
      else Some (Some (length (am_addrs am), True), am\<lparr>am_addrs := am_addrs am @ [hsk_addrentry_zero]\<rparr>, rs))"

definition hsk_addrman_get :: "hsk_addrman \<Rightarrow> hsk_addr \<Rightarrow> nat option" where
  "hsk_addrman_get am addr = tbl_get (am_map am) (addr_id addr)"

definition set_entry :: "nat \<Rightarrow> (hsk_addrentry \<Rightarrow> hsk_addrentry) \<Rightarrow> hsk_addrman \<Rightarrow> hsk_addrman" where
  "set_entry i f am = am\<lparr>am_addrs := (am_addrs am)[i := f (am_addrs am ! i)]\<rparr>"

text \<open>The branch of \<^verbatim>\<open>hsk_addrman_add_entry\<close> for an address that is known.\<close>

definition add_known ::
  "int \<Rightarrow> hsk_addrman \<Rightarrow> nat \<Rightarrow> hsk_netaddr \<Rightarrow> bool \<Rightarrow> u32 stream \<Rightarrow> (bool \<times> hsk_addrman \<times> u32 stream) option" where
  "add_known clock am i na src rs =
     (let now = hsk_timedata_now clock (am_td am);
          penalty = (if \<not> src then 0 else 2 * 60 * 60);
          interval = (if of_int now - na_time na < 24 * 60 * 60 then 60 * 60 else 24 * 60 * 60);
          am = set_entry i (\<lambda>entry. entry\<lparr>en_services := en_services entry OR na_services na\<rparr>) am;
          am = set_entry i (\<lambda>entry. if en_time entry < na_time na - interval - penalty then entry\<lparr>en_time := na_time na\<rparr> else entry) am;
          entry = am_addrs am ! i
      in if en_time entry \<noteq> 0 \<and> na_time na \<le> en_time entry then Some (False, am, rs)
         else if en_used entry then Some (False, am, rs)
         else if \<not> en_ref_count entry > 0 then None
         else if en_ref_count entry = HSK_MAX_REFS then Some (False, am, rs)
         else if \<not> en_ref_count entry < HSK_MAX_REFS then None
         else
           let factor = ((\<lambda>f. f * 2) ^^ nat (en_ref_count entry)) (1 :: u32)
           in if factor = 0 then Some (False, am, rs)
              else if shd rs mod factor \<noteq> 0 then Some (False, am, stl rs)
              else Some (True, set_entry i (\<lambda>entry. entry\<lparr>en_ref_count := en_ref_count entry + 1\<rparr>) am, stl rs))"

definition new_entry :: "hsk_netaddr \<Rightarrow> hsk_addrentry" where
  "new_entry na = \<lparr>en_addr = na_addr na, en_time = na_time na, en_services = na_services na, en_attempts = 0, en_last_success = 0,
     en_last_attempt = 0, en_ref_count = 1, en_used = False, en_removed = False\<rparr>"

text \<open>\<open>mem\<close> is whether the map gets the memory it needs.\<close>

definition hsk_addrman_add_entry ::
  "bool \<Rightarrow> int \<Rightarrow> hsk_addrman \<Rightarrow> hsk_netaddr \<Rightarrow> bool \<Rightarrow> u32 stream \<Rightarrow> (bool \<times> hsk_addrman \<times> u32 stream) option" where
  "hsk_addrman_add_entry mem clock am na src rs =
     (case hsk_addrman_get am (na_addr na) of
        Some i \<Rightarrow> add_known clock am i na src rs
      | None \<Rightarrow> do {
          (slot, am, rs) \<leftarrow> hsk_addrman_alloc_entry clock am rs;
          case slot of
            None \<Rightarrow> Some (False, am, rs)
          | Some (i, alloc) \<Rightarrow>
              let am = set_entry i (\<lambda>_. new_entry na) am;
                  (ok, m) = tbl_set mem (am_map am) (addr_id (na_addr na)) i
              in if \<not> ok then Some (False, if alloc then am\<lparr>am_addrs := butlast (am_addrs am)\<rparr> else am, rs)
                 else Some (True, am\<lparr>am_map := m\<rparr>, rs) })"

definition hsk_addrman_add_addr ::
  "bool \<Rightarrow> int \<Rightarrow> hsk_addrman \<Rightarrow> hsk_addr \<Rightarrow> u32 stream \<Rightarrow> (bool \<times> hsk_addrman \<times> u32 stream) option" where
  "hsk_addrman_add_addr mem clock am addr rs =
     hsk_addrman_add_entry mem clock am \<lparr>na_time = of_int (hsk_timedata_now clock (am_td am)), na_services = 1, na_addr = addr\<rparr> False rs"

definition hsk_addrman_add_na ::
  "bool \<Rightarrow> int \<Rightarrow> hsk_addrman \<Rightarrow> hsk_netaddr \<Rightarrow> u32 stream \<Rightarrow> (bool \<times> hsk_addrman \<times> u32 stream) option" where
  "hsk_addrman_add_na mem clock am na rs = hsk_addrman_add_entry mem clock am na True rs"

definition hsk_addrman_add_sa ::
  "bool \<Rightarrow> int \<Rightarrow> hsk_addrman \<Rightarrow> sockaddr \<Rightarrow> u32 stream \<Rightarrow> (bool \<times> hsk_addrman \<times> u32 stream) option" where
  "hsk_addrman_add_sa mem clock am sa rs =
     (case hsk_addr_from_sa sa of (ok, addr) \<Rightarrow>
        if \<not> ok then Some (False, am, rs)
        else hsk_addrman_add_entry mem clock am \<lparr>na_time = of_int (hsk_timedata_now clock (am_td am)), na_services = 1, na_addr = addr\<rparr> False rs)"

definition hsk_addrman_add_ip ::
  "bool \<Rightarrow> int \<Rightarrow> hsk_addrman \<Rightarrow> family \<Rightarrow> bytes \<Rightarrow> u16 \<Rightarrow> u32 stream \<Rightarrow> (bool \<times> hsk_addrman \<times> u32 stream) option" where
  "hsk_addrman_add_ip mem clock am af ip port rs =
     (case hsk_addr_from_ip af ip port of (ok, addr) \<Rightarrow>
        if \<not> ok then Some (False, am, rs)
        else hsk_addrman_add_entry mem clock am \<lparr>na_time = of_int (hsk_timedata_now clock (am_td am)), na_services = 1, na_addr = addr\<rparr> False rs)"

text \<open>The addresses of \<^verbatim>\<open>seeds.h\<close>, once parsed, are an argument.\<close>

fun add_seeds :: "int \<Rightarrow> hsk_addrman \<Rightarrow> hsk_addr list \<Rightarrow> u32 stream \<Rightarrow> (hsk_addrman \<times> u32 stream) option" where
  "add_seeds clock am [] rs = Some (am, rs)"
| "add_seeds clock am (seed # seeds) rs = do {
     (ok, am, rs) \<leftarrow> hsk_addrman_add_addr True clock am seed rs;
     if \<not> ok then None else add_seeds clock am seeds rs }"

definition hsk_addrman_init :: "int \<Rightarrow> hsk_timedata \<Rightarrow> hsk_addr list \<Rightarrow> u32 stream \<Rightarrow> (hsk_addrman \<times> u32 stream) option" where
  "hsk_addrman_init clock td seeds rs = add_seeds clock \<lparr>am_td = td, am_addrs = [], am_map = [], am_banned = []\<rparr> seeds rs"

definition on_entry :: "hsk_addrman \<Rightarrow> hsk_addr \<Rightarrow> (hsk_addrentry \<Rightarrow> bool \<times> hsk_addrentry) \<Rightarrow> bool \<times> hsk_addrman" where
  "on_entry am addr f =
     (case hsk_addrman_get am addr of
        None \<Rightarrow> (False, am)
      | Some i \<Rightarrow> (fst (f (am_addrs am ! i)), set_entry i (\<lambda>e. snd (f e)) am))"

definition hsk_addrman_remove_addr :: "hsk_addrman \<Rightarrow> hsk_addr \<Rightarrow> bool \<times> hsk_addrman" where
  "hsk_addrman_remove_addr am addr = on_entry am addr (\<lambda>entry. (True, entry\<lparr>en_removed := True\<rparr>))"

definition hsk_addrman_mark_attempt :: "int \<Rightarrow> hsk_addrman \<Rightarrow> hsk_addr \<Rightarrow> bool \<times> hsk_addrman" where
  "hsk_addrman_mark_attempt clock am addr =
     on_entry am addr (\<lambda>entry. (True, entry\<lparr>en_attempts := en_attempts entry + 1, en_last_attempt := hsk_timedata_now clock (am_td am)\<rparr>))"

definition hsk_addrman_mark_success :: "int \<Rightarrow> hsk_addrman \<Rightarrow> hsk_addr \<Rightarrow> bool \<times> hsk_addrman" where
  "hsk_addrman_mark_success clock am addr =
     (let now = hsk_timedata_now clock (am_td am)
      in on_entry am addr (\<lambda>entry. if of_int now - en_time entry > 20 * 60 then (True, entry\<lparr>en_time := of_int now\<rparr>) else (False, entry)))"

definition hsk_addrman_mark_ack :: "int \<Rightarrow> hsk_addrman \<Rightarrow> hsk_addr \<Rightarrow> u64 \<Rightarrow> bool \<times> hsk_addrman" where
  "hsk_addrman_mark_ack clock am addr services =
     (let now = hsk_timedata_now clock (am_td am)
      in on_entry am addr (\<lambda>entry. (True, entry\<lparr>en_services := en_services entry OR services, en_last_success := now, en_last_attempt := now,
           en_attempts := 0, en_used := True\<rparr>)))"

section \<open>Bans\<close>

definition hsk_addrman_clear_banned :: "hsk_addrman \<Rightarrow> hsk_addrman" where
  "hsk_addrman_clear_banned am = am\<lparr>am_banned := []\<rparr>"

definition hsk_addrman_add_ban :: "bool \<times> bool \<Rightarrow> int \<Rightarrow> hsk_addrman \<Rightarrow> hsk_addr \<Rightarrow> bool \<times> hsk_addrman" where
  "hsk_addrman_add_ban mem clock am addr =
     (case tbl_get (am_banned am) (addr_id addr) of
        Some b \<Rightarrow> (True, am\<lparr>am_banned := snd (tbl_set True (am_banned am) (addr_id addr) (b\<lparr>ba_time := clock\<rparr>))\<rparr>)
      | None \<Rightarrow>
          if \<not> fst mem then (False, am)
          else case tbl_set (snd mem) (am_banned am) (addr_id addr) \<lparr>ba_addr = addr, ba_time = clock\<rparr> of (ok, t) \<Rightarrow>
            if \<not> ok then (False, am) else (True, am\<lparr>am_banned := t\<rparr>))"

definition hsk_addrman_is_banned :: "int \<Rightarrow> hsk_addrman \<Rightarrow> hsk_addr \<Rightarrow> bool \<times> hsk_addrman" where
  "hsk_addrman_is_banned clock am addr =
     (case tbl_get (am_banned am) (addr_id addr) of
        None \<Rightarrow> (False, am)
      | Some b \<Rightarrow>
          if clock > ba_time b + HSK_BAN_TIME then (False, am\<lparr>am_banned := tbl_del (am_banned am) (addr_id (ba_addr b))\<rparr>)
          else (True, am))"

section \<open>Choosing an address\<close>

text \<open>
  The choice is weighted with floating-point numbers. They are rationals here and \<open>rnd\<close> is the rounding
  of a result, applied to every operation and literal as the machine does.
\<close>

definition hsk_addrentry_chance :: "(rat \<Rightarrow> rat) \<Rightarrow> hsk_addrentry \<Rightarrow> int \<Rightarrow> rat" where
  "hsk_addrentry_chance rnd entry now =
     (let c = (if now - en_last_attempt entry < 60 * 10 then rnd (1 * rnd (1 / 100)) else 1);
          r = ((\<lambda>r. rnd (r * rnd (66 / 100))) ^^ nat (min (en_attempts entry) 8)) 1
      in rnd (c * r))"

partial_function (option) search_loop ::
  "(rat \<Rightarrow> rat) \<Rightarrow> hsk_addrman \<Rightarrow> int \<Rightarrow> rat \<Rightarrow> rat \<Rightarrow> u32 stream \<Rightarrow> (nat \<times> u32 stream) option" where
  "search_loop rnd am now num factor rs =
     (let i = unat (shd rs) mod length (am_addrs am)
      in if num < rnd (rnd (factor * hsk_addrentry_chance rnd (am_addrs am ! i) now) * 2 ^ 30) then Some (i, stl rs)
         else search_loop rnd am now num (rnd (factor * rnd (12 / 10))) (stl rs))"

text \<open>The outer \<open>None\<close> is a loop that does not end.\<close>

definition hsk_addrman_search :: "(rat \<Rightarrow> rat) \<Rightarrow> int \<Rightarrow> hsk_addrman \<Rightarrow> u32 stream \<Rightarrow> (nat option \<times> u32 stream) option" where
  "hsk_addrman_search rnd clock am rs =
     (if am_addrs am = [] then Some (None, rs)
      else do {
        let now = hsk_timedata_now clock (am_td am);
        let num = of_nat (unat (shd rs) mod 2 ^ 30);
        (i, rs) \<leftarrow> search_loop rnd am now num 1 (stl rs);
        Some (Some i, rs) })"

text \<open>\<open>peers\<close> is the map of the peers there are. The tests are in the order of the code; the last one may drop a ban that has run out.\<close>

fun pick_loop ::
  "hsk_network \<Rightarrow> (rat \<Rightarrow> rat) \<Rightarrow> int \<Rightarrow> (addr_id, 'p) table \<Rightarrow> nat \<Rightarrow> nat \<Rightarrow> hsk_addrman \<Rightarrow> u32 stream \<Rightarrow> (nat option \<times> hsk_addrman \<times> u32 stream) option" where
  "pick_loop N rnd clock peers i 0 am rs = Some (None, am, rs)"
| "pick_loop N rnd clock peers i (Suc n) am rs = do {
     (found, rs) \<leftarrow> hsk_addrman_search rnd clock am rs;
     case found of
       None \<Rightarrow> Some (None, am, rs)
     | Some j \<Rightarrow>
         let now = hsk_timedata_now clock (am_td am); entry = am_addrs am ! j; next = pick_loop N rnd clock peers (i + 1) n
         in if en_removed entry then next am rs
            else if tbl_has peers (addr_id (en_addr entry)) then next am rs
            else if \<not> hsk_addr_is_valid (en_addr entry) then next am rs
            else if en_services entry AND 1 = 0 then next am rs
            else if hsk_addr_is_onion (en_addr entry) then next am rs
            else if i < 30 \<and> now - en_last_attempt entry < 600 then next am rs
            else if i < 50 \<and> ad_port (en_addr entry) \<noteq> net_brontide_port N then next am rs
            else if i < 95 then
              (case hsk_addrman_is_banned clock am (en_addr entry) of (banned, am) \<Rightarrow>
                 if banned then next am rs else Some (Some j, am, rs))
            else Some (Some j, am, rs) }"

definition hsk_addrman_pick ::
  "hsk_network \<Rightarrow> (rat \<Rightarrow> rat) \<Rightarrow> int \<Rightarrow> hsk_addrman \<Rightarrow> (addr_id, 'p) table \<Rightarrow> u32 stream \<Rightarrow> (nat option \<times> hsk_addrman \<times> u32 stream) option" where
  "hsk_addrman_pick N rnd clock am peers rs = pick_loop N rnd clock peers 0 100 am rs"

definition hsk_addrman_pick_addr ::
  "hsk_network \<Rightarrow> (rat \<Rightarrow> rat) \<Rightarrow> int \<Rightarrow> hsk_addrman \<Rightarrow> (addr_id, 'p) table \<Rightarrow> u32 stream \<Rightarrow> (hsk_addr option \<times> hsk_addrman \<times> u32 stream) option" where
  "hsk_addrman_pick_addr N rnd clock am peers rs = do {
     (found, am, rs) \<leftarrow> hsk_addrman_pick N rnd clock am peers rs;
     Some (case found of None \<Rightarrow> None | Some j \<Rightarrow> Some (en_addr (am_addrs am ! j)), am, rs) }"

definition hsk_addrman_pick_sa ::
  "hsk_network \<Rightarrow> (rat \<Rightarrow> rat) \<Rightarrow> int \<Rightarrow> hsk_addrman \<Rightarrow> (addr_id, 'p) table \<Rightarrow> u32 stream \<Rightarrow> (sockaddr option \<times> hsk_addrman \<times> u32 stream) option" where
  "hsk_addrman_pick_sa N rnd clock am peers rs = do {
     (found, am, rs) \<leftarrow> hsk_addrman_pick N rnd clock am peers rs;
     Some (case found of None \<Rightarrow> None | Some j \<Rightarrow> hsk_addr_to_sa (en_addr (am_addrs am ! j)), am, rs) }"

section \<open>The invariant\<close>

text \<open>The map leads to entries of their address, there is room for them all, and reference counts stay small.\<close>

definition addrman_ok :: "hsk_addrman \<Rightarrow> bool" where
  "addrman_ok am \<longleftrightarrow> length (am_addrs am) \<le> HSK_ADDR_MAX \<and> tbl_ok (am_map am) \<and>
     (\<forall>k i. tbl_get (am_map am) k = Some i \<longrightarrow> i < length (am_addrs am) \<and> addr_id (en_addr (am_addrs am ! i)) = k \<and>
        0 < en_ref_count (am_addrs am ! i) \<and> en_ref_count (am_addrs am ! i) \<le> HSK_MAX_REFS)"

lemma ok_lookup:
  "addrman_ok am \<Longrightarrow> tbl_get (am_map am) k = Some i \<Longrightarrow> i < length (am_addrs am) \<and> addr_id (en_addr (am_addrs am ! i)) = k \<and>
     0 < en_ref_count (am_addrs am ! i) \<and> en_ref_count (am_addrs am ! i) \<le> HSK_MAX_REFS"
  unfolding addrman_ok_def by blast

lemma ok_intro:
  "length (am_addrs am) \<le> HSK_ADDR_MAX \<Longrightarrow> tbl_ok (am_map am) \<Longrightarrow>
   (\<And>k i. tbl_get (am_map am) k = Some i \<Longrightarrow> i < length (am_addrs am) \<and> addr_id (en_addr (am_addrs am ! i)) = k \<and>
     0 < en_ref_count (am_addrs am ! i) \<and> en_ref_count (am_addrs am ! i) \<le> HSK_MAX_REFS) \<Longrightarrow> addrman_ok am"
  unfolding addrman_ok_def by blast

lemma ok_parts: "addrman_ok am \<Longrightarrow> length (am_addrs am) \<le> HSK_ADDR_MAX" "addrman_ok am \<Longrightarrow> tbl_ok (am_map am)"
  by (simp_all add: addrman_ok_def)

lemma set_entry_ok:
  assumes "addrman_ok am" and "\<And>e. en_addr (f e) = en_addr e"
    and "\<And>e. e = am_addrs am ! i \<Longrightarrow> 0 < en_ref_count e \<Longrightarrow> en_ref_count e \<le> HSK_MAX_REFS \<Longrightarrow> 0 < en_ref_count (f e) \<and> en_ref_count (f e) \<le> HSK_MAX_REFS"
  shows "addrman_ok (set_entry i f am)"
proof (rule ok_intro)
  fix k j
  assume "tbl_get (am_map (set_entry i f am)) k = Some j"
  then have o: "j < length (am_addrs am)" "addr_id (en_addr (am_addrs am ! j)) = k" "0 < en_ref_count (am_addrs am ! j)" "en_ref_count (am_addrs am ! j) \<le> HSK_MAX_REFS"
    using ok_lookup [OF assms(1), of k j] by (simp_all add: set_entry_def)
  show "j < length (am_addrs (set_entry i f am)) \<and> addr_id (en_addr (am_addrs (set_entry i f am) ! j)) = k \<and>
    0 < en_ref_count (am_addrs (set_entry i f am) ! j) \<and> en_ref_count (am_addrs (set_entry i f am) ! j) \<le> HSK_MAX_REFS"
    using o assms(2) assms(3) [OF refl] by (cases "j = i") (simp_all add: set_entry_def)
qed (use ok_parts [OF assms(1)] in \<open>simp_all add: set_entry_def\<close>)

lemma set_entry_map [simp]: "am_map (set_entry i f am) = am_map am" "length (am_addrs (set_entry i f am)) = length (am_addrs am)"
  "am_td (set_entry i f am) = am_td am" "am_banned (set_entry i f am) = am_banned am"
  by (simp_all add: set_entry_def)

lemma set_entry_nth [simp]: "i < length (am_addrs am) \<Longrightarrow> am_addrs (set_entry i f am) ! i = f (am_addrs am ! i)"
  by (simp add: set_entry_def)

lemma add_known_ok:
  assumes am: "addrman_ok am" and i: "tbl_get (am_map am) k = Some i"
  obtains b am' rs' where "add_known clock am i na src rs = Some (b, am', rs')" "addrman_ok am'"
proof -
  define now where "now = hsk_timedata_now clock (am_td am)"
  define pen :: u64 where "pen = (if \<not> src then 0 else 2 * 60 * 60)"
  define iv :: u64 where "iv = (if of_int now - na_time na < 24 * 60 * 60 then 60 * 60 else 24 * 60 * 60)"
  define a1 where "a1 = set_entry i (\<lambda>entry. entry\<lparr>en_services := en_services entry OR na_services na\<rparr>) am"
  define a2 where "a2 = set_entry i (\<lambda>entry. if en_time entry < na_time na - iv - pen then entry\<lparr>en_time := na_time na\<rparr> else entry) a1"
  have ok: "addrman_ok a2" unfolding a2_def a1_def by (intro set_entry_ok am) simp_all
  have l: "i < length (am_addrs a2)" "0 < en_ref_count (am_addrs a2 ! i)" "en_ref_count (am_addrs a2 ! i) \<le> HSK_MAX_REFS"
    using ok_lookup [OF ok, of k i] i unfolding a2_def a1_def by (simp_all only: set_entry_map)
  have ok': "addrman_ok (set_entry i (\<lambda>entry. entry\<lparr>en_ref_count := en_ref_count entry + 1\<rparr>) a2)" if "en_ref_count (am_addrs a2 ! i) \<noteq> HSK_MAX_REFS"
    using that by (intro set_entry_ok ok) (auto simp: HSK_MAX_REFS_def)
  let ?e = "am_addrs a2 ! i"
  let ?f = "((\<lambda>f. f * 2) ^^ nat (en_ref_count ?e)) (1 :: u32)"
  have "add_known clock am i na src rs =
    (if en_time ?e \<noteq> 0 \<and> na_time na \<le> en_time ?e then Some (False, a2, rs)
     else if en_used ?e then Some (False, a2, rs)
     else if \<not> en_ref_count ?e > 0 then None
     else if en_ref_count ?e = HSK_MAX_REFS then Some (False, a2, rs)
     else if \<not> en_ref_count ?e < HSK_MAX_REFS then None
     else if ?f = 0 then Some (False, a2, rs)
     else if shd rs mod ?f \<noteq> 0 then Some (False, a2, stl rs)
     else Some (True, set_entry i (\<lambda>entry. entry\<lparr>en_ref_count := en_ref_count entry + 1\<rparr>) a2, stl rs))"
    unfolding add_known_def Let_def a2_def a1_def iv_def pen_def now_def by (rule refl)
  then have "\<exists>b am' rs'. add_known clock am i na src rs = Some (b, am', rs') \<and> addrman_ok am'" using ok ok' l by auto
  then show ?thesis using that by blast
qed

lemma stale_slot_bound: "stale_slot n clock am rs = (Some i, rs') \<Longrightarrow> am_addrs am \<noteq> [] \<Longrightarrow> i < length (am_addrs am)"
  by (induction n arbitrary: rs) (auto simp: Let_def split: if_splits)

lemma alloc_entry_ok:
  assumes "addrman_ok am"
  obtains slot am' rs' where "hsk_addrman_alloc_entry clock am rs = Some (slot, am', rs')" "addrman_ok am'" "am_td am' = am_td am"
    "\<And>i a. slot = Some (i, a) \<Longrightarrow> i < length (am_addrs am') \<and> (\<forall>k. tbl_get (am_map am') k \<noteq> Some i) \<and>
      (a \<longrightarrow> i + 1 = length (am_addrs am')) \<and> (\<forall>k. tbl_get (am_map am) k = None \<longrightarrow> tbl_get (am_map am') k = None)"
proof (cases "length (am_addrs am) = HSK_ADDR_MAX")
  case True
  then have ne: "am_addrs am \<noteq> []" by (auto simp: HSK_ADDR_MAX_def)
  obtain s rs' where s: "stale_slot (min (length (am_addrs am)) 10) clock am rs = (s, rs')" by fastforce
  show ?thesis
  proof (cases s)
    case None
    then show ?thesis using that [of None am rs'] True s assms by (simp add: hsk_addrman_alloc_entry_def)
  next
    case (Some i)
    let ?am = "am\<lparr>am_map := tbl_del (am_map am) (addr_id (en_addr (am_addrs am ! i)))\<rparr>"
    have i: "i < length (am_addrs am)" using stale_slot_bound s Some ne by blast
    have "addrman_ok ?am"
      using ok_parts [OF assms] ok_lookup [OF assms] by (intro ok_intro) (auto split: if_splits)
    moreover have "tbl_get (am_map ?am) k \<noteq> Some i" for k
      using ok_lookup [OF assms, of k i] by auto
    ultimately show ?thesis using that [of "Some (i, False)" ?am rs'] True s Some i by (simp add: hsk_addrman_alloc_entry_def)
  qed
next
  case False
  then have l: "length (am_addrs am) < HSK_ADDR_MAX" using assms by (simp add: addrman_ok_def)
  let ?am = "am\<lparr>am_addrs := am_addrs am @ [hsk_addrentry_zero]\<rparr>"
  have "addrman_ok ?am"
  proof (rule ok_intro)
    fix k i
    assume "tbl_get (am_map ?am) k = Some i"
    then show "i < length (am_addrs ?am) \<and> addr_id (en_addr (am_addrs ?am ! i)) = k \<and>
      0 < en_ref_count (am_addrs ?am ! i) \<and> en_ref_count (am_addrs ?am ! i) \<le> HSK_MAX_REFS"
      using ok_lookup [OF assms, of k i] by (simp add: nth_append)
  qed (use ok_parts [OF assms] l in simp_all)
  moreover have "tbl_get (am_map ?am) k \<noteq> Some (length (am_addrs am))" for k
    using ok_lookup [OF assms, of k "length (am_addrs am)"] by auto
  ultimately show ?thesis using that [of "Some (length (am_addrs am), True)" ?am rs] l by (simp add: hsk_addrman_alloc_entry_def)
qed

lemma add_entry_ok:
  assumes "addrman_ok am"
  obtains b am' rs' where "hsk_addrman_add_entry mem clock am na src rs = Some (b, am', rs')" "addrman_ok am'"
proof (cases "hsk_addrman_get am (na_addr na)")
  case (Some i)
  then show ?thesis
    using add_known_ok [OF assms, of "addr_id (na_addr na)" i clock na src rs] that
    by (auto simp: hsk_addrman_add_entry_def hsk_addrman_get_def)
next
  case None
  obtain slot am1 rs1 where a: "hsk_addrman_alloc_entry clock am rs = Some (slot, am1, rs1)" "addrman_ok am1"
    "\<And>i a. slot = Some (i, a) \<Longrightarrow> i < length (am_addrs am1) \<and> (\<forall>k. tbl_get (am_map am1) k \<noteq> Some i) \<and>
      (a \<longrightarrow> i + 1 = length (am_addrs am1)) \<and> (\<forall>k. tbl_get (am_map am) k = None \<longrightarrow> tbl_get (am_map am1) k = None)"
    by (rule alloc_entry_ok [OF assms, of clock rs]) blast
  show ?thesis
  proof (cases slot)
    case None
    then show ?thesis using that [of False am1 rs1] a(1,2) \<open>hsk_addrman_get am (na_addr na) = None\<close> by (simp add: hsk_addrman_add_entry_def)
  next
    case (Some x)
    obtain i al where x: "x = (i, al)" by fastforce
    let ?am = "set_entry i (\<lambda>_. new_entry na) am1"
    have i: "i < length (am_addrs am1)" "\<And>k. tbl_get (am_map am1) k \<noteq> Some i" "al \<Longrightarrow> i + 1 = length (am_addrs am1)"
      using a(3) Some x by auto
    have other: "am_addrs ?am ! j = am_addrs am1 ! j" if "tbl_get (am_map am1) k = Some j" for j k
      using i(2) [of k] that by (auto simp: set_entry_def nth_list_update)
    show ?thesis
    proof (cases mem)
      case True
      have "addrman_ok (?am\<lparr>am_map := AList.update (addr_id (na_addr na)) i (am_map am1)\<rparr>)"
        using ok_parts [OF a(2)] ok_lookup [OF a(2)] i(1) other
        by (intro ok_intro) (auto simp: new_entry_def HSK_MAX_REFS_def split: if_splits)
      then show ?thesis using that [of True "?am\<lparr>am_map := AList.update (addr_id (na_addr na)) i (am_map am1)\<rparr>" rs1] True a(1) None Some x
        by (simp add: hsk_addrman_add_entry_def)
    next
      case False
      let ?b = "if al then ?am\<lparr>am_addrs := butlast (am_addrs ?am)\<rparr> else ?am"
      have ok: "addrman_ok ?am" using ok_parts [OF a(2)] ok_lookup [OF a(2)] other by (intro ok_intro) auto
      have "addrman_ok ?b"
      proof (cases al)
        case True
        have "j < length (am_addrs am1) - 1" if "tbl_get (am_map am1) k = Some j" for j k
          using ok_lookup [OF a(2) that] i(2) [of k] i(3) [OF True] that by (cases "j = i") auto
        then show ?thesis using True ok_parts [OF ok] ok_lookup [OF ok] by (intro ok_intro) (auto simp: nth_butlast)
      qed (use ok in simp)
      moreover have "hsk_addrman_add_entry mem clock am na src rs = Some (False, ?b, rs1)"
        using False a(1) None Some x by (simp add: hsk_addrman_add_entry_def tbl_set_def Let_def)
      ultimately show ?thesis using that by blast
    qed
  qed
qed

text \<open>The other operations change one entry and keep its address and count, or only the bans.\<close>

lemma on_entry_ok:
  assumes "addrman_ok am" and "\<And>e. en_addr (snd (f e)) = en_addr e \<and> en_ref_count (snd (f e)) = en_ref_count e"
  shows "addrman_ok (snd (on_entry am addr f))"
  using assms by (auto simp: on_entry_def intro!: set_entry_ok split: option.split)

lemma marks_ok:
  assumes "addrman_ok am"
  shows "addrman_ok (snd (hsk_addrman_remove_addr am addr))" "addrman_ok (snd (hsk_addrman_mark_attempt clock am addr))"
    "addrman_ok (snd (hsk_addrman_mark_success clock am addr))" "addrman_ok (snd (hsk_addrman_mark_ack clock am addr services))"
  unfolding hsk_addrman_remove_addr_def hsk_addrman_mark_attempt_def hsk_addrman_mark_success_def hsk_addrman_mark_ack_def Let_def
  by (intro on_entry_ok assms; simp)+

lemma banned_ok [simp]: "addrman_ok (am\<lparr>am_banned := b\<rparr>) = addrman_ok am"
  by (simp add: addrman_ok_def)

lemma bans_ok:
  assumes "addrman_ok am"
  shows "addrman_ok (hsk_addrman_clear_banned am)" "addrman_ok (snd (hsk_addrman_add_ban mem clock am addr))"
    "addrman_ok (snd (hsk_addrman_is_banned clock am addr))"
  using assms by (auto simp: hsk_addrman_clear_banned_def hsk_addrman_add_ban_def hsk_addrman_is_banned_def split: option.split prod.split)

section \<open>The search ends\<close>

text \<open>
  What is used of the rounding: it loses at most one part in a thousand and keeps the sign. Rounding to
  53 bits is far better, in the range of the numbers that occur here.
\<close>

definition rounding :: "(rat \<Rightarrow> rat) \<Rightarrow> bool" where
  "rounding rnd \<longleftrightarrow> (\<forall>x \<ge> 0. 999 / 1000 * x \<le> rnd x)"

lemma rnd_ge:
  assumes "rounding rnd" and "0 \<le> a" and "a \<le> x"
  shows "999 / 1000 * a \<le> rnd x"
proof -
  have "0 \<le> x" using assms(2,3) by simp
  then have "999 / 1000 * x \<le> rnd x" using assms(1) unfolding rounding_def by blast
  then show ?thesis using assms(3) by linarith
qed

lemma decay_ge:
  assumes "rounding rnd"
  shows "(65 / 100) ^ n \<le> ((\<lambda>r. rnd (r * rnd (66 / 100))) ^^ n) 1"
proof (induction n)
  case (Suc n)
  let ?r = "((\<lambda>r. rnd (r * rnd (66 / 100))) ^^ n) 1"
  have "999 / 1000 * (66 / 100) \<le> rnd (66 / 100)" using assms by (intro rnd_ge) simp_all
  then have "(65 / 100) ^ n * (659 / 1000) \<le> ?r * rnd (66 / 100)"
    using Suc by (intro mult_mono) (auto intro: order_trans [of 0 "(65 / 100) ^ n"])
  then have "999 / 1000 * ((65 / 100) ^ n * (659 / 1000)) \<le> rnd (?r * rnd (66 / 100))"
    using assms by (intro rnd_ge) simp_all
  moreover have "0 \<le> (65 / 100 :: rat) ^ n" by simp
  ultimately show ?case unfolding power_Suc funpow.simps comp_def by linarith
qed simp

lemma chance_ge:
  assumes "rounding rnd"
  shows "3 / 10000 \<le> hsk_addrentry_chance rnd entry now"
proof -
  let ?n = "nat (min (en_attempts entry) 8)"
  let ?c = "if now - en_last_attempt entry < 60 * 10 then rnd (1 * rnd (1 / 100)) else 1"
  have "999 / 1000 * (1 / 100) \<le> rnd (1 / 100)" using assms by (intro rnd_ge) simp_all
  then have "999 / 1000 * (999 / 1000 * (1 / 100)) \<le> rnd (1 * rnd (1 / 100))" using assms by (intro rnd_ge) simp_all
  then have c: "99 / 10000 \<le> ?c" by simp
  have "(65 / 100 :: rat) ^ 8 \<le> (65 / 100) ^ ?n" by (intro power_decreasing) auto
  then have r: "(65 / 100) ^ 8 \<le> ((\<lambda>r. rnd (r * rnd (66 / 100))) ^^ ?n) 1" using decay_ge [OF assms, of ?n] by linarith
  have "99 / 10000 * (65 / 100) ^ 8 \<le> ?c * ((\<lambda>r. rnd (r * rnd (66 / 100))) ^^ ?n) 1"
    using c r by (intro mult_mono) auto
  then have "999 / 1000 * (99 / 10000 * (65 / 100) ^ 8) \<le> hsk_addrentry_chance rnd entry now"
    unfolding hsk_addrentry_chance_def Let_def using assms by (intro rnd_ge) simp_all
  then show ?thesis by (simp add: power_divide)
qed

lemma search_ends:
  assumes "rounding rnd" and "am_addrs am \<noteq> []" and "num < 2 ^ 30" and "(119 / 100) ^ (63 - k) \<le> factor" and "k \<le> 63"
  shows "\<exists>i m. m \<le> Suc k \<and> search_loop rnd am now num factor rs = Some (i, sdrop m rs) \<and> i < length (am_addrs am)"
  using assms(4,5)
proof (induction k arbitrary: factor rs)
  case 0
  let ?i = "unat (shd rs) mod length (am_addrs am)"
  let ?c = "hsk_addrentry_chance rnd (am_addrs am ! ?i) now"
  have f: "50000 \<le> factor" using 0 by (simp add: power_divide)
  have "50000 * (3 / 10000) \<le> factor * ?c" using f chance_ge [OF assms(1), of "am_addrs am ! ?i" now] by (intro mult_mono) auto
  then have "999 / 1000 * (50000 * (3 / 10000)) \<le> rnd (factor * ?c)" using assms(1) by (intro rnd_ge) simp_all
  then have "2 * 2 ^ 30 \<le> rnd (factor * ?c) * 2 ^ 30" by (intro mult_right_mono) simp_all
  then have "999 / 1000 * (2 * 2 ^ 30) \<le> rnd (rnd (factor * ?c) * 2 ^ 30)" using assms(1) by (intro rnd_ge) simp_all
  then have "num < rnd (rnd (factor * ?c) * 2 ^ 30)" using assms(3) by simp
  then show ?case using assms(2) by (intro exI [of _ ?i] exI [of _ 1]) (subst search_loop.simps, simp add: Let_def)
next
  case (Suc k)
  let ?i = "unat (shd rs) mod length (am_addrs am)"
  let ?f = "rnd (factor * rnd (12 / 10))"
  have "999 / 1000 * (12 / 10) \<le> rnd (12 / 10)" using assms(1) by (intro rnd_ge) simp_all
  then have "(119 / 100) ^ (63 - Suc k) * (1198 / 1000) \<le> factor * rnd (12 / 10)"
    using Suc.prems(1) by (intro mult_mono) (auto intro: order_trans [of 0 "(119 / 100) ^ (63 - Suc k)"])
  then have "999 / 1000 * ((119 / 100) ^ (63 - Suc k) * (1198 / 1000)) \<le> ?f" using assms(1) by (intro rnd_ge) simp_all
  moreover have "(119 / 100) ^ (63 - k) \<le> 999 / 1000 * ((119 / 100) ^ (63 - Suc k) * (1198 / 1000) :: rat)"
    using Suc.prems(2) by (simp add: Suc_diff_Suc [symmetric])
  ultimately have f: "(119 / 100) ^ (63 - k) \<le> ?f" by linarith
  obtain i m where "m \<le> Suc k" "search_loop rnd am now num ?f (stl rs) = Some (i, sdrop m (stl rs))" "i < length (am_addrs am)"
    using Suc.IH [OF f, of "stl rs"] Suc.prems(2) by auto
  then show ?case
    using assms(2) by (cases "num < rnd (rnd (factor * hsk_addrentry_chance rnd (am_addrs am ! ?i) now) * 2 ^ 30)")
      (subst search_loop.simps, force simp: Let_def intro: exI [of _ 1] exI [of _ "Suc m"])+
qed


lemma is_banned_frame [simp]:
  "am_addrs (snd (hsk_addrman_is_banned clock am addr)) = am_addrs am" "am_td (snd (hsk_addrman_is_banned clock am addr)) = am_td am"
  "am_map (snd (hsk_addrman_is_banned clock am addr)) = am_map am"
  by (auto simp: hsk_addrman_is_banned_def split: option.split)

text \<open>What a peer may be opened with.\<close>

definition usable :: "(addr_id, 'p) table \<Rightarrow> hsk_addrentry \<Rightarrow> bool" where
  "usable peers e \<longleftrightarrow> \<not> en_removed e \<and> \<not> tbl_has peers (addr_id (en_addr e)) \<and> hsk_addr_is_valid (en_addr e) \<and>
     en_services e AND 1 \<noteq> 0 \<and> \<not> hsk_addr_is_onion (en_addr e)"

lemma search_returns:
  assumes "rounding rnd"
  obtains "am_addrs am = []" "hsk_addrman_search rnd clock am rs = Some (None, rs)"
    | i rs' where "hsk_addrman_search rnd clock am rs = Some (Some i, rs')" "i < length (am_addrs am)"
proof (cases "am_addrs am = []")
  case True
  then show ?thesis using that(1) by (simp add: hsk_addrman_search_def)
next
  case False
  have "(of_nat (unat (shd rs) mod 2 ^ 30) :: rat) < of_nat (2 ^ 30)" by (subst of_nat_less_iff) simp
  then have n: "(of_nat (unat (shd rs) mod 2 ^ 30) :: rat) < 2 ^ 30" by simp
  obtain i m where "search_loop rnd am (hsk_timedata_now clock (am_td am)) (of_nat (unat (shd rs) mod 2 ^ 30)) 1 (stl rs) = Some (i, sdrop m (stl rs))"
    "i < length (am_addrs am)"
    using search_ends [OF assms False n, of 63 1 "hsk_timedata_now clock (am_td am)" "stl rs"] by auto
  then show ?thesis using False that(2) [of i "sdrop m (stl rs)"] by (simp add: hsk_addrman_search_def)
qed

lemma pick_loop_returns:
  assumes "rounding rnd" and "addrman_ok am"
  shows "\<exists>r am' rs'. pick_loop N rnd clock peers i n am rs = Some (r, am', rs') \<and> addrman_ok am' \<and> am_addrs am' = am_addrs am \<and>
    (\<forall>j. r = Some j \<longrightarrow> j < length (am_addrs am) \<and> usable peers (am_addrs am ! j))"
  using assms(2)
proof (induction n arbitrary: i am rs)
  case (Suc n)
  show ?case
  proof (rule search_returns [OF assms(1), of am clock rs])
    assume "hsk_addrman_search rnd clock am rs = Some (None, rs)"
    then show ?thesis using Suc.prems by auto
  next
    fix j rs1
    assume j: "hsk_addrman_search rnd clock am rs = Some (Some j, rs1)" "j < length (am_addrs am)"
    let ?e = "am_addrs am ! j"
    let ?am = "snd (hsk_addrman_is_banned clock am (en_addr ?e))"
    note next1 = Suc.IH [OF Suc.prems, of "i + 1" rs1]
    have next2: "\<exists>r am' rs'. pick_loop N rnd clock peers (i + 1) n ?am rs1 = Some (r, am', rs') \<and> addrman_ok am' \<and> am_addrs am' = am_addrs am \<and>
      (\<forall>j. r = Some j \<longrightarrow> j < length (am_addrs am) \<and> usable peers (am_addrs am ! j))"
      using Suc.IH [OF bans_ok(3) [OF Suc.prems], of "i + 1" clock "en_addr ?e" rs1] by simp
    show ?thesis
    proof (cases "usable peers ?e")
      case False
      then show ?thesis using next1 j(1) by (auto simp: usable_def Let_def)
    next
      case True
      then have u: "\<not> en_removed ?e" "\<not> tbl_has peers (addr_id (en_addr ?e))" "hsk_addr_is_valid (en_addr ?e)" "en_services ?e AND 1 \<noteq> 0"
        "\<not> hsk_addr_is_onion (en_addr ?e)" by (simp_all add: usable_def)
      have "pick_loop N rnd clock peers i (Suc n) am rs =
          (if i < 30 \<and> hsk_timedata_now clock (am_td am) - en_last_attempt ?e < 600 then pick_loop N rnd clock peers (i + 1) n am rs1
           else if i < 50 \<and> ad_port (en_addr ?e) \<noteq> net_brontide_port N then pick_loop N rnd clock peers (i + 1) n am rs1
           else if i < 95 then
             (if fst (hsk_addrman_is_banned clock am (en_addr ?e)) then pick_loop N rnd clock peers (i + 1) n ?am rs1 else Some (Some j, ?am, rs1))
           else Some (Some j, am, rs1))"
        using j(1) u by (simp add: Let_def split: prod.split)
      then show ?thesis using next1 next2 True j(2) Suc.prems bans_ok(3) [OF Suc.prems] by (simp split: if_split)
    qed
  qed
qed simp

section \<open>Reachable states\<close>

text \<open>Every way the program changes the addresses it knows. The clock's offset is shared and changes by itself.\<close>

inductive addrman_reach :: "hsk_addrman \<Rightarrow> bool" where
  start: "hsk_addrman_init clock td seeds rs = Some (am, rs') \<Longrightarrow> addrman_reach am"
| added: "addrman_reach am \<Longrightarrow> hsk_addrman_add_entry mem clock am na src rs = Some (b, am', rs') \<Longrightarrow> addrman_reach am'"
| removed: "addrman_reach am \<Longrightarrow> addrman_reach (snd (hsk_addrman_remove_addr am addr))"
| attempt: "addrman_reach am \<Longrightarrow> addrman_reach (snd (hsk_addrman_mark_attempt clock am addr))"
| success: "addrman_reach am \<Longrightarrow> addrman_reach (snd (hsk_addrman_mark_success clock am addr))"
| ack: "addrman_reach am \<Longrightarrow> addrman_reach (snd (hsk_addrman_mark_ack clock am addr services))"
| clear: "addrman_reach am \<Longrightarrow> addrman_reach (hsk_addrman_clear_banned am)"
| ban: "addrman_reach am \<Longrightarrow> addrman_reach (snd (hsk_addrman_add_ban m2 clock am addr))"
| banned: "addrman_reach am \<Longrightarrow> addrman_reach (snd (hsk_addrman_is_banned clock am addr))"
| time: "addrman_reach am \<Longrightarrow> addrman_reach (am\<lparr>am_td := td\<rparr>)"

lemma add_seeds_ok:
  "addrman_ok am \<Longrightarrow> add_seeds clock am seeds rs = Some (am', rs') \<Longrightarrow> addrman_ok am'"
proof (induction seeds arbitrary: am rs)
  case (Cons s ss)
  obtain b am1 rs1 where a: "hsk_addrman_add_addr True clock am s rs = Some (b, am1, rs1)" "addrman_ok am1"
    by (rule add_entry_ok [OF Cons.prems(1), of True clock "\<lparr>na_time = of_int (hsk_timedata_now clock (am_td am)), na_services = 1, na_addr = s\<rparr>" False rs])
      (auto simp: hsk_addrman_add_addr_def)
  then show ?case using Cons.prems(2) Cons.IH [OF a(2), of rs1] by (auto split: if_splits)
qed simp

lemma reach_ok: "addrman_reach am \<Longrightarrow> addrman_ok am"
proof (induction rule: addrman_reach.induct)
  case (start clock td seeds rs am rs')
  have "addrman_ok \<lparr>am_td = td, am_addrs = [], am_map = [], am_banned = []\<rparr>" by (rule ok_intro) (simp_all add: tbl_ok_def)
  then show ?case using start add_seeds_ok unfolding hsk_addrman_init_def by blast
next
  case (added am mem clock na src rs b am' rs')
  then show ?case using add_entry_ok [OF added.IH, of mem clock na src rs] by auto
next
  case (time am td)
  then show ?case by (simp add: addrman_ok_def)
qed (simp_all add: marks_ok bans_ok)

definition addrman_demo :: hsk_addrman where
  "addrman_demo = \<lparr>am_td = hsk_timedata_init, am_addrs = [new_entry \<lparr>na_time = 1000, na_services = 1, na_addr = hsk_addr_init\<rparr>],
     am_map = [(addr_id hsk_addr_init, 0)], am_banned = []\<rparr>"

lemma addrman_demo_reach: "addrman_reach addrman_demo"
proof (rule addrman_reach.added)
  show "addrman_reach \<lparr>am_td = hsk_timedata_init, am_addrs = [], am_map = [], am_banned = []\<rparr>"
    by (rule addrman_reach.start [of 0 _ "[]"]) (simp add: hsk_addrman_init_def)
  show "hsk_addrman_add_entry True 0 \<lparr>am_td = hsk_timedata_init, am_addrs = [], am_map = [], am_banned = []\<rparr>
      \<lparr>na_time = 1000, na_services = 1, na_addr = hsk_addr_init\<rparr> True (sconst 0) = Some (True, addrman_demo, sconst 0)"
    by (simp add: hsk_addrman_add_entry_def hsk_addrman_get_def hsk_addrman_alloc_entry_def HSK_ADDR_MAX_def set_entry_def addrman_demo_def)
qed

text \<open>C33. The address manager: in every reachable state there are at most 2000 entries, the map leads from
  an address to an entry of that address with a reference count between 1 and 8, and adding any
  address returns, so none of its assertions can fail.\<close>

theorem addrman_invariant:
  assumes "addrman_reach am"
  shows "length (am_addrs am) \<le> 2000 \<and>
    (\<forall>addr i. hsk_addrman_get am addr = Some i \<longrightarrow> i < length (am_addrs am) \<and> addr_id (en_addr (am_addrs am ! i)) = addr_id addr \<and>
       0 < en_ref_count (am_addrs am ! i) \<and> en_ref_count (am_addrs am ! i) \<le> 8) \<and>
    (\<forall>mem clock na src rs. hsk_addrman_add_entry mem clock am na src rs \<noteq> None)"
proof (intro conjI allI impI)
  show "hsk_addrman_add_entry mem clock am na src rs \<noteq> None" for mem clock na src rs
    by (rule add_entry_ok [OF reach_ok [OF assms], of mem clock na src rs]) simp
  show "length (am_addrs am) \<le> 2000" using ok_parts(1) [OF reach_ok [OF assms]] by (simp add: HSK_ADDR_MAX_def)
qed (use ok_lookup [OF reach_ok [OF assms]] in \<open>simp_all add: hsk_addrman_get_def HSK_MAX_REFS_def\<close>)

lemma addrman_invariant_witness:
  "hsk_addrman_get addrman_demo hsk_addr_init = Some 0 \<and> 
   hsk_addrman_add_entry True 0 addrman_demo \<lparr>na_time = 2000, na_services = 1, na_addr = hsk_addr_init\<rparr> True (sconst 0) \<noteq> None"
proof -
  have "hsk_addrman_get addrman_demo hsk_addr_init = Some 0" by (simp add: hsk_addrman_get_def addrman_demo_def tbl_get_def)
  then show ?thesis using addrman_invariant [OF addrman_demo_reach] by blast
qed

text \<open>C32. Choosing an address returns: the weighted search ends whatever the random numbers are, for any
  rounding of its floating-point numbers that loses at most a thousandth. The entry is stored, not
  removed, valid, not an onion address, offers the service and is not among the peers.\<close>

theorem addrman_pick_returns:
  assumes "addrman_reach am" and "rounding rnd"
  shows "\<exists>r am' rs'. hsk_addrman_pick N rnd clock am peers rs = Some (r, am', rs') \<and> am_addrs am' = am_addrs am \<and>
    (\<forall>j. r = Some j \<longrightarrow> j < length (am_addrs am) \<and> usable peers (am_addrs am ! j))"
  using pick_loop_returns [OF assms(2) reach_ok [OF assms(1)], of N clock peers 0 100 rs] unfolding hsk_addrman_pick_def by blast

lemma addrman_pick_returns_witness:
  "\<exists>r am' rs'. hsk_addrman_pick HSK_MAIN id 5000 addrman_demo ([] :: (addr_id, nat) table) (sconst 0) = Some (r, am', rs') \<and> am_addrs am' = am_addrs addrman_demo"
  using addrman_pick_returns [OF addrman_demo_reach, of id HSK_MAIN 5000 "[]" "sconst 0"] by (auto simp: rounding_def)

end
