(* ===== verification/Pool_State.thy ===== *)
theory Pool_State
  imports Addrman Chain Peer_Stream Brontide
begin

text \<open>
  \<^verbatim>\<open>pool.c\<close>, the state: the pool, its peers and the requests for names that are under way, and the
  operations on the list of peers and on the octets that leave. The operations that answer a message
  or an event are in theory \<open>Pool\<close>.

  Peers are allocated, shared by pointer and freed. A pointer is a number, and \<open>pl_heap\<close> says what
  it points to; the result \<open>None\<close> is the use of a peer that was freed, or a failed assertion. The list
  from \<^verbatim>\<open>head\<close> to \<^verbatim>\<open>tail\<close> is the list \<open>pl_list\<close> of pointers. Memory is there. What the program cannot
  decide is part of the state: the outcomes of the calls to libuv to come, the random numbers to come,
  the random octets to come, the clock, which stands still while one event is handled. What it does to
  the outside is a list of events in the order it happens.
\<close>

section \<open>Types\<close>

record name_req =
  nr_name :: bytes
  nr_hash :: bytes
  nr_root :: bytes
  nr_arg :: nat
  nr_time :: int

datatype peer_state =
    HSK_STATE_DISCONNECTED
  | HSK_STATE_CONNECTING
  | HSK_STATE_CONNECTED
  | HSK_STATE_READING
  | HSK_STATE_HANDSHAKE
  | HSK_STATE_DISCONNECTING

text \<open>
  The linked requests for a name are a list, the newest first. The field \<^verbatim>\<open>host\<close> is only printed, the
  octets of \<^verbatim>\<open>read_buffer\<close> are the argument of the read. The fields for the message that comes in are
  those of theory \<open>Peer_Stream\<close>.
\<close>

record hsk_peer =
  pe_brontide :: "hsk_brontide option"
  pe_id :: u64
  pe_agent :: bytes
  pe_addr :: hsk_addr
  pe_state :: peer_state
  pe_headers :: int
  pe_proofs :: int
  pe_height :: int
  pe_names :: "(bytes, name_req list) table"
  pe_getheaders_time :: int
  pe_version_time :: int
  pe_last_ping :: int
  pe_last_pong :: int
  pe_min_ping :: int
  pe_ping_timer :: int
  pe_challenge :: u64
  pe_conn_time :: int
  pe_last_send :: int
  pe_last_recv :: int
  pe_stream :: hsk_stream

text \<open>Octets handed to the socket of a peer, and a callback: the name, the status, whether the name exists, the data, the argument.\<close>

datatype pool_event =
    Sent nat bytes
  | Answered bytes hsk_error bool bytes nat

text \<open>The clock's offset \<^verbatim>\<open>td\<close> is shared with the chain and the addresses, and is kept in both.\<close>

record hsk_pool =
  pl_key :: "bytes option"
  pl_pubkey :: bytes
  pl_chain :: hsk_chain
  pl_am :: hsk_addrman
  pl_timer :: bool
  pl_peer_id :: u64
  pl_peers :: "(addr_id, nat) table"
  pl_list :: "nat list"
  pl_size :: int
  pl_max_size :: int
  pl_pending :: "name_req list"
  pl_pending_count :: int
  pl_block_time :: int
  pl_getheaders_time :: int
  pl_user_agent :: bytes
  pl_heap :: "nat \<Rightarrow> hsk_peer option"
  pl_next :: nat
  pl_clock :: int
  pl_uv :: "bool stream"
  pl_rand :: "u32 stream"
  pl_entropy :: entropy
  pl_out :: "pool_event list"

text \<open>What stays the same: the network, the hash functions, the curve, the rounding of floating-point numbers.\<close>

record 'k conf =
  cf_net :: hsk_network
  cf_hash :: hash_fns
  cf_ec :: "'k secp"
  cf_round :: "rat \<Rightarrow> rat"

definition HSK_POOL_SIZE :: int where "HSK_POOL_SIZE = 8"
definition HSK_MAX_AGENT :: nat where "HSK_MAX_AGENT = 255"
definition HSK_PROTO_VERSION :: u32 where "HSK_PROTO_VERSION = 1"
definition HSK_SERVICES :: u64 where "HSK_SERVICES = 0"
definition HSK_USER_AGENT :: bytes where "HSK_USER_AGENT = map of_char ''/hnsd:2.99.0/''"

section \<open>The world\<close>

text \<open>The next call to libuv, the next random number, the next nonce.\<close>

definition uv_call :: "hsk_pool \<Rightarrow> bool \<times> hsk_pool" where
  "uv_call pool = (shd (pl_uv pool), pool\<lparr>pl_uv := stl (pl_uv pool)\<rparr>)"

definition hsk_random :: "hsk_pool \<Rightarrow> u32 \<times> hsk_pool" where
  "hsk_random pool = (shd (pl_rand pool), pool\<lparr>pl_rand := stl (pl_rand pool)\<rparr>)"

definition hsk_nonce :: "hsk_pool \<Rightarrow> u64 \<times> hsk_pool" where
  "hsk_nonce pool = (let (a, pool) = hsk_random pool; (b, pool) = hsk_random pool in (push_bit 32 (ucast a) + ucast b, pool))"

definition report :: "pool_event list \<Rightarrow> hsk_pool \<Rightarrow> hsk_pool" where
  "report es pool = pool\<lparr>pl_out := pl_out pool @ es\<rparr>"

definition set_peer :: "nat \<Rightarrow> (hsk_peer \<Rightarrow> hsk_peer) \<Rightarrow> hsk_pool \<Rightarrow> hsk_pool" where
  "set_peer p f pool = pool\<lparr>pl_heap := (pl_heap pool)(p := map_option f (pl_heap pool p))\<rparr>"

definition pool_td :: "hsk_pool \<Rightarrow> hsk_timedata" where
  "pool_td pool = ch_td (pl_chain pool)"

definition set_td :: "hsk_timedata \<Rightarrow> hsk_pool \<Rightarrow> hsk_pool" where
  "set_td td pool = pool\<lparr>pl_chain := (pl_chain pool)\<lparr>ch_td := td\<rparr>, pl_am := (pl_am pool)\<lparr>am_td := td\<rparr>\<rparr>"

section \<open>Peers\<close>

definition hsk_peer_init :: "hsk_pool \<Rightarrow> bool \<Rightarrow> hsk_peer" where
  "hsk_peer_init pool encrypted =
     \<lparr>pe_brontide = (if encrypted then Some hsk_brontide_init else None), pe_id = pl_peer_id pool, pe_agent = [],
      pe_addr = hsk_addr_init, pe_state = HSK_STATE_DISCONNECTED, pe_headers = 0, pe_proofs = 0, pe_height = 0, pe_names = [],
      pe_getheaders_time = 0, pe_version_time = 0, pe_last_ping = 0, pe_last_pong = 0, pe_min_ping = 0, pe_ping_timer = 0,
      pe_challenge = 0, pe_conn_time = 0, pe_last_send = 0, pe_last_recv = 0, pe_stream = stream_init\<rparr>"

definition hsk_peer_alloc :: "hsk_pool \<Rightarrow> bool \<Rightarrow> nat \<times> hsk_pool" where
  "hsk_peer_alloc pool encrypted =
     (pl_next pool, pool\<lparr>pl_heap := (pl_heap pool)(pl_next pool \<mapsto> hsk_peer_init pool encrypted),
        pl_next := pl_next pool + 1, pl_peer_id := pl_peer_id pool + 1\<rparr>)"

definition hsk_peer_free :: "nat \<Rightarrow> hsk_pool \<Rightarrow> hsk_pool" where
  "hsk_peer_free p pool = pool\<lparr>pl_heap := (pl_heap pool)(p := None)\<rparr>"

definition hsk_peer_push :: "nat \<Rightarrow> hsk_pool \<Rightarrow> hsk_pool option" where
  "hsk_peer_push p pool = do {
     peer \<leftarrow> pl_heap pool p;
     if tbl_has (pl_peers pool) (addr_id (pe_addr peer)) then None
     else Some (pool\<lparr>pl_list := pl_list pool @ [p], pl_size := pl_size pool + 1,
       pl_peers := AList.update (addr_id (pe_addr peer)) p (pl_peers pool)\<rparr>) }"

definition hsk_peer_remove :: "nat \<Rightarrow> hsk_pool \<Rightarrow> hsk_pool option" where
  "hsk_peer_remove p pool = do {
     peer \<leftarrow> pl_heap pool p;
     if p \<notin> set (pl_list pool) then Some pool
     else if \<not> pl_size pool > 0 then None
     else if \<not> tbl_has (pl_peers pool) (addr_id (pe_addr peer)) then None
     else Some (pool\<lparr>pl_list := remove1 p (pl_list pool), pl_size := pl_size pool - 1,
       pl_peers := tbl_del (pl_peers pool) (addr_id (pe_addr peer))\<rparr>) }"

text \<open>Every request of the peer is called back. The order is that of the table.\<close>

definition timeout_of :: "name_req \<Rightarrow> pool_event" where
  "timeout_of req = Answered (nr_name req) HSK_ETIMEOUT False [] (nr_arg req)"

definition peer_reqs :: "hsk_peer \<Rightarrow> name_req list" where
  "peer_reqs peer = concat (map snd (pe_names peer))"

definition hsk_peer_timeout_reqs :: "nat \<Rightarrow> hsk_pool \<Rightarrow> hsk_pool option" where
  "hsk_peer_timeout_reqs p pool = do {
     peer \<leftarrow> pl_heap pool p;
     if [] \<in> snd ` set (pe_names peer) then None
     else Some (set_peer p (\<lambda>peer. peer\<lparr>pe_names := []\<rparr>) (report (map timeout_of (peer_reqs peer)) pool)) }"

text \<open>Only the newest request of each name is looked at.\<close>

definition hsk_peer_is_overdue :: "hsk_pool \<Rightarrow> hsk_peer \<Rightarrow> bool option" where
  "hsk_peer_is_overdue pool peer =
     (if [] \<in> snd ` set (pe_names peer) then None
      else Some (\<exists>reqs \<in> snd ` set (pe_names peer). pl_clock pool > nr_time (hd reqs) + 5))"

text \<open>Stopping to read from a socket always succeeds.\<close>

definition hsk_peer_close :: "nat \<Rightarrow> hsk_pool \<Rightarrow> (hsk_error \<times> hsk_pool) option" where
  "hsk_peer_close p pool = do {
     peer \<leftarrow> pl_heap pool p;
     if pe_state peer = HSK_STATE_DISCONNECTING then Some (HSK_SUCCESS, pool)
     else if pe_state peer = HSK_STATE_DISCONNECTED then do {
       pool \<leftarrow> hsk_peer_remove p pool;
       Some (HSK_SUCCESS, hsk_peer_free p pool) }
     else do {
       let pool = (if pe_state peer = HSK_STATE_HANDSHAKE
         then set_peer p (\<lambda>peer. peer\<lparr>pe_brontide := map_option hsk_brontide_destroy (pe_brontide peer)\<rparr>) pool else pool);
       let pool = set_peer p (\<lambda>peer. peer\<lparr>pe_state := HSK_STATE_DISCONNECTING\<rparr>) pool;
       pool \<leftarrow> hsk_peer_timeout_reqs p pool;
       pool \<leftarrow> hsk_peer_remove p pool;
       Some (HSK_SUCCESS, pool) } }"

definition hsk_peer_destroy :: "nat \<Rightarrow> hsk_pool \<Rightarrow> (hsk_error \<times> hsk_pool) option" where
  "hsk_peer_destroy p pool = hsk_peer_close p pool"

section \<open>Writing\<close>

definition hsk_peer_write_raw :: "nat \<Rightarrow> bytes \<Rightarrow> hsk_pool \<Rightarrow> (hsk_error \<times> hsk_pool) option" where
  "hsk_peer_write_raw p d pool = do {
     peer \<leftarrow> pl_heap pool p;
     if pe_state peer = HSK_STATE_DISCONNECTING then Some (HSK_SUCCESS, pool)
     else do {
       let (ok, pool) = uv_call pool;
       if \<not> ok then do {
         (_, pool) \<leftarrow> hsk_peer_destroy p pool;
         Some (HSK_EFAILURE, pool) }
       else Some (HSK_SUCCESS, set_peer p (\<lambda>peer. peer\<lparr>pe_last_send := pl_clock pool\<rparr>) (report [Sent p d] pool)) } }"

text \<open>
  The callback an encrypted connection writes with. The state of its owner is the pool, \<open>None\<close> once an
  assertion has failed.
\<close>

definition brontide_do_write :: "nat \<Rightarrow> bytes \<Rightarrow> bool \<Rightarrow> hsk_pool option \<Rightarrow> hsk_error \<times> hsk_pool option" where
  "brontide_do_write p d is_heap s =
     (case s of None \<Rightarrow> (HSK_EFAILURE, None)
      | Some pool \<Rightarrow> (case hsk_peer_write_raw p d pool of None \<Rightarrow> (HSK_EFAILURE, None) | Some (r, pool) \<Rightarrow> (r, Some pool)))"

text \<open>Only its callback for writing is used when a message is written.\<close>

definition write_callback :: "nat \<Rightarrow> hsk_pool option brontide_cb" where
  "write_callback p = \<lparr>connect_cb = Some, write_cb = brontide_do_write p, read_cb = (\<lambda>_. Some)\<rparr>"

definition set_brontide :: "nat \<Rightarrow> hsk_brontide \<Rightarrow> hsk_pool \<Rightarrow> hsk_pool" where
  "set_brontide p b = set_peer p (\<lambda>peer. peer\<lparr>pe_brontide := Some b\<rparr>)"

definition hsk_peer_write :: "nat \<Rightarrow> bytes \<Rightarrow> hsk_pool \<Rightarrow> (hsk_error \<times> hsk_pool) option" where
  "hsk_peer_write p d pool = do {
     peer \<leftarrow> pl_heap pool p;
     if pe_state peer \<noteq> HSK_STATE_HANDSHAKE then Some (HSK_SUCCESS, pool)
     else case pe_brontide peer of
       None \<Rightarrow> hsk_peer_write_raw p d pool
     | Some b \<Rightarrow> do {
         (r, b, s) \<leftarrow> hsk_brontide_write (write_callback p) d b (Some pool);
         pool \<leftarrow> s;
         Some (r, set_brontide p b pool) } }"

definition hsk_peer_send :: "'k conf \<Rightarrow> nat \<Rightarrow> hsk_msg \<Rightarrow> hsk_pool \<Rightarrow> (hsk_error \<times> hsk_pool) option" where
  "hsk_peer_send cf p m pool = do { d \<leftarrow> peer_frame (cf_net cf) m; hsk_peer_write p d pool }"

end
