(* ===== verification/Pool.thy ===== *)
theory Pool
  imports Pool_State Proof_Radix
begin

text \<open>
  \<^verbatim>\<open>pool.c\<close>, the operations: sending and handling messages, requests for names, the timer, and what
  happens when a connection is made, has data, has been written to or is closed. A callback does not
  call the pool again.
\<close>

section \<open>Sending messages\<close>

definition hsk_peer_send_version :: "'k conf \<Rightarrow> nat \<Rightarrow> hsk_pool \<Rightarrow> (hsk_error \<times> hsk_pool) option" where
  "hsk_peer_send_version cf p pool = do {
     peer \<leftarrow> pl_heap pool p;
     let remote = (case hsk_addrman_get (pl_am pool) (pe_addr peer) of
         None \<Rightarrow> hsk_netaddr_init
       | Some i \<Rightarrow> hsk_netaddr_init\<lparr>na_time := en_time (am_addrs (pl_am pool) ! i), na_services := en_services (am_addrs (pl_am pool) ! i)\<rparr>);
     let (nonce, pool) = hsk_nonce pool;
     let msg = hsk_version_init\<lparr>vm_version := HSK_PROTO_VERSION, vm_services := HSK_SERVICES,
       vm_time := of_int (hsk_timedata_now (pl_clock pool) (pool_td pool)), vm_remote := remote\<lparr>na_addr := pe_addr peer\<rparr>,
       vm_nonce := nonce, vm_agent := pl_user_agent pool, vm_height := word_of_int (ch_height (pl_chain pool))\<rparr>;
     hsk_peer_send cf p (Version_msg msg) (set_peer p (\<lambda>peer. peer\<lparr>pe_version_time := pl_clock pool\<rparr>) pool) }"

definition hsk_peer_send_verack :: "'k conf \<Rightarrow> nat \<Rightarrow> hsk_pool \<Rightarrow> (hsk_error \<times> hsk_pool) option" where
  "hsk_peer_send_verack cf p pool = hsk_peer_send cf p Verack_msg pool"

definition hsk_peer_send_ping :: "'k conf \<Rightarrow> nat \<Rightarrow> u64 \<Rightarrow> hsk_pool \<Rightarrow> (hsk_error \<times> hsk_pool) option" where
  "hsk_peer_send_ping cf p nonce pool = hsk_peer_send cf p (Ping_msg nonce) pool"

definition hsk_peer_send_pong :: "'k conf \<Rightarrow> nat \<Rightarrow> u64 \<Rightarrow> hsk_pool \<Rightarrow> (hsk_error \<times> hsk_pool) option" where
  "hsk_peer_send_pong cf p nonce pool = hsk_peer_send cf p (Pong_msg nonce) pool"

definition hsk_peer_send_sendheaders :: "'k conf \<Rightarrow> nat \<Rightarrow> hsk_pool \<Rightarrow> (hsk_error \<times> hsk_pool) option" where
  "hsk_peer_send_sendheaders cf p pool = hsk_peer_send cf p Sendheaders_msg pool"

definition hsk_peer_send_getaddr :: "'k conf \<Rightarrow> nat \<Rightarrow> hsk_pool \<Rightarrow> (hsk_error \<times> hsk_pool) option" where
  "hsk_peer_send_getaddr cf p pool = hsk_peer_send cf p Getaddr_msg pool"

definition hsk_peer_send_getheaders :: "'k conf \<Rightarrow> nat \<Rightarrow> bytes option \<Rightarrow> hsk_pool \<Rightarrow> (hsk_error \<times> hsk_pool) option" where
  "hsk_peer_send_getheaders cf p stop pool = do {
     hashes \<leftarrow> hsk_chain_get_locator (cf_hash cf) (pl_chain pool);
     let msg = Getheaders_msg hashes (case stop of None \<Rightarrow> replicate 32 0 | Some s \<Rightarrow> take 32 s);
     hsk_peer_send cf p msg (set_peer p (\<lambda>peer. peer\<lparr>pe_getheaders_time := pl_clock pool\<rparr>) pool) }"

text \<open>The fields of the message are the root and the key.\<close>

definition hsk_peer_send_getproof :: "'k conf \<Rightarrow> nat \<Rightarrow> bytes \<Rightarrow> bytes \<Rightarrow> hsk_pool \<Rightarrow> (hsk_error \<times> hsk_pool) option" where
  "hsk_peer_send_getproof cf p name_hash root' pool = hsk_peer_send cf p (Getproof_msg (take 32 root') (take 32 name_hash)) pool"

section \<open>Handling messages\<close>

text \<open>The receipt of the acknowledgement is not looked at.\<close>

definition hsk_peer_handle_version :: "'k conf \<Rightarrow> nat \<Rightarrow> hsk_version_msg \<Rightarrow> hsk_pool \<Rightarrow> (hsk_error \<times> hsk_pool) option" where
  "hsk_peer_handle_version cf p msg pool = do {
     peer \<leftarrow> pl_heap pool p;
     let pool = set_peer p (\<lambda>peer. peer\<lparr>pe_height := uint (vm_height msg), pe_agent := vm_agent msg\<rparr>) pool;
     (_, td) \<leftarrow> hsk_timedata_add (True, True) (pl_clock pool) (pool_td pool) (pe_addr peer) (sint (vm_time msg));
     let pool = set_td td pool;
     let pool = pool\<lparr>pl_am := snd (hsk_addrman_mark_ack (pl_clock pool) (pl_am pool) (pe_addr peer) (vm_services msg))\<rparr>;
     (_, pool) \<leftarrow> hsk_peer_send_verack cf p pool;
     (rc, pool) \<leftarrow> hsk_peer_send_sendheaders cf p pool;
     if rc \<noteq> HSK_SUCCESS then Some (rc, pool)
     else do {
       (rc, pool) \<leftarrow> hsk_peer_send_getaddr cf p pool;
       if rc \<noteq> HSK_SUCCESS then Some (rc, pool)
       else hsk_peer_send_getheaders cf p None pool } }"

definition hsk_peer_handle_verack :: "nat \<Rightarrow> hsk_pool \<Rightarrow> (hsk_error \<times> hsk_pool) option" where
  "hsk_peer_handle_verack p pool = Some (HSK_SUCCESS, set_peer p (\<lambda>peer. peer\<lparr>pe_version_time := 0\<rparr>) pool)"

definition hsk_peer_handle_ping :: "'k conf \<Rightarrow> nat \<Rightarrow> u64 \<Rightarrow> hsk_pool \<Rightarrow> (hsk_error \<times> hsk_pool) option" where
  "hsk_peer_handle_ping cf p nonce pool = hsk_peer_send_pong cf p nonce pool"

definition pong_received :: "int \<Rightarrow> hsk_peer \<Rightarrow> hsk_peer" where
  "pong_received now peer =
     (let peer =
        (if now \<ge> pe_last_ping peer then
           let min' = now - pe_last_ping peer;
               peer = peer\<lparr>pe_last_pong := now\<rparr>;
               peer = (if pe_min_ping peer = 0 then peer\<lparr>pe_min_ping := min'\<rparr> else peer)
           in peer\<lparr>pe_min_ping := (if pe_min_ping peer < min' then pe_min_ping peer else min')\<rparr>
         else peer)
      in peer\<lparr>pe_challenge := 0\<rparr>)"

definition hsk_peer_handle_pong :: "nat \<Rightarrow> u64 \<Rightarrow> hsk_pool \<Rightarrow> (hsk_error \<times> hsk_pool) option" where
  "hsk_peer_handle_pong p nonce pool = do {
     peer \<leftarrow> pl_heap pool p;
     if pe_challenge peer = 0 then Some (HSK_SUCCESS, pool)
     else if nonce \<noteq> pe_challenge peer then
       (if nonce = 0 then Some (HSK_SUCCESS, set_peer p (\<lambda>peer. peer\<lparr>pe_challenge := 0\<rparr>) pool) else Some (HSK_SUCCESS, pool))
     else Some (HSK_SUCCESS, set_peer p (pong_received (pl_clock pool)) pool) }"

fun add_addrs :: "int \<Rightarrow> hsk_netaddr list \<Rightarrow> hsk_pool \<Rightarrow> hsk_pool option" where
  "add_addrs now [] pool = Some pool"
| "add_addrs now (addr # addrs) pool =
     (if \<not> hsk_addr_is_routable (na_addr addr) then add_addrs now addrs pool
      else if na_services addr AND 1 = 0 then add_addrs now addrs pool
      else
        let addr = (if na_time addr \<le> 100000000 \<or> na_time addr > of_int (now + 10 * 60)
              then addr\<lparr>na_time := of_int (now - 5 * 24 * 60 * 60)\<rparr> else addr)
        in if ad_port (na_addr addr) = 0 then add_addrs now addrs pool
           else if hsk_addr_has_key (na_addr addr) then add_addrs now addrs pool
           else do {
             (_, am, rs) \<leftarrow> hsk_addrman_add_na True (pl_clock pool) (pl_am pool) addr (pl_rand pool);
             add_addrs now addrs (pool\<lparr>pl_am := am, pl_rand := rs\<rparr>) })"

definition hsk_peer_handle_addr :: "hsk_netaddr list \<Rightarrow> hsk_pool \<Rightarrow> (hsk_error \<times> hsk_pool) option" where
  "hsk_peer_handle_addr addrs pool =
     (if length addrs > 1000 then Some (HSK_EFAILURE, pool)
      else do {
        pool \<leftarrow> add_addrs (hsk_timedata_now (pl_clock pool) (pool_td pool)) addrs pool;
        Some (HSK_SUCCESS, pool) })"

text \<open>The first loop over the headers: each follows the one before and has its proof of work. It leaves their hashes cached.\<close>

fun check_headers :: "hash_fns \<Rightarrow> bytes option \<Rightarrow> hsk_header list \<Rightarrow> hsk_error + hsk_header list" where
  "check_headers H prev [] = Inr []"
| "check_headers H prev (hdr # hdrs) =
     (if (case prev of None \<Rightarrow> False | Some l \<Rightarrow> memcmp (hdr_prev_block hdr) l \<noteq> 0) then Inl HSK_EHASHMISMATCH
      else
        let (hash, hdr) = hsk_header_cache H hdr;
            (rc, hdr) = hsk_header_verify_pow H hdr
        in if rc \<noteq> HSK_SUCCESS then Inl rc
           else case check_headers H (Some hash) hdrs of Inl rc \<Rightarrow> Inl rc | Inr hdrs \<Rightarrow> Inr (hdr # hdrs))"

text \<open>The second loop: the error it returns with, or whether there was an orphan.\<close>

fun add_headers :: "'k conf \<Rightarrow> nat \<Rightarrow> bool \<Rightarrow> hsk_header list \<Rightarrow> hsk_pool \<Rightarrow> ((hsk_error + bool) \<times> hsk_pool) option" where
  "add_headers cf p orphan [] pool = Some (Inr orphan, pool)"
| "add_headers cf p orphan (hdr # hdrs) pool = do {
     peer \<leftarrow> pl_heap pool p;
     (rc, chain) \<leftarrow> hsk_chain_add (cf_hash cf) (cf_net cf) (pl_clock pool) (pl_chain pool) hdr;
     let pool = pool\<lparr>pl_chain := chain\<rparr>;
     if rc = HSK_ETIMETOOOLD \<or> rc = HSK_EBADDIFFBITS then do {
       let (ok, am) = hsk_addrman_add_ban (True, True) (pl_clock pool) (pl_am pool) (pe_addr peer);
       let pool = pool\<lparr>pl_am := am\<rparr>;
       if \<not> ok then Some (Inl HSK_ENOMEM, pool)
       else do { (_, pool) \<leftarrow> hsk_peer_destroy p pool; Some (Inl rc, pool) } }
     else if rc = HSK_ETIMETOONEW then do { (_, pool) \<leftarrow> hsk_peer_destroy p pool; Some (Inl rc, pool) }
     else if rc = HSK_EORPHAN \<or> rc = HSK_EDUPLICATEORPHAN then add_headers cf p True hdrs pool
     else if rc \<noteq> HSK_SUCCESS then (if rc = HSK_EDUPLICATE then add_headers cf p orphan hdrs pool else Some (Inl rc, pool))
     else add_headers cf p orphan hdrs (set_peer p (\<lambda>peer. peer\<lparr>pe_headers := pe_headers peer + 1\<rparr>) pool) }"

definition hsk_peer_handle_headers :: "'k conf \<Rightarrow> nat \<Rightarrow> hsk_header list \<Rightarrow> hsk_pool \<Rightarrow> (hsk_error \<times> hsk_pool) option" where
  "hsk_peer_handle_headers cf p headers pool =
     (if headers = [] then Some (HSK_SUCCESS, pool)
      else if length headers > 2000 then Some (HSK_EFAILURE, pool)
      else case check_headers (cf_hash cf) None headers of
        Inl rc \<Rightarrow> Some (rc, pool)
      | Inr hdrs \<Rightarrow> do {
          (r, pool) \<leftarrow> add_headers cf p False hdrs pool;
          case r of
            Inl rc \<Rightarrow> Some (rc, pool)
          | Inr orphan \<Rightarrow>
              if orphan then do { (_, pool) \<leftarrow> hsk_peer_send_getheaders cf p None pool; Some (HSK_SUCCESS, pool) }
              else
                let pool = set_peer p (\<lambda>peer. peer\<lparr>pe_getheaders_time := 0\<rparr>) (pool\<lparr>pl_block_time := pl_clock pool\<rparr>)
                in if length headers = 2000 then hsk_peer_send_getheaders cf p None pool else Some (HSK_SUCCESS, pool) })"

definition answer_of :: "bool \<Rightarrow> bytes \<Rightarrow> name_req \<Rightarrow> pool_event" where
  "answer_of exists d req = Answered (nr_name req) HSK_SUCCESS exists d (nr_arg req)"

definition hsk_peer_handle_proof :: "'k conf \<Rightarrow> nat \<Rightarrow> bytes \<Rightarrow> bytes \<Rightarrow> hsk_proof \<Rightarrow> hsk_pool \<Rightarrow> (hsk_error \<times> hsk_pool) option" where
  "hsk_peer_handle_proof cf p root' key proof' pool = do {
     peer \<leftarrow> pl_heap pool p;
     case tbl_get (pe_names peer) key of
       None \<Rightarrow> Some (HSK_EBADARGS, pool)
     | Some [] \<Rightarrow> Some (HSK_EBADARGS, pool)
     | Some (reqs # rest) \<Rightarrow>
         if memcmp root' (nr_root reqs) \<noteq> 0 then Some (HSK_EHASHMISMATCH, pool)
         else do {
           res \<leftarrow> hsk_proof_verify (cf_hash cf) root' key proof';
           case res of
             Inl rc \<Rightarrow> Some (rc, pool)
           | Inr (exists, d) \<Rightarrow>
               let pool = set_peer p (\<lambda>peer. peer\<lparr>pe_names := tbl_del (pe_names peer) key\<rparr>) pool;
                   pool = report (map (answer_of exists d) (reqs # rest)) pool
               in Some (HSK_SUCCESS, set_peer p (\<lambda>peer. peer\<lparr>pe_proofs := pe_proofs peer + 1\<rparr>) pool) } }"

fun hsk_peer_handle_msg :: "'k conf \<Rightarrow> nat \<Rightarrow> hsk_pool \<Rightarrow> hsk_msg \<Rightarrow> (hsk_error \<times> hsk_pool) option" where
  "hsk_peer_handle_msg cf p pool (Version_msg msg) = hsk_peer_handle_version cf p msg pool"
| "hsk_peer_handle_msg cf p pool Verack_msg = hsk_peer_handle_verack p pool"
| "hsk_peer_handle_msg cf p pool (Ping_msg nonce) = hsk_peer_handle_ping cf p nonce pool"
| "hsk_peer_handle_msg cf p pool (Pong_msg nonce) = hsk_peer_handle_pong p nonce pool"
| "hsk_peer_handle_msg cf p pool Getaddr_msg = Some (HSK_SUCCESS, pool)"
| "hsk_peer_handle_msg cf p pool (Addr_msg addrs) = hsk_peer_handle_addr addrs pool"
| "hsk_peer_handle_msg cf p pool (Getheaders_msg hashes stop) = Some (HSK_SUCCESS, pool)"
| "hsk_peer_handle_msg cf p pool (Headers_msg headers) = hsk_peer_handle_headers cf p headers pool"
| "hsk_peer_handle_msg cf p pool Sendheaders_msg = Some (HSK_SUCCESS, pool)"
| "hsk_peer_handle_msg cf p pool (Getproof_msg root' key) = Some (HSK_SUCCESS, pool)"
| "hsk_peer_handle_msg cf p pool (Proof_msg root' key proof') = hsk_peer_handle_proof cf p root' key proof' pool"

end
