(* ===== verification/Pool_Event.thy ===== *)
theory Pool_Event
  imports Pool
begin

text \<open>
  \<^verbatim>\<open>pool.c\<close>, what starts from outside a message: requests for names, the timer, new peers, and the
  calls libuv makes when a connection is made, has data, has been written to or is closed.
\<close>

section \<open>Requests for names\<close>

text \<open>The first loop of \<^verbatim>\<open>hsk_pool_pick_prover\<close>. It starts from the first peer, in whatever state that is.\<close>

fun best_loop :: "hsk_pool \<Rightarrow> nat list \<Rightarrow> nat \<Rightarrow> nat option \<Rightarrow> (nat \<times> nat option) option" where
  "best_loop pool [] first_best second_best = Some (first_best, second_best)"
| "best_loop pool (p # ps) first_best second_best = do {
     peer \<leftarrow> pl_heap pool p;
     if pe_state peer \<noteq> HSK_STATE_HANDSHAKE then best_loop pool ps first_best second_best
     else do {
       best \<leftarrow> pl_heap pool first_best;
       if pe_proofs peer > pe_proofs best \<and> tbl_size (pe_names peer) \<le> tbl_size (pe_names best)
       then best_loop pool ps p (Some first_best) else best_loop pool ps first_best second_best } }"

definition active_peers :: "hsk_pool \<Rightarrow> nat list" where
  "active_peers pool =
     filter (\<lambda>p. case pl_heap pool p of None \<Rightarrow> False | Some peer \<Rightarrow> pe_state peer = HSK_STATE_HANDSHAKE) (pl_list pool)"

definition hsk_pool_pick_prover :: "hsk_pool \<Rightarrow> bytes \<Rightarrow> (nat option \<times> hsk_pool) option" where
  "hsk_pool_pick_prover pool name_hash =
     (case pl_list pool of [] \<Rightarrow> Some (None, pool)
      | head # _ \<Rightarrow> do {
          (first_best, second_best) \<leftarrow> best_loop pool (pl_list pool) head None;
          let active = active_peers pool;
          if active = [] then Some (None, pool)
          else do {
            let deterministic = active ! (unat (hd name_hash) mod length active);
            let (r, pool) = hsk_random pool;
            let random = active ! (unat r mod length active);
            let (a, pool) = hsk_random pool;
            if a mod 5 = 0 then Some (Some random, pool)
            else do {
              let (b, pool) = (if second_best = None then (1, pool) else hsk_random pool);
              if b mod 10 = 0 then Some (second_best, pool)
              else do {
                let (c, pool) = hsk_random pool;
                Some (Some (if c mod 10 = 0 then first_best else deterministic), pool) } } } })"

definition hsk_pool_resolve :: "'k conf \<Rightarrow> bytes \<Rightarrow> nat \<Rightarrow> hsk_pool \<Rightarrow> (hsk_error \<times> hsk_pool) option" where
  "hsk_pool_resolve cf name arg pool =
     (if \<not> hsk_chain_synced (pl_chain pool) then Some (HSK_ETIMEOUT, pool)
      else do {
        root' \<leftarrow> hsk_chain_safe_root (cf_net cf) (pl_chain pool);
        let hash = sha3 (cf_hash cf) name;
        let req = \<lparr>nr_name = name, nr_hash = hash, nr_root = take 32 root', nr_arg = arg, nr_time = pl_clock pool\<rparr>;
        (prover, pool) \<leftarrow> hsk_pool_pick_prover pool hash;
        case prover of
          None \<Rightarrow> Some (HSK_SUCCESS, pool\<lparr>pl_pending := req # pl_pending pool, pl_pending_count := pl_pending_count pool + 1\<rparr>)
        | Some p \<Rightarrow> do {
            peer \<leftarrow> pl_heap pool p;
            case tbl_get (pe_names peer) hash of
              Some (head # reqs) \<Rightarrow>
                Some (HSK_SUCCESS, set_peer p (\<lambda>peer. peer\<lparr>pe_names :=
                  AList.update hash (req\<lparr>nr_time := nr_time head\<rparr> # head # reqs) (pe_names peer)\<rparr>) pool)
            | _ \<Rightarrow>
                hsk_peer_send_getproof cf p hash root'
                  (set_peer p (\<lambda>peer. peer\<lparr>pe_names := AList.update hash [req] (pe_names peer)\<rparr>) pool) } })"

text \<open>The second loop of \<^verbatim>\<open>hsk_pool_resend\<close>, which gives each pending request to a peer.\<close>

fun resend_loop :: "'k conf \<Rightarrow> bytes \<Rightarrow> name_req list \<Rightarrow> hsk_pool \<Rightarrow> hsk_pool option" where
  "resend_loop cf root' [] pool = Some pool"
| "resend_loop cf root' (req # reqs) pool = do {
     (prover, pool) \<leftarrow> hsk_pool_pick_prover pool (nr_hash req);
     p \<leftarrow> prover;
     peer \<leftarrow> pl_heap pool p;
     let req = req\<lparr>nr_time := pl_clock pool\<rparr>;
     case tbl_get (pe_names peer) (nr_hash req) of
       Some (head # rest) \<Rightarrow>
         resend_loop cf root' reqs (set_peer p (\<lambda>peer. peer\<lparr>pe_names := AList.update (nr_hash req) (req # head # rest) (pe_names peer)\<rparr>) pool)
     | _ \<Rightarrow> do {
         (_, pool) \<leftarrow> hsk_peer_send_getproof cf p (nr_hash req) root'
           (set_peer p (\<lambda>peer. peer\<lparr>pe_names := AList.update (nr_hash req) [req] (pe_names peer)\<rparr>) pool);
         resend_loop cf root' reqs pool } }"

definition hsk_pool_resend :: "'k conf \<Rightarrow> hsk_pool \<Rightarrow> hsk_pool option" where
  "hsk_pool_resend cf pool =
     (if \<not> hsk_chain_synced (pl_chain pool) then Some pool
      else case pl_pending pool of [] \<Rightarrow> Some pool
      | req # reqs \<Rightarrow> do {
          (prover, pool) \<leftarrow> hsk_pool_pick_prover pool (nr_hash req);
          if prover = None then Some pool
          else resend_loop cf (hdr_name_root (ch_tip (pl_chain pool))) (req # reqs) (pool\<lparr>pl_pending := [], pl_pending_count := 0\<rparr>) })"

section \<open>New peers\<close>

text \<open>The calls to libuv here are those that can fail: the socket, the text of the address, the connection.\<close>

definition hsk_peer_open :: "'k conf \<Rightarrow> nat \<Rightarrow> hsk_addr \<Rightarrow> hsk_pool \<Rightarrow> (hsk_error \<times> hsk_pool) option" where
  "hsk_peer_open cf p addr pool = do {
     peer \<leftarrow> pl_heap pool p;
     if pe_state peer \<noteq> HSK_STATE_DISCONNECTED then None
     else do {
       let pool = set_peer p (\<lambda>peer. peer\<lparr>pe_state := HSK_STATE_CONNECTING\<rparr>) pool;
       let (ok, pool) = uv_call pool;
       if \<not> ok then Some (HSK_EFAILURE, pool)
       else do {
         let pool = set_peer p (\<lambda>peer. peer\<lparr>pe_addr := addr\<rparr>) pool;
         let (ok, pool) = uv_call pool;
         if \<not> ok then Some (HSK_EBADARGS, pool)
         else do {
           _ \<leftarrow> hsk_addr_to_sa addr;
           pool \<leftarrow> (case pe_brontide peer of None \<Rightarrow> Some pool
             | Some b \<Rightarrow> do {
                 key \<leftarrow> pl_key pool;
                 (rc, b) \<leftarrow> hsk_brontide_connect (cf_ec cf) b key (ad_key addr);
                 if rc \<noteq> HSK_SUCCESS then None else Some (set_brontide p b pool) });
           let (ok, pool) = uv_call pool;
           if \<not> ok then Some (HSK_EFAILURE, pool) else Some (HSK_SUCCESS, pool) } } } }"

definition hsk_pool_getaddr :: "'k conf \<Rightarrow> hsk_pool \<Rightarrow> (hsk_addr option \<times> hsk_pool) option" where
  "hsk_pool_getaddr cf pool = do {
     (addr, am, rs) \<leftarrow> hsk_addrman_pick_addr (cf_net cf) (cf_round cf) (pl_clock pool) (pl_am pool) (pl_peers pool) (pl_rand pool);
     Some (addr, pool\<lparr>pl_am := am, pl_rand := rs\<rparr>) }"

definition hsk_pool_refill :: "'k conf \<Rightarrow> hsk_pool \<Rightarrow> (hsk_error \<times> hsk_pool) option" where
  "hsk_pool_refill cf pool =
     (if pl_size pool < pl_max_size pool then do {
        (found, pool) \<leftarrow> hsk_pool_getaddr cf pool;
        case found of None \<Rightarrow> Some (HSK_SUCCESS, pool)
        | Some addr \<Rightarrow>
            if hsk_addr_has_key addr \<and> \<not> hsk_ec_verify_pubkey (cf_ec cf) (ad_key addr)
            then Some (HSK_SUCCESS, pool\<lparr>pl_am := snd (hsk_addrman_remove_addr (pl_am pool) addr)\<rparr>)
            else do {
              let (p, pool) = hsk_peer_alloc pool (hsk_addr_has_key addr);
              let pool = pool\<lparr>pl_am := snd (hsk_addrman_mark_attempt (pl_clock pool) (pl_am pool) addr)\<rparr>;
              (rc, pool) \<leftarrow> hsk_peer_open cf p addr pool;
              if rc \<noteq> HSK_SUCCESS then do { (_, pool) \<leftarrow> hsk_peer_destroy p pool; Some (rc, pool) }
              else do { pool \<leftarrow> hsk_peer_push p pool; Some (HSK_SUCCESS, pool) } } }
      else Some (HSK_SUCCESS, pool))"

section \<open>The timer\<close>

text \<open>
  The loop follows \<^verbatim>\<open>next\<close> of the peer it has just sent to. When that peer was the first one and has
  been taken off the list, its \<^verbatim>\<open>next\<close> is null and the loop ends there.
\<close>

fun getheaders_loop :: "'k conf \<Rightarrow> nat list \<Rightarrow> hsk_pool \<Rightarrow> hsk_pool option" where
  "getheaders_loop cf [] pool = Some pool"
| "getheaders_loop cf (p # ps) pool = do {
     peer \<leftarrow> pl_heap pool p;
     if pe_state peer \<noteq> HSK_STATE_HANDSHAKE then getheaders_loop cf ps pool
     else do {
       let first = (pl_list pool \<noteq> [] \<and> hd (pl_list pool) = p);
       (_, pool) \<leftarrow> hsk_peer_send_getheaders cf p None pool;
       if first \<and> p \<notin> set (pl_list pool) then Some pool else getheaders_loop cf ps pool } }"

definition hsk_pool_send_getheaders :: "'k conf \<Rightarrow> hsk_pool \<Rightarrow> hsk_pool option" where
  "hsk_pool_send_getheaders cf pool = do {
     pool \<leftarrow> getheaders_loop cf (pl_list pool) pool;
     Some (pool\<lparr>pl_getheaders_time := pl_clock pool\<rparr>) }"

text \<open>The first reasons to give up a peer.\<close>

definition is_stalling :: "int \<Rightarrow> hsk_peer \<Rightarrow> bool" where
  "is_stalling now peer \<longleftrightarrow> now > pe_conn_time peer + 60 \<and>
     ((pe_last_send peer = 0 \<or> pe_last_recv peer = 0) \<or> now > pe_last_send peer + 20 * 60 \<or> now > pe_last_recv peer + 20 * 60 \<or>
      (pe_challenge peer \<noteq> 0 \<and> now > pe_last_ping peer + 20 * 60))"

definition timer_ping :: "'k conf \<Rightarrow> nat \<Rightarrow> hsk_peer \<Rightarrow> hsk_pool \<Rightarrow> hsk_pool option" where
  "timer_ping cf p peer pool =
     (let now = pl_clock pool in
      if now > pe_ping_timer peer + 30 then
        let pool = set_peer p (\<lambda>peer. peer\<lparr>pe_ping_timer := now\<rparr>) pool
        in if pe_challenge peer \<noteq> 0 then Some pool
           else
             let (nonce, pool) = hsk_nonce pool
             in do { (_, pool) \<leftarrow> hsk_peer_send_ping cf p nonce (set_peer p (\<lambda>peer. peer\<lparr>pe_challenge := nonce, pe_last_ping := now\<rparr>) pool);
                     Some pool }
      else Some pool)"

definition timer_peer :: "'k conf \<Rightarrow> nat \<Rightarrow> hsk_pool \<Rightarrow> hsk_pool option" where
  "timer_peer cf p pool = do {
     let now = pl_clock pool;
     peer \<leftarrow> pl_heap pool p;
     if pe_state peer \<noteq> HSK_STATE_HANDSHAKE then Some pool
     else if is_stalling now peer then do { (_, pool) \<leftarrow> hsk_peer_destroy p pool; Some pool }
     else do {
       pool \<leftarrow> timer_ping cf p peer pool;
       peer \<leftarrow> pl_heap pool p;
       if \<not> hsk_chain_synced (pl_chain pool) \<and> pe_getheaders_time peer \<noteq> 0 \<and> now > pe_getheaders_time peer + 30
       then do { (_, pool) \<leftarrow> hsk_peer_destroy p pool; Some pool }
       else if pe_version_time peer \<noteq> 0 \<and> now > pe_version_time peer + 10
       then do { (_, pool) \<leftarrow> hsk_peer_destroy p pool; Some pool }
       else do {
         overdue \<leftarrow> hsk_peer_is_overdue pool peer;
         if overdue then do { (_, pool) \<leftarrow> hsk_peer_destroy p pool; Some pool } else Some pool } } }"

text \<open>The loop reads \<^verbatim>\<open>next\<close> before it handles a peer, which takes no other peer off the list.\<close>

fun timer_loop :: "'k conf \<Rightarrow> nat list \<Rightarrow> hsk_pool \<Rightarrow> hsk_pool option" where
  "timer_loop cf [] pool = Some pool"
| "timer_loop cf (p # ps) pool = do { pool \<leftarrow> timer_peer cf p pool; timer_loop cf ps pool }"

definition hsk_pool_timer :: "'k conf \<Rightarrow> hsk_pool \<Rightarrow> hsk_pool option" where
  "hsk_pool_timer cf pool = do {
     let now = pl_clock pool;
     pool \<leftarrow> timer_loop cf (pl_list pool) pool;
     pool \<leftarrow> (if pl_block_time pool \<noteq> 0 \<and> now > pl_block_time pool + 10 * 60 \<and>
           (pl_getheaders_time pool = 0 \<or> now > pl_getheaders_time pool + 5 * 60)
       then hsk_pool_send_getheaders cf pool else Some pool);
     (_, pool) \<leftarrow> hsk_pool_refill cf pool;
     Some pool }"

end
