(* ===== verification/Pool_Io.thy ===== *)
theory Pool_Io
  imports Pool_Event
begin

text \<open>
  \<^verbatim>\<open>pool.c\<close>, what libuv calls: a connection is made, octets have come, a write is done, a socket is
  closed, the timer has run out; and the life of the pool, its settings, its start and its end.
\<close>

section \<open>Reading\<close>

definition hsk_peer_on_read :: "'k conf \<Rightarrow> nat \<Rightarrow> bytes \<Rightarrow> hsk_pool \<Rightarrow> hsk_pool option" where
  "hsk_peer_on_read cf p d pool = do {
     peer \<leftarrow> pl_heap pool p;
     if pe_state peer \<noteq> HSK_STATE_HANDSHAKE then Some pool
     else do {
       let pool = set_peer p (\<lambda>peer. peer\<lparr>pe_last_recv := pl_clock pool\<rparr>) pool;
       (ok, st, pool) \<leftarrow> read_loop (cf_net cf) (hsk_peer_handle_msg cf p) (pe_stream peer) d pool;
       let pool = set_peer p (\<lambda>peer. peer\<lparr>pe_stream := st\<rparr>) pool;
       if \<not> ok then do { (_, pool) \<leftarrow> hsk_peer_destroy p pool; Some pool } else Some pool } }"

text \<open>
  The callbacks of an encrypted connection run inside \<^verbatim>\<open>brontide.c\<close>, which holds the connection; they
  see it through the peer, so it is put there before and taken back after.
\<close>

definition get_brontide :: "nat \<Rightarrow> hsk_pool \<Rightarrow> hsk_brontide option" where
  "get_brontide p pool = do { peer \<leftarrow> pl_heap pool p; pe_brontide peer }"

definition after_brontide_connect :: "'k conf \<Rightarrow> nat \<Rightarrow> hsk_pool \<Rightarrow> hsk_pool option" where
  "after_brontide_connect cf p pool = do {
     peer \<leftarrow> pl_heap pool p;
     if pe_state peer \<noteq> HSK_STATE_READING then Some pool
     else do {
       let pool = pool\<lparr>pl_am := snd (hsk_addrman_mark_success (pl_clock pool) (pl_am pool) (pe_addr peer))\<rparr>;
       (_, pool) \<leftarrow> hsk_peer_send_version cf p (set_peer p (\<lambda>peer. peer\<lparr>pe_state := HSK_STATE_HANDSHAKE\<rparr>) pool);
       Some pool } }"

definition after_brontide_read :: "'k conf \<Rightarrow> nat \<Rightarrow> bytes \<Rightarrow> hsk_pool \<Rightarrow> hsk_pool option" where
  "after_brontide_read cf p d pool = hsk_peer_on_read cf p d pool"

definition in_owner :: "nat \<Rightarrow> (hsk_pool \<Rightarrow> hsk_pool option) \<Rightarrow> hsk_brontide \<times> hsk_pool option \<Rightarrow> (hsk_brontide \<times> hsk_pool option) option" where
  "in_owner p f = (\<lambda>(b, s). do {
     pool \<leftarrow> s;
     pool \<leftarrow> f (set_brontide p b pool);
     b \<leftarrow> get_brontide p pool;
     Some (b, Some pool) })"

definition pool_callbacks :: "'k conf \<Rightarrow> nat \<Rightarrow> hsk_pool option brontide_cb" where
  "pool_callbacks cf p = \<lparr>connect_cb = in_owner p (after_brontide_connect cf p), write_cb = brontide_do_write p,
     read_cb = (\<lambda>d. in_owner p (after_brontide_read cf p d))\<rparr>"

section \<open>What libuv calls\<close>

text \<open>The boolean is the status. Starting to read is a call to libuv of its own.\<close>

definition on_connect :: "'k conf \<Rightarrow> nat \<Rightarrow> bool \<Rightarrow> hsk_pool \<Rightarrow> hsk_pool option" where
  "on_connect cf p status pool = do {
     peer \<leftarrow> pl_heap pool p;
     if pe_state peer \<noteq> HSK_STATE_CONNECTING then Some pool
     else if \<not> status then do { (_, pool) \<leftarrow> hsk_peer_destroy p pool; Some pool }
     else do {
       let pool = set_peer p (\<lambda>peer. peer\<lparr>pe_state := HSK_STATE_CONNECTED\<rparr>) pool;
       let (ok, pool) = uv_call pool;
       if \<not> ok then do { (_, pool) \<leftarrow> hsk_peer_destroy p pool; Some pool }
       else do {
         let pool = set_peer p (\<lambda>peer. peer\<lparr>pe_state := HSK_STATE_READING, pe_conn_time := pl_clock pool\<rparr>) pool;
         case pe_brontide peer of
           Some b \<Rightarrow> do {
             (r, b, e, s) \<leftarrow> hsk_brontide_on_connect (cf_ec cf) (pool_callbacks cf p) b (pl_entropy pool) (Some pool);
             pool \<leftarrow> s;
             let pool = (set_brontide p b pool)\<lparr>pl_entropy := e\<rparr>;
             if r \<noteq> HSK_SUCCESS then do { (_, pool) \<leftarrow> hsk_peer_destroy p pool; Some pool } else Some pool }
         | None \<Rightarrow> do {
             (_, pool) \<leftarrow> hsk_peer_send_version cf p (set_peer p (\<lambda>peer. peer\<lparr>pe_state := HSK_STATE_HANDSHAKE\<rparr>) pool);
             Some pool } } } }"

definition after_write :: "nat \<Rightarrow> bool \<Rightarrow> hsk_pool \<Rightarrow> hsk_pool option" where
  "after_write p status pool = (if \<not> status then do { (_, pool) \<leftarrow> hsk_peer_destroy p pool; Some pool } else Some pool)"

text \<open>\<open>None\<close> is an error or the end of the stream.\<close>

definition after_read :: "'k conf \<Rightarrow> nat \<Rightarrow> bytes option \<Rightarrow> hsk_pool \<Rightarrow> hsk_pool option" where
  "after_read cf p nread pool =
     (case nread of None \<Rightarrow> do { (_, pool) \<leftarrow> hsk_peer_destroy p pool; Some pool }
      | Some d \<Rightarrow> do {
          peer \<leftarrow> pl_heap pool p;
          case pe_brontide peer of
            Some b \<Rightarrow> do {
              (r, b, e, s) \<leftarrow> hsk_brontide_on_read (cf_ec cf) (pool_callbacks cf p) b d (pl_entropy pool) (Some pool);
              pool \<leftarrow> s;
              let pool = (set_brontide p b pool)\<lparr>pl_entropy := e\<rparr>;
              if r \<noteq> HSK_SUCCESS then do { (_, pool) \<leftarrow> hsk_peer_destroy p pool; Some pool } else Some pool }
          | None \<Rightarrow> hsk_peer_on_read cf p d pool })"

definition after_close :: "nat \<Rightarrow> hsk_pool \<Rightarrow> hsk_pool option" where
  "after_close p pool = do {
     _ \<leftarrow> pl_heap pool p;
     Some (hsk_peer_free p (set_peer p (\<lambda>peer. peer\<lparr>pe_state := HSK_STATE_DISCONNECTED\<rparr>) pool)) }"

definition after_timer :: "'k conf \<Rightarrow> hsk_pool \<Rightarrow> hsk_pool option" where
  "after_timer cf pool = hsk_pool_timer cf pool"

section \<open>The life of the pool\<close>

text \<open>The result of setting up the chain is not looked at. The parsed seeds of \<^verbatim>\<open>seeds.h\<close> are an argument.\<close>

definition hsk_pool_init ::
  "'k conf \<Rightarrow> hsk_addr list \<Rightarrow> int \<Rightarrow> bool stream \<Rightarrow> u32 stream \<Rightarrow> entropy \<Rightarrow> (hsk_error + hsk_pool) option" where
  "hsk_pool_init cf seeds clock uv rnd e =
     (case hsk_ec_create_privkey (cf_ec cf) e of
        (None, _) \<Rightarrow> Some (Inl HSK_EFAILURE)
      | (Some key, e) \<Rightarrow>
          (case hsk_ec_create_pubkey (cf_ec cf) key of
             None \<Rightarrow> Some (Inl HSK_EFAILURE)
           | Some pubkey \<Rightarrow> do {
               (_, chain) \<leftarrow> hsk_chain_init (cf_hash cf) (cf_net cf) clock [] hsk_timedata_init;
               (am, rnd) \<leftarrow> hsk_addrman_init clock hsk_timedata_init seeds rnd;
               Some (Inr \<lparr>pl_key = Some key, pl_pubkey = pubkey, pl_chain = chain, pl_am = am, pl_timer = False, pl_peer_id = 0,
                 pl_peers = [], pl_list = [], pl_size = 0, pl_max_size = HSK_POOL_SIZE, pl_pending = [], pl_pending_count = 0,
                 pl_block_time = 0, pl_getheaders_time = 0, pl_user_agent = HSK_USER_AGENT, pl_heap = (\<lambda>_. None), pl_next = 0,
                 pl_clock = clock, pl_uv = uv, pl_rand = rnd, pl_entropy = e, pl_out = []\<rparr>) }))"

definition hsk_pool_set_key :: "'k conf \<Rightarrow> bytes option \<Rightarrow> hsk_pool \<Rightarrow> bool \<times> hsk_pool" where
  "hsk_pool_set_key cf key pool =
     (case key of None \<Rightarrow> (True, pool\<lparr>pl_key := None, pl_pubkey := replicate 33 0\<rparr>)
      | Some key \<Rightarrow> (case hsk_ec_create_pubkey (cf_ec cf) key of
          None \<Rightarrow> (False, pool)
        | Some pubkey \<Rightarrow> (True, pool\<lparr>pl_key := Some (take 32 key), pl_pubkey := pubkey\<rparr>)))"

definition hsk_pool_set_size :: "int \<Rightarrow> hsk_pool \<Rightarrow> bool \<times> hsk_pool" where
  "hsk_pool_set_size max_size pool =
     (if max_size \<le> 0 \<or> max_size > 1000 then (False, pool) else (True, pool\<lparr>pl_max_size := max_size\<rparr>))"

text \<open>
  The loop over the characters, with the terminator. \<open>acc\<close> is what lies between \<^verbatim>\<open>start\<close> and \<^verbatim>\<open>i\<close>: after
  an address that is too long, unreadable or refused, \<^verbatim>\<open>start\<close> stays. Parsing is an argument.
\<close>

fun seeds_loop :: "(bytes \<Rightarrow> hsk_addr option) \<Rightarrow> bytes \<Rightarrow> bytes \<Rightarrow> hsk_pool \<Rightarrow> hsk_pool option" where
  "seeds_loop parse acc [] pool = Some pool"
| "seeds_loop parse acc (c # cs) pool =
     (if c \<noteq> 44 \<and> c \<noteq> 0 then seeds_loop parse (acc @ [c]) cs pool
      else if acc = [] then seeds_loop parse [] cs pool
      else if length acc \<ge> 128 then seeds_loop parse (acc @ [c]) cs pool
      else case parse acc of
        None \<Rightarrow> seeds_loop parse (acc @ [c]) cs pool
      | Some addr \<Rightarrow> do {
          (ok, am, rs) \<leftarrow> hsk_addrman_add_addr True (pl_clock pool) (pl_am pool) addr (pl_rand pool);
          seeds_loop parse (if \<not> ok then acc @ [c] else []) cs (pool\<lparr>pl_am := am, pl_rand := rs\<rparr>) })"

definition hsk_pool_set_seeds :: "(bytes \<Rightarrow> hsk_addr option) \<Rightarrow> bytes option \<Rightarrow> hsk_pool \<Rightarrow> (bool \<times> hsk_pool) option" where
  "hsk_pool_set_seeds parse seeds pool =
     (case seeds of None \<Rightarrow> Some (True, pool)
      | Some s \<Rightarrow> do { pool \<leftarrow> seeds_loop parse [] (s @ [0]) pool; Some (True, pool) })"

definition hsk_pool_set_agent :: "bytes option \<Rightarrow> hsk_pool \<Rightarrow> bool \<times> hsk_pool" where
  "hsk_pool_set_agent user_agent pool =
     (case user_agent of None \<Rightarrow> (True, pool)
      | Some a \<Rightarrow>
          if 47 \<in> set a then (False, pool)
          else if length (pl_user_agent pool) + length a + 1 > HSK_MAX_AGENT then (False, pool)
          else (True, pool\<lparr>pl_user_agent := pl_user_agent pool @ a @ [47]\<rparr>))"

definition hsk_pool_open :: "'k conf \<Rightarrow> hsk_pool \<Rightarrow> (hsk_error \<times> hsk_pool) option" where
  "hsk_pool_open cf pool = do {
     let pool = pool\<lparr>pl_timer := True\<rparr>;
     let (ok, pool) = uv_call pool;
     if \<not> ok then Some (HSK_EFAILURE, pool)
     else do {
       let (ok, pool) = uv_call pool;
       if \<not> ok then Some (HSK_EFAILURE, pool)
       else do { (_, pool) \<leftarrow> hsk_pool_refill cf pool; Some (HSK_SUCCESS, pool) } } }"

definition hsk_pool_close :: "hsk_pool \<Rightarrow> (hsk_error \<times> hsk_pool) option" where
  "hsk_pool_close pool =
     (if \<not> pl_timer pool then None
      else let (ok, pool) = uv_call pool
        in if \<not> ok then Some (HSK_EFAILURE, pool) else Some (HSK_SUCCESS, pool\<lparr>pl_timer := False\<rparr>))"

text \<open>The loop over the peers. Requests that are still pending are dropped without a callback.\<close>

fun uninit_loop :: "nat list \<Rightarrow> hsk_pool \<Rightarrow> hsk_pool option" where
  "uninit_loop [] pool = Some pool"
| "uninit_loop (p # ps) pool = do { (_, pool) \<leftarrow> hsk_peer_destroy p pool; uninit_loop ps pool }"

definition hsk_pool_uninit :: "hsk_pool \<Rightarrow> hsk_pool option" where
  "hsk_pool_uninit pool = do {
     pool \<leftarrow> uninit_loop (pl_list pool) pool;
     Some (pool\<lparr>pl_pending := [], pl_pending_count := 0\<rparr>) }"

definition hsk_pool_destroy :: "hsk_pool \<Rightarrow> (hsk_error \<times> hsk_pool) option" where
  "hsk_pool_destroy pool = do {
     (rc, pool) \<leftarrow> hsk_pool_close pool;
     if rc \<noteq> HSK_SUCCESS then Some (rc, pool)
     else do { pool \<leftarrow> hsk_pool_uninit pool; Some (HSK_SUCCESS, pool) } }"

end
