(* ===== verification/Pool_Ok.thy ===== *)
theory Pool_Ok
  imports Pool_Io Chain_Use Proof_Wire Brontide_Cs "HOL-Library.Multiset"
begin

text \<open>
  The invariant of the pool of \<^verbatim>\<open>pool.c\<close> and what every operation on one peer keeps: the peers of the
  list, the map of addresses and the heap agree, no request for a name is lost or answered twice, and
  no other peer is touched.
\<close>

section \<open>Messages fit their buffer\<close>

definition fits :: "writer \<Rightarrow> bool" where
  "fits w \<longleftrightarrow> fst (w None) = None \<and> (\<forall>out. \<exists>bs. fst (w (Some out)) = Some (out @ bs) \<and> length bs \<le> snd (w None))"

lemma fits_put: "length bs \<le> n \<Longrightarrow> fits (put bs n)"
  by (simp add: fits_def put_def)

lemma fits_prims:
  "fits (write_u8 a)" "fits (write_u16 b)" "fits (write_u32 c)" "fits (write_u64 e)" "fits (write_bytes bs n)"
  by (simp_all add: write_defs fits_put)

lemma fits_seq: "\<forall>w\<in>set ws. fits w \<Longrightarrow> fits (write_seq ws)"
proof (induction ws)
  case (Cons w ws)
  have w: "fits w" and ws: "fits (write_seq ws)" using Cons by simp_all
  show ?case unfolding fits_def
  proof (intro conjI allI)
    show "fst (write_seq (w # ws) None) = None" using w ws by (simp add: fits_def split_beta)
    fix out
    obtain x where x: "fst (w (Some out)) = Some (out @ x)" "length x \<le> snd (w None)" using w unfolding fits_def by blast
    obtain y where y: "fst (write_seq ws (Some (out @ x))) = Some ((out @ x) @ y)" "length y \<le> snd (write_seq ws None)"
      using ws unfolding fits_def by blast
    have "fst (w None) = None" using w by (simp add: fits_def)
    then show "\<exists>bs. fst (write_seq (w # ws) (Some out)) = Some (out @ bs) \<and> length bs \<le> snd (write_seq (w # ws) None)"
      using x y by (intro exI [of _ "x @ y"]) (simp add: split_beta)
  qed
qed (simp add: fits_def)

lemma fits_varsize: "n < 253 \<Longrightarrow> fits (write_varsize (of_nat n))"
  using short_varsize [of n] unfolding short_def fits_def by fastforce

text \<open>The messages the pool sends.\<close>

fun sent_msg :: "hsk_msg \<Rightarrow> bool" where
  "sent_msg (Getheaders_msg hashes stop) \<longleftrightarrow> length hashes < 253"
| "sent_msg (Addr_msg _) \<longleftrightarrow> False"
| "sent_msg (Headers_msg _) \<longleftrightarrow> False"
| "sent_msg (Proof_msg _ _ _) \<longleftrightarrow> False"
| "sent_msg _ \<longleftrightarrow> True"

lemma sent_fits: "sent_msg m \<Longrightarrow> fits (hsk_msg_write m)"
  by (cases m)
    (auto intro!: fits_seq fits_prims fits_varsize simp: hsk_version_msg_write_def hsk_netaddr_write_def hsk_ping_msg_write_def hsk_pong_msg_write_def
      hsk_getheaders_msg_write_def hsk_getproof_msg_write_def Let_def)

lemma frame_fits:
  assumes "sent_msg m"
  obtains d where "peer_frame N m = Some d"
proof -
  obtain bs where bs: "fst (hsk_msg_write m (Some (emit (write_seq [write_u32 (net_magic N), write_u8 (msg_cmd m), write_u32 (of_nat (hsk_msg_size m))])))) =
      Some (emit (write_seq [write_u32 (net_magic N), write_u8 (msg_cmd m), write_u32 (of_nat (hsk_msg_size m))]) @ bs)"
    "length bs \<le> hsk_msg_size m"
    using sent_fits [OF assms] unfolding fits_def hsk_msg_size_def by blast
  then have "length (emit (write_seq [write_u32 (net_magic N), write_u8 (msg_cmd m), write_u32 (of_nat (hsk_msg_size m)), hsk_msg_write m])) \<le> 9 + hsk_msg_size m"
    by (simp add: emit_def write_defs put_def split_beta)
  then show ?thesis using that unfolding peer_frame_def Let_def by (simp add: not_le)
qed

section \<open>The invariant\<close>

definition conf_ok :: "'k conf \<Rightarrow> bool" where
  "conf_ok cf \<longleftrightarrow> cf_net cf \<in> set hsk_networks \<and> no_zero_hash (cf_hash cf) (cf_net cf) \<and> rounding (cf_round cf)"

definition open_state :: "peer_state \<Rightarrow> bool" where
  "open_state s \<longleftrightarrow> s \<noteq> HSK_STATE_DISCONNECTED \<and> s \<noteq> HSK_STATE_DISCONNECTING"

definition peer_ok :: "hsk_peer \<Rightarrow> bool" where
  "peer_ok peer \<longleftrightarrow> tbl_ok (pe_names peer) \<and> [] \<notin> snd ` set (pe_names peer) \<and>
     (\<forall>b. pe_brontide peer = Some b \<longrightarrow> cs_ok (br_send_cipher b))"

text \<open>The list, the map of addresses and the heap agree; a peer that is closing has no requests.\<close>

definition links_ok :: "hsk_pool \<Rightarrow> bool" where
  "links_ok pool \<longleftrightarrow> distinct (pl_list pool) \<and> pl_size pool = int (length (pl_list pool)) \<and> tbl_ok (pl_peers pool) \<and>
     (\<forall>p\<in>set (pl_list pool). \<exists>peer. pl_heap pool p = Some peer \<and> open_state (pe_state peer) \<and> tbl_get (pl_peers pool) (addr_id (pe_addr peer)) = Some p) \<and>
     (\<forall>k p. tbl_get (pl_peers pool) k = Some p \<longrightarrow> p \<in> set (pl_list pool) \<and> map_option (addr_id \<circ> pe_addr) (pl_heap pool p) = Some k)"

definition heap_ok :: "hsk_pool \<Rightarrow> bool" where
  "heap_ok pool \<longleftrightarrow> (\<forall>p peer. pl_heap pool p = Some peer \<longrightarrow> p < pl_next pool \<and> peer_ok peer \<and>
     (p \<notin> set (pl_list pool) \<longrightarrow> pe_names peer = [] \<and> pe_state peer = HSK_STATE_DISCONNECTING))"

definition parts_ok :: "'k conf \<Rightarrow> hsk_pool \<Rightarrow> bool" where
  "parts_ok cf pool \<longleftrightarrow> addrman_ok (pl_am pool) \<and> td_ok (pool_td pool) \<and> am_td (pl_am pool) = pool_td pool \<and>
     chain_reach (cf_hash cf) (cf_net cf) (pl_chain pool) \<and> pl_key pool \<noteq> None"

definition pool_ok :: "'k conf \<Rightarrow> hsk_pool \<Rightarrow> bool" where
  "pool_ok cf pool \<longleftrightarrow> links_ok pool \<and> heap_ok pool \<and> parts_ok cf pool"

lemma pool_okI: "links_ok pool \<Longrightarrow> heap_ok pool \<Longrightarrow> parts_ok cf pool \<Longrightarrow> pool_ok cf pool"
  by (simp add: pool_ok_def)

lemma pool_okD: "pool_ok cf pool \<Longrightarrow> links_ok pool" "pool_ok cf pool \<Longrightarrow> heap_ok pool" "pool_ok cf pool \<Longrightarrow> parts_ok cf pool"
  by (simp_all add: pool_ok_def)

lemma links_okI:
  "distinct (pl_list pool) \<Longrightarrow> pl_size pool = int (length (pl_list pool)) \<Longrightarrow> tbl_ok (pl_peers pool) \<Longrightarrow>
   (\<And>p. p \<in> set (pl_list pool) \<Longrightarrow> \<exists>peer. pl_heap pool p = Some peer \<and> open_state (pe_state peer) \<and> tbl_get (pl_peers pool) (addr_id (pe_addr peer)) = Some p) \<Longrightarrow>
   (\<And>k p. tbl_get (pl_peers pool) k = Some p \<Longrightarrow> p \<in> set (pl_list pool) \<and> map_option (addr_id \<circ> pe_addr) (pl_heap pool p) = Some k) \<Longrightarrow> links_ok pool"
  unfolding links_ok_def by blast

lemma links_listed:
  assumes "links_ok pool" and "p \<in> set (pl_list pool)"
  obtains peer where "pl_heap pool p = Some peer" "open_state (pe_state peer)" "tbl_get (pl_peers pool) (addr_id (pe_addr peer)) = Some p"
  using assms unfolding links_ok_def by blast

lemma links_map:
  "links_ok pool \<Longrightarrow> tbl_get (pl_peers pool) k = Some p \<Longrightarrow> p \<in> set (pl_list pool) \<and> map_option (addr_id \<circ> pe_addr) (pl_heap pool p) = Some k"
  unfolding links_ok_def by blast

lemma heap_peer:
  "heap_ok pool \<Longrightarrow> pl_heap pool p = Some peer \<Longrightarrow> p < pl_next pool \<and> peer_ok peer \<and>
     (p \<notin> set (pl_list pool) \<longrightarrow> pe_names peer = [] \<and> pe_state peer = HSK_STATE_DISCONNECTING)"
  unfolding heap_ok_def by blast

section \<open>Requests that wait and requests that were answered\<close>

definition peer_args :: "hsk_pool \<Rightarrow> nat \<Rightarrow> nat multiset" where
  "peer_args pool p = (case pl_heap pool p of None \<Rightarrow> {#} | Some peer \<Rightarrow> image_mset nr_arg (mset (peer_reqs peer)))"

definition waiting :: "hsk_pool \<Rightarrow> nat multiset" where
  "waiting pool = image_mset nr_arg (mset (pl_pending pool)) + (\<Sum>p\<in>set (pl_list pool). peer_args pool p)"

fun event_args :: "pool_event \<Rightarrow> nat multiset" where
  "event_args (Answered _ _ _ _ a) = {#a#}"
| "event_args (Sent _ _) = {#}"

definition answered :: "hsk_pool \<Rightarrow> nat multiset" where
  "answered pool = sum_list (map event_args (pl_out pool))"

text \<open>The answers that claim to be true.\<close>

fun is_success :: "pool_event \<Rightarrow> bool" where
  "is_success (Answered _ rc _ _ _) \<longleftrightarrow> rc = HSK_SUCCESS"
| "is_success (Sent _ _) \<longleftrightarrow> False"

definition successes :: "hsk_pool \<Rightarrow> pool_event list" where
  "successes pool = filter is_success (pl_out pool)"

lemma timeout_args: "sum_list (map event_args (map timeout_of reqs)) = image_mset nr_arg (mset reqs)"
  by (induction reqs) (simp_all add: timeout_of_def)

lemma answer_args: "sum_list (map event_args (map (answer_of x d) reqs)) = image_mset nr_arg (mset reqs)"
  by (induction reqs) (simp_all add: answer_of_def)

lemma timeout_no_success: "filter is_success (map timeout_of reqs) = []"
  by (induction reqs) (simp_all add: timeout_of_def)

section \<open>What an operation on a peer does to the rest\<close>

definition evolves :: "'k conf \<Rightarrow> nat \<Rightarrow> hsk_pool \<Rightarrow> hsk_pool \<Rightarrow> bool" where
  "evolves cf p a b \<longleftrightarrow> pool_ok cf b \<and> waiting b + answered b = waiting a + answered a \<and>
     (\<forall>q. pl_heap a q \<noteq> None \<longrightarrow> pl_heap b q \<noteq> None) \<and> set (pl_list b) \<subseteq> set (pl_list a) \<and> set (pl_list a) \<subseteq> insert p (set (pl_list b)) \<and>
     (\<forall>q. q \<noteq> p \<longrightarrow> pl_heap b q = pl_heap a q) \<and> pl_clock b = pl_clock a \<and> pl_next b = pl_next a \<and> pl_pending b = pl_pending a \<and>
     (\<forall>k h. stored (pl_chain a) k h \<longrightarrow> stored (pl_chain b) k h)"

text \<open>No true answer, and the requests of a peer that stays are those it had.\<close>

definition calm :: "nat \<Rightarrow> hsk_pool \<Rightarrow> hsk_pool \<Rightarrow> bool" where
  "calm p a b \<longleftrightarrow> successes b = successes a \<and>
     (p \<in> set (pl_list b) \<longrightarrow> map_option pe_names (pl_heap b p) = map_option pe_names (pl_heap a p))"

definition steps :: "'k conf \<Rightarrow> nat \<Rightarrow> hsk_pool \<Rightarrow> hsk_pool \<Rightarrow> bool" where
  "steps cf p a b \<longleftrightarrow> evolves cf p a b \<and> calm p a b"

lemma evolves_refl: "pool_ok cf a \<Longrightarrow> evolves cf p a a"
  by (auto simp: evolves_def)

lemma evolves_trans: "evolves cf p a b \<Longrightarrow> evolves cf p b c \<Longrightarrow> evolves cf p a c"
  unfolding evolves_def by auto

lemma steps_refl: "pool_ok cf a \<Longrightarrow> steps cf p a a"
  by (simp add: steps_def evolves_refl calm_def)

lemma steps_trans: "steps cf p a b \<Longrightarrow> steps cf p b c \<Longrightarrow> steps cf p a c"
  unfolding steps_def calm_def using evolves_trans evolves_def by (metis (no_types, opaque_lifting) subset_iff)

lemma stepsD: "steps cf p a b \<Longrightarrow> pool_ok cf b" "steps cf p a b \<Longrightarrow> evolves cf p a b" "evolves cf p a b \<Longrightarrow> pool_ok cf b"
  by (simp_all add: steps_def evolves_def)


section \<open>Changes of one peer and of what is outside the peers\<close>

lemma set_peer_fields [simp]:
  "pl_list (set_peer p f pool) = pl_list pool" "pl_size (set_peer p f pool) = pl_size pool" "pl_peers (set_peer p f pool) = pl_peers pool"
  "pl_out (set_peer p f pool) = pl_out pool" "pl_clock (set_peer p f pool) = pl_clock pool" "pl_next (set_peer p f pool) = pl_next pool"
  "pl_pending (set_peer p f pool) = pl_pending pool" "pl_chain (set_peer p f pool) = pl_chain pool" "pl_am (set_peer p f pool) = pl_am pool"
  "pl_key (set_peer p f pool) = pl_key pool" "pool_td (set_peer p f pool) = pool_td pool" "pl_uv (set_peer p f pool) = pl_uv pool"
  "pl_rand (set_peer p f pool) = pl_rand pool" "pl_pending_count (set_peer p f pool) = pl_pending_count pool"
  "pl_block_time (set_peer p f pool) = pl_block_time pool" "pl_getheaders_time (set_peer p f pool) = pl_getheaders_time pool"
  "pl_user_agent (set_peer p f pool) = pl_user_agent pool" "pl_max_size (set_peer p f pool) = pl_max_size pool"
  by (simp_all add: set_peer_def pool_td_def)

lemma set_peer_heap: "pl_heap (set_peer p f pool) q = (if q = p then map_option f (pl_heap pool p) else pl_heap pool q)"
  by (simp add: set_peer_def)

lemma parts_cong:
  "pl_am b = pl_am a \<Longrightarrow> pl_chain b = pl_chain a \<Longrightarrow> pl_key b = pl_key a \<Longrightarrow> parts_ok cf b = parts_ok cf a"
  by (simp add: parts_ok_def pool_td_def)

lemma successes_more: "pl_out b = pl_out a @ es \<Longrightarrow> successes b = successes a @ filter is_success es"
  by (simp add: successes_def)

lemma answered_more: "pl_out b = pl_out a @ es \<Longrightarrow> answered b = answered a + sum_list (map event_args es)"
  by (simp add: answered_def)

lemma rest_steps:
  assumes "pool_ok cf a" and "parts_ok cf b" and "pl_list b = pl_list a" "pl_size b = pl_size a" "pl_peers b = pl_peers a" "pl_heap b = pl_heap a"
    "pl_next b = pl_next a" "pl_pending b = pl_pending a" "pl_clock b = pl_clock a" "pl_out b = pl_out a"
    "\<And>k h. stored (pl_chain a) k h \<Longrightarrow> stored (pl_chain b) k h"
  shows "steps cf p a b"
proof -
  have "pool_ok cf b" using assms unfolding pool_ok_def links_ok_def heap_ok_def by simp
  moreover have "peer_args b q = peer_args a q" for q using assms(6) by (simp add: peer_args_def)
  ultimately show ?thesis using assms by (auto simp: steps_def evolves_def calm_def waiting_def answered_def successes_def)
qed

lemma set_peer_links:
  assumes "links_ok pool"
    and "\<And>peer. pl_heap pool p = Some peer \<Longrightarrow> pe_addr (f peer) = pe_addr peer \<and> (open_state (pe_state peer) \<longrightarrow> open_state (pe_state (f peer)))"
  shows "links_ok (set_peer p f pool)"
proof (rule links_okI)
  fix q
  assume "q \<in> set (pl_list (set_peer p f pool))"
  then obtain peer where "pl_heap pool q = Some peer" "open_state (pe_state peer)" "tbl_get (pl_peers pool) (addr_id (pe_addr peer)) = Some q"
    using links_listed [OF assms(1)] by auto
  then show "\<exists>peer. pl_heap (set_peer p f pool) q = Some peer \<and> open_state (pe_state peer) \<and>
      tbl_get (pl_peers (set_peer p f pool)) (addr_id (pe_addr peer)) = Some q"
    using assms(2) [of peer] by (cases "q = p") (simp_all add: set_peer_heap)
next
  fix k q
  assume "tbl_get (pl_peers (set_peer p f pool)) k = Some q"
  then have "q \<in> set (pl_list pool) \<and> map_option (addr_id \<circ> pe_addr) (pl_heap pool q) = Some k" using links_map [OF assms(1)] by simp
  then show "q \<in> set (pl_list (set_peer p f pool)) \<and> map_option (addr_id \<circ> pe_addr) (pl_heap (set_peer p f pool) q) = Some k"
    using assms(2) by (auto simp: set_peer_heap)
qed (use assms(1) in \<open>simp_all add: links_ok_def\<close>)

lemma set_peer_heap_ok:
  assumes "heap_ok pool"
    and "\<And>peer. pl_heap pool p = Some peer \<Longrightarrow> peer_ok peer \<Longrightarrow> peer_ok (f peer)"
    and "\<And>peer. pl_heap pool p = Some peer \<Longrightarrow> p \<notin> set (pl_list pool) \<Longrightarrow> pe_names peer = [] \<Longrightarrow> pe_state peer = HSK_STATE_DISCONNECTING \<Longrightarrow>
      pe_names (f peer) = [] \<and> pe_state (f peer) = HSK_STATE_DISCONNECTING"
  shows "heap_ok (set_peer p f pool)"
  unfolding heap_ok_def
proof (intro allI impI)
  fix q peer
  assume "pl_heap (set_peer p f pool) q = Some peer"
  then obtain peer0 where p0: "pl_heap pool q = Some peer0" "peer = (if q = p then f peer0 else peer0)" by (auto simp: set_peer_heap split: if_splits)
  note h = heap_peer [OF assms(1) p0(1)]
  show "q < pl_next (set_peer p f pool) \<and> peer_ok peer \<and> (q \<notin> set (pl_list (set_peer p f pool)) \<longrightarrow> pe_names peer = [] \<and> pe_state peer = HSK_STATE_DISCONNECTING)"
    using h p0 assms(2,3) by (cases "q = p") simp_all
qed

text \<open>Any change of a peer that keeps its address, its requests and whether it is open.\<close>

definition mild :: "(hsk_peer \<Rightarrow> hsk_peer) \<Rightarrow> hsk_peer \<Rightarrow> bool" where
  "mild f peer \<longleftrightarrow> pe_addr (f peer) = pe_addr peer \<and> pe_names (f peer) = pe_names peer \<and>
     (pe_state (f peer) = pe_state peer \<or> open_state (pe_state peer) \<and> open_state (pe_state (f peer))) \<and>
     (\<forall>b. pe_brontide (f peer) = Some b \<longrightarrow> pe_brontide peer = Some b \<or> cs_ok (br_send_cipher b))"

lemma mild_ok: "mild f peer \<Longrightarrow> peer_ok peer \<Longrightarrow> peer_ok (f peer)"
  unfolding mild_def peer_ok_def by auto

lemma mild_args: "\<forall>peer. pl_heap pool p = Some peer \<longrightarrow> pe_names (f peer) = pe_names peer \<Longrightarrow> peer_args (set_peer p f pool) q = peer_args pool q"
  by (auto simp: peer_args_def set_peer_heap peer_reqs_def split: option.split)

lemma set_peer_steps:
  assumes ok: "pool_ok cf pool" and f: "\<And>peer. pl_heap pool p = Some peer \<Longrightarrow> mild f peer"
  shows "steps cf p pool (set_peer p f pool)"
proof -
  have "pool_ok cf (set_peer p f pool)"
  proof (rule pool_okI)
    show "links_ok (set_peer p f pool)" using f by (intro set_peer_links pool_okD(1) [OF ok]) (auto simp: mild_def)
    show "heap_ok (set_peer p f pool)"
    proof (rule set_peer_heap_ok [OF pool_okD(2) [OF ok]])
      fix peer
      assume p: "pl_heap pool p = Some peer"
      show "peer_ok peer \<Longrightarrow> peer_ok (f peer)" using mild_ok [OF f [OF p]] .
      show "pe_names peer = [] \<Longrightarrow> pe_state peer = HSK_STATE_DISCONNECTING \<Longrightarrow> pe_names (f peer) = [] \<and> pe_state (f peer) = HSK_STATE_DISCONNECTING"
        using f [OF p] by (auto simp: mild_def open_state_def)
    qed
    show "parts_ok cf (set_peer p f pool)" using pool_okD(3) [OF ok] by (simp add: parts_cong [of "set_peer p f pool" pool])
  qed
  moreover have "peer_args (set_peer p f pool) q = peer_args pool q" for q using f by (intro mild_args) (auto simp: mild_def)
  moreover have "map_option pe_names (pl_heap (set_peer p f pool) p) = map_option pe_names (pl_heap pool p)"
    using f by (cases "pl_heap pool p") (auto simp: set_peer_heap mild_def)
  ultimately show ?thesis
    by (auto simp: steps_def evolves_def calm_def waiting_def answered_def successes_def set_peer_heap)
qed

lemma report_steps:
  assumes "pool_ok cf pool" and "sum_list (map event_args es) = {#}" and "filter is_success es = []"
  shows "steps cf p pool (report es pool)"
proof -
  have f: "pl_list (report es pool) = pl_list pool" "pl_size (report es pool) = pl_size pool" "pl_peers (report es pool) = pl_peers pool"
    "pl_heap (report es pool) = pl_heap pool" "pl_next (report es pool) = pl_next pool" "pl_pending (report es pool) = pl_pending pool"
    "pl_clock (report es pool) = pl_clock pool" "pl_chain (report es pool) = pl_chain pool" "pl_out (report es pool) = pl_out pool @ es"
    by (simp_all add: report_def)
  have "pool_ok cf (report es pool)"
    using assms(1) unfolding pool_ok_def links_ok_def heap_ok_def by (simp add: f parts_ok_def pool_td_def) (simp add: report_def)
  moreover have "peer_args (report es pool) q = peer_args pool q" for q by (simp add: peer_args_def f)
  ultimately show ?thesis
    using assms(2,3) by (simp add: steps_def evolves_def calm_def waiting_def f answered_more [OF f(9)] successes_more [OF f(9)] subset_insertI)
qed

lemma uv_call_steps: "pool_ok cf pool \<Longrightarrow> steps cf p pool (snd (uv_call pool))"
  by (rule rest_steps) (auto simp: uv_call_def parts_ok_def pool_td_def dest: pool_okD(3))

lemma random_steps: "pool_ok cf pool \<Longrightarrow> steps cf p pool (snd (hsk_random pool))"
  by (rule rest_steps) (auto simp: hsk_random_def parts_ok_def pool_td_def dest: pool_okD(3))

lemma nonce_steps: "pool_ok cf pool \<Longrightarrow> steps cf p pool (snd (hsk_nonce pool))"
  by (rule rest_steps) (auto simp: hsk_nonce_def hsk_random_def parts_ok_def pool_td_def dest: pool_okD(3))


section \<open>Closing a peer\<close>

lemma sum_without:
  "finite A \<Longrightarrow> p \<in> A \<Longrightarrow> (\<And>q. q \<noteq> p \<Longrightarrow> g q = f q) \<Longrightarrow> (\<Sum>q\<in>A - {p}. g q) + f p = (\<Sum>q\<in>A. f q :: nat multiset)"
  by (subst sum.remove [of A p f]) (auto simp: add.commute intro: arg_cong2 [of _ _ _ _ "(+)"] sum.cong)

text \<open>The pool after a listed peer was closed.\<close>

definition closed_peer :: "hsk_peer \<Rightarrow> hsk_peer" where
  "closed_peer peer = peer\<lparr>pe_brontide := (if pe_state peer = HSK_STATE_HANDSHAKE then map_option hsk_brontide_destroy (pe_brontide peer) else pe_brontide peer),
     pe_state := HSK_STATE_DISCONNECTING, pe_names := []\<rparr>"

definition closed_pool :: "nat \<Rightarrow> hsk_peer \<Rightarrow> hsk_pool \<Rightarrow> hsk_pool" where
  "closed_pool p peer pool = pool\<lparr>pl_heap := (pl_heap pool)(p \<mapsto> closed_peer peer), pl_out := pl_out pool @ map timeout_of (peer_reqs peer),
     pl_list := remove1 p (pl_list pool), pl_size := pl_size pool - 1, pl_peers := tbl_del (pl_peers pool) (addr_id (pe_addr peer))\<rparr>"

lemma close_listed:
  assumes ok: "pool_ok cf pool" and p: "p \<in> set (pl_list pool)" "pl_heap pool p = Some peer"
  shows "hsk_peer_close p pool = Some (HSK_SUCCESS, closed_pool p peer pool)"
proof -
  obtain peer' where "pl_heap pool p = Some peer'" "open_state (pe_state peer')" "tbl_get (pl_peers pool) (addr_id (pe_addr peer')) = Some p"
    by (rule links_listed [OF pool_okD(1) [OF ok] p(1)])
  then have s: "open_state (pe_state peer)" "tbl_has (pl_peers pool) (addr_id (pe_addr peer))" using p(2) by (simp_all add: tbl_has_def)
  have n: "[] \<notin> snd ` set (pe_names peer)" using heap_peer [OF pool_okD(2) [OF ok] p(2)] by (simp add: peer_ok_def)
  have "0 < length (pl_list pool)" using p(1) by (cases "pl_list pool") simp_all
  then have z: "0 < pl_size pool" using pool_okD(1) [OF ok] by (simp add: links_ok_def)
  show ?thesis
  proof (cases "pe_state peer = HSK_STATE_HANDSHAKE")
    case True
    then show ?thesis using s(2) n p z
      by (simp add: hsk_peer_close_def hsk_peer_timeout_reqs_def hsk_peer_remove_def set_peer_def closed_pool_def closed_peer_def report_def peer_reqs_def)
  next
    case False
    then show ?thesis using s n p z unfolding open_state_def
      by (simp add: hsk_peer_close_def hsk_peer_timeout_reqs_def hsk_peer_remove_def set_peer_def closed_pool_def closed_peer_def report_def peer_reqs_def)
  qed
qed

lemma closed_links:
  assumes ok: "links_ok pool" and p: "p \<in> set (pl_list pool)" "pl_heap pool p = Some peer"
  shows "links_ok (closed_pool p peer pool)"
proof (rule links_okI)
  have d: "distinct (pl_list pool)" using ok by (simp add: links_ok_def)
  have m: "tbl_get (pl_peers pool) (addr_id (pe_addr peer)) = Some p" using links_listed [OF ok p(1)] p(2) by (metis option.inject)
  show "pl_size (closed_pool p peer pool) = int (length (pl_list (closed_pool p peer pool)))"
    using ok p(1) length_pos_if_in_set [OF p(1)] by (simp add: closed_pool_def links_ok_def length_remove1 of_nat_diff Suc_le_eq)
  show "\<exists>peer'. pl_heap (closed_pool p peer pool) q = Some peer' \<and> open_state (pe_state peer') \<and>
      tbl_get (pl_peers (closed_pool p peer pool)) (addr_id (pe_addr peer')) = Some q" if "q \<in> set (pl_list (closed_pool p peer pool))" for q
  proof -
    have q: "q \<in> set (pl_list pool)" "q \<noteq> p" using that d by (auto simp: closed_pool_def)
    obtain peer' where "pl_heap pool q = Some peer'" "open_state (pe_state peer')" "tbl_get (pl_peers pool) (addr_id (pe_addr peer')) = Some q"
      by (rule links_listed [OF ok q(1)])
    moreover from this have "addr_id (pe_addr peer') \<noteq> addr_id (pe_addr peer)" using m q(2) by auto
    ultimately show ?thesis using q(2) by (simp add: closed_pool_def)
  qed
  show "q \<in> set (pl_list (closed_pool p peer pool)) \<and> map_option (addr_id \<circ> pe_addr) (pl_heap (closed_pool p peer pool) q) = Some k"
    if "tbl_get (pl_peers (closed_pool p peer pool)) k = Some q" for k q
  proof -
    have k: "k \<noteq> addr_id (pe_addr peer)" "tbl_get (pl_peers pool) k = Some q" using that by (simp_all add: closed_pool_def split: if_splits)
    then have q: "q \<in> set (pl_list pool)" "map_option (addr_id \<circ> pe_addr) (pl_heap pool q) = Some k" using links_map [OF ok] by simp_all
    then have "q \<noteq> p" using k(1) p(2) by auto
    then show ?thesis using q d by (simp add: closed_pool_def)
  qed
  show "distinct (pl_list (closed_pool p peer pool))" using d by (simp add: closed_pool_def)
  show "tbl_ok (pl_peers (closed_pool p peer pool))" using ok by (simp add: closed_pool_def links_ok_def)
qed

lemma closed_steps:
  assumes ok: "pool_ok cf pool" and p: "p \<in> set (pl_list pool)" "pl_heap pool p = Some peer"
  shows "steps cf p pool (closed_pool p peer pool)" and "answered (closed_pool p peer pool) = answered pool + peer_args pool p"
    and "p \<notin> set (pl_list (closed_pool p peer pool))"
proof -
  let ?c = "closed_pool p peer pool"
  have d: "distinct (pl_list pool)" using pool_okD(1) [OF ok] by (simp add: links_ok_def)
  have out: "pl_out ?c = pl_out pool @ map timeout_of (peer_reqs peer)" by (simp add: closed_pool_def)
  show a: "answered ?c = answered pool + peer_args pool p"
    using p(2) unfolding answered_more [OF out] timeout_args by (simp add: peer_args_def)
  show l: "p \<notin> set (pl_list ?c)" using d by (simp add: closed_pool_def)
  have "heap_ok ?c" unfolding heap_ok_def
  proof (intro allI impI)
    fix q x
    assume x: "pl_heap ?c q = Some x"
    show "q < pl_next ?c \<and> peer_ok x \<and> (q \<notin> set (pl_list ?c) \<longrightarrow> pe_names x = [] \<and> pe_state x = HSK_STATE_DISCONNECTING)"
    proof (cases "q = p")
      case True
      have "peer_ok peer" "p < pl_next pool" using heap_peer [OF pool_okD(2) [OF ok] p(2)] by simp_all
      then show ?thesis using True x
        by (auto simp: closed_pool_def closed_peer_def peer_ok_def hsk_brontide_destroy_def split: if_splits)
    next
      case False
      then show ?thesis using x heap_peer [OF pool_okD(2) [OF ok], of q x] d by (auto simp: closed_pool_def)
    qed
  qed
  then have "pool_ok cf ?c"
    using closed_links [OF pool_okD(1) [OF ok] p] pool_okD(3) [OF ok] by (auto intro!: pool_okI simp: closed_pool_def parts_ok_def pool_td_def)
  moreover have "waiting ?c + peer_args pool p = waiting pool"
  proof -
    have "(\<Sum>q\<in>set (pl_list pool) - {p}. peer_args ?c q) + peer_args pool p = (\<Sum>q\<in>set (pl_list pool). peer_args pool q)"
      using p(1) by (intro sum_without) (simp_all add: peer_args_def closed_pool_def)
    then show ?thesis using d by (simp add: waiting_def closed_pool_def add.assoc)
  qed
  ultimately have "evolves cf p pool ?c"
    using a d p by (auto simp: evolves_def closed_pool_def ac_simps)
  moreover have "calm p pool ?c" using l successes_more [OF out] by (simp add: calm_def timeout_no_success)
  ultimately show "steps cf p pool ?c" by (simp add: steps_def)
qed

text \<open>Closing a peer always returns; it ends off the list with all its requests called back.\<close>

lemma close_steps:
  assumes ok: "pool_ok cf pool" and p: "pl_heap pool p \<noteq> None"
  obtains pool' where "hsk_peer_close p pool = Some (HSK_SUCCESS, pool')" "steps cf p pool pool'" "p \<notin> set (pl_list pool')"
    "p \<in> set (pl_list pool) \<Longrightarrow> answered pool' = answered pool + peer_args pool p"
proof (cases "p \<in> set (pl_list pool)")
  case True
  then obtain peer where peer: "pl_heap pool p = Some peer" using p by blast
  show ?thesis using that close_listed [OF ok True peer] closed_steps [OF ok True peer] by blast
next
  case False
  obtain peer where peer: "pl_heap pool p = Some peer" using p by blast
  then have "pe_state peer = HSK_STATE_DISCONNECTING" using heap_peer [OF pool_okD(2) [OF ok] peer] False by blast
  then have "hsk_peer_close p pool = Some (HSK_SUCCESS, pool)" using peer by (simp add: hsk_peer_close_def)
  then show ?thesis using that steps_refl [OF ok] False by blast
qed


section \<open>Writing\<close>

lemma destroy_steps:
  assumes "pool_ok cf pool" and "pl_heap pool p \<noteq> None"
  obtains pool' where "hsk_peer_destroy p pool = Some (HSK_SUCCESS, pool')" "steps cf p pool pool'" "p \<notin> set (pl_list pool')"
    "p \<in> set (pl_list pool) \<Longrightarrow> answered pool' = answered pool + peer_args pool p"
  using close_steps [OF assms] by (metis hsk_peer_destroy_def)

lemma evolves_heap: "evolves cf p a b \<Longrightarrow> pl_heap a q \<noteq> None \<Longrightarrow> pl_heap b q \<noteq> None"
  unfolding evolves_def by blast

lemma steps_heap: "steps cf p a b \<Longrightarrow> pl_heap a q \<noteq> None \<Longrightarrow> pl_heap b q \<noteq> None"
  using evolves_heap stepsD(2) by blast

lemma uv_call_heap [simp]: "pl_heap (snd (uv_call pool)) = pl_heap pool" "pl_list (snd (uv_call pool)) = pl_list pool"
  by (simp_all add: uv_call_def)

lemma uv_args [simp]: "peer_args (snd (uv_call pool)) p = peer_args pool p" "answered (snd (uv_call pool)) = answered pool"
  by (simp_all add: peer_args_def uv_call_def answered_def)

text \<open>A write that fails closes the peer, which calls its requests back.\<close>

lemma write_raw_steps:
  assumes ok: "pool_ok cf pool" and p: "pl_heap pool p \<noteq> None"
  obtains rc pool' where "hsk_peer_write_raw p d pool = Some (rc, pool')" "steps cf p pool pool'" "rc = HSK_SUCCESS \<or> rc = HSK_EFAILURE"
    "rc = HSK_EFAILURE \<Longrightarrow> p \<notin> set (pl_list pool')"
    "p \<in> set (pl_list pool) \<Longrightarrow> (rc = HSK_EFAILURE) = (\<not> shd (pl_uv pool))"
    "p \<in> set (pl_list pool) \<Longrightarrow> rc = HSK_EFAILURE \<Longrightarrow> answered pool' = answered pool + peer_args pool p"
    "p \<in> set (pl_list pool) \<Longrightarrow> rc = HSK_SUCCESS \<Longrightarrow> p \<in> set (pl_list pool')"
proof -
  obtain peer where peer: "pl_heap pool p = Some peer" using p by blast
  note fst_uv = uv_call_def
  let ?u = "snd (uv_call pool)"
  have u: "steps cf p pool ?u" by (rule uv_call_steps [OF ok])
  show ?thesis
  proof (cases "pe_state peer = HSK_STATE_DISCONNECTING")
    case True
    have "p \<notin> set (pl_list pool)"
    proof
      assume "p \<in> set (pl_list pool)"
      from links_listed [OF pool_okD(1) [OF ok] this] show False using peer True by (metis open_state_def option.inject)
    qed
    then show ?thesis using that [of HSK_SUCCESS pool] True peer steps_refl [OF ok] by (simp add: hsk_peer_write_raw_def)
  next
    case s: False
    show ?thesis
    proof (cases "shd (pl_uv pool)")
      case True
      let ?r = "report [Sent p d] ?u"
      let ?f = "\<lambda>peer. peer\<lparr>pe_last_send := pl_clock ?u\<rparr>"
      have "steps cf p ?u ?r" using stepsD(1) [OF u] by (rule report_steps) simp_all
      moreover from this have "steps cf p ?r (set_peer p ?f ?r)" by (intro set_peer_steps stepsD(1)) (auto simp: mild_def)
      ultimately have "steps cf p pool (set_peer p ?f ?r)" using u steps_trans by blast
      moreover have "hsk_peer_write_raw p d pool = Some (HSK_SUCCESS, set_peer p ?f ?r)"
        using True s peer by (simp add: hsk_peer_write_raw_def uv_call_def)
      ultimately show ?thesis using that True by (simp add: report_def)
    next
      case False
      obtain pool' where c: "hsk_peer_destroy p ?u = Some (HSK_SUCCESS, pool')" "steps cf p ?u pool'" "p \<notin> set (pl_list pool')"
        "p \<in> set (pl_list ?u) \<Longrightarrow> answered pool' = answered ?u + peer_args ?u p"
        by (rule destroy_steps [OF stepsD(1) [OF u], of p]) (simp_all add: peer)
      then have "hsk_peer_write_raw p d pool = Some (HSK_EFAILURE, pool')" using False s peer by (simp add: hsk_peer_write_raw_def uv_call_def)
      moreover have "steps cf p pool pool'" using steps_trans [OF u c(2)] .
      ultimately show ?thesis using that c(3,4) False by simp
    qed
  qed
qed


lemma brontide_write_returns:
  assumes b: "cs_ok (br_send_cipher b)" and i: "I s" and cb: "\<And>d h s. I s \<Longrightarrow> I (snd (write_cb cb d h s))"
  obtains r b' s' where "hsk_brontide_write cb d b s = Some (r, b', s')" "cs_ok (br_send_cipher b')" "I s'"
proof -
  obtain c1 x1 where c1: "hsk_cs_encrypt (br_send_cipher b) None (set_u32 (of_nat (length d)) (replicate 4 0)) = Some (c1, x1)" "cs_ok c1"
    using cs_encrypt [OF b, of None "set_u32 (of_nat (length d)) (replicate 4 0)"] by blast
  obtain c2 x2 where c2: "hsk_cs_encrypt c1 None d = Some (c2, x2)" "cs_ok c2" using cs_encrypt [OF c1(2), of None d] by blast
  have cb': "I (snd (write_cb cb d h s))" if "I s" for d h s using cb [OF that] .
  have "\<exists>r b' s'. hsk_brontide_write cb d b s = Some (r, b', s') \<and> cs_ok (br_send_cipher b') \<and> I s'"
    using b c1 c2 i cb' [OF i, of x1 False] cb' [OF cb' [OF i, of x1 False], of "cs_tag c1" False]
      cb' [OF cb' [OF cb' [OF i, of x1 False], of "cs_tag c1" False], of x2 True]
      cb' [OF cb' [OF cb' [OF cb' [OF i, of x1 False], of "cs_tag c1" False], of x2 True], of "cs_tag c2" False]
    by (simp add: hsk_brontide_write_def write_done_def hsk_brontide_destroy_def Let_def split_beta)
  then show ?thesis using that by blast
qed

lemma do_write_keeps:
  assumes "\<exists>pool. s = Some pool \<and> steps cf p a pool" and "pl_heap a p \<noteq> None"
  shows "\<exists>pool. snd (brontide_do_write p d h s) = Some pool \<and> steps cf p a pool"
proof -
  obtain pool where pool: "s = Some pool" "steps cf p a pool" using assms(1) by blast
  obtain rc pool' where "hsk_peer_write_raw p d pool = Some (rc, pool')" "steps cf p pool pool'"
    by (rule write_raw_steps [OF stepsD(1) [OF pool(2)] steps_heap [OF pool(2) assms(2)], of d]) blast
  then show ?thesis using pool steps_trans by (auto simp: brontide_do_write_def)
qed

lemma set_brontide_steps:
  assumes "pool_ok cf pool" and "cs_ok (br_send_cipher b)"
  shows "steps cf p pool (set_brontide p b pool)"
  unfolding set_brontide_def using assms by (intro set_peer_steps) (simp_all add: mild_def)

lemma write_steps:
  assumes ok: "pool_ok cf pool" and p: "pl_heap pool p \<noteq> None"
  obtains rc pool' where "hsk_peer_write p d pool = Some (rc, pool')" "steps cf p pool pool'"
proof -
  obtain peer where peer: "pl_heap pool p = Some peer" using p by blast
  show ?thesis
  proof (cases "pe_state peer = HSK_STATE_HANDSHAKE")
    case True
    show ?thesis
    proof (cases "pe_brontide peer")
      case None
      then show ?thesis using write_raw_steps [OF ok p, of d] that True peer by (auto simp: hsk_peer_write_def)
    next
      case (Some b)
      have b: "cs_ok (br_send_cipher b)" using heap_peer [OF pool_okD(2) [OF ok] peer] Some by (simp add: peer_ok_def)
      obtain r b' s' where w: "hsk_brontide_write (write_callback p) d b (Some pool) = Some (r, b', s')" "cs_ok (br_send_cipher b')"
        "\<exists>pool'. s' = Some pool' \<and> steps cf p pool pool'"
      proof (rule brontide_write_returns [OF b, of "\<lambda>s. \<exists>pool'. s = Some pool' \<and> steps cf p pool pool'" "Some pool" "write_callback p"])
        show "\<exists>pool'. Some pool = Some pool' \<and> steps cf p pool pool'" using steps_refl [OF ok] by simp
        show "\<exists>pool'. snd (write_cb (write_callback p) d h s) = Some pool' \<and> steps cf p pool pool'"
          if "\<exists>pool'. s = Some pool' \<and> steps cf p pool pool'" for d h s
          using do_write_keeps [OF that p] by (simp add: write_callback_def)
      qed blast
      then obtain pool' where s': "s' = Some pool'" "steps cf p pool pool'" by blast
      have "steps cf p pool' (set_brontide p b' pool')" by (rule set_brontide_steps [OF stepsD(1) [OF s'(2)] w(2)])
      then show ?thesis using that w(1) s' True Some peer steps_trans by (simp add: hsk_peer_write_def) blast
    qed
  next
    case False
    then show ?thesis using that steps_refl [OF ok] peer by (simp add: hsk_peer_write_def)
  qed
qed

lemma send_steps:
  assumes ok: "pool_ok cf pool" and p: "pl_heap pool p \<noteq> None" and m: "sent_msg m"
  obtains rc pool' where "hsk_peer_send cf p m pool = Some (rc, pool')" "steps cf p pool pool'"
proof -
  obtain d where "peer_frame (cf_net cf) m = Some d" by (rule frame_fits [OF m])
  then show ?thesis using write_steps [OF ok p, of d] that by (auto simp: hsk_peer_send_def)
qed

end
