(* ===== verification/Pool_Msg.thy ===== *)
theory Pool_Msg
  imports Pool_Ok
begin

text \<open>
  Every message handler of \<^verbatim>\<open>pool.c\<close> returns and keeps the invariant of theory \<open>Pool_Ok\<close>; what a proof
  that is accepted does to the requests.
\<close>

section \<open>What is outside the peers\<close>

lemma am_steps:
  assumes ok: "pool_ok cf pool" and am: "addrman_ok am" "am_td am = am_td (pl_am pool)"
  shows "steps cf p pool (pool\<lparr>pl_am := am\<rparr>)" "steps cf p pool (pool\<lparr>pl_am := am, pl_rand := rs\<rparr>)"
  using pool_okD(3) [OF ok] am by (intro rest_steps [OF ok]; simp add: parts_ok_def pool_td_def)+

lemma on_entry_td [simp]: "am_td (snd (on_entry am addr f)) = am_td am"
  by (simp add: on_entry_def split: option.split)

lemma marks_td [simp]:
  "am_td (snd (hsk_addrman_remove_addr am addr)) = am_td am" "am_td (snd (hsk_addrman_mark_attempt clock am addr)) = am_td am"
  "am_td (snd (hsk_addrman_mark_success clock am addr)) = am_td am" "am_td (snd (hsk_addrman_mark_ack clock am addr services)) = am_td am"
  by (simp_all add: hsk_addrman_remove_addr_def hsk_addrman_mark_attempt_def hsk_addrman_mark_success_def hsk_addrman_mark_ack_def Let_def)

lemma ban_td [simp]: "am_td (snd (hsk_addrman_add_ban mem clock am addr)) = am_td am"
  by (auto simp: hsk_addrman_add_ban_def split: option.split prod.split)

lemma add_known_td: "add_known clock am i na src rs = Some (b, am', rs') \<Longrightarrow> am_td am' = am_td am"
  by (auto simp: add_known_def Let_def split: if_splits)

lemma alloc_entry_td: "hsk_addrman_alloc_entry clock am rs = Some (slot, am', rs') \<Longrightarrow> am_td am' = am_td am"
  by (auto simp: hsk_addrman_alloc_entry_def split: if_splits prod.splits option.splits)

lemma add_entry_td:
  assumes "hsk_addrman_add_entry mem clock am na src rs = Some (b, am', rs')"
  shows "am_td am' = am_td am"
proof (cases "hsk_addrman_get am (na_addr na)")
  case (Some i)
  then show ?thesis using assms add_known_td by (simp add: hsk_addrman_add_entry_def)
next
  case None
  then obtain slot am1 rs1 where a: "hsk_addrman_alloc_entry clock am rs = Some (slot, am1, rs1)"
    using assms by (auto simp: hsk_addrman_add_entry_def bind_eq_Some_conv)
  show ?thesis
  proof (cases slot)
    case None
    then show ?thesis using assms a \<open>hsk_addrman_get am (na_addr na) = None\<close> alloc_entry_td [OF a] by (simp add: hsk_addrman_add_entry_def)
  next
    case (Some x)
    obtain i al where "x = (i, al)" by fastforce
    then show ?thesis using assms a Some None alloc_entry_td [OF a]
      by (auto simp: hsk_addrman_add_entry_def Let_def split: prod.splits if_splits)
  qed
qed

lemma chain_td_reach: "chain_reach H N c \<Longrightarrow> chain_reach H N (c\<lparr>ch_td := td\<rparr>)"
  using reach_outside [where c = c and prefix = "ch_prefix c" and td = td and f = "ch_file c" and io = "ch_io c"] by (cases c) simp

section \<open>Sending\<close>

lemma send_version_steps:
  assumes ok: "pool_ok cf pool" and p: "pl_heap pool p \<noteq> None"
  obtains rc pool' where "hsk_peer_send_version cf p pool = Some (rc, pool')" "steps cf p pool pool'"
proof -
  let ?n = "snd (hsk_nonce pool)"
  let ?v = "set_peer p (\<lambda>peer. peer\<lparr>pe_version_time := pl_clock ?n\<rparr>) ?n"
  have n: "steps cf p pool ?n" by (rule nonce_steps [OF ok])
  moreover have "steps cf p ?n ?v" using stepsD(1) [OF n] by (rule set_peer_steps) (simp add: mild_def)
  ultimately have v: "steps cf p pool ?v" by (rule steps_trans)
  obtain peer where peer: "pl_heap pool p = Some peer" using p by blast
  have sent: "sent_msg (Version_msg m)" for m by simp
  obtain m where m: "hsk_peer_send_version cf p pool = hsk_peer_send cf p (Version_msg m) ?v"
    using peer by (fastforce simp: hsk_peer_send_version_def split_beta Let_def)
  obtain rc pool' where "hsk_peer_send cf p (Version_msg m) ?v = Some (rc, pool')" "steps cf p ?v pool'"
    by (rule send_steps [OF stepsD(1) [OF v] steps_heap [OF v p] sent])
  then show ?thesis using that m v steps_trans by metis
qed

lemma locator_returns:
  assumes "conf_ok cf" and "pool_ok cf pool"
  obtains hs where "hsk_chain_get_locator (cf_hash cf) (pl_chain pool) = Some hs" "length hs \<le> 43"
proof -
  have "main_ok (pl_chain pool)"
    using reach_facts [of "cf_net cf" "cf_hash cf" "pl_chain pool"] assms by (simp add: conf_ok_def pool_ok_def parts_ok_def)
  then have "0 \<le> ch_height (pl_chain pool)" "ch_height (pl_chain pool) < 2 ^ 32"
    using unsigned_less [of "hdr_height (ch_tip (pl_chain pool))", where ?'a = int] by (simp_all add: main_ok_def)
  from locator_found [OF this, of "cf_hash cf"] show ?thesis using that by blast
qed

lemma send_getheaders_steps:
  assumes cf: "conf_ok cf" and ok: "pool_ok cf pool" and p: "pl_heap pool p \<noteq> None"
  obtains rc pool' where "hsk_peer_send_getheaders cf p stop pool = Some (rc, pool')" "steps cf p pool pool'"
proof -
  obtain hs where hs: "hsk_chain_get_locator (cf_hash cf) (pl_chain pool) = Some hs" "length hs \<le> 43" by (rule locator_returns [OF cf ok])
  let ?g = "set_peer p (\<lambda>peer. peer\<lparr>pe_getheaders_time := pl_clock pool\<rparr>) pool"
  let ?m = "Getheaders_msg hs (case stop of None \<Rightarrow> replicate 32 0 | Some s \<Rightarrow> take 32 s)"
  have g: "steps cf p pool ?g" using ok by (rule set_peer_steps) (simp add: mild_def)
  have m: "sent_msg ?m" using hs(2) by simp
  obtain rc pool' where "hsk_peer_send cf p ?m ?g = Some (rc, pool')" "steps cf p ?g pool'"
    by (rule send_steps [OF stepsD(1) [OF g] steps_heap [OF g p] m])
  then show ?thesis using that [of rc pool'] hs(1) steps_trans [OF g] by (simp add: hsk_peer_send_getheaders_def)
qed

lemma send_ex:
  "pool_ok cf pool \<Longrightarrow> pl_heap pool p \<noteq> None \<Longrightarrow> sent_msg m \<Longrightarrow> \<exists>rc pool'. hsk_peer_send cf p m pool = Some (rc, pool') \<and> steps cf p pool pool'"
  using send_steps by metis

lemma send_plain_steps:
  assumes ok: "pool_ok cf pool" and p: "pl_heap pool p \<noteq> None"
  shows "\<exists>rc pool'. hsk_peer_send_verack cf p pool = Some (rc, pool') \<and> steps cf p pool pool'"
    and "\<exists>rc pool'. hsk_peer_send_ping cf p nonce pool = Some (rc, pool') \<and> steps cf p pool pool'"
    and "\<exists>rc pool'. hsk_peer_send_pong cf p nonce pool = Some (rc, pool') \<and> steps cf p pool pool'"
    and "\<exists>rc pool'. hsk_peer_send_sendheaders cf p pool = Some (rc, pool') \<and> steps cf p pool pool'"
    and "\<exists>rc pool'. hsk_peer_send_getaddr cf p pool = Some (rc, pool') \<and> steps cf p pool pool'"
    and "\<exists>rc pool'. hsk_peer_send_getproof cf p key r pool = Some (rc, pool') \<and> steps cf p pool pool'"
  unfolding hsk_peer_send_verack_def hsk_peer_send_ping_def hsk_peer_send_pong_def hsk_peer_send_sendheaders_def hsk_peer_send_getaddr_def
    hsk_peer_send_getproof_def
  by (simp_all add: send_ex [OF ok p])

section \<open>Handling\<close>

lemma handle_version_steps:
  assumes cf: "conf_ok cf" and ok: "pool_ok cf pool" and p: "pl_heap pool p \<noteq> None"
  obtains rc pool' where "hsk_peer_handle_version cf p msg pool = Some (rc, pool')" "steps cf p pool pool'"
proof -
  obtain peer where peer: "pl_heap pool p = Some peer" using p by blast
  let ?a = "set_peer p (\<lambda>peer. peer\<lparr>pe_height := uint (vm_height msg), pe_agent := vm_agent msg\<rparr>) pool"
  have a: "steps cf p pool ?a" using ok by (rule set_peer_steps) (simp add: mild_def)
  have parts: "parts_ok cf ?a" by (rule pool_okD(3) [OF stepsD(1) [OF a]])
  obtain e td where td: "hsk_timedata_add (True, True) (pl_clock ?a) (pool_td ?a) (pe_addr peer) (sint (vm_time msg)) = Some (e, td)" "td_ok td"
    using td_add_ok [of "pool_td ?a" "(True, True)" "pl_clock ?a" "pe_addr peer" "sint (vm_time msg)"] parts by (auto simp: parts_ok_def)
  let ?b = "set_td td ?a"
  let ?c = "?b\<lparr>pl_am := snd (hsk_addrman_mark_ack (pl_clock ?b) (pl_am ?b) (pe_addr peer) (vm_services msg))\<rparr>"
  have "addrman_ok ((pl_am pool)\<lparr>am_td := td\<rparr>)" using parts by (simp add: parts_ok_def addrman_ok_def)
  then have "parts_ok cf ?b" using parts td(2) by (simp add: parts_ok_def set_td_def pool_td_def chain_td_reach)
  then have b: "steps cf p ?a ?b" by (intro rest_steps stepsD(1) [OF a]) (simp_all add: set_td_def)
  have c: "steps cf p ?b ?c" using pool_okD(3) [OF stepsD(1) [OF b]] by (intro am_steps stepsD(1) [OF b] marks_ok) (simp_all add: parts_ok_def)
  have abc: "steps cf p pool ?c" using steps_trans [OF a steps_trans [OF b c]] .
  obtain r1 p1 where 1: "hsk_peer_send_verack cf p ?c = Some (r1, p1)" "steps cf p pool p1"
    using send_plain_steps(1) [OF stepsD(1) [OF abc] steps_heap [OF abc p]] steps_trans [OF abc] by blast
  obtain r2 p2 where 2: "hsk_peer_send_sendheaders cf p p1 = Some (r2, p2)" "steps cf p pool p2"
    using send_plain_steps(4) [OF stepsD(1) [OF 1(2)] steps_heap [OF 1(2) p]] steps_trans [OF 1(2)] by blast
  obtain r3 p3 where 3: "hsk_peer_send_getaddr cf p p2 = Some (r3, p3)" "steps cf p pool p3"
    using send_plain_steps(5) [OF stepsD(1) [OF 2(2)] steps_heap [OF 2(2) p]] steps_trans [OF 2(2)] by blast
  obtain r4 p4 where 4: "hsk_peer_send_getheaders cf p None p3 = Some (r4, p4)" "steps cf p p3 p4"
    by (rule send_getheaders_steps [OF cf stepsD(1) [OF 3(2)] steps_heap [OF 3(2) p]])
  have "hsk_peer_handle_version cf p msg pool =
      (if r2 \<noteq> HSK_SUCCESS then Some (r2, p2) else if r3 \<noteq> HSK_SUCCESS then Some (r3, p3) else Some (r4, p4))"
    using peer td(1) 1(1) 2(1) 3(1) 4(1) by (simp add: hsk_peer_handle_version_def Let_def)
  then show ?thesis using that 2(2) 3(2) steps_trans [OF 3(2) 4(2)] by metis
qed

text \<open>The operation returns and steps.\<close>

definition handled :: "'k conf \<Rightarrow> nat \<Rightarrow> hsk_pool \<Rightarrow> (hsk_error \<times> hsk_pool) option \<Rightarrow> bool" where
  "handled cf p pool x \<longleftrightarrow> (\<exists>rc pool'. x = Some (rc, pool') \<and> steps cf p pool pool')"

lemma handledI: "steps cf p pool pool' \<Longrightarrow> handled cf p pool (Some (rc, pool'))"
  by (simp add: handled_def)

lemma handled_if: "handled cf p pool x \<Longrightarrow> handled cf p pool y \<Longrightarrow> handled cf p pool (if b then x else y)"
  by simp

lemma handledE:
  assumes "handled cf p pool x"
  obtains rc pool' where "x = Some (rc, pool')" "steps cf p pool pool'"
  using assms unfolding handled_def by blast

lemma handle_pong_steps:
  assumes ok: "pool_ok cf pool" and p: "pl_heap pool p \<noteq> None"
  shows "handled cf p pool (hsk_peer_handle_pong p nonce pool)"
proof -
  have "steps cf p pool (set_peer p (\<lambda>peer. peer\<lparr>pe_challenge := 0\<rparr>) pool)" using ok by (rule set_peer_steps) (simp add: mild_def)
  moreover have "steps cf p pool (set_peer p (pong_received (pl_clock pool)) pool)"
    using ok by (rule set_peer_steps) (simp add: mild_def pong_received_def Let_def)
  ultimately show ?thesis
    using p steps_refl [OF ok] by (auto simp: hsk_peer_handle_pong_def intro!: handledI)
qed

lemma add_addrs_steps:
  assumes "pool_ok cf pool"
  shows "\<exists>pool'. add_addrs now addrs pool = Some pool' \<and> steps cf p pool pool'"
  using assms
proof (induction addrs arbitrary: pool)
  case (Cons addr addrs)
  define addr' where "addr' = (if na_time addr \<le> 100000000 \<or> na_time addr > of_int (now + 10 * 60) then addr\<lparr>na_time := of_int (now - 5 * 24 * 60 * 60)\<rparr> else addr)"
  have am: "addrman_ok (pl_am pool)" using Cons.prems by (simp add: pool_ok_def parts_ok_def)
  obtain b am' rs' where e: "hsk_addrman_add_na True (pl_clock pool) (pl_am pool) addr' (pl_rand pool) = Some (b, am', rs')" "addrman_ok am'"
    unfolding hsk_addrman_add_na_def by (rule add_entry_ok [OF am])
  then have s: "steps cf p pool (pool\<lparr>pl_am := am', pl_rand := rs'\<rparr>)"
    using Cons.prems add_entry_td unfolding hsk_addrman_add_na_def by (intro am_steps) blast+
  have "add_addrs now (addr # addrs) pool =
      (if \<not> hsk_addr_is_routable (na_addr addr) \<or> na_services addr AND 1 = 0 \<or> ad_port (na_addr addr') = 0 \<or> hsk_addr_has_key (na_addr addr')
       then add_addrs now addrs pool else add_addrs now addrs (pool\<lparr>pl_am := am', pl_rand := rs'\<rparr>))"
    using e(1) unfolding add_addrs.simps Let_def addr'_def [symmetric] by simp
  then show ?case using Cons.IH [OF Cons.prems] Cons.IH [OF stepsD(1) [OF s]] steps_trans [OF s] by (auto split: if_splits)
qed (simp add: steps_refl)

lemma handle_addr_steps:
  assumes ok: "pool_ok cf pool"
  shows "handled cf p pool (hsk_peer_handle_addr addrs pool)"
proof -
  obtain pool' where "add_addrs (hsk_timedata_now (pl_clock pool) (pool_td pool)) addrs pool = Some pool'" "steps cf p pool pool'"
    using add_addrs_steps [OF ok] by blast
  then show ?thesis using steps_refl [OF ok] by (simp add: hsk_peer_handle_addr_def handledI)
qed

section \<open>Headers\<close>

text \<open>A header as it comes from the wire, and its hash is not the one of no block.\<close>

definition good_header :: "hash_fns \<Rightarrow> hsk_header \<Rightarrow> bool" where
  "good_header H h \<longleftrightarrow> header_ok h \<and> cache_ok H h \<and> pow_hash H h \<noteq> replicate 32 0"

text \<open>Heights stay away from their limit while the headers are added.\<close>

fun adds_low :: "hash_fns \<Rightarrow> hsk_network \<Rightarrow> int \<Rightarrow> hsk_chain \<Rightarrow> hsk_header list \<Rightarrow> bool" where
  "adds_low H N clock c [] \<longleftrightarrow> True"
| "adds_low H N clock c (h # hs) \<longleftrightarrow> low_heights c \<and>
     (case hsk_chain_add H N clock c h of None \<Rightarrow> True | Some (rc, c') \<Rightarrow> adds_low H N clock c' hs)"

lemma cached_good:
  assumes "hash_fns_ok H" and "good_header H h"
  shows "good_header H (h\<lparr>hdr_hash := pow_hash H h, hdr_cache := True\<rparr>)"
  using assms length_pow_hash [OF assms(1), of h] by (simp add: good_header_def header_ok_def cache_ok_def)

lemma check_headers_good:
  assumes H: "hash_fns_ok H"
  shows "check_headers H prev hs = Inr hs' \<Longrightarrow> \<forall>h\<in>set hs. good_header H h \<Longrightarrow> \<forall>h\<in>set hs'. good_header H h"
proof (induction hs arbitrary: prev hs')
  case (Cons h hs)
  let ?h = "h\<lparr>hdr_hash := pow_hash H h, hdr_cache := True\<rparr>"
  have g: "good_header H h" "good_header H ?h" using Cons.prems(2) cached_good [OF H, of h] by simp_all
  have c: "hsk_header_cache H h = (pow_hash H h, ?h)" using g(1) by (intro header_cache) (simp add: good_header_def)
  have v: "hsk_header_verify_pow H ?h = (rc, h') \<Longrightarrow> h' = ?h" for rc h'
    using verify_pow_value [OF H, of ?h] g(2) by (auto simp: good_header_def split: if_splits)
  obtain rc h' where r: "hsk_header_verify_pow H ?h = (rc, h')" by fastforce
  have h': "h' = ?h" by (rule v [OF r])
  show ?case using Cons.prems Cons.IH [of "Some (pow_hash H h)"] g(2) c r h' by (auto split: if_splits sum.splits option.splits)
qed simp

lemma chain_add_parts:
  assumes cf: "conf_ok cf" and parts: "parts_ok cf pool" and h: "good_header (cf_hash cf) h" and low: "low_heights (pl_chain pool)"
  obtains rc c where "hsk_chain_add (cf_hash cf) (cf_net cf) clock (pl_chain pool) h = Some (rc, c)" "parts_ok cf (pool\<lparr>pl_chain := c\<rparr>)"
    "\<And>k x. stored (pl_chain pool) k x \<Longrightarrow> stored c k x"
proof -
  have N: "cf_net cf \<in> set hsk_networks" "no_zero_hash (cf_hash cf) (cf_net cf)" and R: "chain_reach (cf_hash cf) (cf_net cf) (pl_chain pool)"
    using cf parts by (simp_all add: conf_ok_def parts_ok_def)
  have "reach_ok (cf_hash cf) (cf_net cf) (pl_chain pool)" by (rule reach_invariant) fact+
  then obtain rc c where c: "hsk_chain_add (cf_hash cf) (cf_net cf) clock (pl_chain pool) h = Some (rc, c)"
    "extended (cf_hash cf) (cf_net cf) (pl_chain pool) c"
    using add_ok [OF _ networks_ok networks_limit_ok, of "cf_hash cf" "cf_net cf" "pl_chain pool" h clock] N h low
    by (auto simp: reach_ok_def no_zero_hash_def good_header_def)
  then have "chain_reach (cf_hash cf) (cf_net cf) c" using R low h by (auto intro: reach_add simp: good_header_def)
  then have "parts_ok cf (pool\<lparr>pl_chain := c\<rparr>)" using parts c(2) by (simp add: parts_ok_def pool_td_def extended_def)
  then show ?thesis using that [OF c(1)] c(2) by (simp add: extended_def)
qed

lemma add_headers_steps:
  assumes cf: "conf_ok cf"
  shows "pool_ok cf pool \<Longrightarrow> pl_heap pool p \<noteq> None \<Longrightarrow> \<forall>h\<in>set hs. good_header (cf_hash cf) h \<Longrightarrow>
    adds_low (cf_hash cf) (cf_net cf) (pl_clock pool) (pl_chain pool) hs \<Longrightarrow>
    \<exists>r pool'. add_headers cf p orphan hs pool = Some (r, pool') \<and> steps cf p pool pool'"
proof (induction hs arbitrary: orphan pool)
  case (Cons h hs)
  obtain peer where peer: "pl_heap pool p = Some peer" using Cons.prems(2) by blast
  obtain rc c where c: "hsk_chain_add (cf_hash cf) (cf_net cf) (pl_clock pool) (pl_chain pool) h = Some (rc, c)" "parts_ok cf (pool\<lparr>pl_chain := c\<rparr>)"
    "\<And>k x. stored (pl_chain pool) k x \<Longrightarrow> stored c k x"
    by (rule chain_add_parts [OF cf pool_okD(3) [OF Cons.prems(1)], of h "pl_clock pool"]) (use Cons.prems in simp_all)
  let ?a = "pool\<lparr>pl_chain := c\<rparr>"
  let ?b = "?a\<lparr>pl_am := snd (hsk_addrman_add_ban (True, True) (pl_clock ?a) (pl_am ?a) (pe_addr peer))\<rparr>"
  let ?n = "set_peer p (\<lambda>peer. peer\<lparr>pe_headers := pe_headers peer + 1\<rparr>) ?a"
  have a: "steps cf p pool ?a" using c(2,3) by (intro rest_steps Cons.prems(1)) simp_all
  note A = stepsD(1) [OF a]
  have b: "steps cf p pool ?b" using steps_trans [OF a am_steps(1) [OF A bans_ok(2)]] pool_okD(3) [OF A] by (simp add: parts_ok_def)
  have n: "steps cf p pool ?n" by (rule steps_trans [OF a], rule set_peer_steps [OF A]) (simp add: mild_def)
  obtain pa where pa: "hsk_peer_destroy p ?a = Some (HSK_SUCCESS, pa)" "steps cf p ?a pa"
    by (rule destroy_steps [OF A steps_heap [OF a Cons.prems(2)]])
  obtain pb where pb: "hsk_peer_destroy p ?b = Some (HSK_SUCCESS, pb)" "steps cf p ?b pb"
    by (rule destroy_steps [OF stepsD(1) [OF b] steps_heap [OF b Cons.prems(2)]])
  have ban: "fst (hsk_addrman_add_ban (True, True) k am addr)" for k am addr
    by (simp add: hsk_addrman_add_ban_def split: option.split)
  have low: "adds_low (cf_hash cf) (cf_net cf) (pl_clock pool) c hs" and good: "\<forall>h\<in>set hs. good_header (cf_hash cf) h"
    using Cons.prems(3,4) c(1) by simp_all
  have ra: "\<exists>r pool'. add_headers cf p o' hs ?a = Some (r, pool') \<and> steps cf p pool pool'" for o'
    using Cons.IH [OF A steps_heap [OF a Cons.prems(2)] good] low steps_trans [OF a] by force
  have rn: "\<exists>r pool'. add_headers cf p o' hs ?n = Some (r, pool') \<and> steps cf p pool pool'" for o'
    using Cons.IH [OF stepsD(1) [OF n] steps_heap [OF n Cons.prems(2)] good] low steps_trans [OF n] by force
  have "add_headers cf p orphan (h # hs) pool =
      (if rc = HSK_ETIMETOOOLD \<or> rc = HSK_EBADDIFFBITS then Some (Inl rc, pb)
       else if rc = HSK_ETIMETOONEW then Some (Inl rc, pa)
       else if rc = HSK_EORPHAN \<or> rc = HSK_EDUPLICATEORPHAN then add_headers cf p True hs ?a
       else if rc \<noteq> HSK_SUCCESS then (if rc = HSK_EDUPLICATE then add_headers cf p orphan hs ?a else Some (Inl rc, ?a))
       else add_headers cf p orphan hs ?n)"
    using peer c(1) ban pa(1) pb(1) by (simp add: split_beta Let_def)
  then show ?case using ra rn a steps_trans [OF a pa(2)] steps_trans [OF b pb(2)] by (auto split: if_splits)
qed (simp add: steps_refl)


lemma handle_headers_steps:
  assumes cf: "conf_ok cf" and ok: "pool_ok cf pool" and p: "pl_heap pool p \<noteq> None"
    and good: "\<forall>h\<in>set hs. good_header (cf_hash cf) h"
    and low: "\<forall>hs'. check_headers (cf_hash cf) None hs = Inr hs' \<longrightarrow> adds_low (cf_hash cf) (cf_net cf) (pl_clock pool) (pl_chain pool) hs'"
  shows "handled cf p pool (hsk_peer_handle_headers cf p hs pool)"
proof (cases "check_headers (cf_hash cf) None hs")
  case (Inl rc)
  then show ?thesis using steps_refl [OF ok] by (simp add: hsk_peer_handle_headers_def handledI)
next
  case (Inr hs')
  have H: "hash_fns_ok (cf_hash cf)" using cf by (simp add: conf_ok_def no_zero_hash_def)
  obtain r pool1 where a: "add_headers cf p False hs' pool = Some (r, pool1)" "steps cf p pool pool1"
    using add_headers_steps [OF cf ok p, of hs' False] check_headers_good [OF H Inr good] low Inr by blast
  have g: "handled cf p pool (hsk_peer_send_getheaders cf p None x)" if x: "steps cf p pool x" for x
  proof -
    obtain rc pool' where "hsk_peer_send_getheaders cf p None x = Some (rc, pool')" "steps cf p x pool'"
      by (rule send_getheaders_steps [OF cf stepsD(1) [OF x] steps_heap [OF x p]])
    then show ?thesis using steps_trans [OF x] by (simp add: handledI)
  qed
  let ?b = "set_peer p (\<lambda>peer. peer\<lparr>pe_getheaders_time := 0\<rparr>) (pool1\<lparr>pl_block_time := pl_clock pool1\<rparr>)"
  have "steps cf p pool1 (pool1\<lparr>pl_block_time := pl_clock pool1\<rparr>)"
    using pool_okD(3) [OF stepsD(1) [OF a(2)]] by (intro rest_steps stepsD(1) [OF a(2)]) (simp_all add: parts_ok_def pool_td_def)
  then have b': "steps cf p pool (pool1\<lparr>pl_block_time := pl_clock pool1\<rparr>)" by (rule steps_trans [OF a(2)])
  have b: "steps cf p pool ?b" by (rule steps_trans [OF b'], rule set_peer_steps [OF stepsD(1) [OF b']]) (simp add: mild_def)
  obtain rc pool2 where o: "hsk_peer_send_getheaders cf p None pool1 = Some (rc, pool2)" "steps cf p pool pool2"
    using g [OF a(2)] by (rule handledE)
  show ?thesis unfolding hsk_peer_handle_headers_def using Inr a o g [OF b] b steps_refl [OF ok]
    by (auto simp: Let_def intro!: handledI split: sum.split)
qed

section \<open>Proofs\<close>

lemma reqs_del:
  assumes "tbl_ok t" and "tbl_get t k = Some v"
  shows "mset (concat (map snd (tbl_del t k))) + mset v = mset (concat (map snd t))"
  using assms
proof (induction t)
  case (Cons x t)
  show ?case
  proof (cases "fst x = k")
    case True
    then have "k \<notin> fst ` set t" using Cons.prems(1) by (simp add: tbl_ok_def)
    then have "AList.delete k t = t" by (simp add: delete_id)
    then show ?thesis using True Cons.prems(2) by (cases x) (simp add: tbl_del_def tbl_get_def)
  next
    case False
    then show ?thesis using Cons by (cases x) (simp add: tbl_del_def tbl_get_def tbl_ok_def)
  qed
qed simp

text \<open>Changing the requests of a listed peer.\<close>

lemma set_names:
  assumes ok: "pool_ok cf pool" and p: "p \<in> set (pl_list pool)" "pl_heap pool p = Some peer"
    and f: "pe_addr (f peer) = pe_addr peer" "pe_state (f peer) = pe_state peer" "peer_ok (f peer)"
  shows "pool_ok cf (set_peer p f pool)"
    and "waiting (set_peer p f pool) + image_mset nr_arg (mset (peer_reqs peer)) = waiting pool + image_mset nr_arg (mset (peer_reqs (f peer)))"
proof -
  let ?b = "set_peer p f pool"
  have "links_ok ?b" using f p by (intro set_peer_links pool_okD(1) [OF ok]) auto
  moreover have "heap_ok ?b" using f p by (intro set_peer_heap_ok pool_okD(2) [OF ok]) auto
  ultimately show "pool_ok cf ?b" using pool_okD(3) [OF ok] by (intro pool_okI) (simp_all add: parts_cong [of ?b pool])
  have s: "(\<Sum>q\<in>set (pl_list pool) - {p}. peer_args ?b q) + peer_args pool p = (\<Sum>q\<in>set (pl_list pool). peer_args pool q)"
    using p(1) by (intro sum_without) (simp_all add: peer_args_def set_peer_heap)
  have "(\<Sum>q\<in>set (pl_list pool). peer_args ?b q) = peer_args ?b p + (\<Sum>q\<in>set (pl_list pool) - {p}. peer_args ?b q)"
    using p(1) by (intro sum.remove) simp_all
  then show "waiting ?b + image_mset nr_arg (mset (peer_reqs peer)) = waiting pool + image_mset nr_arg (mset (peer_reqs (f peer)))"
    using s p by (simp add: waiting_def peer_args_def set_peer_heap ac_simps flip: s)
qed

definition proof_answer :: "nat \<Rightarrow> bytes \<Rightarrow> hsk_pool \<Rightarrow> name_req list \<Rightarrow> bool \<Rightarrow> bytes \<Rightarrow> hsk_pool" where
  "proof_answer p key pool reqs ex d =
     report (map (answer_of ex d) reqs) (set_peer p (\<lambda>peer. peer\<lparr>pe_names := tbl_del (pe_names peer) key, pe_proofs := pe_proofs peer + 1\<rparr>) pool)"

lemma listed_requests: "pool_ok cf pool \<Longrightarrow> pl_heap pool p = Some peer \<Longrightarrow> tbl_get (pe_names peer) key = Some reqs \<Longrightarrow> p \<in> set (pl_list pool)"
  using heap_peer [OF pool_okD(2)] by (fastforce simp: tbl_get_def)

lemma proof_answer_evolves:
  assumes ok: "pool_ok cf pool" and p: "pl_heap pool p = Some peer" and r: "tbl_get (pe_names peer) key = Some reqs"
  shows "evolves cf p pool (proof_answer p key pool reqs ex d)" and "successes (proof_answer p key pool reqs ex d) = successes pool @ map (answer_of ex d) reqs"
proof -
  let ?f = "\<lambda>peer. peer\<lparr>pe_names := tbl_del (pe_names peer) key, pe_proofs := pe_proofs peer + 1\<rparr>"
  let ?a = "set_peer p ?f pool" and ?b = "proof_answer p key pool reqs ex d"
  have l: "p \<in> set (pl_list pool)" using listed_requests [OF ok p r] .
  have po: "peer_ok peer" using heap_peer [OF pool_okD(2) [OF ok] p] by simp
  have sub: "set (tbl_del (pe_names peer) key) \<subseteq> set (pe_names peer)" by (auto simp: tbl_del_def AList.delete_eq)
  then have "[] \<notin> snd ` set (tbl_del (pe_names peer) key)" using po by (auto simp: peer_ok_def)
  then have fo: "peer_ok (?f peer)" using po by (simp add: peer_ok_def)
  have a: "pool_ok cf ?a" "waiting ?a + image_mset nr_arg (mset (peer_reqs peer)) = waiting pool + image_mset nr_arg (mset (peer_reqs (?f peer)))"
    using set_names [OF ok l p, where f = ?f, OF _ _ fo] by simp_all
  have "mset (peer_reqs (?f peer)) + mset reqs = mset (peer_reqs peer)" using reqs_del [OF _ r] po by (simp add: peer_reqs_def peer_ok_def)
  then have w: "waiting ?a + image_mset nr_arg (mset reqs) = waiting pool" using a(2) by (simp flip: \<open>_ = mset (peer_reqs peer)\<close>)
  have out: "pl_out ?b = pl_out pool @ map (answer_of ex d) reqs" by (simp add: proof_answer_def report_def)
  have same: "pl_list ?b = pl_list ?a" "pl_size ?b = pl_size ?a" "pl_peers ?b = pl_peers ?a" "pl_heap ?b = pl_heap ?a" "pl_next ?b = pl_next ?a"
    "pl_pending ?b = pl_pending ?a" "pl_am ?b = pl_am ?a" "pl_chain ?b = pl_chain ?a" "pl_key ?b = pl_key ?a" "pl_clock ?b = pl_clock pool" "pl_chain ?b = pl_chain pool"
    by (simp_all add: proof_answer_def report_def)
  have "pool_ok cf ?b" using a(1) unfolding pool_ok_def links_ok_def heap_ok_def by (simp add: same parts_cong [of ?b ?a])
  moreover have "waiting ?b = waiting ?a" by (simp add: waiting_def peer_args_def same)
  ultimately show "evolves cf p pool ?b"
    using w answered_more [OF out] unfolding answer_args by (auto simp: evolves_def same set_peer_heap ac_simps simp flip: w)
  have "filter is_success (map (answer_of ex d) reqs) = map (answer_of ex d) reqs" by (induction reqs) (simp_all add: answer_of_def)
  then show "successes ?b = successes pool @ map (answer_of ex d) reqs" using successes_more [OF out] by simp
qed


lemma climb_error: "climb H key items d n = Some (Inl rc) \<Longrightarrow> rc \<noteq> HSK_SUCCESS"
  by (induction H key items d n rule: climb.induct) (auto simp: Let_def bind_eq_Some_conv split: if_splits)

lemma leaf_error: "proof_leaf H key pf = Some (Inl rc) \<Longrightarrow> rc \<noteq> HSK_SUCCESS"
  by (auto simp: proof_leaf_def bind_eq_Some_conv split: if_splits)

lemma verify_error:
  assumes v: "hsk_proof_verify H r key pf = Some (Inl rc)"
  shows "rc \<noteq> HSK_SUCCESS"
proof -
  obtain l where l: "proof_leaf H key pf = Some l" using v by (auto simp: hsk_proof_verify_def bind_eq_Some_conv split: if_splits)
  show ?thesis
  proof (cases l)
    case (Inl e)
    then show ?thesis using v l leaf_error by (auto simp: hsk_proof_verify_def split: if_splits)
  next
    case (Inr leaf)
    then obtain e where e: "climb H key (rev (pf_nodes pf)) (uint (pf_depth pf)) leaf = Some e"
      using v l by (auto simp: hsk_proof_verify_def bind_eq_Some_conv split: if_splits)
    show ?thesis
    proof (cases e)
      case (Inl x)
      then show ?thesis using v l e Inr climb_error by (auto simp: hsk_proof_verify_def split: if_splits)
    next
      case (Inr y)
      then show ?thesis using v l e \<open>l = Inr leaf\<close>
        by (cases y, cases "hsk_parse_namestate (case pf_value pf of None \<Rightarrow> [] | Some v \<Rightarrow> v) (unat (pf_value_size pf))")
          (auto simp: hsk_proof_verify_def split: if_splits)
    qed
  qed
qed

text \<open>
  Handling a proof either changes nothing or answers all requests for its name, with what the check of
  the proof against its root returned, when that is the root of the newest of them.
\<close>

lemma handle_proof_cases:
  assumes cf: "conf_ok cf" and ok: "pool_ok cf pool" and p: "pl_heap pool p = Some peer" and pf: "proof_ok pf"
  obtains (refused) rc where "hsk_peer_handle_proof cf p r key pf pool = Some (rc, pool)" "rc \<noteq> HSK_SUCCESS"
    | (accepted) req reqs ex d where "hsk_peer_handle_proof cf p r key pf pool = Some (HSK_SUCCESS, proof_answer p key pool (req # reqs) ex d)"
      "tbl_get (pe_names peer) key = Some (req # reqs)" "memcmp r (nr_root req) = 0" "hsk_proof_verify (cf_hash cf) r key pf = Some (Inr (ex, d))"
proof -
  have H: "hash_len (cf_hash cf)" using cf by (simp add: conf_ok_def no_zero_hash_def hash_fns_ok_def hash_len_def)
  obtain res where res: "hsk_proof_verify (cf_hash cf) r key pf = Some res" using verify_returns [OF pf H] by blast
  consider "tbl_get (pe_names peer) key = None" | "tbl_get (pe_names peer) key = Some []"
    | req reqs where "tbl_get (pe_names peer) key = Some (req # reqs)" by (metis list.exhaust option.exhaust)
  then show ?thesis
  proof cases
    case (3 req reqs)
    show ?thesis
    proof (cases "memcmp r (nr_root req) = 0")
      case m: True
      show ?thesis
      proof (cases res)
        case (Inl rc)
        have "rc \<noteq> HSK_SUCCESS" using verify_error res Inl by blast
        then show ?thesis using refused [of rc] 3 m p res Inl by (simp add: hsk_peer_handle_proof_def)
      next
        case (Inr x)
        obtain ex d where x: "x = (ex, d)" by fastforce
        have "hsk_peer_handle_proof cf p r key pf pool = Some (HSK_SUCCESS, proof_answer p key pool (req # reqs) ex d)"
          using 3 m p res Inr x by (simp add: hsk_peer_handle_proof_def proof_answer_def set_peer_def report_def)
        then show ?thesis using accepted 3 m res Inr x by blast
      qed
    qed (use refused [of HSK_EHASHMISMATCH] 3 p in \<open>simp add: hsk_peer_handle_proof_def\<close>)
  qed (use refused [of HSK_EBADARGS] p in \<open>simp_all add: hsk_peer_handle_proof_def\<close>)
qed


section \<open>Any message\<close>

fun good_msg :: "'k conf \<Rightarrow> hsk_pool \<Rightarrow> hsk_msg \<Rightarrow> bool" where
  "good_msg cf pool (Headers_msg hs) \<longleftrightarrow> (\<forall>h\<in>set hs. good_header (cf_hash cf) h) \<and>
     (case check_headers (cf_hash cf) None hs of Inl _ \<Rightarrow> True
      | Inr hs' \<Rightarrow> adds_low (cf_hash cf) (cf_net cf) (pl_clock pool) (pl_chain pool) hs')"
| "good_msg cf pool (Proof_msg r key pf) \<longleftrightarrow> length r = 32 \<and> proof_ok pf"
| "good_msg cf pool _ \<longleftrightarrow> True"

lemma handle_other_steps:
  assumes cf: "conf_ok cf" and ok: "pool_ok cf pool" and p: "pl_heap pool p \<noteq> None" and m: "good_msg cf pool m" and np: "\<forall>r key pf. m \<noteq> Proof_msg r key pf"
  shows "handled cf p pool (hsk_peer_handle_msg cf p pool m)"
proof (cases m)
  case (Version_msg v)
  then show ?thesis using handle_version_steps [OF cf ok p, of v] unfolding handled_def by (metis hsk_peer_handle_msg.simps(1))
next
  case Verack_msg
  have "steps cf p pool (set_peer p (\<lambda>peer. peer\<lparr>pe_version_time := 0\<rparr>) pool)" using ok by (rule set_peer_steps) (simp add: mild_def)
  then show ?thesis using Verack_msg by (simp add: hsk_peer_handle_verack_def handledI)
next
  case (Ping_msg n)
  then show ?thesis using send_plain_steps(3) [OF ok p] by (auto simp: hsk_peer_handle_ping_def handled_def)
next
  case (Headers_msg hs)
  then show ?thesis using m handle_headers_steps [OF cf ok p, of hs] by (auto split: sum.splits)
qed (use steps_refl [OF ok] handle_pong_steps [OF ok p] handle_addr_steps [OF ok] np in \<open>auto intro: handledI\<close>)

text \<open>Whatever the message, handling it returns and no request is lost or answered twice.\<close>

lemma handle_msg_evolves:
  assumes cf: "conf_ok cf" and ok: "pool_ok cf pool" and p: "pl_heap pool p \<noteq> None" and m: "good_msg cf pool m"
  obtains rc pool' where "hsk_peer_handle_msg cf p pool m = Some (rc, pool')" "evolves cf p pool pool'"
proof (cases "\<exists>r key pf. m = Proof_msg r key pf")
  case True
  then obtain r key pf where pf: "m = Proof_msg r key pf" by blast
  obtain peer where peer: "pl_heap pool p = Some peer" using p by blast
  have pok: "proof_ok pf" using m pf by simp
  show ?thesis
  proof (cases rule: handle_proof_cases [OF cf ok peer pok, where r = r and key = key, case_names refused accepted])
    case (refused rc)
    then show ?thesis using that evolves_refl [OF ok] pf by simp
  next
    case (accepted req reqs ex d)
    then show ?thesis using that proof_answer_evolves(1) [OF ok peer accepted(2)] pf by simp
  qed
next
  case False
  then have "handled cf p pool (hsk_peer_handle_msg cf p pool m)" by (intro handle_other_steps [OF cf ok p m]) blast
  then show ?thesis by (rule handledE) (rule that, assumption, erule stepsD(2))
qed

end
