(* ===== verification/Pool_Req.thy ===== *)
theory Pool_Req
  imports Pool_Msg
begin

text \<open>
  Requests for names in \<^verbatim>\<open>pool.c\<close>: the choice of a peer, what asking adds, and that what is answered as
  true was checked against the root of a header of the chain.
\<close>

section \<open>Choosing a peer\<close>

lemma best_loop_returns:
  assumes "\<forall>q\<in>insert first (set ps). pl_heap pool q \<noteq> None"
  shows "\<exists>f s. best_loop pool ps first second = Some (f, s) \<and> f \<in> insert first (set ps) \<and> (s = second \<or> (\<exists>q. s = Some q \<and> q \<in> insert first (set ps)))"
  using assms
proof (induction ps arbitrary: first second)
  case (Cons p ps)
  obtain peer best where pb: "pl_heap pool p = Some peer" "pl_heap pool first = Some best" using Cons.prems by auto
  show ?case using Cons.IH [of first second] Cons.IH [of p "Some first"] Cons.prems pb
    by (auto split: if_splits)
qed simp

lemma links_heap: "links_ok pool \<Longrightarrow> q \<in> set (pl_list pool) \<Longrightarrow> pl_heap pool q \<noteq> None"
  using links_listed by blast

lemma if_three:
  "\<exists>r rs. (if a then Some (r1, g x1) else if b then Some (r2, g x2) else Some (r3, g x3)) = Some (r, g rs) \<and> r \<in> {r1, r2, r3}"
  by auto

lemma pick_prover_returns:
  assumes "links_ok pool"
  obtains r rs where "hsk_pool_pick_prover pool h = Some (r, pool\<lparr>pl_rand := rs\<rparr>)" "\<And>p. r = Some p \<Longrightarrow> p \<in> set (pl_list pool)"
proof (cases "pl_list pool")
  case Nil
  then show ?thesis using that [of None "pl_rand pool"] by (simp add: hsk_pool_pick_prover_def)
next
  case (Cons head rest)
  obtain f s where fs: "best_loop pool (pl_list pool) head None = Some (f, s)" "f \<in> set (pl_list pool)" "\<And>q. s = Some q \<Longrightarrow> q \<in> set (pl_list pool)"
    using best_loop_returns [of head "pl_list pool" pool None] links_heap [OF assms] Cons by auto
  have act: "active_peers pool ! (n mod length (active_peers pool)) \<in> set (pl_list pool)" if "active_peers pool \<noteq> []" for n
  proof -
    have "active_peers pool ! (n mod length (active_peers pool)) \<in> set (active_peers pool)" using that by simp
    then show ?thesis by (auto simp: active_peers_def)
  qed
  show ?thesis
  proof (cases "active_peers pool = []")
    case True
    then show ?thesis using that [of None "pl_rand pool"] fs Cons by (simp add: hsk_pool_pick_prover_def del: best_loop.simps)
  next
    case False
    define R where "R = pl_rand pool"
    define R' where "R' = (if s = None then stl (stl R) else stl (stl (stl R)))"
    let ?at = "\<lambda>n. active_peers pool ! (n mod length (active_peers pool))"
    have "hsk_pool_pick_prover pool h =
        (if shd (stl R) mod 5 = 0 then Some (Some (?at (unat (shd R))), pool\<lparr>pl_rand := stl (stl R)\<rparr>)
         else if s \<noteq> None \<and> shd (stl (stl R)) mod 10 = 0 then Some (s, pool\<lparr>pl_rand := stl (stl (stl R))\<rparr>)
         else Some (Some (if shd R' mod 10 = 0 then f else ?at (unat (hd h))), pool\<lparr>pl_rand := stl R'\<rparr>))"
      using False fs(1) Cons by (cases s) (simp_all add: hsk_pool_pick_prover_def hsk_random_def R_def R'_def Let_def del: best_loop.simps)
    then obtain r rs where "hsk_pool_pick_prover pool h = Some (r, pool\<lparr>pl_rand := rs\<rparr>)"
      "r \<in> {Some (?at (unat (shd R))), s, Some (if shd R' mod 10 = 0 then f else ?at (unat (hd h)))}"
      using if_three [of _ _ "\<lambda>rs. pool\<lparr>pl_rand := rs\<rparr>"] by metis
    moreover have "p \<in> set (pl_list pool)" if "r = Some p" for p using that calculation(2) fs(2,3) act [OF False] by (auto split: if_splits)
    ultimately show ?thesis using that by blast
  qed
qed

section \<open>Asking\<close>

lemma reqs_update:
  assumes "tbl_ok t"
  shows "mset (concat (map snd (AList.update k v t))) + mset (case tbl_get t k of None \<Rightarrow> [] | Some old \<Rightarrow> old) = mset (concat (map snd t)) + mset v"
  using assms
proof (induction t)
  case (Cons x t)
  have "tbl_get t (fst x) = None" using Cons.prems by (auto simp: tbl_ok_def tbl_get_def map_of_eq_None_iff)
  then show ?case using Cons by (cases x) (auto simp: tbl_get_def tbl_ok_def ac_simps)
qed (simp add: tbl_get_def)

lemma snd_update: "snd ` set (AList.update k v t) \<subseteq> insert v (snd ` set t)"
  by (induction t) auto

text \<open>A request is added to those of a listed peer.\<close>

definition with_req :: "nat \<Rightarrow> bytes \<Rightarrow> name_req \<Rightarrow> name_req list \<Rightarrow> hsk_pool \<Rightarrow> hsk_pool" where
  "with_req p hash req reqs pool = set_peer p (\<lambda>peer. peer\<lparr>pe_names := AList.update hash (req # reqs) (pe_names peer)\<rparr>) pool"

definition reqs_at :: "hsk_peer \<Rightarrow> bytes \<Rightarrow> name_req list" where
  "reqs_at peer hash = (case tbl_get (pe_names peer) hash of None \<Rightarrow> [] | Some reqs \<Rightarrow> reqs)"

lemma with_req_ok:
  assumes ok: "pool_ok cf pool" and p: "p \<in> set (pl_list pool)" "pl_heap pool p = Some peer"
  shows "pool_ok cf (with_req p hash req (reqs_at peer hash) pool)"
    and "waiting (with_req p hash req (reqs_at peer hash) pool) = waiting pool + {#nr_arg req#}"
proof -
  let ?ns = "AList.update hash (req # reqs_at peer hash) (pe_names peer)"
  let ?f = "\<lambda>peer'. peer'\<lparr>pe_names := AList.update hash (req # reqs_at peer hash) (pe_names peer')\<rparr>"
  have po: "peer_ok peer" using heap_peer [OF pool_okD(2) [OF ok] p(2)] by simp
  have "snd ` set ?ns \<subseteq> insert (req # reqs_at peer hash) (snd ` set (pe_names peer))" by (rule snd_update)
  then have fo: "peer_ok (?f peer)" using po by (auto simp: peer_ok_def)
  have w: "pool_ok cf (with_req p hash req (reqs_at peer hash) pool)"
    "waiting (with_req p hash req (reqs_at peer hash) pool) + image_mset nr_arg (mset (peer_reqs peer)) =
      waiting pool + image_mset nr_arg (mset (peer_reqs (?f peer)))"
    unfolding with_req_def using set_names [OF ok p, where f = ?f, OF _ _ fo] by simp_all
  show "pool_ok cf (with_req p hash req (reqs_at peer hash) pool)" by (rule w(1))
  have "mset (peer_reqs (?f peer)) + mset (reqs_at peer hash) = mset (peer_reqs peer) + mset (req # reqs_at peer hash)"
    using reqs_update [of "pe_names peer" hash "req # reqs_at peer hash"] po by (simp add: peer_reqs_def peer_ok_def reqs_at_def)
  then have "mset (peer_reqs (?f peer)) = mset (peer_reqs peer) + {#req#}" by simp
  then show "waiting (with_req p hash req (reqs_at peer hash) pool) = waiting pool + {#nr_arg req#}" using w(2) by simp
qed

section \<open>Answers that are true\<close>

definition rooted :: "hsk_chain \<Rightarrow> name_req \<Rightarrow> bool" where
  "rooted c req \<longleftrightarrow> (\<exists>k h. stored c k h \<and> nr_root req = hdr_name_root h)"

definition reqs_ok :: "'k conf \<Rightarrow> hsk_pool \<Rightarrow> bool" where
  "reqs_ok cf pool \<longleftrightarrow> (\<forall>p peer k reqs req. pl_heap pool p = Some peer \<longrightarrow> tbl_get (pe_names peer) k = Some reqs \<longrightarrow> req \<in> set reqs \<longrightarrow>
     sha3 (cf_hash cf) (nr_name req) = k \<and> rooted (pl_chain pool) req)"

text \<open>The data comes from a proof that was checked against the root in a stored header, for the hash of the name.\<close>

fun truthful :: "'k conf \<Rightarrow> hsk_chain \<Rightarrow> pool_event \<Rightarrow> bool" where
  "truthful cf c (Answered name rc ex d a) \<longleftrightarrow> (\<exists>k h pf. stored c k h \<and> proof_ok pf \<and>
     hsk_proof_verify (cf_hash cf) (hdr_name_root h) (sha3 (cf_hash cf) name) pf = Some (Inr (ex, d)))"
| "truthful cf c (Sent _ _) \<longleftrightarrow> True"

definition truth_ok :: "'k conf \<Rightarrow> hsk_pool \<Rightarrow> bool" where
  "truth_ok cf pool \<longleftrightarrow> reqs_ok cf pool \<and> (\<forall>e\<in>set (successes pool). truthful cf (pl_chain pool) e)"

lemma rooted_mono: "rooted c req \<Longrightarrow> (\<And>k h. stored c k h \<Longrightarrow> stored c' k h) \<Longrightarrow> rooted c' req"
  unfolding rooted_def by blast

lemma truthful_mono: "truthful cf c e \<Longrightarrow> (\<And>k h. stored c k h \<Longrightarrow> stored c' k h) \<Longrightarrow> truthful cf c' e"
  by (cases e) (simp_all, metis)

lemma reqs_okD:
  "reqs_ok cf pool \<Longrightarrow> pl_heap pool p = Some peer \<Longrightarrow> tbl_get (pe_names peer) k = Some reqs \<Longrightarrow> req \<in> set reqs \<Longrightarrow>
     sha3 (cf_hash cf) (nr_name req) = k \<and> rooted (pl_chain pool) req"
  unfolding reqs_ok_def by blast

lemma steps_truth:
  assumes t: "truth_ok cf a" and s: "steps cf p a b"
  shows "truth_ok cf b"
proof -
  have grow: "\<And>k h. stored (pl_chain a) k h \<Longrightarrow> stored (pl_chain b) k h" and others: "\<And>q. q \<noteq> p \<Longrightarrow> pl_heap b q = pl_heap a q"
    and ok: "pool_ok cf b" and calm: "calm p a b"
    using s by (auto simp: steps_def evolves_def)
  have "reqs_ok cf b" unfolding reqs_ok_def
  proof (intro allI impI)
    fix q peer k reqs req
    assume b: "pl_heap b q = Some peer" "tbl_get (pe_names peer) k = Some reqs" "req \<in> set reqs"
    have "\<exists>peer'. pl_heap a q = Some peer' \<and> tbl_get (pe_names peer') k = Some reqs"
    proof (cases "q = p")
      case True
      have "p \<in> set (pl_list b)" using listed_requests [OF ok b(1,2)] True by simp
      then show ?thesis using calm b(1,2) True by (cases "pl_heap a p") (simp_all add: calm_def)
    qed (use others b in simp)
    then show "sha3 (cf_hash cf) (nr_name req) = k \<and> rooted (pl_chain b) req"
      using reqs_okD [of cf a q] t b(3) rooted_mono [OF _ grow] unfolding truth_ok_def by blast
  qed
  then show ?thesis using t calm truthful_mono [OF _ grow] by (auto simp: truth_ok_def calm_def)
qed

end
