(* ===== verification/Pool_Ask.thy ===== *)
theory Pool_Ask
  imports Pool_Req
begin

text \<open>
  \<^verbatim>\<open>hsk_pool_resolve\<close> and the handling of proofs: what is asked waits at a peer or in the queue until it
  is answered, and what is answered as true was checked.
\<close>

section \<open>Asking for a name\<close>

lemma with_req_truth:
  assumes ok: "pool_ok cf pool" and t: "truth_ok cf pool" and p: "pl_heap pool p = Some peer"
    and req: "sha3 (cf_hash cf) (nr_name req) = hash" "rooted (pl_chain pool) req"
  shows "truth_ok cf (with_req p hash req (reqs_at peer hash) pool)"
proof -
  let ?b = "with_req p hash req (reqs_at peer hash) pool"
  have R: "reqs_ok cf pool" using t by (simp add: truth_ok_def)
  have tb: "tbl_ok (pe_names peer)" using heap_peer [OF pool_okD(2) [OF ok] p] by (simp add: peer_ok_def)
  have "reqs_ok cf ?b" unfolding reqs_ok_def
  proof (intro allI impI)
    fix q peer' k reqs req'
    assume b: "pl_heap ?b q = Some peer'" "tbl_get (pe_names peer') k = Some reqs" "req' \<in> set reqs"
    have c: "pl_chain ?b = pl_chain pool" by (simp add: with_req_def)
    show "sha3 (cf_hash cf) (nr_name req') = k \<and> rooted (pl_chain ?b) req'"
    proof (cases "q = p \<and> k = hash")
      case True
      have "pe_names peer' = AList.update hash (req # reqs_at peer hash) (pe_names peer)" using b(1) p True by (auto simp: with_req_def set_peer_heap)
      then have "reqs = req # reqs_at peer hash" using b(2) True by (simp add: tbl_get_def update_conv)
      then have "req' = req \<or> req' \<in> set (reqs_at peer hash)" using b(3) by simp
      then show ?thesis using req reqs_okD [OF R p, of hash] True c unfolding reqs_at_def by (cases "tbl_get (pe_names peer) hash") auto
    next
      case False
      have "\<exists>peer0. pl_heap pool q = Some peer0 \<and> tbl_get (pe_names peer0) k = Some reqs"
      proof (cases "q = p")
        case True
        then have "pe_names peer' = AList.update hash (req # reqs_at peer hash) (pe_names peer)" "k \<noteq> hash" using b(1) p False
          by (auto simp: with_req_def set_peer_heap)
        then show ?thesis using b(2) p True by (simp add: tbl_get_def update_conv)
      qed (use b in \<open>simp add: with_req_def set_peer_heap\<close>)
      then show ?thesis using reqs_okD [OF R] b(3) c by metis
    qed
  qed
  then show ?thesis using t by (simp add: truth_ok_def with_req_def successes_def)
qed

lemma rand_same:
  assumes "pool_ok cf pool"
  shows "pool_ok cf (pool\<lparr>pl_rand := rs\<rparr>)" "waiting (pool\<lparr>pl_rand := rs\<rparr>) = waiting pool" "answered (pool\<lparr>pl_rand := rs\<rparr>) = answered pool"
    "truth_ok cf (pool\<lparr>pl_rand := rs\<rparr>) = truth_ok cf pool"
  using assms by (simp_all add: pool_ok_def links_ok_def heap_ok_def parts_ok_def pool_td_def waiting_def peer_args_def answered_def truth_ok_def reqs_ok_def successes_def)

lemma pending_same:
  assumes "pool_ok cf pool"
  shows "pool_ok cf (pool\<lparr>pl_pending := req # pl_pending pool, pl_pending_count := n\<rparr>)"
    "waiting (pool\<lparr>pl_pending := req # pl_pending pool, pl_pending_count := n\<rparr>) = waiting pool + {#nr_arg req#}"
    "answered (pool\<lparr>pl_pending := req # pl_pending pool, pl_pending_count := n\<rparr>) = answered pool"
    "truth_ok cf (pool\<lparr>pl_pending := req # pl_pending pool, pl_pending_count := n\<rparr>) = truth_ok cf pool"
  using assms by (simp_all add: pool_ok_def links_ok_def heap_ok_def parts_ok_def pool_td_def waiting_def peer_args_def answered_def truth_ok_def reqs_ok_def successes_def)

text \<open>The root that is asked for is that of a stored header.\<close>

lemma safe_root_stored:
  assumes cf: "conf_ok cf" and ok: "pool_ok cf pool"
  obtains k h where "hsk_chain_safe_root (cf_net cf) (pl_chain pool) = Some (hdr_name_root h)" "stored (pl_chain pool) k h" "length (hdr_name_root h) = 32"
proof -
  let ?c = "pl_chain pool"
  have N: "cf_net cf \<in> set hsk_networks" "no_zero_hash (cf_hash cf) (cf_net cf)" "chain_reach (cf_hash cf) (cf_net cf) ?c"
    using cf pool_okD(3) [OF ok] by (simp_all add: conf_ok_def parts_ok_def)
  have T: "tree_ok (cf_hash cf) (cf_net cf) ?c" and M: "main_ok ?c" using reach_facts [OF N] by simp_all
  obtain h where h: "hsk_chain_safe_root (cf_net cf) ?c = Some (hdr_name_root h)" "hsk_chain_get_by_height ?c (hdr_height h) = Some h"
    using safe_root_found [OF N] by blast
  have tip: "stored ?c (hdr_hash (ch_tip ?c)) (ch_tip ?c)" using M by (simp add: main_ok_def)
  have "walk ?c (ch_tip ?c) (nheight (ch_tip ?c) - unat (hdr_height h)) = Some h"
    using h(2) by_height_walk(1) [OF T M, of "hdr_height h"] by (simp split: if_splits)
  then have s: "stored ?c (hdr_hash h) h" by (rule walk_stored [OF T tip])
  then have "length (hdr_name_root h) = 32" using tree_okD(1) [OF T] by (auto simp: ok_header_def header_ok_def)
  then show ?thesis using that h(1) s by blast
qed

text \<open>
  Asking returns. When the chain is synchronised the request is among those that wait or were
  answered; otherwise nothing happens.
\<close>

lemma resolve_returns:
  assumes cf: "conf_ok cf" and ok: "pool_ok cf pool"
  obtains rc pool' where "hsk_pool_resolve cf name arg pool = Some (rc, pool')" "pool_ok cf pool'"
    "\<not> hsk_chain_synced (pl_chain pool) \<Longrightarrow> rc = HSK_ETIMEOUT \<and> pool' = pool"
    "hsk_chain_synced (pl_chain pool) \<Longrightarrow> waiting pool' + answered pool' = waiting pool + answered pool + {#arg#}"
    "truth_ok cf pool \<Longrightarrow> truth_ok cf pool'"
proof (cases "hsk_chain_synced (pl_chain pool)")
  case False
  then show ?thesis using that [of HSK_ETIMEOUT pool] ok by (simp add: hsk_pool_resolve_def)
next
  case synced: True
  obtain k h where h: "hsk_chain_safe_root (cf_net cf) (pl_chain pool) = Some (hdr_name_root h)" "stored (pl_chain pool) k h" "length (hdr_name_root h) = 32"
    by (rule safe_root_stored [OF cf ok])
  let ?hash = "sha3 (cf_hash cf) name"
  define req where "req = \<lparr>nr_name = name, nr_hash = ?hash, nr_root = hdr_name_root h, nr_arg = arg, nr_time = pl_clock pool\<rparr>"
  have req: "nr_name req = name" "nr_arg req = arg" "nr_root req = hdr_name_root h" by (simp_all add: req_def)
  obtain r rs where pick: "hsk_pool_pick_prover pool ?hash = Some (r, pool\<lparr>pl_rand := rs\<rparr>)" "\<And>p. r = Some p \<Longrightarrow> p \<in> set (pl_list pool)"
    by (rule pick_prover_returns [OF pool_okD(1) [OF ok], of ?hash]) blast
  let ?a = "pool\<lparr>pl_rand := rs\<rparr>"
  note a = rand_same [OF ok, of rs]
  show ?thesis
  proof (cases r)
    case None
    then have "hsk_pool_resolve cf name arg pool = Some (HSK_SUCCESS, ?a\<lparr>pl_pending := req # pl_pending ?a, pl_pending_count := pl_pending_count ?a + 1\<rparr>)"
      using synced h pick by (simp add: hsk_pool_resolve_def req_def)
    then show ?thesis using that synced a req pending_same [OF a(1), where req = req and n = "pl_pending_count ?a + 1"] by simp
  next
    case (Some p)
    have p: "p \<in> set (pl_list ?a)" using pick(2) Some by simp
    then obtain peer where peer: "pl_heap ?a p = Some peer" using links_heap [OF pool_okD(1) [OF a(1)]] by blast
    define req' where "req' = (case tbl_get (pe_names peer) ?hash of Some (head # _) \<Rightarrow> req\<lparr>nr_time := nr_time head\<rparr> | _ \<Rightarrow> req)"
    have req': "nr_arg req' = arg" "nr_name req' = name" "nr_root req' = hdr_name_root h"
      by (simp_all add: req'_def req split: option.split list.split)
    let ?b = "with_req p ?hash req' (reqs_at peer ?hash) ?a"
    note b = with_req_ok [OF a(1) p peer, of ?hash req']
    have bt: "truth_ok cf ?b" if "truth_ok cf pool"
      using with_req_truth [OF a(1) _ peer, of req' ?hash] that a(4) req' h(2) by (auto simp: rooted_def)
    have ans: "answered ?b = answered pool" using a(3) by (simp add: with_req_def answered_def)
    show ?thesis
    proof (cases "\<exists>head reqs. tbl_get (pe_names peer) ?hash = Some (head # reqs)")
      case True
      then obtain head reqs where hr: "tbl_get (pe_names peer) ?hash = Some (head # reqs)" by blast
      have e: "req' = req\<lparr>nr_time := nr_time head\<rparr>" "reqs_at peer ?hash = head # reqs" using hr by (simp_all add: req'_def reqs_at_def)
      have "hsk_pool_resolve cf name arg pool = Some (HSK_SUCCESS, ?b)"
        using synced h pick Some peer hr unfolding e with_req_def by (simp add: hsk_pool_resolve_def req_def Let_def)
      then show ?thesis using that b bt ans a(2) req'(1) synced by simp
    next
      case False
      have "tbl_get (pe_names peer) ?hash = None \<or> tbl_get (pe_names peer) ?hash = Some []"
        using False by (metis list.exhaust option.exhaust)
      then have e: "req' = req" "reqs_at peer ?hash = []" by (auto simp: req'_def reqs_at_def)
      have bb: "pl_heap ?b p \<noteq> None" using peer by (simp add: with_req_def set_peer_heap)
      obtain rc pool' where s: "hsk_peer_send_getproof cf p ?hash (hdr_name_root h) ?b = Some (rc, pool')" "steps cf p ?b pool'"
        using send_plain_steps(6) [OF b(1) bb] by blast
      have "hsk_pool_resolve cf name arg pool = hsk_peer_send_getproof cf p ?hash (hdr_name_root h) ?b"
        using synced h pick Some peer False unfolding e with_req_def
        by (auto simp: hsk_pool_resolve_def req_def Let_def split: option.split list.split)
      then have "hsk_pool_resolve cf name arg pool = Some (rc, pool')" using s(1) by simp
      moreover have "pool_ok cf pool'" "waiting pool' + answered pool' = waiting ?b + answered ?b" using s(2) by (simp_all add: steps_def evolves_def)
      moreover have "truth_ok cf pool'" if "truth_ok cf pool" using steps_truth [OF bt [OF that] s(2)] .
      ultimately show ?thesis using that b ans a(2) req'(1) synced by (auto simp: ac_simps)
    qed
  qed
qed

section \<open>Proofs\<close>

lemma proof_truth:
  assumes cf: "conf_ok cf" and ok: "pool_ok cf pool" and t: "truth_ok cf pool" and p: "pl_heap pool p = Some peer"
    and r: "tbl_get (pe_names peer) key = Some (req # reqs)" "memcmp r (nr_root req) = 0" "length r = 32" and pf: "proof_ok pf"
    and v: "hsk_proof_verify (cf_hash cf) r key pf = Some (Inr (ex, d))"
  shows "truth_ok cf (proof_answer p key pool (req # reqs) ex d)"
proof -
  let ?b = "proof_answer p key pool (req # reqs) ex d"
  have R: "reqs_ok cf pool" using t by (simp add: truth_ok_def)
  have chain: "pl_chain ?b = pl_chain pool" by (simp add: proof_answer_def report_def)
  obtain k h where h: "stored (pl_chain pool) k h" "nr_root req = hdr_name_root h"
    using reqs_okD [OF R p r(1), of req] by (auto simp: rooted_def)
  have "tree_ok (cf_hash cf) (cf_net cf) (pl_chain pool)"
    using reach_facts [of "cf_net cf" "cf_hash cf" "pl_chain pool"] cf pool_okD(3) [OF ok] by (simp add: conf_ok_def parts_ok_def)
  then have "length (hdr_name_root h) = 32" using tree_okD(1) h(1) by (auto simp: ok_header_def header_ok_def)
  then have r': "r = hdr_name_root h" using r(2,3) h(2) by (simp add: memcmp_eq_0)
  have new: "truthful cf (pl_chain pool) (answer_of ex d q)" if "q \<in> set (req # reqs)" for q
  proof -
    have "sha3 (cf_hash cf) (nr_name q) = key" using reqs_okD [OF R p r(1) that] by simp
    then show ?thesis using v h(1) pf r' by (auto simp: answer_of_def)
  qed
  have "reqs_ok cf ?b" unfolding reqs_ok_def
  proof (intro allI impI)
    fix q peer' k' rs req'
    assume b: "pl_heap ?b q = Some peer'" "tbl_get (pe_names peer') k' = Some rs" "req' \<in> set rs"
    have "\<exists>peer0. pl_heap pool q = Some peer0 \<and> tbl_get (pe_names peer0) k' = Some rs"
    proof (cases "q = p")
      case True
      then have "pe_names peer' = tbl_del (pe_names peer) key" using b(1) p by (auto simp: proof_answer_def report_def set_peer_heap)
      then show ?thesis using b(2) p True by (simp split: if_splits)
    qed (use b in \<open>simp add: proof_answer_def report_def set_peer_heap\<close>)
    then show "sha3 (cf_hash cf) (nr_name req') = k' \<and> rooted (pl_chain ?b) req'" using reqs_okD [OF R] b(3) chain by metis
  qed
  moreover have "\<forall>e\<in>set (successes ?b). truthful cf (pl_chain ?b) e"
    using t new unfolding proof_answer_evolves(2) [OF ok p r(1)] chain by (auto simp: truth_ok_def)
  ultimately show ?thesis by (simp add: truth_ok_def)
qed

text \<open>Handling any message that is well formed returns, loses no request and answers the truth.\<close>

lemma handle_msg_truth:
  assumes cf: "conf_ok cf" and ok: "pool_ok cf pool" and t: "truth_ok cf pool" and p: "pl_heap pool p \<noteq> None" and m: "good_msg cf pool m"
    and h: "hsk_peer_handle_msg cf p pool m = Some (rc, pool')"
  shows "truth_ok cf pool'"
proof (cases "\<exists>r key pf. m = Proof_msg r key pf")
  case True
  then obtain r key pf where pf: "m = Proof_msg r key pf" by blast
  obtain peer where peer: "pl_heap pool p = Some peer" using p by blast
  have pok: "proof_ok pf" "length r = 32" using m pf by simp_all
  show ?thesis
  proof (cases rule: handle_proof_cases [OF cf ok peer pok(1), where r = r and key = key, case_names refused accepted])
    case (refused rc)
    then show ?thesis using h pf t by simp
  next
    case (accepted req reqs ex d)
    then show ?thesis using h pf proof_truth [OF cf ok t peer accepted(2,3) pok(2,1) accepted(4)] by simp
  qed
next
  case False
  then have "handled cf p pool (hsk_peer_handle_msg cf p pool m)" by (intro handle_other_steps [OF cf ok p m]) blast
  then show ?thesis using h steps_truth [OF t] by (auto elim: handledE)
qed

end
