(* ===== verification/Pool_Run.thy ===== *)
theory Pool_Run
  imports Pool_Ask
begin

text \<open>
  The timer of \<^verbatim>\<open>pool.c\<close>, new peers and the calls of libuv: they return, and they keep the invariant,
  the requests and the truth of answers.
\<close>

section \<open>What is kept of the whole pool\<close>

definition keeps :: "'k conf \<Rightarrow> hsk_pool \<Rightarrow> hsk_pool \<Rightarrow> bool" where
  "keeps cf a b \<longleftrightarrow> pool_ok cf b \<and> waiting b + answered b = waiting a + answered a \<and> (truth_ok cf a \<longrightarrow> truth_ok cf b)"

lemma keeps_refl: "pool_ok cf a \<Longrightarrow> keeps cf a a"
  by (simp add: keeps_def)

lemma keeps_trans: "keeps cf a b \<Longrightarrow> keeps cf b c \<Longrightarrow> keeps cf a c"
  by (simp add: keeps_def)

lemma steps_keeps: "steps cf p a b \<Longrightarrow> keeps cf a b"
  using steps_truth by (auto simp: keeps_def steps_def evolves_def)

lemma keepsD: "keeps cf a b \<Longrightarrow> pool_ok cf b"
  by (simp add: keeps_def)

lemma rest_keeps:
  assumes "pool_ok cf a" and "parts_ok cf b" and "pl_list b = pl_list a" "pl_size b = pl_size a" "pl_peers b = pl_peers a" "pl_heap b = pl_heap a"
    "pl_next b = pl_next a" "pl_pending b = pl_pending a" "pl_out b = pl_out a" "pl_chain b = pl_chain a"
  shows "keeps cf a b"
proof -
  have "pool_ok cf b" using assms unfolding pool_ok_def links_ok_def heap_ok_def by simp
  moreover have "peer_args b q = peer_args a q" for q using assms(6) by (simp add: peer_args_def)
  ultimately show ?thesis using assms by (simp add: keeps_def waiting_def answered_def truth_ok_def reqs_ok_def successes_def)
qed

section \<open>New peers\<close>

lemma joined_truth:
  assumes "pl_heap b = (pl_heap a)(p \<mapsto> peer)" "pe_names peer = []" "pl_out b = pl_out a" "pl_chain b = pl_chain a" "truth_ok cf a"
  shows "truth_ok cf b"
  using assms by (auto simp: truth_ok_def reqs_ok_def successes_def tbl_get_def split: if_splits)

text \<open>A peer that has just been allocated is put on the list, or closed before it gets there.\<close>

lemma fresh_none: "heap_ok a \<Longrightarrow> pl_heap a (pl_next a) = None"
  using heap_peer by (metis less_irrefl not_Some_eq)

lemma fresh_unlisted: "links_ok a \<Longrightarrow> heap_ok a \<Longrightarrow> pl_next a \<notin> set (pl_list a)"
  using links_heap fresh_none by blast

lemma joined_keeps:
  assumes ok: "pool_ok cf a" and "parts_ok cf b" and b: "pl_next b = pl_next a + 1" "pl_heap b = (pl_heap a)(pl_next a \<mapsto> peer)"
    "pl_pending b = pl_pending a" "pl_out b = pl_out a" "pl_chain b = pl_chain a"
    "pl_list b = pl_list a @ [pl_next a]" "pl_size b = pl_size a + 1" "pl_peers b = AList.update (addr_id (pe_addr peer)) (pl_next a) (pl_peers a)"
    and peer: "peer_ok peer" "pe_names peer = []" "open_state (pe_state peer)" "\<not> tbl_has (pl_peers a) (addr_id (pe_addr peer))"
  shows "keeps cf a b"
proof -
  let ?p = "pl_next a"
  note L = pool_okD(1) [OF ok] and H = pool_okD(2) [OF ok]
  note new = fresh_none [OF H] fresh_unlisted [OF L H]
  have "links_ok b"
  proof (rule links_okI)
    show "distinct (pl_list b)" "pl_size b = int (length (pl_list b))" "tbl_ok (pl_peers b)"
      using L new(2) b by (simp_all add: links_ok_def)
    show "\<exists>x. pl_heap b q = Some x \<and> open_state (pe_state x) \<and> tbl_get (pl_peers b) (addr_id (pe_addr x)) = Some q" if q: "q \<in> set (pl_list b)" for q
    proof (cases "q = ?p")
      case True
      then show ?thesis using b peer(3) by (simp add: tbl_get_def update_conv)
    next
      case False
      then have "q \<in> set (pl_list a)" using q b by simp
      then obtain x where x: "pl_heap a q = Some x" "open_state (pe_state x)" "tbl_get (pl_peers a) (addr_id (pe_addr x)) = Some q"
        by (rule links_listed [OF L])
      then have "addr_id (pe_addr x) \<noteq> addr_id (pe_addr peer)" using peer(4) by (auto simp: tbl_has_def)
      then show ?thesis using x b False by (simp add: tbl_get_def update_conv)
    qed
    show "q \<in> set (pl_list b) \<and> map_option (addr_id \<circ> pe_addr) (pl_heap b q) = Some k" if g: "tbl_get (pl_peers b) k = Some q" for k q
    proof (cases "k = addr_id (pe_addr peer)")
      case True
      then show ?thesis using g b by (simp add: tbl_get_def update_conv)
    next
      case False
      then have "tbl_get (pl_peers a) k = Some q" using g b by (simp add: tbl_get_def update_conv)
      then have "q \<in> set (pl_list a) \<and> map_option (addr_id \<circ> pe_addr) (pl_heap a q) = Some k" by (rule links_map [OF L])
      then show ?thesis using b new(2) by auto
    qed
  qed
  moreover have "heap_ok b" unfolding heap_ok_def
  proof (intro allI impI)
    fix q x
    assume "pl_heap b q = Some x"
    then show "q < pl_next b \<and> peer_ok x \<and> (q \<notin> set (pl_list b) \<longrightarrow> pe_names x = [] \<and> pe_state x = HSK_STATE_DISCONNECTING)"
      using heap_peer [OF H, of q x] b peer(1) by (auto split: if_splits)
  qed
  moreover have "waiting b = waiting a"
  proof -
    have "(\<Sum>q\<in>set (pl_list b). peer_args b q) = peer_args b ?p + (\<Sum>q\<in>set (pl_list a). peer_args b q)" using b(6) new(2) by simp
    moreover have "peer_args b ?p = {#}" using b peer(2) by (simp add: peer_args_def peer_reqs_def)
    moreover have "(\<Sum>q\<in>set (pl_list a). peer_args b q) = (\<Sum>q\<in>set (pl_list a). peer_args a q)"
      using new(2) b(2) by (intro sum.cong) (auto simp: peer_args_def)
    ultimately show ?thesis using b(3) by (simp add: waiting_def)
  qed
  ultimately show ?thesis
    using assms(2) joined_truth [OF b(2) peer(2) b(4,5)] b(4) by (auto simp: keeps_def answered_def intro: pool_okI)
qed

lemma given_up_keeps:
  assumes ok: "pool_ok cf a" and "parts_ok cf b" and b: "pl_next b = pl_next a + 1" "pl_heap b = (pl_heap a)(pl_next a \<mapsto> peer)"
    "pl_pending b = pl_pending a" "pl_out b = pl_out a" "pl_chain b = pl_chain a" "pl_list b = pl_list a" "pl_size b = pl_size a" "pl_peers b = pl_peers a"
    and peer: "peer_ok peer" "pe_names peer = []" "pe_state peer = HSK_STATE_DISCONNECTING"
  shows "keeps cf a b"
proof -
  let ?p = "pl_next a"
  note L = pool_okD(1) [OF ok] and H = pool_okD(2) [OF ok]
  note new = fresh_none [OF H] fresh_unlisted [OF L H]
  have others: "pl_heap b q = pl_heap a q" if "q \<in> set (pl_list a)" for q using that new(2) b(2) by auto
  have "links_ok b"
  proof (rule links_okI)
    show "distinct (pl_list b)" "pl_size b = int (length (pl_list b))" "tbl_ok (pl_peers b)" using L b by (simp_all add: links_ok_def)
    show "\<exists>x. pl_heap b q = Some x \<and> open_state (pe_state x) \<and> tbl_get (pl_peers b) (addr_id (pe_addr x)) = Some q" if "q \<in> set (pl_list b)" for q
      using that b others [of q] links_listed [OF L, of q] by metis
    show "q \<in> set (pl_list b) \<and> map_option (addr_id \<circ> pe_addr) (pl_heap b q) = Some k" if "tbl_get (pl_peers b) k = Some q" for k q
      using that b others [of q] links_map [OF L, of k q] by metis
  qed
  moreover have "heap_ok b" unfolding heap_ok_def
  proof (intro allI impI)
    fix q x
    assume "pl_heap b q = Some x"
    then show "q < pl_next b \<and> peer_ok x \<and> (q \<notin> set (pl_list b) \<longrightarrow> pe_names x = [] \<and> pe_state x = HSK_STATE_DISCONNECTING)"
      using heap_peer [OF H, of q x] b peer by (auto split: if_splits)
  qed
  moreover have "waiting b = waiting a"
    using b others by (auto simp: waiting_def peer_args_def intro!: sum.cong)
  ultimately show ?thesis
    using assms(2) joined_truth [OF b(2) peer(2) b(4,5)] b(4) by (auto simp: keeps_def answered_def intro: pool_okI)
qed

section \<open>Opening\<close>

lemma pick_loop_td: "pick_loop N rnd clock peers i n am rs = Some (r, am', rs') \<Longrightarrow> am_td am' = am_td am"
proof (induction n arbitrary: i am rs)
  case (Suc n)
  note IH = Suc.IH
  obtain found rs1 where s: "hsk_addrman_search rnd clock am rs = Some (found, rs1)" using Suc.prems by (cases "hsk_addrman_search rnd clock am rs") auto
  show ?case
  proof (cases found)
    case None
    then show ?thesis using Suc.prems s by simp
  next
    case (Some j)
    have n1: "pick_loop N rnd clock peers (i + 1) n am rs1 = Some (r, am', rs') \<Longrightarrow> am_td am' = am_td am" by (rule IH)
    have n2: "pick_loop N rnd clock peers (i + 1) n (snd (hsk_addrman_is_banned clock am addr)) rs1 = Some (r, am', rs') \<Longrightarrow> am_td am' = am_td am" for addr
      using IH by fastforce
    show ?thesis
      using Suc.prems s Some n1 n2 by (auto simp: Let_def split: if_splits prod.splits) (metis snd_conv is_banned_frame(2))+
  qed
qed simp

lemma getaddr_returns:
  assumes cf: "conf_ok cf" and ok: "pool_ok cf pool"
  obtains r am rs where "hsk_pool_getaddr cf pool = Some (r, pool\<lparr>pl_am := am, pl_rand := rs\<rparr>)" "addrman_ok am" "am_td am = am_td (pl_am pool)"
    "\<And>addr. r = Some addr \<Longrightarrow> \<not> tbl_has (pl_peers pool) (addr_id addr)"
proof -
  have "rounding (cf_round cf)" "addrman_ok (pl_am pool)" using cf pool_okD(3) [OF ok] by (simp_all add: conf_ok_def parts_ok_def)
  from pick_loop_returns [OF this, of "cf_net cf" "pl_clock pool" "pl_peers pool" 0 100 "pl_rand pool"] obtain r am rs where
    p: "pick_loop (cf_net cf) (cf_round cf) (pl_clock pool) (pl_peers pool) 0 100 (pl_am pool) (pl_rand pool) = Some (r, am, rs)"
      "addrman_ok am" "am_addrs am = am_addrs (pl_am pool)" and u: "\<forall>j. r = Some j \<longrightarrow> usable (pl_peers pool) (am_addrs (pl_am pool) ! j)"
    by blast
  show ?thesis
    by (rule that [OF _ p(2) pick_loop_td [OF p(1)]])
      (use p u in \<open>auto simp: hsk_pool_getaddr_def hsk_addrman_pick_addr_def hsk_addrman_pick_def usable_def split: option.splits\<close>)
qed

lemma brontide_connect_some:
  "\<exists>b'. hsk_brontide_connect ec b key their = Some (HSK_SUCCESS, b') \<and> br_send_cipher b' = br_send_cipher b"
  by (simp add: hsk_brontide_connect_def hsk_brontide_init_brontide_def hsk_brontide_init_state_def hsk_brontide_init_sym_def hsk_brontide_mix_hash_def Let_def)

lemma open_returns:
  assumes p: "pl_heap pool p = Some peer" "pe_state peer = HSK_STATE_DISCONNECTED" "peer_ok peer" and k: "pl_key pool \<noteq> None"
  obtains rc peer' us where "hsk_peer_open cf p addr pool = Some (rc, pool\<lparr>pl_heap := (pl_heap pool)(p \<mapsto> peer'), pl_uv := us\<rparr>)"
    "pe_state peer' = HSK_STATE_CONNECTING" "pe_names peer' = pe_names peer" "peer_ok peer'" "rc = HSK_SUCCESS \<Longrightarrow> pe_addr peer' = addr"
proof -
  obtain key where key: "pl_key pool = Some key" using k by blast
  let ?u = "pl_uv pool"
  let ?c = "peer\<lparr>pe_state := HSK_STATE_CONNECTING\<rparr>"
  have sa: "\<exists>x. hsk_addr_to_sa addr = Some x" by (simp add: hsk_addr_to_sa_def hsk_addr_get_af_def)
  note d = hsk_peer_open_def uv_call_def set_peer_def set_brontide_def
  consider "\<not> shd ?u" | "shd ?u" "\<not> shd (stl ?u)" | "shd ?u" "shd (stl ?u)" "pe_brontide peer = None"
    | b where "shd ?u" "shd (stl ?u)" "pe_brontide peer = Some b" by (cases "pe_brontide peer") auto
  then show ?thesis
  proof cases
    case 1
    show ?thesis by (rule that [of HSK_EFAILURE "stl ?u" ?c]) (use 1 p in \<open>simp_all add: d peer_ok_def\<close>)
  next
    case 2
    show ?thesis by (rule that [of HSK_EBADARGS "stl (stl ?u)" "?c\<lparr>pe_addr := addr\<rparr>"]) (use 2 p in \<open>simp_all add: d peer_ok_def\<close>)
  next
    case 3
    show ?thesis
      by (rule that [of "if shd (stl (stl ?u)) then HSK_SUCCESS else HSK_EFAILURE" "stl (stl (stl ?u))" "?c\<lparr>pe_addr := addr\<rparr>"])
        (use 3 p sa in \<open>auto simp: d peer_ok_def\<close>)
  next
    case (4 b)
    obtain b' where b': "hsk_brontide_connect (cf_ec cf) b key (ad_key addr) = Some (HSK_SUCCESS, b')" "br_send_cipher b' = br_send_cipher b"
      using brontide_connect_some by blast
    show ?thesis
      by (rule that [of "if shd (stl (stl ?u)) then HSK_SUCCESS else HSK_EFAILURE" "stl (stl (stl ?u))" "?c\<lparr>pe_addr := addr, pe_brontide := Some b'\<rparr>"])
        (use 4 p sa key b' in \<open>auto simp: d peer_ok_def\<close>)
  qed
qed

lemma init_peer_ok: "peer_ok (hsk_peer_init pool e)" "pe_names (hsk_peer_init pool e) = []" "pe_state (hsk_peer_init pool e) = HSK_STATE_DISCONNECTED"
  by (simp_all add: hsk_peer_init_def peer_ok_def tbl_ok_def hsk_brontide_init_def)

text \<open>Filling up with new peers.\<close>

lemma refill_keeps:
  assumes cf: "conf_ok cf" and ok: "pool_ok cf pool"
  obtains rc pool' where "hsk_pool_refill cf pool = Some (rc, pool')" "keeps cf pool pool'" "\<And>q. pl_heap pool q \<noteq> None \<Longrightarrow> pl_heap pool' q = pl_heap pool q"
    "set (pl_list pool') \<subseteq> insert (pl_next pool) (set (pl_list pool))" "pl_clock pool' = pl_clock pool" "pl_out pool' = pl_out pool" "set (pl_list pool) \<subseteq> set (pl_list pool')"
proof (cases "pl_size pool < pl_max_size pool")
  case False
  then show ?thesis using that [of HSK_SUCCESS pool] keeps_refl [OF ok] by (auto simp: hsk_pool_refill_def)
next
  case small: True
  obtain r am rs where g: "hsk_pool_getaddr cf pool = Some (r, pool\<lparr>pl_am := am, pl_rand := rs\<rparr>)" "addrman_ok am" "am_td am = am_td (pl_am pool)"
    and free: "\<And>addr. r = Some addr \<Longrightarrow> \<not> tbl_has (pl_peers pool) (addr_id addr)"
    by (rule getaddr_returns [OF cf ok]) blast
  have parts: "addrman_ok am' \<Longrightarrow> am_td am' = am_td am \<Longrightarrow> pl_am b = am' \<Longrightarrow> pl_chain b = pl_chain pool \<Longrightarrow> pl_key b = pl_key pool \<Longrightarrow> parts_ok cf b" for am' b
    using pool_okD(3) [OF ok] g(3) by (simp add: parts_ok_def pool_td_def)
  have new: "pl_heap pool (pl_next pool) = None" using fresh_none pool_okD(2) [OF ok] by blast
  show ?thesis
  proof (cases r)
    case None
    have "keeps cf pool (pool\<lparr>pl_am := am, pl_rand := rs\<rparr>)" by (rule rest_keeps [OF ok]) (use parts g in simp_all)
    then show ?thesis using that [of HSK_SUCCESS "pool\<lparr>pl_am := am, pl_rand := rs\<rparr>"] g None small by (auto simp: hsk_pool_refill_def)
  next
    case (Some addr)
    show ?thesis
    proof (cases "hsk_addr_has_key addr \<and> \<not> hsk_ec_verify_pubkey (cf_ec cf) (ad_key addr)")
      case True
      let ?b = "pool\<lparr>pl_am := snd (hsk_addrman_remove_addr am addr), pl_rand := rs\<rparr>"
      have "keeps cf pool ?b" by (rule rest_keeps [OF ok parts [OF marks_ok(1) [OF g(2)] marks_td(1)]]) simp_all
      then show ?thesis using that [of HSK_SUCCESS ?b] g Some True small by (auto simp: hsk_pool_refill_def)
    next
      case False
      define am2 where "am2 = snd (hsk_addrman_mark_attempt (pl_clock pool) am addr)"
      have am2: "addrman_ok am2" "am_td am2 = am_td am" using marks_ok g(2) by (simp_all add: am2_def)
      let ?p = "pl_next pool"
      define a where "a = (snd (hsk_peer_alloc (pool\<lparr>pl_am := am, pl_rand := rs\<rparr>) (hsk_addr_has_key addr)))\<lparr>pl_am := am2\<rparr>"
      have "pl_heap a ?p = Some (hsk_peer_init (pool\<lparr>pl_am := am, pl_rand := rs\<rparr>) (hsk_addr_has_key addr))" "pl_key a \<noteq> None"
        using pool_okD(3) [OF ok] by (simp_all add: a_def hsk_peer_alloc_def parts_ok_def)
      then obtain rc peer us where o: "hsk_peer_open cf ?p addr a = Some (rc, a\<lparr>pl_heap := (pl_heap a)(?p \<mapsto> peer), pl_uv := us\<rparr>)"
        "pe_state peer = HSK_STATE_CONNECTING" "pe_names peer = []" "peer_ok peer" "rc = HSK_SUCCESS \<Longrightarrow> pe_addr peer = addr"
        using open_returns [of a ?p _ cf addr, OF _ init_peer_ok(3,1)] init_peer_ok(2) by metis
      define b where "b = a\<lparr>pl_heap := (pl_heap a)(?p \<mapsto> peer), pl_uv := us\<rparr>"
      have b: "pl_heap b = (pl_heap pool)(?p \<mapsto> peer)" "pl_list b = pl_list pool" "pl_next b = ?p + 1" "pl_size b = pl_size pool" "pl_peers b = pl_peers pool"
        "pl_pending b = pl_pending pool" "pl_out b = pl_out pool" "pl_chain b = pl_chain pool" "pl_am b = am2" "pl_key b = pl_key pool" "pl_clock b = pl_clock pool"
        by (simp_all add: b_def a_def hsk_peer_alloc_def)
      have unl: "?p \<notin> set (pl_list pool)" using fresh_unlisted pool_okD [OF ok] by blast
      have ref: "hsk_pool_refill cf pool = (if rc \<noteq> HSK_SUCCESS then do { (_, x) \<leftarrow> hsk_peer_destroy ?p b; Some (rc, x) }
          else do { x \<leftarrow> hsk_peer_push ?p b; Some (HSK_SUCCESS, x) })"
        using small g(1) Some False o(1) unfolding b_def
        by (auto simp: hsk_pool_refill_def hsk_peer_alloc_def am2_def a_def Let_def)
      show ?thesis
      proof (cases "rc = HSK_SUCCESS")
        case True
        define c where "c = b\<lparr>pl_list := pl_list b @ [?p], pl_size := pl_size b + 1, pl_peers := AList.update (addr_id (pe_addr peer)) ?p (pl_peers b)\<rparr>"
        have free': "\<not> tbl_has (pl_peers pool) (addr_id (pe_addr peer))" using o(5) True free Some by simp
        then have "hsk_pool_refill cf pool = Some (HSK_SUCCESS, c)" using ref True b by (simp add: hsk_peer_push_def c_def)
        moreover have "keeps cf pool c"
          by (rule joined_keeps [OF ok parts [OF am2]]) (use b o free' in \<open>simp_all add: c_def open_state_def\<close>)
        moreover have "pl_heap c q = pl_heap pool q" if "pl_heap pool q \<noteq> None" for q using that b new by (auto simp: c_def)
        moreover have "set (pl_list c) \<subseteq> insert ?p (set (pl_list pool))" "pl_clock c = pl_clock pool" "pl_out c = pl_out pool" "set (pl_list pool) \<subseteq> set (pl_list c)" using b by (auto simp: c_def)
        ultimately show ?thesis by (rule that)
      next
        case False
        have bp: "pl_heap b ?p = Some peer" using b(1) by simp
        obtain c where c: "hsk_peer_destroy ?p b = Some (HSK_SUCCESS, c)" "pl_heap c = (pl_heap pool)(?p \<mapsto> peer\<lparr>pe_state := HSK_STATE_DISCONNECTING, pe_names := []\<rparr>)"
          "c = b\<lparr>pl_heap := (pl_heap pool)(?p \<mapsto> peer\<lparr>pe_state := HSK_STATE_DISCONNECTING, pe_names := []\<rparr>)\<rparr>"
          using bp b o(2,3) unl
          by (simp add: hsk_peer_destroy_def hsk_peer_close_def hsk_peer_timeout_reqs_def hsk_peer_remove_def set_peer_def report_def peer_reqs_def fun_upd_def cong: if_cong)
        then have "hsk_pool_refill cf pool = Some (rc, c)" using ref False by simp
        moreover have "keeps cf pool c"
          by (rule given_up_keeps [OF ok parts [OF am2], where peer = "peer\<lparr>pe_state := HSK_STATE_DISCONNECTING, pe_names := []\<rparr>"])
            (use b c o in \<open>simp_all add: peer_ok_def tbl_ok_def\<close>)
        moreover have "pl_heap c q = pl_heap pool q" if "pl_heap pool q \<noteq> None" for q using that c(2) new by auto
        moreover have "set (pl_list c) \<subseteq> insert ?p (set (pl_list pool))" "pl_clock c = pl_clock pool" "pl_out c = pl_out pool" "set (pl_list pool) \<subseteq> set (pl_list c)" using b c(3) by auto
        ultimately show ?thesis by (rule that)
      qed
    qed
  qed
qed

section \<open>The timer\<close>

definition later :: "'k conf \<Rightarrow> hsk_pool \<Rightarrow> hsk_pool \<Rightarrow> bool" where
  "later cf a b \<longleftrightarrow> keeps cf a b \<and> set (pl_list b) \<subseteq> set (pl_list a) \<and> (\<forall>q. pl_heap a q \<noteq> None \<longrightarrow> pl_heap b q \<noteq> None) \<and>
     pl_clock b = pl_clock a \<and> pl_pending b = pl_pending a \<and> (\<forall>q\<in>set (pl_list b). map_option pe_names (pl_heap b q) = map_option pe_names (pl_heap a q))"

lemma later_refl: "pool_ok cf a \<Longrightarrow> later cf a a"
  by (simp add: later_def keeps_refl)

lemma later_trans: "later cf a b \<Longrightarrow> later cf b c \<Longrightarrow> later cf a c"
  unfolding later_def using keeps_trans by (metis (no_types, lifting) subset_iff)

lemma steps_later: "steps cf p a b \<Longrightarrow> later cf a b"
  using steps_keeps unfolding later_def steps_def calm_def evolves_def by metis

lemma laterD: "later cf a b \<Longrightarrow> pool_ok cf b" "later cf a b \<Longrightarrow> pl_heap a q \<noteq> None \<Longrightarrow> pl_heap b q \<noteq> None"
  by (simp_all add: later_def keeps_def)

text \<open>Peers that left the list had all their requests called back.\<close>

lemma later_answered:
  assumes l: "later cf a b" and q: "q \<in> set (pl_list a)" "q \<notin> set (pl_list b)"
  shows "peer_args a q \<subseteq># answered b"
proof -
  let ?A = "set (pl_list a)" and ?B = "set (pl_list b)"
  have sub: "?B \<subseteq> ?A" using l by (simp add: later_def)
  have "peer_args b x = peer_args a x" if "x \<in> ?B" for x
  proof -
    have "map_option pe_names (pl_heap b x) = map_option pe_names (pl_heap a x)" using l that by (simp add: later_def)
    then show ?thesis by (cases "pl_heap a x"; cases "pl_heap b x") (auto simp: peer_args_def peer_reqs_def)
  qed
  then have "(\<Sum>x\<in>?A. peer_args a x) = (\<Sum>x\<in>?B. peer_args b x) + (\<Sum>x\<in>?A - ?B. peer_args a x)"
    using sum.subset_diff [OF sub, of "peer_args a"] by (simp add: add.commute)
  then have "waiting a = waiting b + (\<Sum>x\<in>?A - ?B. peer_args a x)" using l by (simp add: waiting_def later_def)
  then have "answered b = answered a + (\<Sum>x\<in>?A - ?B. peer_args a x)" using l by (simp add: later_def keeps_def)
  moreover have "peer_args a q \<subseteq># (\<Sum>x\<in>?A - ?B. peer_args a x)" using q sum.remove [of "?A - ?B" q "peer_args a"] by simp
  ultimately show ?thesis by (metis mset_subset_eq_add_right subset_mset.order_trans)
qed

text \<open>No request of the peer is overdue.\<close>

definition in_time :: "hsk_pool \<Rightarrow> nat \<Rightarrow> bool" where
  "in_time pool q \<longleftrightarrow> (\<forall>peer. pl_heap pool q = Some peer \<longrightarrow> hsk_peer_is_overdue pool peer = Some False)"

lemma in_time_later:
  assumes "later cf a b" and "q \<in> set (pl_list b)" and "in_time a q"
  shows "in_time b q"
proof -
  have "pl_clock b = pl_clock a" "map_option pe_names (pl_heap b q) = map_option pe_names (pl_heap a q)" using assms(1,2) by (simp_all add: later_def)
  moreover have "hsk_peer_is_overdue b y = hsk_peer_is_overdue a x" if "pl_clock b = pl_clock a" "pe_names y = pe_names x" for x y
    using that by (simp add: hsk_peer_is_overdue_def)
  ultimately show ?thesis using assms(3) unfolding in_time_def by (cases "pl_heap a q"; cases "pl_heap b q") (simp, simp, simp, metis option.inject option.map(2))
qed

lemma timer_ping_steps:
  assumes ok: "pool_ok cf pool" and p: "pl_heap pool p \<noteq> None"
  shows "\<exists>pool'. timer_ping cf p peer pool = Some pool' \<and> steps cf p pool pool'"
proof -
  let ?a = "set_peer p (\<lambda>peer. peer\<lparr>pe_ping_timer := pl_clock pool\<rparr>) pool"
  have a: "steps cf p pool ?a" using ok by (rule set_peer_steps) (simp add: mild_def)
  let ?n = "snd (hsk_nonce ?a)"
  have n: "steps cf p ?a ?n" by (rule nonce_steps [OF stepsD(1) [OF a]])
  let ?c = "set_peer p (\<lambda>peer. peer\<lparr>pe_challenge := fst (hsk_nonce ?a), pe_last_ping := pl_clock pool\<rparr>) ?n"
  have c: "steps cf p ?n ?c" using stepsD(1) [OF n] by (rule set_peer_steps) (simp add: mild_def)
  have ac: "steps cf p pool ?c" using a n c steps_trans by blast
  obtain rc d where d: "hsk_peer_send_ping cf p (fst (hsk_nonce ?a)) ?c = Some (rc, d)" "steps cf p ?c d"
    using send_plain_steps(2) [OF stepsD(1) [OF ac] steps_heap [OF ac p]] by blast
  have "steps cf p pool d" using ac d(2) steps_trans by blast
  then show ?thesis using a d(1) steps_refl [OF ok] by (simp add: timer_ping_def Let_def split_beta)
qed

lemma destroy_off:
  assumes ok: "pool_ok cf pool" and p: "pl_heap pool p \<noteq> None"
  shows "\<exists>pool'. do { (_, x) \<leftarrow> hsk_peer_destroy p pool; Some x } = Some pool' \<and> steps cf p pool pool' \<and> p \<notin> set (pl_list pool')"
  using destroy_steps [OF ok p] by (metis (no_types, lifting) bind.bind_lunit case_prod_conv)

lemma timer_peer_steps:
  assumes ok: "pool_ok cf pool" and p: "pl_heap pool p = Some peer"
  shows "\<exists>pool'. timer_peer cf p pool = Some pool' \<and> steps cf p pool pool' \<and>
    (pe_state peer = HSK_STATE_HANDSHAKE \<longrightarrow> p \<in> set (pl_list pool') \<longrightarrow> in_time pool' p)"
proof (cases "pe_state peer = HSK_STATE_HANDSHAKE \<and> \<not> is_stalling (pl_clock pool) peer")
  case False
  have "pl_heap pool p \<noteq> None" using p by simp
  from destroy_off [OF ok this] show ?thesis using False p steps_refl [OF ok] by (auto simp: timer_peer_def Let_def)
next
  case True
  obtain a where a: "timer_ping cf p peer pool = Some a" "steps cf p pool a" using timer_ping_steps [OF ok] p by blast
  obtain peer' where peer': "pl_heap a p = Some peer'" using steps_heap [OF a(2), of p] p by auto
  then have ha: "pl_heap a p \<noteq> None" by simp
  have "peer_ok peer'" using heap_peer [OF pool_okD(2) [OF stepsD(1) [OF a(2)]] peer'] by simp
  then obtain overdue where o: "hsk_peer_is_overdue a peer' = Some overdue" by (simp add: peer_ok_def hsk_peer_is_overdue_def)
  obtain b where b: "do { (_, x) \<leftarrow> hsk_peer_destroy p a; Some x } = Some b" "steps cf p a b" "p \<notin> set (pl_list b)"
    using destroy_off [OF stepsD(1) [OF a(2)] ha] by blast
  have ab: "steps cf p pool b" using a(2) b(2) steps_trans by blast
  have "timer_peer cf p pool = Some b \<or> timer_peer cf p pool = Some a \<and> \<not> overdue"
    using True p a(1) peer' o b(1) unfolding timer_peer_def Let_def by (auto simp: split_beta)
  then show ?thesis using a(2) ab b(3) o peer' by (auto simp: in_time_def)
qed

lemma timer_loop_later:
  assumes "pool_ok cf pool" and "\<forall>q\<in>set ps. pl_heap pool q \<noteq> None" and "distinct ps"
  shows "\<exists>pool'. timer_loop cf ps pool = Some pool' \<and> later cf pool pool' \<and>
    (\<forall>q peer. q \<in> set ps \<longrightarrow> pl_heap pool q = Some peer \<longrightarrow> pe_state peer = HSK_STATE_HANDSHAKE \<longrightarrow> q \<in> set (pl_list pool') \<longrightarrow> in_time pool' q)"
  using assms
proof (induction ps arbitrary: pool)
  case Nil
  then show ?case using later_refl by simp
next
  case (Cons p ps)
  obtain peer where peer: "pl_heap pool p = Some peer" using Cons.prems(2) by auto
  obtain a where a: "timer_peer cf p pool = Some a" "steps cf p pool a"
    "pe_state peer = HSK_STATE_HANDSHAKE \<longrightarrow> p \<in> set (pl_list a) \<longrightarrow> in_time a p"
    using timer_peer_steps [OF Cons.prems(1) peer] by blast
  have others: "pl_heap a q = pl_heap pool q" if "q \<in> set ps" for q
    using a(2) that Cons.prems(3) unfolding steps_def evolves_def by auto
  have hps: "\<forall>q\<in>set ps. pl_heap a q \<noteq> None" and dps: "distinct ps" using Cons.prems(2,3) others by simp_all
  obtain b where b: "timer_loop cf ps a = Some b" "later cf a b"
    "\<forall>q x. q \<in> set ps \<longrightarrow> pl_heap a q = Some x \<longrightarrow> pe_state x = HSK_STATE_HANDSHAKE \<longrightarrow> q \<in> set (pl_list b) \<longrightarrow> in_time b q"
    using Cons.IH [OF stepsD(1) [OF a(2)] hps dps] by blast
  have "later cf pool b" using steps_later [OF a(2)] b(2) later_trans by blast
  moreover have "in_time b q" if q: "q \<in> set (p # ps)" "pl_heap pool q = Some x" "pe_state x = HSK_STATE_HANDSHAKE" "q \<in> set (pl_list b)" for q x
  proof (cases "q = p")
    case True
    have "p \<in> set (pl_list a)" using q(4) True b(2) by (auto simp: later_def)
    then have "in_time a p" using a(3) peer q(2,3) True by simp
    then show ?thesis using in_time_later [OF b(2)] q(4) True by simp
  qed (use b(3) q others in auto)
  ultimately show ?case using a(1) b(1) by auto
qed

lemma getheaders_loop_later:
  assumes cf: "conf_ok cf"
  shows "pool_ok cf pool \<Longrightarrow> \<forall>q\<in>set ps. pl_heap pool q \<noteq> None \<Longrightarrow> \<exists>pool'. getheaders_loop cf ps pool = Some pool' \<and> later cf pool pool'"
proof (induction ps arbitrary: pool)
  case Nil
  then show ?case using later_refl by simp
next
  case (Cons p ps)
  obtain peer where peer: "pl_heap pool p = Some peer" using Cons.prems(2) by auto
  show ?case
  proof (cases "pe_state peer = HSK_STATE_HANDSHAKE")
    case False
    then show ?thesis using Cons peer by simp
  next
    case True
    obtain rc a where a: "hsk_peer_send_getheaders cf p None pool = Some (rc, a)" "steps cf p pool a"
      using send_getheaders_steps [OF cf Cons.prems(1), of p None] peer by auto
    have l: "later cf pool a" by (rule steps_later [OF a(2)])
    have "\<forall>q\<in>set ps. pl_heap a q \<noteq> None" using Cons.prems(2) laterD(2) [OF l] by (simp del: not_None_eq)
    then obtain b where b: "getheaders_loop cf ps a = Some b" "later cf a b" using Cons.IH [OF laterD(1) [OF l]] by blast
    then show ?thesis using a(1) l later_trans [OF l b(2)] True peer by (auto simp: Let_def)
  qed
qed

text \<open>
  The timer returns and keeps everything. A connected peer that stays has no request older than five
  seconds; one that goes had its requests called back.
\<close>

lemma timer_keeps:
  assumes cf: "conf_ok cf" and ok: "pool_ok cf pool"
  obtains pool' where "hsk_pool_timer cf pool = Some pool'" "keeps cf pool pool'"
    "\<And>q peer. pl_heap pool q = Some peer \<Longrightarrow> pe_state peer = HSK_STATE_HANDSHAKE \<Longrightarrow> q \<in> set (pl_list pool) \<Longrightarrow>
       q \<in> set (pl_list pool') \<and> in_time pool q \<or> q \<notin> set (pl_list pool') \<and> peer_args pool q \<subseteq># answered pool'"
proof -
  have L: "\<forall>q\<in>set (pl_list pool). pl_heap pool q \<noteq> None" "distinct (pl_list pool)"
    using links_heap [OF pool_okD(1) [OF ok]] pool_okD(1) [OF ok] by (blast, simp add: links_ok_def)
  obtain a where a: "timer_loop cf (pl_list pool) pool = Some a" "later cf pool a"
    and t: "\<And>q peer. q \<in> set (pl_list pool) \<Longrightarrow> pl_heap pool q = Some peer \<Longrightarrow> pe_state peer = HSK_STATE_HANDSHAKE \<Longrightarrow> q \<in> set (pl_list a) \<Longrightarrow> in_time a q"
    using timer_loop_later [OF ok L] by blast
  note ok_a = laterD(1) [OF a(2)]
  have sg: "\<exists>b. hsk_pool_send_getheaders cf a = Some b \<and> later cf a b"
  proof -
    obtain c where c: "getheaders_loop cf (pl_list a) a = Some c" "later cf a c"
      using getheaders_loop_later [OF cf ok_a, of "pl_list a"] links_heap [OF pool_okD(1) [OF ok_a]] by blast
    have "steps cf 0 c (c\<lparr>pl_getheaders_time := pl_clock c\<rparr>)"
      by (rule rest_steps [OF laterD(1) [OF c(2)]]) (use pool_okD(3) [OF laterD(1) [OF c(2)]] in \<open>simp_all add: parts_ok_def pool_td_def\<close>)
    then show ?thesis using c later_trans [OF c(2) steps_later] by (auto simp: hsk_pool_send_getheaders_def)
  qed
  have "\<exists>b. (if now then hsk_pool_send_getheaders cf a else Some a) = Some b \<and> later cf a b" for now
    using sg later_refl [OF ok_a] by (cases now) simp_all
  then obtain b where b: "(if pl_block_time a \<noteq> 0 \<and> pl_clock pool > pl_block_time a + 10 * 60 \<and>
      (pl_getheaders_time a = 0 \<or> pl_clock pool > pl_getheaders_time a + 5 * 60) then hsk_pool_send_getheaders cf a else Some a) = Some b" "later cf a b"
    by blast
  obtain rc c where c: "hsk_pool_refill cf b = Some (rc, c)" "keeps cf b c" "\<And>q. pl_heap b q \<noteq> None \<Longrightarrow> pl_heap c q = pl_heap b q"
    "set (pl_list c) \<subseteq> insert (pl_next b) (set (pl_list b))" "pl_clock c = pl_clock b" "pl_out c = pl_out b" "set (pl_list b) \<subseteq> set (pl_list c)"
    by (rule refill_keeps [OF cf laterD(1) [OF b(2)]]) blast
  have ab: "later cf pool b" using a(2) b(2) later_trans by blast
  show ?thesis
  proof (rule that)
    show "hsk_pool_timer cf pool = Some c" using a(1) b(1) c(1) by (simp add: hsk_pool_timer_def)
    show "keeps cf pool c" using ab c(2) keeps_trans unfolding later_def by blast
    fix q peer
    assume q: "pl_heap pool q = Some peer" "pe_state peer = HSK_STATE_HANDSHAKE" "q \<in> set (pl_list pool)"
    have hb: "pl_heap b q \<noteq> None" using laterD(2) [OF ab] q(1) by blast
    then have new: "q \<noteq> pl_next b" using fresh_none [OF pool_okD(2) [OF laterD(1) [OF b(2)]]] by auto
    have out: "answered c = answered b" using c(6) by (simp add: answered_def)
    show "q \<in> set (pl_list c) \<and> in_time pool q \<or> q \<notin> set (pl_list c) \<and> peer_args pool q \<subseteq># answered c"
    proof (cases "q \<in> set (pl_list b)")
      case True
      then have "q \<in> set (pl_list a)" using b(2) by (auto simp: later_def)
      then have "in_time b q" using t [OF q(3,1,2)] in_time_later [OF b(2) True] by blast
      moreover have "in_time b q \<Longrightarrow> in_time pool q"
      proof -
        have "map_option pe_names (pl_heap b q) = map_option pe_names (pl_heap pool q)" "pl_clock b = pl_clock pool" using ab True by (simp_all add: later_def)
        moreover have "hsk_peer_is_overdue pool y = hsk_peer_is_overdue b x" if "pl_clock b = pl_clock pool" "pe_names x = pe_names y" for x y
          using that by (simp add: hsk_peer_is_overdue_def)
        ultimately show "in_time b q \<Longrightarrow> in_time pool q" using hb q(1) unfolding in_time_def by (cases "pl_heap b q") (simp, metis option.inject option.map(2))
      qed
      ultimately show ?thesis using c(7) True by blast
    next
      case False
      then have "q \<notin> set (pl_list c)" using c(4) new by blast
      then show ?thesis using later_answered [OF ab q(3) False] out by simp
    qed
  qed
qed

section \<open>Connections\<close>

lemma version_some:
  assumes ok: "pool_ok cf pool" and p: "pl_heap pool p \<noteq> None" and e: "pl_heap pool p = Some peer" "open_state (pe_state peer)"
  shows "\<exists>pool'. do { (_, x) \<leftarrow> hsk_peer_send_version cf p (set_peer p (\<lambda>peer. peer\<lparr>pe_state := HSK_STATE_HANDSHAKE\<rparr>) pool); Some x } = Some pool' \<and>
    steps cf p pool pool'"
proof -
  let ?a = "set_peer p (\<lambda>peer. peer\<lparr>pe_state := HSK_STATE_HANDSHAKE\<rparr>) pool"
  have a: "steps cf p pool ?a" using ok by (rule set_peer_steps) (use e in \<open>auto simp: mild_def open_state_def\<close>)
  obtain rc b where "hsk_peer_send_version cf p ?a = Some (rc, b)" "steps cf p ?a b"
    by (rule send_version_steps [OF stepsD(1) [OF a] steps_heap [OF a p]])
  then show ?thesis using steps_trans [OF a] by auto
qed

lemma after_brontide_connect_steps:
  assumes ok: "pool_ok cf pool" and p: "pl_heap pool p \<noteq> None"
  shows "\<exists>pool'. after_brontide_connect cf p pool = Some pool' \<and> steps cf p pool pool'"
proof -
  obtain peer where peer: "pl_heap pool p = Some peer" using p by blast
  let ?a = "pool\<lparr>pl_am := snd (hsk_addrman_mark_success (pl_clock pool) (pl_am pool) (pe_addr peer))\<rparr>"
  have "addrman_ok (pl_am pool)" using pool_okD(3) [OF ok] by (simp add: parts_ok_def)
  then have a: "steps cf p pool ?a" by (intro am_steps(1) [OF ok]) (simp_all add: marks_ok)
  show ?thesis
  proof (cases "pe_state peer = HSK_STATE_READING")
    case True
    have "pl_heap ?a p \<noteq> None" "pl_heap ?a p = Some peer" "open_state (pe_state peer)" using peer True by (simp_all add: open_state_def)
    from version_some [OF stepsD(1) [OF a] this] obtain b where
      "do { (_, x) \<leftarrow> hsk_peer_send_version cf p (set_peer p (\<lambda>peer. peer\<lparr>pe_state := HSK_STATE_HANDSHAKE\<rparr>) ?a); Some x } = Some b" "steps cf p ?a b"
      by blast
    then show ?thesis using steps_trans [OF a] peer True by (auto simp: after_brontide_connect_def)
  next
    case False
    then show ?thesis using peer steps_refl [OF ok] by (simp add: after_brontide_connect_def)
  qed
qed

lemma gen_ephemeral_send: "gen_ephemeral ec b e = Some (b', u, e') \<Longrightarrow> br_send_cipher b' = br_send_cipher b"
proof -
  assume g: "gen_ephemeral ec b e = Some (b', u, e')"
  obtain k e1 where k: "hsk_ec_create_privkey ec e = (Some k, e1)"
    using g by (cases "hsk_ec_create_privkey ec e"; cases "fst (hsk_ec_create_privkey ec e)") (auto simp: gen_ephemeral_def)
  then obtain y where y: "hsk_ec_create_pubkey ec k = Some y" using g by (auto simp: gen_ephemeral_def bind_eq_Some_conv)
  obtain h e2 where h: "hsk_ec_pubkey_to_hash ec y e1 = (Some h, e2)"
    using g k y by (cases "hsk_ec_pubkey_to_hash ec y e1"; cases "fst (hsk_ec_pubkey_to_hash ec y e1)") (auto simp: gen_ephemeral_def)
  show ?thesis using g k y h by (auto simp: gen_ephemeral_def hsk_brontide_mix_hash_def)
qed

lemma gen_act_one_send: "hsk_brontide_gen_act_one ec b e = Some (b', act, e') \<Longrightarrow> br_send_cipher b' = br_send_cipher b"
  by (auto simp: hsk_brontide_gen_act_one_def hsk_brontide_mix_key_def hsk_brontide_encrypt_def bind_eq_Some_conv Let_def dest: gen_ephemeral_send)

text \<open>A connection that is made or refused.\<close>

lemma brontide_on_connect_steps:
  assumes r: "hsk_brontide_on_connect ec (pool_callbacks cf p) b e (Some pool) = Some (rc, b', e', s)"
    and ok: "pool_ok cf pool" and p: "pl_heap pool p \<noteq> None" and b: "cs_ok (br_send_cipher b)"
  shows "\<exists>pool'. s = Some pool' \<and> steps cf p pool pool' \<and> cs_ok (br_send_cipher b')"
proof (cases "br_initiator b")
  case False
  then show ?thesis using r b steps_refl [OF ok] by (auto simp: hsk_brontide_on_connect_def)
next
  case True
  then obtain b1 act e1 where g: "hsk_brontide_gen_act_one ec (b\<lparr>br_state := BRONTIDE_ACT_TWO\<rparr>) e = Some (b1, act, e1)"
    using r by (auto simp: hsk_brontide_on_connect_def bind_eq_Some_conv)
  have c: "cs_ok (br_send_cipher b1)" using gen_act_one_send [OF g] b by simp
  obtain r1 pool' where w: "brontide_do_write p act False (Some pool) = (r1, Some pool')" "steps cf p pool pool'"
  proof (rule write_raw_steps [OF ok p, of act])
    fix rc pool'
    assume "hsk_peer_write_raw p act pool = Some (rc, pool')" "steps cf p pool pool'"
    then show thesis using that by (simp add: brontide_do_write_def)
  qed
  then show ?thesis using r True g c by (auto simp: hsk_brontide_on_connect_def pool_callbacks_def hsk_brontide_destroy_def split: if_splits)
qed

lemma entropy_steps: "pool_ok cf pool \<Longrightarrow> steps cf p pool (pool\<lparr>pl_entropy := e\<rparr>)"
  by (rule rest_steps) (auto simp: parts_ok_def pool_td_def dest: pool_okD(3))

lemma on_connect_steps:
  assumes r: "on_connect cf p status pool = Some pool'" and ok: "pool_ok cf pool"
  shows "steps cf p pool pool'"
proof -
  obtain peer where peer: "pl_heap pool p = Some peer" using r by (cases "pl_heap pool p") (simp_all add: on_connect_def)
  then have p: "pl_heap pool p \<noteq> None" by simp
  have destroy: "steps cf p pool x" if "steps cf p pool a" "do { (_, y) \<leftarrow> hsk_peer_destroy p a; Some y } = Some x" for a x
    using destroy_off [OF stepsD(1) [OF that(1)] steps_heap [OF that(1) p]] that steps_trans by auto
  show ?thesis
  proof (cases "pe_state peer = HSK_STATE_CONNECTING")
    case False
    then show ?thesis using r peer steps_refl [OF ok] by (simp add: on_connect_def)
  next
    case s: True
    let ?a = "set_peer p (\<lambda>peer. peer\<lparr>pe_state := HSK_STATE_CONNECTED\<rparr>) pool"
    obtain x u where uv: "uv_call ?a = (x, u)" by fastforce
    then have xu: "x = fst (uv_call ?a)" "u = snd (uv_call ?a)" by simp_all
    let ?c = "set_peer p (\<lambda>peer. peer\<lparr>pe_state := HSK_STATE_READING, pe_conn_time := pl_clock u\<rparr>) u"
    have a: "steps cf p pool ?a" using ok by (rule set_peer_steps) (use s peer in \<open>auto simp: mild_def open_state_def\<close>)
    have u: "steps cf p ?a u" unfolding xu(2) by (rule uv_call_steps [OF stepsD(1) [OF a]])
    have au: "steps cf p pool u" using a u steps_trans by blast
    have c1: "steps cf p u ?c"
      by (rule set_peer_steps [OF stepsD(1) [OF u]]) (use peer in \<open>auto simp: mild_def open_state_def set_peer_heap xu(2)\<close>)
    have ac: "steps cf p pool ?c" using au c1 steps_trans by blast
    have pc: "pl_heap ?c p = Some (peer\<lparr>pe_state := HSK_STATE_READING, pe_conn_time := pl_clock u\<rparr>)" using peer by (simp add: set_peer_heap xu(2))
    note D = on_connect_def
    consider "\<not> status" | "status" "\<not> x" | "status" "x" "pe_brontide peer = None"
      | b where "status" "x" "pe_brontide peer = Some b" by (cases "pe_brontide peer") auto
    then show ?thesis
    proof cases
      case 1
      then show ?thesis using destroy [OF steps_refl [OF ok]] r s peer by (simp add: D)
    next
      case 2
      then show ?thesis using destroy [OF au] r s peer by (simp add: D uv Let_def)
    next
      case 3
      have "pl_heap ?c p \<noteq> None" "open_state (pe_state (peer\<lparr>pe_state := HSK_STATE_READING, pe_conn_time := pl_clock u\<rparr>))"
        using pc by (simp_all add: open_state_def)
      from version_some [OF stepsD(1) [OF ac] this(1) pc this(2)] show ?thesis
        using 3 r s peer steps_trans [OF ac] by (auto simp: D uv Let_def)
    next
      case (4 b)
      have cb: "cs_ok (br_send_cipher b)" using heap_peer [OF pool_okD(2) [OF ok] peer] 4(3) by (simp add: peer_ok_def)
      obtain rc b' e' t where o: "hsk_brontide_on_connect (cf_ec cf) (pool_callbacks cf p) b (pl_entropy ?c) (Some ?c) = Some (rc, b', e', t)"
        using 4 r s peer by (auto simp: D uv Let_def bind_eq_Some_conv)
      have "pl_heap ?c p \<noteq> None" using pc by simp
      then obtain d where d: "t = Some d" "steps cf p ?c d" "cs_ok (br_send_cipher b')"
        using brontide_on_connect_steps [OF o stepsD(1) [OF ac] _ cb] by blast
      let ?f = "(set_brontide p b' d)\<lparr>pl_entropy := e'\<rparr>"
      have "steps cf p d (set_brontide p b' d)" by (rule set_brontide_steps [OF stepsD(1) [OF d(2)] d(3)])
      moreover from this have "steps cf p (set_brontide p b' d) ?f" by (intro entropy_steps stepsD(1))
      ultimately have f: "steps cf p pool ?f" using ac d(2) steps_trans by blast
      have "(if rc \<noteq> HSK_SUCCESS then do { (_, y) \<leftarrow> hsk_peer_destroy p ?f; Some y } else Some ?f) = Some pool'"
        using 4 r s peer o d(1) by (simp add: D uv Let_def)
      then show ?thesis using destroy [OF f] f by (simp split: if_splits)
    qed
  qed
qed

end
