(* ===== verification/Pool_Reach.thy ===== *)
theory Pool_Reach
  imports Pool_Run Brontide_Hs
begin

text \<open>
  Every state the pool can get into, and what holds in all of them: its parts agree, each request for
  a name waits or was answered once, and what was answered as true was proved.
\<close>

section \<open>The start\<close>

lemma add_seeds_td: "add_seeds clock am seeds rs = Some (am', rs') \<Longrightarrow> am_td am' = am_td am"
proof (induction seeds arbitrary: am rs)
  case (Cons s ss)
  obtain b am1 rs1 where a: "hsk_addrman_add_addr True clock am s rs = Some (b, am1, rs1)" using Cons.prems by (auto simp: bind_eq_Some_conv)
  then have "am_td am1 = am_td am" using add_entry_td by (auto simp: hsk_addrman_add_addr_def)
  then show ?case using Cons a by (auto split: if_splits)
qed simp

lemma chain_init_td: "hsk_chain_init H N clock [] td = Some (rc, c) \<Longrightarrow> ch_td c = td"
  by (auto simp: hsk_chain_init_def hsk_chain_init_genesis_def chain_alloc_def set_hashes_def set_heights_def hsk_chain_maybe_sync_def Let_def bind_eq_Some_conv
    split: prod.splits if_splits)

lemma td_ok_init: "td_ok hsk_timedata_init"
  by code_simp

definition pool_inv :: "'k conf \<Rightarrow> nat multiset \<Rightarrow> hsk_pool \<Rightarrow> bool" where
  "pool_inv cf g pool \<longleftrightarrow> pool_ok cf pool \<and> waiting pool + answered pool = g \<and> truth_ok cf pool"

lemma keeps_inv: "pool_inv cf g a \<Longrightarrow> keeps cf a b \<Longrightarrow> pool_inv cf g b"
  by (simp add: pool_inv_def keeps_def)

lemma init_inv:
  assumes cf: "conf_ok cf" and i: "hsk_pool_init cf seeds clock uv rnd e = Some (Inr pool)"
  shows "pool_inv cf {#} pool"
proof -
  let ?td = hsk_timedata_init
  obtain key e1 pub rc chain am rs where "hsk_ec_create_privkey (cf_ec cf) e = (Some key, e1)" "hsk_ec_create_pubkey (cf_ec cf) key = Some pub"
    and c: "hsk_chain_init (cf_hash cf) (cf_net cf) clock [] ?td = Some (rc, chain)" and a: "hsk_addrman_init clock ?td seeds rnd = Some (am, rs)"
    and pool: "pool = \<lparr>pl_key = Some key, pl_pubkey = pub, pl_chain = chain, pl_am = am, pl_timer = False, pl_peer_id = 0,
      pl_peers = [], pl_list = [], pl_size = 0, pl_max_size = HSK_POOL_SIZE, pl_pending = [], pl_pending_count = 0,
      pl_block_time = 0, pl_getheaders_time = 0, pl_user_agent = HSK_USER_AGENT, pl_heap = (\<lambda>_. None), pl_next = 0,
      pl_clock = clock, pl_uv = uv, pl_rand = rs, pl_entropy = e1, pl_out = []\<rparr>"
    using i by (auto simp: hsk_pool_init_def bind_eq_Some_conv split: prod.splits option.splits)
  obtain c' where "hsk_chain_init (cf_hash cf) (cf_net cf) clock [] ?td = Some (HSK_SUCCESS, c')"
    using chain_init_ok [of "cf_net cf" "cf_hash cf" clock ?td] cf by (auto simp: conf_ok_def)
  then have chain: "chain_reach (cf_hash cf) (cf_net cf) chain" using c by (auto intro: reach_init)
  have "addrman_ok am" using reach_ok [OF addrman_reach.start] a .
  moreover have "am_td am = ?td" "ch_td chain = ?td" using a c add_seeds_td chain_init_td by (auto simp: hsk_addrman_init_def)
  ultimately have "parts_ok cf pool" using chain by (simp add: parts_ok_def pool pool_td_def td_ok_init)
  moreover have "links_ok pool" by (rule links_okI) (simp_all add: pool tbl_ok_def tbl_get_def)
  moreover have "heap_ok pool" by (simp add: heap_ok_def pool)
  ultimately have "pool_ok cf pool" by (intro pool_okI)
  then show ?thesis by (simp add: pool_inv_def waiting_def answered_def truth_ok_def reqs_ok_def successes_def pool)
qed

section \<open>Settings\<close>

lemma seeds_loop_keeps:
  "pool_ok cf pool \<Longrightarrow> seeds_loop parse acc cs pool = Some pool' \<Longrightarrow> keeps cf pool pool'"
proof (induction cs arbitrary: acc pool)
  case Nil
  then show ?case using keeps_refl by simp
next
  case (Cons c cs)
  show ?case
  proof (cases "(c \<noteq> 44 \<and> c \<noteq> 0) \<or> acc = [] \<or> length acc \<ge> 128 \<or> parse acc = None")
    case True
    then show ?thesis using Cons by (auto split: if_splits)
  next
    case False
    then obtain addr where addr: "parse acc = Some addr" by blast
    have am: "addrman_ok (pl_am pool)" using pool_okD(3) [OF Cons.prems(1)] by (simp add: parts_ok_def)
    let ?na = "\<lparr>na_time = of_int (hsk_timedata_now (pl_clock pool) (am_td (pl_am pool))), na_services = 1, na_addr = addr\<rparr>"
    obtain ok am' rs where a: "hsk_addrman_add_entry True (pl_clock pool) (pl_am pool) ?na False (pl_rand pool) = Some (ok, am', rs)" "addrman_ok am'"
      by (rule add_entry_ok [OF am])
    let ?b = "pool\<lparr>pl_am := am', pl_rand := rs\<rparr>"
    have b: "keeps cf pool ?b" by (rule steps_keeps [OF am_steps(2) [OF Cons.prems(1) a(2) add_entry_td [OF a(1)]]])
    have "seeds_loop parse (if \<not> ok then acc @ [c] else []) cs ?b = Some pool'"
      using Cons.prems(2) False addr a(1) by (auto simp: hsk_addrman_add_addr_def)
    then show ?thesis using Cons.IH [OF keepsD [OF b]] b keeps_trans by blast
  qed
qed

lemma outside_keeps: "pool_ok cf pool \<Longrightarrow> keeps cf pool (pool\<lparr>pl_clock := clock, pl_uv := uv, pl_rand := rnd, pl_entropy := e\<rparr>)"
  by (rule rest_keeps) (auto simp: parts_ok_def pool_td_def dest: pool_okD(3))

lemma settings_keep:
  assumes "pool_ok cf pool"
  shows "keeps cf pool (pool\<lparr>pl_max_size := n\<rparr>)" "keeps cf pool (pool\<lparr>pl_user_agent := a\<rparr>)" "keeps cf pool (pool\<lparr>pl_key := Some k, pl_pubkey := pk\<rparr>)"
    "keeps cf pool (pool\<lparr>pl_timer := t\<rparr>)"
  by (rule rest_keeps [OF assms]; use pool_okD(3) [OF assms] in \<open>simp add: parts_ok_def pool_td_def\<close>)+

lemma set_fields_keep:
  assumes ok: "pool_ok cf pool"
  shows "keeps cf pool (snd (hsk_pool_set_size n pool))" "keeps cf pool (snd (hsk_pool_set_agent ua pool))" "keeps cf pool (snd (hsk_pool_set_key cf (Some k) pool))"
  using settings_keep [OF ok] keeps_refl [OF ok]
  by (simp_all add: hsk_pool_set_size_def hsk_pool_set_agent_def hsk_pool_set_key_def split: option.split)

lemma open_keeps:
  assumes cf: "conf_ok cf" and ok: "pool_ok cf pool"
  obtains rc pool' where "hsk_pool_open cf pool = Some (rc, pool')" "keeps cf pool pool'"
proof -
  let ?t = "pool\<lparr>pl_timer := True\<rparr>"
  obtain x u where u: "uv_call ?t = (x, u)" by fastforce
  obtain y v where v: "uv_call u = (y, v)" by fastforce
  note t = settings_keep(4) [OF ok, of True]
  have su: "u = snd (uv_call ?t)" and sv: "v = snd (uv_call u)" using u v by simp_all
  have "keeps cf ?t u" unfolding su by (rule steps_keeps [OF uv_call_steps [OF keepsD [OF t]]])
  then have ku: "keeps cf pool u" using t keeps_trans by blast
  have "keeps cf u v" unfolding sv by (rule steps_keeps [OF uv_call_steps [OF keepsD [OF ku]]])
  then have kv: "keeps cf pool v" using ku keeps_trans by blast
  obtain rc w where w: "hsk_pool_refill cf v = Some (rc, w)" "keeps cf v w" by (rule refill_keeps [OF cf keepsD [OF kv]])
  have "keeps cf pool w" using kv w(2) keeps_trans by blast
  then show ?thesis using that u v w(1) ku kv by (cases x; cases y) (auto simp: hsk_pool_open_def)
qed

section \<open>Freeing\<close>

lemma after_close_keeps:
  assumes ok: "pool_ok cf pool" and p: "p \<notin> set (pl_list pool)" and r: "after_close p pool = Some pool'"
  shows "keeps cf pool pool'"
proof -
  have pool': "pool' = pool\<lparr>pl_heap := (pl_heap pool)(p := None)\<rparr>"
    using r by (auto simp: after_close_def hsk_peer_free_def set_peer_def bind_eq_Some_conv)
  note L = pool_okD(1) [OF ok] and H = pool_okD(2) [OF ok]
  have "links_ok pool'"
  proof (rule links_okI)
    show "distinct (pl_list pool')" "pl_size pool' = int (length (pl_list pool'))" "tbl_ok (pl_peers pool')" using L by (simp_all add: links_ok_def pool')
    show "\<exists>x. pl_heap pool' q = Some x \<and> open_state (pe_state x) \<and> tbl_get (pl_peers pool') (addr_id (pe_addr x)) = Some q" if q: "q \<in> set (pl_list pool')" for q
    proof -
      have "q \<in> set (pl_list pool)" using q by (simp add: pool')
      then obtain x where "pl_heap pool q = Some x" "open_state (pe_state x)" "tbl_get (pl_peers pool) (addr_id (pe_addr x)) = Some q"
        by (rule links_listed [OF L])
      then show ?thesis using p q by (auto simp: pool')
    qed
    show "q \<in> set (pl_list pool') \<and> map_option (addr_id \<circ> pe_addr) (pl_heap pool' q) = Some k" if "tbl_get (pl_peers pool') k = Some q" for k q
      using links_map [OF L, of k q] that p by (auto simp: pool')
  qed
  moreover have "heap_ok pool'" using H by (auto simp: heap_ok_def pool')
  moreover have "parts_ok cf pool'" using pool_okD(3) [OF ok] by (simp add: parts_ok_def pool_td_def pool')
  moreover have "waiting pool' = waiting pool"
    using p by (auto simp: waiting_def pool' peer_args_def intro!: sum.cong)
  moreover have "truth_ok cf pool \<Longrightarrow> truth_ok cf pool'" by (auto simp: truth_ok_def reqs_ok_def successes_def pool' split: if_splits)
  ultimately show ?thesis by (simp add: keeps_def answered_def pool_ok_def) (simp add: pool')
qed

section \<open>Reachable states\<close>

text \<open>
  The multiset holds the arguments of the requests that were taken. The octets that come in on a
  connection are read by \<open>Peer_Stream\<close> and \<open>Brontide\<close>, which change the fields of the peer they are
  about and hand over the messages. A message is one that can be read, with headers whose hash
  is not the parent of the genesis block and heights below their limit; a peer is freed once it is closed.
\<close>

inductive pool_reach :: "'k conf \<Rightarrow> nat multiset \<Rightarrow> hsk_pool \<Rightarrow> bool" for cf where
  pool_start: "hsk_pool_init cf seeds clock uv rnd e = Some (Inr pool) \<Longrightarrow> pool_reach cf {#} pool"
| pool_world: "pool_reach cf g pool \<Longrightarrow> pool_reach cf g (pool\<lparr>pl_clock := clock, pl_uv := uv, pl_rand := rnd, pl_entropy := e\<rparr>)"
| pool_size: "pool_reach cf g pool \<Longrightarrow> pool_reach cf g (snd (hsk_pool_set_size n pool))"
| pool_agent: "pool_reach cf g pool \<Longrightarrow> pool_reach cf g (snd (hsk_pool_set_agent ua pool))"
| pool_key: "pool_reach cf g pool \<Longrightarrow> pool_reach cf g (snd (hsk_pool_set_key cf (Some k) pool))"
| pool_seeds: "pool_reach cf g pool \<Longrightarrow> hsk_pool_set_seeds parse seeds pool = Some (b, pool') \<Longrightarrow> pool_reach cf g pool'"
| pool_opened: "pool_reach cf g pool \<Longrightarrow> hsk_pool_open cf pool = Some (rc, pool') \<Longrightarrow> pool_reach cf g pool'"
| pool_asked: "pool_reach cf g pool \<Longrightarrow> hsk_pool_resolve cf name arg pool = Some (rc, pool') \<Longrightarrow>
    pool_reach cf (if hsk_chain_synced (pl_chain pool) then g + {#arg#} else g) pool'"
| pool_timed: "pool_reach cf g pool \<Longrightarrow> after_timer cf pool = Some pool' \<Longrightarrow> pool_reach cf g pool'"
| pool_connected: "pool_reach cf g pool \<Longrightarrow> on_connect cf p status pool = Some pool' \<Longrightarrow> pool_reach cf g pool'"
| pool_octets: "pool_reach cf g pool \<Longrightarrow> pool_reach cf g (set_peer p (\<lambda>peer. peer\<lparr>pe_last_recv := t, pe_stream := st\<rparr>) pool)"
| pool_sealed: "pool_reach cf g pool \<Longrightarrow> cs_ok (br_send_cipher b) \<Longrightarrow> pool_reach cf g (set_brontide p b pool)"
| pool_linked: "pool_reach cf g pool \<Longrightarrow> after_brontide_connect cf p pool = Some pool' \<Longrightarrow> pool_reach cf g pool'"
| pool_message: "pool_reach cf g pool \<Longrightarrow> pl_heap pool p \<noteq> None \<Longrightarrow> good_msg cf pool m \<Longrightarrow>
    hsk_peer_handle_msg cf p pool m = Some (rc, pool') \<Longrightarrow> pool_reach cf g pool'"
| pool_ended: "pool_reach cf g pool \<Longrightarrow> after_read cf p None pool = Some pool' \<Longrightarrow> pool_reach cf g pool'"
| pool_written: "pool_reach cf g pool \<Longrightarrow> after_write p status pool = Some pool' \<Longrightarrow> pool_reach cf g pool'"
| pool_freed: "pool_reach cf g pool \<Longrightarrow> p \<notin> set (pl_list pool) \<Longrightarrow> after_close p pool = Some pool' \<Longrightarrow> pool_reach cf g pool'"

lemma destroy_keeps:
  assumes ok: "pool_ok cf pool" and d: "do { (_, x) \<leftarrow> hsk_peer_destroy p pool; Some x } = Some pool'"
  shows "keeps cf pool pool'"
proof (cases "pl_heap pool p")
  case None
  then show ?thesis using d by (simp add: hsk_peer_destroy_def hsk_peer_close_def)
next
  case (Some peer)
  then have "pl_heap pool p \<noteq> None" by simp
  from destroy_off [OF ok this] show ?thesis using d steps_keeps by auto
qed

lemma message_keeps:
  assumes "conf_ok cf" and "pool_ok cf pool" and "pl_heap pool p \<noteq> None" and "good_msg cf pool m" and h: "hsk_peer_handle_msg cf p pool m = Some (rc, pool')"
  shows "keeps cf pool pool'"
proof -
  obtain rc1 pool1 where "hsk_peer_handle_msg cf p pool m = Some (rc1, pool1)" "evolves cf p pool pool1" by (rule handle_msg_evolves [OF assms(1-4)])
  then show ?thesis using h handle_msg_truth [OF assms(1,2) _ assms(3,4) h] by (simp add: keeps_def evolves_def)
qed

lemma pool_reach_inv:
  assumes "pool_reach cf g pool" and cf: "conf_ok cf"
  shows "pool_inv cf g pool"
  using assms(1)
proof (induction rule: pool_reach.induct)
  case (pool_start seeds clock uv rnd e pool)
  then show ?case by (rule init_inv [OF cf])
next
  case (pool_world g pool clock uv rnd e)
  show ?case by (rule keeps_inv [OF pool_world.IH outside_keeps]) (use pool_world.IH in \<open>simp add: pool_inv_def\<close>)
next
  case (pool_size g pool n)
  show ?case by (rule keeps_inv [OF pool_size.IH set_fields_keep(1)]) (use pool_size.IH in \<open>simp add: pool_inv_def\<close>)
next
  case (pool_agent g pool ua)
  show ?case by (rule keeps_inv [OF pool_agent.IH set_fields_keep(2)]) (use pool_agent.IH in \<open>simp add: pool_inv_def\<close>)
next
  case (pool_key g pool k)
  show ?case by (rule keeps_inv [OF pool_key.IH set_fields_keep(3)]) (use pool_key.IH in \<open>simp add: pool_inv_def\<close>)
next
  case (pool_seeds g pool parse seeds b pool')
  then have "keeps cf pool pool'"
    using seeds_loop_keeps keeps_refl by (auto simp: pool_inv_def hsk_pool_set_seeds_def bind_eq_Some_conv split: option.splits)
  then show ?case using keeps_inv pool_seeds.IH by blast
next
  case (pool_opened g pool rc pool')
  then have "pool_ok cf pool" by (simp add: pool_inv_def)
  then obtain rc1 pool1 where "hsk_pool_open cf pool = Some (rc1, pool1)" "keeps cf pool pool1" by (rule open_keeps [OF cf])
  then show ?case using pool_opened keeps_inv by auto
next
  case (pool_asked g pool name arg rc pool')
  then have ok: "pool_ok cf pool" by (simp add: pool_inv_def)
  show ?case
    by (rule resolve_returns [OF cf ok, of name arg]) (use pool_asked in \<open>auto simp: pool_inv_def\<close>)
next
  case (pool_timed g pool pool')
  then have ok: "pool_ok cf pool" by (simp add: pool_inv_def)
  show ?case by (rule timer_keeps [OF cf ok]) (use pool_timed keeps_inv in \<open>auto simp: after_timer_def\<close>)
next
  case (pool_connected g pool p status pool')
  then show ?case using on_connect_steps steps_keeps keeps_inv by (metis pool_inv_def)
next
  case (pool_octets g pool p st t)
  then have "steps cf p pool (set_peer p (\<lambda>peer. peer\<lparr>pe_last_recv := t, pe_stream := st\<rparr>) pool)"
    by (intro set_peer_steps) (simp_all add: pool_inv_def mild_def)
  then show ?case using pool_octets.IH steps_keeps keeps_inv by blast
next
  case (pool_sealed g pool b p)
  then show ?case using set_brontide_steps steps_keeps keeps_inv by (metis pool_inv_def)
next
  case (pool_linked g pool p pool')
  then have "pl_heap pool p \<noteq> None" by (auto simp: after_brontide_connect_def bind_eq_Some_conv)
  then show ?case using pool_linked after_brontide_connect_steps steps_keeps keeps_inv by (metis option.inject pool_inv_def)
next
  case (pool_message g pool p m rc pool')
  then show ?case using message_keeps [OF cf] keeps_inv by (metis pool_inv_def)
next
  case (pool_ended g pool p pool')
  then have "keeps cf pool pool'" using destroy_keeps [of cf pool p pool'] by (simp add: pool_inv_def after_read_def)
  then show ?case using keeps_inv pool_ended.IH by blast
next
  case (pool_written g pool p status pool')
  then have "keeps cf pool pool'" using destroy_keeps [of cf pool p pool'] keeps_refl [of cf pool] by (cases status) (simp_all add: pool_inv_def after_write_def)
  then show ?case using keeps_inv pool_written.IH by blast
next
  case (pool_freed g pool p pool')
  then show ?case using after_close_keeps keeps_inv by (metis pool_inv_def)
qed

definition pool_conf :: "u8 conf" where
  "pool_conf = \<lparr>cf_net = HSK_REGTEST, cf_hash = first_octet_fns, cf_ec = small_curve, cf_round = id\<rparr>"

lemma pool_conf_ok: "conf_ok pool_conf"
  by (simp add: conf_ok_def pool_conf_def hsk_networks_def first_octet_ok rounding_def)

lemma memcmp_zero: "0 \<le> memcmp xs (replicate n 0)"
  by (induction xs arbitrary: n) (case_tac n; simp)+

lemma init_synced:
  obtains c where "hsk_chain_init first_octet_fns HSK_REGTEST 0 [] hsk_timedata_init = Some (HSK_SUCCESS, c)" "hsk_chain_synced c"
proof -
  have "case hsk_header_decode hsk_header_init (net_genesis HSK_REGTEST) of None \<Rightarrow> False
      | Some g \<Rightarrow> hdr_time g = 0x5e384178 \<and> hdr_bits g = 0x207fffff \<and> \<not> hdr_cache g" by code_simp
  then obtain g where g: "hsk_header_decode hsk_header_init (net_genesis HSK_REGTEST) = Some g"
    "hdr_time g = 0x5e384178" "hdr_bits g = 0x207fffff" "\<not> hdr_cache g" by (auto split: option.splits)
  have "fst (hsk_pow_to_target 0x207fffff)" by code_simp
  then obtain w where w: "hsk_header_calc_work g None = Some (True, g\<lparr>hdr_work := w\<rparr>)"
    using calc_work_value [of None g] by (auto simp: g(3))
  have cache: "cache_ok first_octet_fns (g\<lparr>hdr_work := w\<rparr>)" using g(4) by (simp add: cache_ok_def)
  have age: "sint (0x5e384178 :: u64) = 0x5e384178" "net_max_tip_age HSK_REGTEST > 0" "net_chainwork HSK_REGTEST = replicate 32 0"
    by (simp_all add: HSK_REGTEST_def)
  have "\<exists>c. hsk_chain_init first_octet_fns HSK_REGTEST 0 [] hsk_timedata_init = Some (HSK_SUCCESS, c) \<and> hsk_chain_synced c"
    using g(1,2) w header_cache [OF cache] age memcmp_zero [of w 32]
    by (simp add: hsk_chain_init_def hsk_chain_init_genesis_def chain_alloc_def set_hashes_def set_heights_def Let_def hsk_chain_maybe_sync_def
      hsk_timedata_now_def hsk_timedata_init_def hsk_chain_has_work_def hsk_chain_synced_def)
  then show ?thesis using that by blast
qed

end
