(* ===== verification/Pool_Demo.thy ===== *)
theory Pool_Demo
  imports Pool_Reach
begin

text \<open>
  A run of the pool for the witnesses: it starts, opens a connection to the one address it knows, is
  asked for a name, gets a proof that the name tree is empty and answers.
\<close>

definition demo_addr :: hsk_addr where
  "demo_addr = \<lparr>ad_type = 0, ad_ip = replicate 10 0 @ [0xff, 0xff, 1, 2, 3, 4] @ replicate 20 0, ad_port = 46806, ad_key = replicate 33 0\<rparr>"

definition demo_am :: hsk_addrman where
  "demo_am = \<lparr>am_td = hsk_timedata_init, am_addrs = [new_entry \<lparr>na_time = 0, na_services = 1, na_addr = demo_addr\<rparr>],
     am_map = [(addr_id demo_addr, 0)], am_banned = []\<rparr>"

definition demo_start :: "hsk_chain \<Rightarrow> hsk_pool" where
  "demo_start c = \<lparr>pl_key = Some (replicate 32 5), pl_pubkey = 2 # 5 # replicate 31 0, pl_chain = c, pl_am = demo_am, pl_timer = False, pl_peer_id = 0,
     pl_peers = [], pl_list = [], pl_size = 0, pl_max_size = HSK_POOL_SIZE, pl_pending = [], pl_pending_count = 0,
     pl_block_time = 0, pl_getheaders_time = 0, pl_user_agent = HSK_USER_AGENT, pl_heap = (\<lambda>_. None), pl_next = 0,
     pl_clock = 0, pl_uv = sconst True, pl_rand = sconst 0, pl_entropy = [[]], pl_out = []\<rparr>"

lemma demo_start_init:
  assumes "hsk_chain_init first_octet_fns HSK_REGTEST 0 [] hsk_timedata_init = Some (HSK_SUCCESS, c)"
  shows "hsk_pool_init pool_conf [demo_addr] 0 (sconst True) (sconst 0) [replicate 32 5, []] = Some (Inr (demo_start c))"
proof -
  have k: "hsk_ec_create_privkey small_curve [replicate 32 5, []] = (Some (replicate 32 5), [[]])"
    unfolding hsk_ec_create_privkey_def
    by (subst privkey_loop.simps, subst privkey_loop.simps) (simp add: small_curve_def hsk_ec_verify_privkey_def hsk_randombytes_def)
  have p: "hsk_ec_create_pubkey small_curve (replicate 32 5) = Some (2 # 5 # replicate 31 0)"
    by (simp add: hsk_ec_create_pubkey_def serialize_key_def small_curve_def)
  have a: "hsk_addrman_init 0 hsk_timedata_init [demo_addr] (sconst 0) = Some (demo_am, sconst 0)"
    by (simp add: hsk_addrman_init_def hsk_addrman_add_addr_def hsk_addrman_add_entry_def hsk_addrman_get_def hsk_addrman_alloc_entry_def HSK_ADDR_MAX_def
      set_entry_def demo_am_def tbl_get_def tbl_set_def hsk_timedata_now_def hsk_timedata_init_def)
  show ?thesis using assms k p a by (simp add: hsk_pool_init_def pool_conf_def demo_start_def)
qed

section \<open>A connection\<close>

definition demo_open :: "hsk_chain \<Rightarrow> hsk_pool" where
  "demo_open c = (demo_start c)\<lparr>pl_clock := 1000, pl_uv := sconst True, pl_rand := sconst 0, pl_entropy := []\<rparr>"

lemma demo_getaddr: 
  assumes "pl_am pool = demo_am" "pl_clock pool = 1000" "pl_peers pool = []" "pl_rand pool = sconst 0"
  shows "hsk_pool_getaddr pool_conf pool = Some (Some demo_addr, pool)"
proof -
  let ?e = "new_entry \<lparr>na_time = 0, na_services = 1, na_addr = demo_addr\<rparr>"
  have am: "am_addrs demo_am = [?e]" "am_td demo_am = hsk_timedata_init" "am_banned demo_am = []" by (simp_all add: demo_am_def)
  have now: "hsk_timedata_now 1000 hsk_timedata_init = 1000" by (simp add: hsk_timedata_now_def hsk_timedata_init_def)
  have "search_loop id demo_am 1000 0 1 (sconst 0) = Some (0, sconst 0)"
    by (subst search_loop.simps) (simp add: am hsk_addrentry_chance_def new_entry_def)
  then have s: "hsk_addrman_search id 1000 demo_am (sconst 0) = Some (Some 0, sconst 0)" using am now by (simp add: hsk_addrman_search_def)
  have e: "\<not> en_removed ?e" "en_services ?e AND 1 \<noteq> 0" "en_addr ?e = demo_addr" "en_last_attempt ?e = 0" by (simp_all add: new_entry_def)
  have ok: "hsk_addr_is_valid demo_addr" "\<not> hsk_addr_is_onion demo_addr" "ad_port demo_addr = net_brontide_port HSK_REGTEST" by code_simp+
  have b: "hsk_addrman_is_banned 1000 demo_am demo_addr = (False, demo_am)" using am by (simp add: hsk_addrman_is_banned_def tbl_get_def)
  have "pick_loop HSK_REGTEST id 1000 ([] :: (addr_id, nat) table) 0 (Suc 99) demo_am (sconst 0) = Some (Some 0, demo_am, sconst 0)"
    by (subst pick_loop.simps(2)) (use s am now e ok b in \<open>simp add: tbl_has_def tbl_get_def Let_def\<close>)
  then have "hsk_addrman_pick HSK_REGTEST id 1000 demo_am ([] :: (addr_id, nat) table) (sconst 0) = Some (Some 0, demo_am, sconst 0)"
    by (simp add: hsk_addrman_pick_def)
  then show ?thesis using assms am e by (simp add: hsk_pool_getaddr_def hsk_addrman_pick_addr_def pool_conf_def)
qed

text \<open>One peer, in the given state, without requests, and every call to libuv succeeds.\<close>

definition one_peer :: "peer_state \<Rightarrow> hsk_chain \<Rightarrow> hsk_pool \<Rightarrow> bool" where
  "one_peer s c pool \<longleftrightarrow> pl_list pool = [0] \<and> pl_chain pool = c \<and> pl_uv pool = sconst True \<and>
     (\<exists>peer. pl_heap pool 0 = Some peer \<and> pe_state peer = s \<and> pe_brontide peer = None \<and> pe_names peer = [])"

lemma demo_opened:
  obtains pool where "hsk_pool_open pool_conf (demo_open c) = Some (HSK_SUCCESS, pool)" "one_peer HSK_STATE_CONNECTING c pool"
proof -
  let ?a = "(demo_open c)\<lparr>pl_timer := True\<rparr>"
  have a: "pl_am ?a = demo_am" "pl_clock ?a = 1000" "pl_peers ?a = []" "pl_rand ?a = sconst 0" "pl_uv ?a = sconst True" "pl_heap ?a = (\<lambda>_. None)"
    "pl_next ?a = 0" "pl_list ?a = []" "pl_size ?a < pl_max_size ?a" "pl_chain ?a = c"
    by (simp_all add: demo_open_def demo_start_def HSK_POOL_SIZE_def)
  have u: "uv_call x = (True, x)" if "pl_uv x = sconst True" for x using that by (simp add: uv_call_def)
  have k: "\<not> hsk_addr_has_key demo_addr" by code_simp
  have sa: "\<exists>x. hsk_addr_to_sa demo_addr = Some x" by (simp add: hsk_addr_to_sa_def hsk_addr_get_af_def)
  have "\<exists>pool. hsk_pool_refill pool_conf ?a = Some (HSK_SUCCESS, pool) \<and> one_peer HSK_STATE_CONNECTING c pool"
    using a k sa demo_getaddr [OF a(1-4)]
    by (auto simp: hsk_pool_refill_def hsk_peer_alloc_def hsk_peer_init_def hsk_peer_open_def set_peer_def u hsk_peer_push_def tbl_has_def tbl_get_def one_peer_def)
  then show ?thesis using that u [OF a(5)] by (auto simp: hsk_pool_open_def)
qed

text \<open>A message to the peer is sent.\<close>

lemma uv_same: "pl_uv x = sconst True \<Longrightarrow> uv_call x = (True, x)"
  by (simp add: uv_call_def)

lemma demo_send:
  assumes one: "one_peer HSK_STATE_HANDSHAKE c pool" and m: "sent_msg m"
  shows "\<exists>d. hsk_peer_send pool_conf 0 m pool =
    Some (HSK_SUCCESS, set_peer 0 (\<lambda>peer. peer\<lparr>pe_last_send := pl_clock pool\<rparr>) (report [Sent 0 d] pool))"
proof -
  obtain d where "peer_frame (cf_net pool_conf) m = Some d" by (rule frame_fits [OF m])
  then show ?thesis using one by (auto simp: hsk_peer_send_def hsk_peer_write_def hsk_peer_write_raw_def uv_same one_peer_def report_def)
qed

lemma demo_connected:
  assumes one: "one_peer HSK_STATE_CONNECTING c pool"
  obtains pool' where "on_connect pool_conf 0 True pool = Some pool'" "one_peer HSK_STATE_HANDSHAKE c pool'"
proof -
  obtain peer where peer: "pl_heap pool 0 = Some peer" "pe_state peer = HSK_STATE_CONNECTING" "pe_brontide peer = None" "pe_names peer = []"
    and uv: "pl_uv pool = sconst True" using one by (auto simp: one_peer_def)
  let ?a = "set_peer 0 (\<lambda>peer. peer\<lparr>pe_state := HSK_STATE_CONNECTED\<rparr>) pool"
  let ?b = "set_peer 0 (\<lambda>peer. peer\<lparr>pe_state := HSK_STATE_READING, pe_conn_time := pl_clock pool\<rparr>) ?a"
  let ?c = "set_peer 0 (\<lambda>peer. peer\<lparr>pe_state := HSK_STATE_HANDSHAKE\<rparr>) ?b"
  have c: "one_peer HSK_STATE_HANDSHAKE c ?c" using one by (auto simp: one_peer_def set_peer_heap)
  obtain m n where v: "hsk_peer_send_version pool_conf 0 ?c =
      hsk_peer_send pool_conf 0 (Version_msg m) (set_peer 0 (\<lambda>peer. peer\<lparr>pe_version_time := pl_clock n\<rparr>) n)" "n = snd (hsk_nonce ?c)"
    using peer by (auto simp: hsk_peer_send_version_def Let_def split_beta set_peer_heap)
  have n: "one_peer HSK_STATE_HANDSHAKE c (set_peer 0 (\<lambda>peer. peer\<lparr>pe_version_time := pl_clock n\<rparr>) n)"
    using c unfolding v(2) by (auto simp: one_peer_def hsk_nonce_def hsk_random_def set_peer_heap)
  obtain d where d: "hsk_peer_send_version pool_conf 0 ?c = Some (HSK_SUCCESS, d)" "one_peer HSK_STATE_HANDSHAKE c d"
    using demo_send [OF n, of "Version_msg m"] n unfolding v(1) by (auto simp: one_peer_def report_def set_peer_heap)
  have "on_connect pool_conf 0 True pool = Some d"
    using peer uv d(1) by (simp add: on_connect_def uv_same Let_def)
  then show ?thesis using that d(2) by blast
qed

section \<open>A question and its answer\<close>

lemma init_root:
  "hsk_chain_init first_octet_fns HSK_REGTEST 0 [] hsk_timedata_init = Some (HSK_SUCCESS, c) \<Longrightarrow> hsk_chain_safe_root HSK_REGTEST c = Some (replicate 32 0)"
proof -
  assume i: "hsk_chain_init first_octet_fns HSK_REGTEST 0 [] hsk_timedata_init = Some (HSK_SUCCESS, c)"
  have "case hsk_header_decode hsk_header_init (net_genesis HSK_REGTEST) of None \<Rightarrow> False
      | Some g \<Rightarrow> hdr_height g = 0 \<and> hdr_name_root g = replicate 32 0 \<and> \<not> hdr_cache g \<and> hdr_bits g = 0x207fffff" by code_simp
  then obtain g where g: "hsk_header_decode hsk_header_init (net_genesis HSK_REGTEST) = Some g"
    "hdr_height g = 0" "hdr_name_root g = replicate 32 0" "\<not> hdr_cache g" "hdr_bits g = 0x207fffff" by (auto split: option.splits)
  have "fst (hsk_pow_to_target 0x207fffff)" by code_simp
  then obtain w where w: "hsk_header_calc_work g None = Some (True, g\<lparr>hdr_work := w\<rparr>)"
    using calc_work_value [of None g] by (auto simp: g(5))
  have cache: "cache_ok first_octet_fns (g\<lparr>hdr_work := w\<rparr>)" using g(4) by (simp add: cache_ok_def)
  have "ch_height c = 0 \<and> tbl_get (ch_heights c) 0 = Some (g\<lparr>hdr_work := w, hdr_hash := pow_hash first_octet_fns g, hdr_cache := True\<rparr>)"
    using i g(1,2) w header_cache [OF cache]
    by (auto simp: hsk_chain_init_def hsk_chain_init_genesis_def chain_alloc_def set_hashes_def set_heights_def Let_def hsk_chain_maybe_sync_def tbl_get_def split: if_splits)
  then show ?thesis using g(3) by (simp add: hsk_chain_safe_root_def safe_height_def hsk_chain_get_by_height_def Let_def)
qed

definition demo_proof :: hsk_proof where
  "demo_proof = tree_prove first_octet_fns (replicate 32 66) UNull"

lemma demo_proof:
  "proof_ok demo_proof" "hsk_proof_verify first_octet_fns (replicate 32 0) (replicate 32 66) demo_proof = Some (Inr (False, []))"
  "sha3 first_octet_fns [65] = replicate 32 66"
  by (simp add: demo_proof_def tree_prove_def proof_ok_def some_len_def hsk_proof_init_def) code_simp+

lemma demo_prover:
  assumes one: "one_peer HSK_STATE_HANDSHAKE c pool" and r: "pl_rand pool = sconst 0"
  shows "hsk_pool_pick_prover pool h = Some (Some 0, pool)"
proof -
  have ac: "active_peers pool = [0]" using one by (auto simp: active_peers_def one_peer_def)
  have "best_loop pool [0] 0 None = Some (0, None)" using one by (auto simp: one_peer_def)
  then show ?thesis using ac one r by (simp add: hsk_pool_pick_prover_def hsk_random_def one_peer_def del: best_loop.simps)
qed

lemma demo_asked:
  assumes one: "one_peer HSK_STATE_HANDSHAKE c pool" and r: "pl_rand pool = sconst 0" and s: "hsk_chain_synced c"
    and root: "hsk_chain_safe_root HSK_REGTEST c = Some (replicate 32 0)"
  obtains rc pool' peer req where "hsk_pool_resolve pool_conf [65] 7 pool = Some (rc, pool')" "pl_heap pool' 0 = Some peer"
    "tbl_get (pe_names peer) (replicate 32 66) = Some [req]" "nr_root req = replicate 32 0" "nr_name req = [65]" "nr_arg req = 7"
    "pl_list pool' = [0]" "pe_state peer = HSK_STATE_HANDSHAKE"
proof -
  obtain peer where peer: "pl_heap pool 0 = Some peer" "pe_state peer = HSK_STATE_HANDSHAKE" "pe_names peer = []"
    using one by (auto simp: one_peer_def)
  let ?h = "replicate 32 66"
  have p: "hsk_pool_pick_prover pool ?h = Some (Some 0, pool)" by (rule demo_prover [OF one r])
  let ?q = "\<lparr>nr_name = [65], nr_hash = ?h, nr_root = replicate 32 0, nr_arg = 7, nr_time = pl_clock pool\<rparr>"
  let ?a = "set_peer 0 (\<lambda>peer. peer\<lparr>pe_names := AList.update ?h [?q] (pe_names peer)\<rparr>) pool"
  have f: "\<exists>d. peer_frame (cf_net pool_conf) (Getproof_msg (replicate 32 0) ?h) = Some d" using frame_fits [of "Getproof_msg (replicate 32 0) ?h"] by auto
  then obtain b where b: "hsk_peer_send_getproof pool_conf 0 ?h (replicate 32 0) ?a = Some (HSK_SUCCESS, b)"
    "\<exists>x. pl_heap b 0 = Some x \<and> pe_names x = [(?h, [?q])] \<and> pe_state x = HSK_STATE_HANDSHAKE" "pl_list b = [0]"
    using one by (auto simp: hsk_peer_send_getproof_def hsk_peer_send_def hsk_peer_write_def hsk_peer_write_raw_def uv_same one_peer_def report_def set_peer_heap)
  have "hsk_pool_resolve pool_conf [65] 7 pool = Some (HSK_SUCCESS, b)"
    using s root p peer b(1) one demo_proof(3) by (simp add: hsk_pool_resolve_def pool_conf_def one_peer_def tbl_get_def)
  then show ?thesis using that b(2,3) by (auto simp: tbl_get_def)
qed

lemma demo_linked:
  obtains pool c where "pool_reach pool_conf {#} pool" "one_peer HSK_STATE_HANDSHAKE c pool" "hsk_chain_synced c"
    "hsk_chain_safe_root HSK_REGTEST c = Some (replicate 32 0)"
proof -
  obtain c where c: "hsk_chain_init first_octet_fns HSK_REGTEST 0 [] hsk_timedata_init = Some (HSK_SUCCESS, c)" "hsk_chain_synced c"
    by (rule init_synced)
  have "pool_reach pool_conf {#} (demo_open c)"
    unfolding demo_open_def by (rule pool_world [OF pool_start [OF demo_start_init [OF c(1)]]])
  then obtain p1 where p1: "pool_reach pool_conf {#} p1" "one_peer HSK_STATE_CONNECTING c p1"
    using pool_opened demo_opened by metis
  then obtain p2 where "pool_reach pool_conf {#} p2" "one_peer HSK_STATE_HANDSHAKE c p2" using pool_connected demo_connected by metis
  then show ?thesis using that c(2) init_root [OF c(1)] by blast
qed

lemma demo_waits:
  obtains pool peer req where "pool_reach pool_conf {#7#} pool" "pl_heap pool 0 = Some peer" "tbl_get (pe_names peer) (replicate 32 66) = Some [req]"
    "nr_root req = replicate 32 0" "nr_name req = [65]" "nr_arg req = 7" "pl_list pool = [0]" "pe_state peer = HSK_STATE_HANDSHAKE"
proof -
  obtain p2 c where p2: "pool_reach pool_conf {#} p2" "one_peer HSK_STATE_HANDSHAKE c p2" "hsk_chain_synced c"
    "hsk_chain_safe_root HSK_REGTEST c = Some (replicate 32 0)" by (rule demo_linked)
  let ?p3 = "p2\<lparr>pl_clock := pl_clock p2, pl_uv := pl_uv p2, pl_rand := sconst 0, pl_entropy := []\<rparr>"
  have p3: "pool_reach pool_conf {#} ?p3" "one_peer HSK_STATE_HANDSHAKE c ?p3" by (rule pool_world [OF p2(1)]) (use p2(2) in \<open>simp add: one_peer_def\<close>)
  obtain rc p4 peer req where p4: "hsk_pool_resolve pool_conf [65] 7 ?p3 = Some (rc, p4)" "pl_heap p4 0 = Some peer"
    "tbl_get (pe_names peer) (replicate 32 66) = Some [req]" "nr_root req = replicate 32 0" "nr_name req = [65]" "nr_arg req = 7"
    "pl_list p4 = [0]" "pe_state peer = HSK_STATE_HANDSHAKE"
    by (rule demo_asked [OF p3(2) _ p2(3,4)]) simp
  have "pool_reach pool_conf {#7#} p4" using pool_asked [OF p3(1) p4(1)] p3(2) p2(3) by (simp add: one_peer_def)
  then show ?thesis using that p4(2-8) by blast
qed

lemma demo_run:
  obtains pool where "pool_reach pool_conf {#7#} pool" "Answered [65] HSK_SUCCESS False [] 7 \<in> set (pl_out pool)"
proof -
  obtain p4 peer req where p4: "pool_reach pool_conf {#7#} p4" "pl_heap p4 0 = Some peer"
    "tbl_get (pe_names peer) (replicate 32 66) = Some [req]" "nr_root req = replicate 32 0" "nr_name req = [65]" "nr_arg req = 7"
    by (rule demo_waits)
  let ?m = "Proof_msg (replicate 32 0) (replicate 32 66) demo_proof"
  have g: "good_msg pool_conf p4 ?m" using demo_proof(1) by simp
  obtain p5 where p5: "hsk_peer_handle_msg pool_conf 0 p4 ?m = Some (HSK_SUCCESS, p5)" "Answered [65] HSK_SUCCESS False [] 7 \<in> set (pl_out p5)"
    using p4 demo_proof(2) by (auto simp: hsk_peer_handle_proof_def memcmp_eq_0 pool_conf_def report_def answer_of_def)
  have "pool_reach pool_conf {#7#} p5" using pool_message [OF p4(1) _ g p5(1)] p4(2) by simp
  then show ?thesis using that p5(2) by blast
qed

end
