(* ===== verification/Pool_Correct.thy ===== *)
theory Pool_Correct
  imports Pool_Demo
begin

text \<open>
  What the pool of \<^verbatim>\<open>pool.c\<close> promises, in every state it can get into.
\<close>

lemma reach_ok_truth:
  assumes "conf_ok cf" and "pool_reach cf g pool"
  shows "pool_ok cf pool" "waiting pool + answered pool = g" "truth_ok cf pool"
  using pool_reach_inv [OF assms(2,1)] by (simp_all add: pool_inv_def)

text \<open>
  C1. Resolution is sound from end to end. Every true answer the pool has ever given was read from a
  proof that was checked, for the hash of the name that was asked, against the name root of a header
  stored in the chain. So it is the answer of the name tree with that root, unless the hash collides
  on a string that occurs.
\<close>

theorem resolution_sound:
  assumes "conf_ok cf" and "pool_reach cf g pool" and "Answered name HSK_SUCCESS ex d arg \<in> set (pl_out pool)"
  shows "\<exists>k h pf. hsk_chain_get (pl_chain pool) k = Some h \<and>
    hsk_proof_verify (cf_hash cf) (hdr_name_root h) (sha3 (cf_hash cf) name) pf = Some (Inr (ex, d)) \<and>
    (\<forall>t. tree_wf 0 t \<and> utree_hash (cf_hash cf) t = hdr_name_root h \<and>
       no_collision (cf_hash cf) (tree_pres (cf_hash cf) t \<union> proof_pres (cf_hash cf) (sha3 (cf_hash cf) name) pf) \<longrightarrow>
       (case tree_lookup (sha3 (cf_hash cf) name) 0 t of None \<Rightarrow> \<not> ex | Some v \<Rightarrow> ex \<and> hsk_parse_namestate v (length v) = Some d))"
proof -
  have "Answered name HSK_SUCCESS ex d arg \<in> set (successes pool)" using assms(3) by (simp add: successes_def)
  then have "truthful cf (pl_chain pool) (Answered name HSK_SUCCESS ex d arg)" using reach_ok_truth(3) [OF assms(1,2)] unfolding truth_ok_def by blast
  then obtain k h pf where v: "stored (pl_chain pool) k h" "proof_ok pf"
    "hsk_proof_verify (cf_hash cf) (hdr_name_root h) (sha3 (cf_hash cf) name) pf = Some (Inr (ex, d))" by auto
  have H: "hash_len (cf_hash cf)" "length (sha3 (cf_hash cf) name) = 32"
    using assms(1) by (simp_all add: conf_ok_def no_zero_hash_def hash_fns_ok_def hash_len_def)
  show ?thesis
  proof (intro exI [of _ k] exI [of _ h] exI [of _ pf] conjI allI impI)
    fix t
    assume t: "tree_wf 0 t \<and> utree_hash (cf_hash cf) t = hdr_name_root h \<and>
       no_collision (cf_hash cf) (tree_pres (cf_hash cf) t \<union> proof_pres (cf_hash cf) (sha3 (cf_hash cf) name) pf)"
    then show "case tree_lookup (sha3 (cf_hash cf) name) 0 t of None \<Rightarrow> \<not> ex | Some v \<Rightarrow> ex \<and> hsk_parse_namestate v (length v) = Some d"
      using accepted_truth [OF H(1) _ H(2) v(2), of t] v(3) by auto
  qed (use v in \<open>simp_all add: hsk_chain_get_def\<close>)
qed

theorem resolution_sound_witness:
  "\<exists>pool k h pf. pool_reach pool_conf {#7#} pool \<and> Answered [65] HSK_SUCCESS False [] 7 \<in> set (pl_out pool) \<and>
     hsk_chain_get (pl_chain pool) k = Some h \<and> hsk_proof_verify first_octet_fns (hdr_name_root h) (replicate 32 66) pf = Some (Inr (False, []))"
proof -
  obtain pool where p: "pool_reach pool_conf {#7#} pool" "Answered [65] HSK_SUCCESS False [] 7 \<in> set (pl_out pool)" by (rule demo_run)
  have "cf_hash pool_conf = first_octet_fns" by (simp add: pool_conf_def)
  then show ?thesis using resolution_sound [OF pool_conf_ok p] p demo_proof(3) by auto
qed

text \<open>
  C4. No request is lost and none is answered twice. In every reachable state the requests that wait,
  at a peer or for one, and the answers given so far are together exactly the requests that were
  taken. Every listed peer is allocated and open and the table of addresses leads to it, the table
  has no other entry, and the recorded size is the length of the list.
\<close>

theorem requests_conserved:
  assumes "conf_ok cf" and "pool_reach cf g pool"
  shows "waiting pool + answered pool = g \<and> distinct (pl_list pool) \<and> pl_size pool = int (length (pl_list pool)) \<and>
    (\<forall>p. p \<in> set (pl_list pool) \<longleftrightarrow> (\<exists>k. tbl_get (pl_peers pool) k = Some p)) \<and>
    (\<forall>k p. tbl_get (pl_peers pool) k = Some p \<longrightarrow> (\<exists>peer. pl_heap pool p = Some peer \<and> open_state (pe_state peer) \<and> addr_id (pe_addr peer) = k))"
proof -
  have L: "links_ok pool" using pool_okD(1) [OF reach_ok_truth(1) [OF assms]] .
  have "\<exists>peer. pl_heap pool p = Some peer \<and> open_state (pe_state peer) \<and> addr_id (pe_addr peer) = k" if k: "tbl_get (pl_peers pool) k = Some p" for k p
  proof -
    have p: "p \<in> set (pl_list pool)" "map_option (addr_id \<circ> pe_addr) (pl_heap pool p) = Some k" using links_map [OF L k] by simp_all
    obtain peer where "pl_heap pool p = Some peer" "open_state (pe_state peer)" by (rule links_listed [OF L p(1)])
    then show ?thesis using p(2) by simp
  qed
  moreover have "p \<in> set (pl_list pool) \<longleftrightarrow> (\<exists>k. tbl_get (pl_peers pool) k = Some p)" for p
    using links_map [OF L] links_listed [OF L, of p] by metis
  ultimately show ?thesis using reach_ok_truth(2) [OF assms] L by (simp add: links_ok_def)
qed

theorem requests_conserved_witness:
  "\<exists>pool. pool_reach pool_conf {#7#} pool \<and> answered pool = {#7#} \<and> waiting pool = {#}"
proof -
  obtain pool where p: "pool_reach pool_conf {#7#} pool" "Answered [65] HSK_SUCCESS False [] 7 \<in> set (pl_out pool)" by (rule demo_run)
  obtain xs ys where "pl_out pool = xs @ Answered [65] HSK_SUCCESS False [] 7 # ys" using split_list [OF p(2)] by blast
  then have "7 \<in># answered pool" by (simp add: answered_def)
  moreover have "waiting pool + answered pool = {#7#}" using requests_conserved [OF pool_conf_ok p(1)] by simp
  ultimately have "answered pool = {#7#} \<and> waiting pool = {#}" by (metis union_is_single multi_member_split add_mset_eq_single empty_not_add_mset)
  then show ?thesis using p(1) by blast
qed



text \<open>
  C11. No request waits for a silent peer. If the newest request for some name at a connected peer is
  older than five seconds when the timer runs out, the peer is closed and all its requests are called back.
\<close>

theorem timer_answers:
  assumes "conf_ok cf" and "pool_reach cf g pool" and "p \<in> set (pl_list pool)" and "pl_heap pool p = Some peer"
    and "pe_state peer = HSK_STATE_HANDSHAKE" and "tbl_get (pe_names peer) key = Some (req # reqs)" and "pl_clock pool > nr_time req + 5"
  shows "\<exists>pool'. hsk_pool_timer cf pool = Some pool' \<and> p \<notin> set (pl_list pool') \<and> image_mset nr_arg (mset (peer_reqs peer)) \<subseteq># answered pool'"
proof -
  note ok = reach_ok_truth(1) [OF assms(1,2)]
  have "(key, req # reqs) \<in> set (pe_names peer)" using assms(6) by (simp add: tbl_get_def map_of_SomeD)
  then have "hsk_peer_is_overdue pool peer \<noteq> Some False" using assms(7) by (auto simp: hsk_peer_is_overdue_def split: if_splits) force
  then have late: "\<not> in_time pool p" using assms(4) by (simp add: in_time_def)
  obtain pool' where "hsk_pool_timer cf pool = Some pool'"
    "p \<in> set (pl_list pool') \<and> in_time pool p \<or> p \<notin> set (pl_list pool') \<and> peer_args pool p \<subseteq># answered pool'"
    by (rule timer_keeps [OF assms(1) ok]) (use assms(3-5) in blast)
  then show ?thesis using late assms(4) by (simp add: peer_args_def)
qed

theorem timer_answers_witness:
  "\<exists>pool pool'. pool_reach pool_conf {#7#} pool \<and> hsk_pool_timer pool_conf pool = Some pool' \<and> 0 \<notin> set (pl_list pool') \<and> 7 \<in># answered pool'"
proof -
  obtain p peer req where p: "pool_reach pool_conf {#7#} p" "pl_heap p 0 = Some peer" "tbl_get (pe_names peer) (replicate 32 66) = Some [req]"
    "nr_arg req = 7" "pl_list p = [0]" "pe_state peer = HSK_STATE_HANDSHAKE" by (rule demo_waits)
  let ?p = "p\<lparr>pl_clock := nr_time req + 6, pl_uv := sconst True, pl_rand := sconst 0, pl_entropy := []\<rparr>"
  have r: "pool_reach pool_conf {#7#} ?p" by (rule pool_world [OF p(1)])
  have "(replicate 32 66, [req]) \<in> set (pe_names peer)" using p(3) by (simp add: tbl_get_def map_of_SomeD)
  then have seven: "7 \<in># image_mset nr_arg (mset (peer_reqs peer))" using p(4) by (force simp: peer_reqs_def)
  have l: "0 \<in> set (pl_list ?p)" "pl_heap ?p 0 = Some peer" "pl_clock ?p > nr_time req + 5" using p(2,5) by simp_all
  obtain pool' where t: "hsk_pool_timer pool_conf ?p = Some pool'" "0 \<notin> set (pl_list pool')"
    "image_mset nr_arg (mset (peer_reqs peer)) \<subseteq># answered pool'"
    using timer_answers [OF pool_conf_ok r l(1,2) p(6,3) l(3)] by blast
  have "pool_reach pool_conf {#7#} ?p \<and> hsk_pool_timer pool_conf ?p = Some pool' \<and> 0 \<notin> set (pl_list pool') \<and> 7 \<in># answered pool'"
    by (intro conjI r t mset_subset_eqD [OF t(3) seven])
  then show ?thesis by (intro exI)
qed

text \<open>
  C16. When the write of the question fails, \<^verbatim>\<open>hsk_pool_resolve\<close> reports an error although the request
  has already been called back: the failed write closes the peer, and closing a peer calls back its
  requests, the new one among them. The caller in \<^verbatim>\<open>ns.c\<close> frees its request in both places.
\<close>

theorem resolve_answers_twice:
  assumes "conf_ok cf" and "pool_reach cf g pool" and "hsk_chain_synced (pl_chain pool)"
    and "hsk_pool_pick_prover pool (sha3 (cf_hash cf) name) = Some (Some p, pool1)"
    and "pl_heap pool p = Some peer" and "pe_state peer = HSK_STATE_HANDSHAKE" and "pe_brontide peer = None"
    and "tbl_get (pe_names peer) (sha3 (cf_hash cf) name) = None" and "\<not> shd (pl_uv pool)"
  shows "\<exists>pool' es. hsk_pool_resolve cf name arg pool = Some (HSK_EFAILURE, pool') \<and>
    pl_out pool' = pl_out pool @ es \<and> Answered name HSK_ETIMEOUT False [] arg \<in> set es"
proof -
  let ?hash = "sha3 (cf_hash cf) name"
  note ok = reach_ok_truth(1) [OF assms(1,2)]
  obtain h :: hsk_header where root: "hsk_chain_safe_root (cf_net cf) (pl_chain pool) = Some (hdr_name_root h)" by (rule safe_root_stored [OF assms(1) ok]) blast
  obtain r rs where "hsk_pool_pick_prover pool ?hash = Some (r, pool\<lparr>pl_rand := rs\<rparr>)" "\<And>p. r = Some p \<Longrightarrow> p \<in> set (pl_list pool)"
    by (rule pick_prover_returns [OF pool_okD(1) [OF ok], of ?hash]) blast
  then have pick: "pool1 = pool\<lparr>pl_rand := rs\<rparr>" "p \<in> set (pl_list pool)" using assms(4) by auto
  let ?a = "pool\<lparr>pl_rand := rs\<rparr>"
  define req where "req = \<lparr>nr_name = name, nr_hash = ?hash, nr_root = take 32 (hdr_name_root h), nr_arg = arg, nr_time = pl_clock pool\<rparr>"
  have pa: "p \<in> set (pl_list ?a)" "pl_heap ?a p = Some peer" using pick(2) assms(5) by simp_all
  have at: "reqs_at peer ?hash = []" using assms(8) by (simp add: reqs_at_def)
  let ?b = "with_req p ?hash req (reqs_at peer ?hash) ?a"
  have b: "pool_ok cf ?b" by (rule with_req_ok(1) [OF rand_same(1) [OF ok] pa])
  let ?u = "snd (uv_call ?b)"
  let ?x = "peer\<lparr>pe_names := AList.update ?hash [req] (pe_names peer)\<rparr>"
  have u: "pool_ok cf ?u" using stepsD(1) [OF uv_call_steps [OF b]] .
  have hb: "pl_heap ?b p = Some ?x" using assms(5) at by (simp add: with_req_def set_peer_heap)
  have up: "p \<in> set (pl_list ?u)" "pl_heap ?u p = Some ?x" using hb pick(2) by (simp_all add: with_req_def)
  have uv: "fst (uv_call ?b) = False" using assms(9) by (simp add: uv_call_def with_req_def)
  have w: "hsk_peer_write_raw p d ?b = Some (HSK_EFAILURE, closed_pool p ?x ?u)" for d
    using hb uv assms(6) close_listed [OF u up] by (simp add: hsk_peer_write_raw_def split_beta hsk_peer_destroy_def)
  obtain d where d: "peer_frame (cf_net cf) (Getproof_msg (take 32 (hdr_name_root h)) (take 32 ?hash)) = Some d"
    by (rule frame_fits [of "Getproof_msg (take 32 (hdr_name_root h)) (take 32 ?hash)" "cf_net cf"]) simp_all
  have "hsk_peer_send_getproof cf p ?hash (hdr_name_root h) ?b = Some (HSK_EFAILURE, closed_pool p ?x ?u)"
    using w hb d assms(6,7) by (simp add: hsk_peer_send_getproof_def hsk_peer_send_def hsk_peer_write_def)
  moreover have "hsk_pool_resolve cf name arg pool = hsk_peer_send_getproof cf p ?hash (hdr_name_root h) ?b"
    using assms(3,4,5,8) root pick unfolding at with_req_def by (simp add: hsk_pool_resolve_def req_def Let_def)
  moreover have "pl_out (closed_pool p ?x ?u) = pl_out pool @ map timeout_of (peer_reqs ?x)"
    by (simp add: closed_pool_def uv_call_def with_req_def)
  moreover have "req \<in> set (peer_reqs ?x)"
  proof -
    have "tbl_get (AList.update ?hash [req] (pe_names peer)) ?hash = Some [req]" by (simp add: tbl_get_def update_conv)
    then have "(?hash, [req]) \<in> set (AList.update ?hash [req] (pe_names peer))" by (simp add: tbl_get_def map_of_SomeD)
    then show ?thesis by (force simp: peer_reqs_def)
  qed
  moreover have "timeout_of req = Answered name HSK_ETIMEOUT False [] arg" by (simp add: timeout_of_def req_def)
  ultimately show ?thesis by (metis image_eqI set_map)
qed

theorem resolve_answers_twice_witness:
  "\<exists>pool pool'. pool_reach pool_conf {#} pool \<and> hsk_pool_resolve pool_conf [65] 7 pool = Some (HSK_EFAILURE, pool') \<and>
     Answered [65] HSK_ETIMEOUT False [] 7 \<in> set (pl_out pool')"
proof -
  obtain p c where p: "pool_reach pool_conf {#} p" "one_peer HSK_STATE_HANDSHAKE c p" "hsk_chain_synced c" by (rule demo_linked)
  let ?p = "p\<lparr>pl_clock := 2000, pl_uv := sconst False, pl_rand := sconst 0, pl_entropy := []\<rparr>"
  have r: "pool_reach pool_conf {#} ?p" by (rule pool_world [OF p(1)])
  have ac: "active_peers ?p = [0]" using p(2) by (auto simp: active_peers_def one_peer_def)
  have "best_loop ?p [0] 0 None = Some (0, None)" using p(2) by (auto simp: one_peer_def)
  then have pick: "hsk_pool_pick_prover ?p h = Some (Some 0, ?p)" for h
    using ac p(2) by (simp add: hsk_pool_pick_prover_def hsk_random_def one_peer_def del: best_loop.simps)
  obtain peer where "pl_heap ?p 0 = Some peer" "pe_state peer = HSK_STATE_HANDSHAKE" "pe_brontide peer = None" "pe_names peer = []"
    using p(2) by (auto simp: one_peer_def)
  then show ?thesis
    using resolve_answers_twice [OF pool_conf_ok r _ pick, where name = "[65]" and peer = peer and arg = 7] r p(2,3) by (auto simp: one_peer_def tbl_get_def)
qed

end
