(* ===== verification/Spec2Isabelle.thy ===== *)
theory Spec2Isabelle
  imports Hmap_Resize Store_Ok Addr Timedata Proof_Wire Brontide_Hs Addrman Pool_Correct
begin

text \<open>
  Verification of the Handshake SPV resolver \<^verbatim>\<open>hnsd\<close>, the C program under
  \<^verbatim>\<open>src/reference/hnsd-reference/src\<close>.

  The program. The daemon keeps a chain of block headers (\<^verbatim>\<open>chain.c\<close>) that its peers
  (\<^verbatim>\<open>pool.c\<close>) send, and answers DNS questions (\<^verbatim>\<open>ns.c\<close>, \<^verbatim>\<open>rs.c\<close>) with records
  (\<^verbatim>\<open>resource.c\<close>) that come with a proof of membership (\<^verbatim>\<open>proof.c\<close>) in the name tree whose
  root is in a header. The rest serves these: octet readers and writers (\<^verbatim>\<open>bio.h\<close>), big
  numbers (\<^verbatim>\<open>bn.c\<close>), headers and their proof of work (\<^verbatim>\<open>header.c\<close>), a hash table
  (\<^verbatim>\<open>map.c\<close>), the clock (\<^verbatim>\<open>timedata.c\<close>), network addresses (\<^verbatim>\<open>addr.c\<close>), the checkpoint file
  (\<^verbatim>\<open>store.c\<close>).

  Theories and sources, in the order they build on each other:

    \<^item> \<open>Prelude\<close>: octets, machine words, partial results, locales of codecs, lemmas on lists and words.
    \<^item> \<open>Bio\<close>: \<^verbatim>\<open>bio.h\<close>. A reader takes the octets left and returns a value and the rest, or \<open>None\<close>
      where the C function returns false; a writer returns the octets it puts in the buffer and the
      size it announces, which the code computes separately and which differ in one place.
    \<^item> \<open>Bn\<close>: \<^verbatim>\<open>bn.c\<close>, sixteen 32-bit limbs; the operations against arithmetic modulo \<open>2 ^ 512\<close>.
    \<^item> \<open>Header\<close>: \<^verbatim>\<open>header.c\<close>, compact targets, work, wire format, the hash that proof of work is about.
    \<^item> \<open>Dictionary\<close>: the locale of a finite map with lookup, update, deletion and size. \<open>Hmap\<close>,
      \<open>Hmap_Table\<close>, \<open>Hmap_Resize\<close>: \<^verbatim>\<open>map.c\<close>, its flag words, probing and resizing in place, and
      that it implements the locale; \<open>Table\<close>: the finite map the other components use for it.
    \<^item> \<open>Timedata\<close>: \<^verbatim>\<open>timedata.c\<close>. \<open>Addr\<close>: \<^verbatim>\<open>addr.c\<close>. \<open>Network\<close>: the four networks of \<^verbatim>\<open>constants.h\<close> and
      \<^verbatim>\<open>genesis.h\<close> as records.
    \<^item> \<open>Chain_State\<close> (state and queries) and \<open>Chain\<close> (operations): \<^verbatim>\<open>chain.c\<close> and \<^verbatim>\<open>store.c\<close>, in the
      order of the code. \<open>Chain_Tree\<close>: the stored headers as a tree rooted in the genesis block,
      walks towards it, and that the fork search ends. \<open>Retarget\<close>: bounds and growth of the
      difficulty computation. \<open>Chain_Ok\<close>: the invariant, and that reorganising keeps it.
      \<open>Chain_Steps\<close>, \<open>Chain_Add\<close>: saving, inserting, resolving orphans, adding. \<open>Chain_Reach\<close>:
      reachable chains, the invariant by rule induction and the properties of the chain.
      \<open>Chain_Use\<close>: what resolution and peers read from it. \<open>Chain_Demo\<close>: a chain of any length,
      for the witnesses. \<open>Store_Ok\<close>: the checkpoint file.
    \<^item> \<open>Proof_Radix\<close>: \<^verbatim>\<open>proof-radix.c\<close>, reading and checking proofs of the name tree. \<open>Proof_Tree\<close>: the
      tree itself, its hash and lookup. \<open>Proof_Ok\<close>, \<open>Proof_Wire\<close>: that accepted proofs tell the truth
      about the tree and that every truth has a proof.
    \<^item> \<open>Msg\<close>, \<open>Msg_Wire\<close>: \<^verbatim>\<open>msg.c\<close>, the messages of peers, their encoding and its inverse. \<open>Peer_Stream\<close>:
      the receive buffer of \<^verbatim>\<open>pool.c\<close>, which cuts a stream into messages.
    \<^item> \<open>Blocks\<close>: a locale for functions that process a stream block by block through a partly filled
      buffer. \<open>Sha256\<close>, \<open>Hash\<close>: \<^verbatim>\<open>sha256.c\<close> and the parts of \<^verbatim>\<open>hash.c\<close> that rest on it. \<open>Chacha20\<close>,
      \<open>Poly1305\<close>, \<open>Poly1305_Ok\<close>, \<open>Aead\<close>: \<^verbatim>\<open>chacha20.c\<close>, \<^verbatim>\<open>poly1305.c\<close> with its 64-bit limbs, \<^verbatim>\<open>aead.c\<close>.
    \<^item> \<open>Ec\<close>: \<^verbatim>\<open>ec.c\<close> over a record \<open>secp\<close> of the functions of libsecp256k1. \<open>Brontide\<close>: \<^verbatim>\<open>brontide.c\<close>, cipher
      states, the three acts of the handshake, writing and reading. \<open>Brontide_Cs\<close>: what a cipher state
      computes. \<open>Brontide_Ok\<close>: the transport. \<open>Brontide_Hs\<close>: the handshake.
    \<^item> \<open>Addrman\<close>: \<^verbatim>\<open>addrmgr.c\<close>, the known addresses, bans and the weighted choice of a peer.

  Conventions. A C function that updates its argument returns the new value. \<open>None\<close> is a failed
  assertion, a null pointer that is followed or a loop that does not end, unless the C function
  returns a boolean and nothing else, when \<open>None\<close> is false; where both occur the boolean is kept. Loops that the types do
  not bound are \<open>partial_function (option)\<close>, with a theorem that they return. Integers have their
  width; a signed 64-bit value is an integer read with \<open>sint\<close> where the code casts. Memory is a
  list of outcomes of the allocations to come, the empty list for success; file operations are
  treated alike; for receive buffers and messages memory is there. The system clock, random numbers and the hash functions BLAKE2b and SHA-3 are
  arguments; where a theorem needs it, an assumption says the hash of a block is not zero.

  What is shown. Reachable chains: adding any header returns, the tip has the most work, each
  stored header obeys the rules of its parent, the table of heights is the branch of the tip, the
  verdict follows the rules in order, a safe root is always found, the locator stays within the
  message. A checkpoint survives a restart. The difficulty rule is the stated formula. Proof of work
  is the comparison of numbers it stands for; headers, addresses and integers survive encoding. The
  hash table implements a finite map through every resize. A name proof that is accepted gives the
  answer of the tree whose root it was checked against, and every answer has such a proof. Messages
  survive encoding, and the receive loop hands over exactly the messages sent, however the stream is
  cut. SHA-256, Poly1305 and the authenticated cipher compute what their standards define, whatever
  the pieces. The handshake of the transport completes and links both ends; from then on exactly the
  messages sent arrive, and octets that were not sealed by the other end are refused. The address
  manager keeps its bounds and choosing a peer ends. Where the code does not do what it
  means to, the theorem states what it does: the loop of \<^verbatim>\<open>slice_ascii\<close>, the insertion of a time
  sample, the loopback range, the empty count, the third act of the handshake.

  Bounds. The theorems assume a bound below \<open>2 ^ 32\<close> on heights (they are 32-bit in
  the code, and \<open>low_heights\<close> says the next ones do not wrap) and the sizes of the code's own
  arrays (11 times, 64 locator hashes, 200 time samples, 150 headers of a checkpoint, messages of 8
  million octets). The search for an address ends within 64 draws.

  Libraries. About libsecp256k1 the theorems on the handshake assume (\<open>curve_keys\<close>, \<open>curve_ecdh\<close>,
  \<open>curve_hash\<close>) that valid secrets have public keys that parse again, that both ends of an exchange
  agree and that the uniform encoding of a key decodes to it; \<open>small_curve\<close> is an instance. About
  floating-point numbers \<open>rounding\<close> assumes that a result loses at most a thousandth. About the hash
  functions \<open>no_collision\<close> assumes that the strings that occur do not collide.

  Not modelled. Sockets, timers and threads (libuv), recursion (libunbound) and curve arithmetic
  (libsecp256k1) are libraries the sources only call. Log output, the progress figure in floating
  point and the release of memory have no effect on the results. The generated tables of top-level
  names, seeds and checkpoints are data. DNS messages, resource records, the answer cache and the
  name servers are not modelled.
\<close>

end
